(* ===== verification/Prelude.thy ===== *)
theory Prelude
  imports Main "HOL-Library.Sublist" "HOL-Library.AList"
begin

text \<open>
  What the components share: the JavaScript values the sources pass around (a property that
  may be absent, undefined or null), the string operations of the standard library that the
  sources call (split, join, startsWith, slice, decimal numerals), and two generic
  interfaces, stated as locales: \<open>machine\<close>, a step function with an invariant, and
  \<open>codec\<close>, a printer and a parser that undo each other.

  Strings are lists of 8-bit characters. On ASCII text every operation below agrees with
  JavaScript's; text beyond ASCII is read as its UTF-8 bytes.
\<close>

section \<open>Collections of facts\<close>

named_theorems js_simps \<open>rewriting of the JavaScript value operations\<close>
named_theorems str_simps \<open>splitting, joining and scanning of strings\<close>

section \<open>JavaScript values\<close>

text \<open>
  A property of an object can be missing, be present with value \<open>undefined\<close> or \<open>null\<close>, or
  hold a value. Reading a missing property gives \<open>undefined\<close>; object spread
  distinguishes the two.
\<close>

datatype 'a jsval = Absent | Undefined | Null | Val 'a

text \<open>The value, when there is one (the \<open>?.\<close> reading).\<close>

fun js_get :: "'a jsval \<Rightarrow> 'a option" where
  "js_get (Val x) = Some x"
| "js_get _ = None"

text \<open>A string counts as true when it is present and not empty.\<close>

fun truthy_str :: "string jsval \<Rightarrow> string option" where
  "truthy_str (Val s) = (if s = [] then None else Some s)"
| "truthy_str _ = None"

text \<open>\<open>s || null\<close> on strings.\<close>

definition or_null :: "string jsval \<Rightarrow> string jsval" where
  "or_null v = (case truthy_str v of None \<Rightarrow> Null | Some s \<Rightarrow> Val s)"

text \<open>\<open>s || undefined\<close> on strings.\<close>

definition or_undefined :: "string jsval \<Rightarrow> string jsval" where
  "or_undefined v = (case truthy_str v of None \<Rightarrow> Undefined | Some s \<Rightarrow> Val s)"

text \<open>One property of \<open>{...base, ...over}\<close>.\<close>

fun spread :: "'a jsval \<Rightarrow> 'a jsval \<Rightarrow> 'a jsval" where
  "spread base Absent = base"
| "spread base v = v"

definition of_option :: "'a option \<Rightarrow> 'a jsval" where
  "of_option v = (case v of None \<Rightarrow> Null | Some x \<Rightarrow> Val x)"

lemma of_option_simps [js_simps, simp]:
  "of_option None = Null" "of_option (Some x) = Val x"
  by (simp_all add: of_option_def)

lemma or_null_simps [js_simps, simp]:
  "or_null Absent = Null" "or_null Undefined = Null" "or_null Null = Null"
  "or_null (Val s) = (if s = [] then Null else Val s)"
  by (simp_all add: or_null_def)

lemma or_undefined_simps [js_simps, simp]:
  "or_undefined Absent = Undefined" "or_undefined Undefined = Undefined"
  "or_undefined Null = Undefined" "or_undefined (Val s) = (if s = [] then Undefined else Val s)"
  by (simp_all add: or_undefined_def)

lemma truthy_str_eq_Some [js_simps]: "truthy_str v = Some s \<longleftrightarrow> v = Val s \<and> s \<noteq> []"
  by (cases v) auto

lemma truthy_str_or_null [js_simps, simp]: "truthy_str (or_null v) = truthy_str v"
  by (cases v) auto

section \<open>Lists as arrays\<close>

text \<open>Reading an index: \<open>None\<close> is \<open>undefined\<close>.\<close>

fun nth_opt :: "'a list \<Rightarrow> nat \<Rightarrow> 'a option" where
  "nth_opt [] _ = None"
| "nth_opt (x # xs) 0 = Some x"
| "nth_opt (x # xs) (Suc n) = nth_opt xs n"

lemma nth_opt_nth: "nth_opt xs n = (if n < length xs then Some (xs ! n) else None)"
  by (induction xs n rule: nth_opt.induct) auto

lemma nth_opt_Some_iff: "nth_opt xs n = Some x \<longleftrightarrow> n < length xs \<and> xs ! n = x"
  by (auto simp: nth_opt_nth)

text \<open>Mapping and leaving out what is undefined.\<close>

lemma find_SomeD': "find P xs = Some x \<Longrightarrow> P x \<and> x \<in> set xs"
  by (induction xs) (auto split: if_splits)

lemma find_append: "find P (xs @ ys) = (case find P xs of None \<Rightarrow> find P ys | Some x \<Rightarrow> Some x)"
  by (induction xs) auto

lemma find_filter: "(\<And>x. P x \<Longrightarrow> Q x) \<Longrightarrow> find P xs = find P (filter Q xs)"
  by (induction xs) auto

lemma find_map: "find P (map f xs) = map_option f (find (P \<circ> f) xs)"
  by (induction xs) auto

lemma map_filter_append: "List.map_filter f (xs @ ys) = List.map_filter f xs @ List.map_filter f ys"
  by (simp add: List.map_filter_def)

lemma map_filter_cong: "(\<And>x. x \<in> set xs \<Longrightarrow> f x = g x) \<Longrightarrow> List.map_filter f xs = List.map_filter g xs"
  by (induction xs) (auto simp: map_filter_simps split: option.splits)

lemma set_map_filter: "set (List.map_filter f xs) = {y. \<exists>x \<in> set xs. f x = Some y}"
  by (induction xs) (auto simp: map_filter_simps split: option.splits)

text \<open>\<open>arr.slice(0, n)\<close> and \<open>s.slice(a, b)\<close> for \<open>0 \<le> a\<close>.\<close>

definition slice :: "nat \<Rightarrow> nat \<Rightarrow> 'a list \<Rightarrow> 'a list" where
  "slice a b xs = drop a (take b xs)"

lemma length_slice [simp]: "length (slice a b xs) = min b (length xs) - a"
  by (simp add: slice_def min.commute)

lemma slice_append_slice: "a \<le> b \<Longrightarrow> b \<le> c \<Longrightarrow> slice a b xs @ slice b c xs = slice a c xs"
proof -
  assume ab: "a \<le> b" and bc: "b \<le> c"
  have "take b xs = take b (take c xs)" using bc by (simp add: min_absorb1)
  then have "take c xs = take b xs @ drop b (take c xs)"
    by (metis append_take_drop_id)
  then have *: "drop a (take c xs) = drop a (take b xs) @ drop (a - length (take b xs)) (drop b (take c xs))"
    by (metis drop_append)
  show ?thesis
  proof (cases "length xs \<le> b")
    case True
    then show ?thesis using bc by (simp add: slice_def)
  next
    case False
    then show ?thesis using * ab by (simp add: slice_def)
  qed
qed

section \<open>Objects as association lists\<close>

text \<open>
  An object used as a dictionary is the list of its own keys in insertion order with their
  values. Setting a key that is there keeps its place: \<open>obj_set\<close> is \<open>o[k] = v\<close>, and
  \<open>obj_spread a b\<close> is \<open>{...a, ...b}\<close>.
\<close>

abbreviation obj_set :: "'k \<Rightarrow> 'v \<Rightarrow> ('k \<times> 'v) list \<Rightarrow> ('k \<times> 'v) list" where
  "obj_set \<equiv> AList.update"

definition obj_spread :: "('k \<times> 'v) list \<Rightarrow> ('k \<times> 'v) list \<Rightarrow> ('k \<times> 'v) list" where
  "obj_spread a b = foldl (\<lambda>ob (k, v). obj_set k v ob) a b"

lemma obj_spread_simps [simp]:
  "obj_spread a [] = a" "obj_spread a ((k, v) # b) = obj_spread (obj_set k v a) b"
  "obj_spread a (b @ c) = obj_spread (obj_spread a b) c"
  by (simp_all add: obj_spread_def)

lemma map_of_obj_spread: "map_of (obj_spread a b) = map_of a ++ map_of (rev b)"
  by (induction b arbitrary: a) (auto simp: update_conv')

lemma map_of_obj_spread_distinct:
  "distinct (map fst b) \<Longrightarrow> map_of (obj_spread a b) = map_of a ++ map_of b"
proof -
  assume d: "distinct (map fst b)"
  then have "distinct (map fst (rev b))" by (simp add: rev_map [symmetric])
  with d have "map_of (rev b) = map_of b" by (simp add: map_of_inject_set)
  then show ?thesis by (simp add: map_of_obj_spread)
qed

text \<open>New keys go to the end.\<close>

lemma obj_set_new: "k \<notin> fst ` set a \<Longrightarrow> obj_set k v a = a @ [(k, v)]"
  by (induction a) auto

lemma obj_spread_new:
  "distinct (map fst b) \<Longrightarrow> fst ` set a \<inter> fst ` set b = {} \<Longrightarrow> obj_spread a b = a @ b"
proof (induction b arbitrary: a)
  case (Cons p b)
  obtain k v where p: "p = (k, v)" by (cases p)
  from Cons.prems p have "obj_spread (a @ [(k, v)]) b = (a @ [(k, v)]) @ b"
    by (intro Cons.IH) auto
  with Cons.prems p show ?case by (simp add: obj_set_new)
qed simp

lemma map_of_filter_key: "map_of (filter (\<lambda>p. P (fst p)) xs) k = (if P k then map_of xs k else None)"
  by (induction xs) auto

lemma distinct_filter_fst: "distinct (map fst xs) \<Longrightarrow> distinct (map fst (filter P xs))"
  by (induction xs) auto

section \<open>Sets in insertion order\<close>

text \<open>A \<open>Set\<close> is the list of its elements in insertion order.\<close>

definition set_add :: "'a \<Rightarrow> 'a list \<Rightarrow> 'a list" where
  "set_add x xs = (if x \<in> set xs then xs else xs @ [x])"

definition set_add_all :: "'a list \<Rightarrow> 'a list \<Rightarrow> 'a list" where
  "set_add_all xs ys = foldl (\<lambda>s x. set_add x s) xs ys"

lemma set_add_simps [simp]:
  "set (set_add x xs) = insert x (set xs)" "distinct (set_add x xs) \<longleftrightarrow> distinct xs"
  by (auto simp: set_add_def)

lemma set_add_all_simps [simp]:
  "set_add_all xs [] = xs" "set_add_all xs (y # ys) = set_add_all (set_add y xs) ys"
  "set_add_all xs (ys @ zs) = set_add_all (set_add_all xs ys) zs"
  by (simp_all add: set_add_all_def)

lemma set_set_add_all [simp]: "set (set_add_all xs ys) = set xs \<union> set ys"
  by (induction ys arbitrary: xs) auto

lemma distinct_set_add_all [simp]: "distinct (set_add_all xs ys) \<longleftrightarrow> distinct xs"
  by (induction ys arbitrary: xs) auto

section \<open>Finite acyclic relations\<close>

text \<open>
  Walks over finite data end when the data has no cycle: the number of elements that can be reached
  decreases along each edge.
\<close>

definition reach_count :: "('a \<times> 'a) set \<Rightarrow> 'a \<Rightarrow> nat" where
  "reach_count r x = card (r\<^sup>+ `` {x})"

lemma finite_reach: "finite r \<Longrightarrow> finite (r\<^sup>+ `` A)"
  by (rule finite_Image) simp

lemma reach_count_less: "finite r \<Longrightarrow> acyclic r \<Longrightarrow> (x, y) \<in> r \<Longrightarrow> reach_count r y < reach_count r x"
  unfolding reach_count_def
proof (rule psubset_card_mono)
  assume r: "finite r" "acyclic r" "(x, y) \<in> r"
  show "finite (r\<^sup>+ `` {x})" using r(1) by (rule finite_reach)
  have "y \<in> r\<^sup>+ `` {x}" using r(3) by auto
  moreover have "y \<notin> r\<^sup>+ `` {y}" using r(2) by (auto simp: acyclic_def)
  moreover have "r\<^sup>+ `` {y} \<subseteq> r\<^sup>+ `` {x}" using r(3) by (auto intro: trancl_into_trancl2)
  ultimately show "r\<^sup>+ `` {y} \<subset> r\<^sup>+ `` {x}" by auto
qed

section \<open>Strings\<close>

definition starts_with :: "string \<Rightarrow> string \<Rightarrow> bool" where
  "starts_with s p \<longleftrightarrow> take (length p) s = p"

lemma starts_with_append [str_simps, simp]: "starts_with (p @ s) p"
  by (simp add: starts_with_def)

lemma starts_with_prefix: "starts_with s p \<longleftrightarrow> prefix p s"
  by (metis append_take_drop_id prefixI prefixE starts_with_append starts_with_def)

text \<open>White space, and \<open>s.trim()\<close>.\<close>

definition is_space :: "char \<Rightarrow> bool" where
  "is_space c \<longleftrightarrow> c \<in> {CHR '' '', CHR 0x09, CHR 0x0A, CHR 0x0B, CHR 0x0C, CHR 0x0D}"

definition trim :: "string \<Rightarrow> string" where
  "trim s = rev (dropWhile is_space (rev (dropWhile is_space s)))"

lemma trim_id: "(\<And>c. c \<in> set s \<Longrightarrow> \<not> is_space c) \<Longrightarrow> trim s = s"
proof -
  assume a: "\<And>c. c \<in> set s \<Longrightarrow> \<not> is_space c"
  have id: "dropWhile is_space t = t" if "\<And>c. c \<in> set t \<Longrightarrow> \<not> is_space c" for t
    using that by (cases t) auto
  have "dropWhile is_space (rev s) = rev s" using a by (intro id) auto
  then show ?thesis using id [of s] a by (simp add: trim_def)
qed

subsection \<open>Split and join\<close>

text \<open>\<open>s.split(c)\<close> for a one-character separator, or a class of separators.\<close>

fun split_by :: "('a \<Rightarrow> bool) \<Rightarrow> 'a list \<Rightarrow> 'a list list" where
  "split_by p [] = [[]]"
| "split_by p (x # xs) =
     (if p x then [] # split_by p xs
      else (case split_by p xs of [] \<Rightarrow> [[x]] | y # ys \<Rightarrow> (x # y) # ys))"

abbreviation split_char :: "char \<Rightarrow> string \<Rightarrow> string list" where
  "split_char c \<equiv> split_by (\<lambda>x. x = c)"

lemma split_by_ne [str_simps, simp]: "split_by p xs \<noteq> []"
  by (cases xs) (auto split: list.split)

lemma split_by_none [str_simps]: "(\<And>x. x \<in> set xs \<Longrightarrow> \<not> p x) \<Longrightarrow> split_by p xs = [xs]"
  by (induction xs) auto

lemma split_by_append [str_simps]:
  "(\<And>x. x \<in> set a \<Longrightarrow> \<not> p x) \<Longrightarrow> p c \<Longrightarrow> split_by p (a @ c # b) = a # split_by p b"
  by (induction a) auto

lemma split_by_segments: "seg \<in> set (split_by p xs) \<Longrightarrow> x \<in> set seg \<Longrightarrow> \<not> p x \<and> x \<in> set xs"
proof (induction xs arbitrary: seg)
  case Nil
  then show ?case by simp
next
  case (Cons y xs)
  obtain z zs where zs: "split_by p xs = z # zs" by (meson neq_Nil_conv split_by_ne)
  show ?case
  proof (cases "p y")
    case True
    with Cons show ?thesis by auto
  next
    case False
    with Cons.prems(1) zs consider "seg = y # z" | "seg \<in> set zs" by auto
    then show ?thesis using Cons.IH [of z] Cons.IH [of seg] Cons.prems(2) zs False
      by cases auto
  qed
qed

text \<open>\<open>arr.join(sep)\<close>.\<close>

fun join :: "'a list \<Rightarrow> 'a list list \<Rightarrow> 'a list" where
  "join sep [] = []"
| "join sep [x] = x"
| "join sep (x # y # ys) = x @ sep @ join sep (y # ys)"

lemma join_ne_Cons: "xs \<noteq> [] \<Longrightarrow> join sep (x # xs) = x @ sep @ join sep xs"
  by (cases xs) auto

lemma split_by_join [str_simps]:
  assumes "xs \<noteq> []" and "\<And>seg x. seg \<in> set xs \<Longrightarrow> x \<in> set seg \<Longrightarrow> x \<noteq> c"
  shows "split_by (\<lambda>x. x = c) (join [c] xs) = xs"
  using assms
proof (induction xs)
  case Nil
  then show ?case by simp
next
  case (Cons x xs)
  show ?case
  proof (cases "xs = []")
    case True
    have "split_by (\<lambda>y. y = c) x = [x]"
      using Cons.prems(2) by (intro split_by_none) auto
    with True show ?thesis by simp
  next
    case False
    have "split_by (\<lambda>y. y = c) (x @ c # join [c] xs) = x # split_by (\<lambda>y. y = c) (join [c] xs)"
      using Cons.prems(2) by (intro split_by_append) auto
    moreover have "split_by (\<lambda>y. y = c) (join [c] xs) = xs"
      using Cons False by auto
    ultimately show ?thesis using False by (simp add: join_ne_Cons)
  qed
qed

lemma join_split_by [str_simps, simp]: "join [c] (split_by (\<lambda>x. x = c) xs) = xs"
proof (induction xs)
  case Nil
  then show ?case by simp
next
  case (Cons x xs)
  have ne: "split_by (\<lambda>x. x = c) xs \<noteq> []" by simp
  then obtain y ys where ys: "split_by (\<lambda>x. x = c) xs = y # ys" by (meson neq_Nil_conv)
  show ?case
  proof (cases "x = c")
    case True
    with Cons ne show ?thesis by (simp add: join_ne_Cons)
  next
    case False
    with Cons ys show ?thesis by (cases ys) auto
  qed
qed

text \<open>\<open>s.split(sep)\<close> for a separator of several characters.\<close>

function split_on :: "string \<Rightarrow> string \<Rightarrow> string list" where
  "split_on sep [] = [[]]"
| "split_on sep (x # xs) =
     (if sep \<noteq> [] \<and> starts_with (x # xs) sep then [] # split_on sep (drop (length sep - 1) xs)
      else (case split_on sep xs of [] \<Rightarrow> [[x]] | y # ys \<Rightarrow> (x # y) # ys))"
  by pat_completeness auto
termination
  by (relation "measure (\<lambda>(sep, s). length s)") auto

text \<open>The separator occurs somewhere.\<close>

fun occurs_in :: "string \<Rightarrow> string \<Rightarrow> bool" where
  "occurs_in sep [] \<longleftrightarrow> sep = []"
| "occurs_in sep (x # xs) \<longleftrightarrow> starts_with (x # xs) sep \<or> occurs_in sep xs"

lemma split_on_none [str_simps]: "\<not> occurs_in sep s \<Longrightarrow> split_on sep s = [s]"
  by (induction s) auto

lemma split_on_append [str_simps]:
  assumes "sep \<noteq> []" and "hd sep \<notin> set a"
  shows "split_on sep (a @ sep @ b) = a # split_on sep b"
  using assms(2)
proof (induction a)
  case Nil
  from assms(1) obtain c cs where sep: "sep = c # cs" by (cases sep) auto
  have "starts_with (c # cs @ b) (c # cs)" by (simp add: starts_with_def)
  then show ?case by (simp add: sep)
next
  case (Cons x a)
  from assms(1) obtain c cs where sep: "sep = c # cs" by (cases sep) auto
  with Cons have "\<not> starts_with (x # a @ sep @ b) sep"
    by (auto simp: starts_with_def)
  with Cons show ?case by simp
qed

lemma not_occurs_scheme_sep:
  assumes "CHR '':'' \<notin> set p" and "CHR ''/'' \<notin> set f"
  shows "\<not> occurs_in ''://'' (p @ f)"
  using assms(1)
proof (induction p)
  case Nil
  have "\<not> occurs_in ''://'' f" using assms(2)
  proof (induction f)
    case (Cons x f)
    then show ?case by (cases f) (auto simp: starts_with_def)
  qed simp
  then show ?case by simp
next
  case (Cons x p)
  then show ?case by (auto simp: starts_with_def)
qed

subsection \<open>Decimal numerals\<close>

definition is_digit :: "char \<Rightarrow> bool" where
  "is_digit c \<longleftrightarrow> c \<in> set ''0123456789''"

definition digit_char :: "nat \<Rightarrow> char" where
  "digit_char n = ''0123456789'' ! (n mod 10)"

definition digit_val :: "char \<Rightarrow> nat" where
  "digit_val c = of_char c - 48"

fun show_nat :: "nat \<Rightarrow> string" where
  "show_nat n = (if n < 10 then [digit_char n] else show_nat (n div 10) @ [digit_char n])"

declare show_nat.simps [simp del]

text \<open>\<open>parseInt\<close> of a string of decimal digits.\<close>

definition parse_nat :: "string \<Rightarrow> nat" where
  "parse_nat s = foldl (\<lambda>n c. 10 * n + digit_val c) 0 s"

lemma less_10_cases: "n < (10::nat) \<Longrightarrow> n = 0 \<or> n = 1 \<or> n = 2 \<or> n = 3 \<or> n = 4 \<or> n = 5 \<or> n = 6 \<or> n = 7 \<or> n = 8 \<or> n = 9"
  by arith

lemma digit_char_props:
  "is_digit (digit_char n)" "digit_val (digit_char n) = n mod 10"
proof -
  have "is_digit (digit_char m) \<and> digit_val (digit_char m) = m" if "m < 10" for m
    using less_10_cases [OF that] by (auto simp: digit_char_def is_digit_def digit_val_def)
  then have "is_digit (digit_char (n mod 10)) \<and> digit_val (digit_char (n mod 10)) = n mod 10"
    by simp
  then show "is_digit (digit_char n)" "digit_val (digit_char n) = n mod 10"
    by (simp_all add: digit_char_def)
qed

lemma show_nat_digits: "c \<in> set (show_nat n) \<Longrightarrow> is_digit c"
proof (induction n rule: show_nat.induct)
  case (1 n)
  then show ?case
    by (subst (asm) (2) show_nat.simps) (auto simp: digit_char_props split: if_splits)
qed

lemma show_nat_ne [simp]: "show_nat n \<noteq> []"
  by (subst show_nat.simps) simp

lemma parse_nat_append: "parse_nat (s @ [c]) = 10 * parse_nat s + digit_val c"
  by (simp add: parse_nat_def)

lemma parse_show_nat [str_simps, simp]: "parse_nat (show_nat n) = n"
proof (induction n rule: show_nat.induct)
  case (1 n)
  show ?case
  proof (cases "n < 10")
    case True
    then show ?thesis
      by (subst show_nat.simps) (simp add: parse_nat_def digit_char_props)
  next
    case False
    with 1 show ?thesis
      by (subst show_nat.simps) (simp add: parse_nat_append digit_char_props)
  qed
qed

lemma takeWhile_digits_append:
  assumes "\<not> is_digit c"
  shows "takeWhile is_digit (show_nat n @ c # s) = show_nat n"
    and "dropWhile is_digit (show_nat n @ c # s) = c # s"
  using assms show_nat_digits
  by (auto simp: takeWhile_append2 dropWhile_append2)

section \<open>Generic interfaces\<close>

text \<open>
  A machine: a step function and an invariant that every step keeps. Running a list of
  events keeps it too; so does every state on the way.
\<close>

locale machine =
  fixes step :: "'s \<Rightarrow> 'e \<Rightarrow> 's"
    and inv :: "'s \<Rightarrow> bool"
  assumes step_inv: "inv s \<Longrightarrow> inv (step s e)"
begin

lemma run_inv: "inv s \<Longrightarrow> inv (foldl step s es)"
  by (induction es arbitrary: s) (auto intro: step_inv)

lemma run_prefix_inv: "inv s \<Longrightarrow> prefix ps es \<Longrightarrow> inv (foldl step s ps)"
  by (rule run_inv)

lemma run_frame:
  assumes "\<And>s e. inv s \<Longrightarrow> f (step s e) = f s" and "inv s"
  shows "f (foldl step s es) = f s"
  using assms(2)
proof (induction es arbitrary: s)
  case (Cons e es)
  then show ?case using assms(1) step_inv by simp
qed simp

end

text \<open>A printer and a parser over the valid values.\<close>

locale codec =
  fixes valid :: "'a \<Rightarrow> bool"
    and enc :: "'a \<Rightarrow> string"
    and dec :: "string \<Rightarrow> 'a option"
  assumes dec_enc: "valid x \<Longrightarrow> dec (enc x) = Some x"
begin

lemma enc_inj: "valid x \<Longrightarrow> valid y \<Longrightarrow> enc x = enc y \<Longrightarrow> x = y"
  by (metis dec_enc option.inject)

lemma inj_on_enc: "inj_on enc {x. valid x}"
  by (auto intro!: inj_onI enc_inj)

lemma reencode: "valid x \<Longrightarrow> map_option enc (dec (enc x)) = Some (enc x)"
  by (simp add: dec_enc)

end

end
