(* ===== verification/Hm_Blocks.thy ===== *)
theory Hm_Blocks
  imports Prelude
begin

text \<open>
  The data of documents (\<^verbatim>\<open>frontend/packages/shared/src/hm-types.ts\<close> and
  \<^verbatim>\<open>frontend/packages/editor/src/editor-types.ts\<close>): text annotations, blocks
  and block trees as the server sends them, inline content and blocks as the editor holds them,
  and the errors the conversions raise.

  A block read with \<open>toJson\<close> may lack a field that has its default value, so text, ref,
  annotations and attributes are optional; a block built with \<open>new Block\<close> has them all. A
  styles object is its list of own keys, in insertion order, with the truth value each holds.
\<close>

datatype js_error = Error string | TypeError

type_synonym 'a result = "js_error + 'a"

fun bind_result :: "'a result \<Rightarrow> ('a \<Rightarrow> 'b result) \<Rightarrow> 'b result" where
  "bind_result (Inl e) f = Inl e"
| "bind_result (Inr x) f = f x"

fun map_result :: "('a \<Rightarrow> 'b) \<Rightarrow> 'a result \<Rightarrow> 'b result" where
  "map_result f (Inl e) = Inl e"
| "map_result f (Inr x) = Inr (f x)"

lemma bind_result_Inr_iff: "bind_result r f = Inr y \<longleftrightarrow> (\<exists>x. r = Inr x \<and> f x = Inr y)"
  by (cases r) auto

lemma map_result_Inr_iff: "map_result f r = Inr y \<longleftrightarrow> (\<exists>x. r = Inr x \<and> y = f x)"
  by (cases r) auto

lemma bind_result_return [js_simps]: "bind_result r (\<lambda>x. Inr (f x)) = map_result f r"
  by (cases r) auto

lemma map_result_map [js_simps]: "map_result f (map_result g r) = map_result (\<lambda>x. f (g x)) r"
  by (cases r) auto

lemma bind_result_cong [fundef_cong]:
  "r = r' \<Longrightarrow> (\<And>x. r' = Inr x \<Longrightarrow> f x = g x) \<Longrightarrow> bind_result r f = bind_result r' g"
  by (cases r') auto

text \<open>A mapping that may raise: the elements in order, stopping at the first error.\<close>

fun traverse :: "('a \<Rightarrow> 'b result) \<Rightarrow> 'a list \<Rightarrow> 'b list result" where
  "traverse f [] = Inr []"
| "traverse f (x # xs) = bind_result (f x) (\<lambda>y. map_result (Cons y) (traverse f xs))"

lemma traverse_cong [fundef_cong]:
  "xs = ys \<Longrightarrow> (\<And>x. x \<in> set ys \<Longrightarrow> f x = g x) \<Longrightarrow> traverse f xs = traverse g ys"
  by (induction ys arbitrary: xs) (auto intro!: bind_result_cong)

lemma traverse_Inr_iff:
  "traverse f xs = Inr ys \<longleftrightarrow> list_all2 (\<lambda>x y. f x = Inr y) xs ys"
proof (induction xs arbitrary: ys)
  case Nil
  then show ?case by auto
next
  case (Cons x xs)
  show ?case
    by (cases ys) (auto simp: bind_result_Inr_iff map_result_Inr_iff Cons)
qed

section \<open>Annotations\<close>

record annotation =
  a_type :: string
  a_ref :: string
  a_attributes :: "(string \<times> string) list"
  a_starts :: "int list"
  a_ends :: "int list"

type_synonym styles = "(string \<times> bool) list"

text \<open>\<open>styles[k]\<close> counted as a boolean.\<close>

definition style_on :: "styles \<Rightarrow> string \<Rightarrow> bool" where
  "style_on st k \<longleftrightarrow> map_of st k = Some True"

text \<open>\<open>{...st, ...new}\<close>.\<close>

definition merge_styles :: "styles \<Rightarrow> styles \<Rightarrow> styles" where
  "merge_styles st new = obj_spread st new"

section \<open>Inline content\<close>

text \<open>
  The type of a link is \<open>link\<close> in the editor; the reader of server blocks also makes inlines of
  type \<open>range\<close> with the fields of a link.
\<close>

datatype inline =
  InlText (i_text: string) (i_styles: styles)
| InlLink (i_type: string) (i_href: string) (i_content: "inline list")
| InlEmbed (i_ref: string)

section \<open>Server blocks\<close>

record hm_block =
  b_id :: string
  b_type :: string
  b_text :: "string option"
  b_ref :: "string option"
  b_annotations :: "annotation list option"
  b_attributes :: "(string \<Rightarrow> string option) option"

datatype block_node = BlockNode (node_block: "hm_block option") (node_children: "block_node list option")

text \<open>\<open>block.attributes?.k\<close>.\<close>

definition attr :: "hm_block \<Rightarrow> string \<Rightarrow> string option" where
  "attr b k = (case b_attributes b of None \<Rightarrow> None | Some m \<Rightarrow> m k)"

text \<open>\<open>new Block({...})\<close> of the generated class: unset fields have their defaults.\<close>

definition new_block :: "string \<Rightarrow> string \<Rightarrow> hm_block" where
  "new_block i t = \<lparr>b_id = i, b_type = t, b_text = Some [], b_ref = Some [],
     b_annotations = Some [], b_attributes = Some (\<lambda>_. None)\<rparr>"

section \<open>Editor blocks\<close>

record block_props =
  p_childrenType :: "string option"
  p_listLevel :: "string option"
  p_start :: "string option"
  p_textAlignment :: "string option"
  p_level :: "string option"
  p_url :: "string option"
  p_name :: "string option"
  p_width :: "string option"
  p_size :: "string option"
  p_language :: "string option"
  p_view :: "string option"
  p_text :: "string option"

definition no_props :: block_props where
  "no_props = \<lparr>p_childrenType = None, p_listLevel = None, p_start = None, p_textAlignment = None,
     p_level = None, p_url = None, p_name = None, p_width = None, p_size = None,
     p_language = None, p_view = None, p_text = None\<rparr>"

datatype editor_block =
  EditorBlock (e_id: string) (e_type: string) (e_props: block_props)
    (e_content: "inline list") (e_children: "editor_block list")

text \<open>A string option as a condition: present and not empty.\<close>

definition truthy :: "string option \<Rightarrow> bool" where
  "truthy v \<longleftrightarrow> v \<noteq> None \<and> v \<noteq> Some []"

lemma truthy_simps [js_simps, simp]:
  "\<not> truthy None" "truthy (Some s) \<longleftrightarrow> s \<noteq> []"
  by (auto simp: truthy_def)

text \<open>Recursion over block trees: the size of a child list decreases.\<close>

lemma size_node_child [termination_simp]:
  "n \<in> set ns \<Longrightarrow> cs = Some ns \<Longrightarrow> size n < Suc (size_option (size_list size) cs)"
  by (induction ns arbitrary: cs) auto

lemma size_editor_child [termination_simp]:
  "b \<in> set bs \<Longrightarrow> size b < Suc (size_list size bs)"
  by (induction bs) auto

end
