(* ===== verification/Annotation_Set.thy ===== *)
theory Annotation_Set
  imports Hm_Blocks "HOL-Library.List_Lexorder" "HOL-Library.Char_ord"
begin

text \<open>
  Collecting annotations while walking over text in order, and looking a position up
  (\<^verbatim>\<open>frontend/packages/shared/src/client/classes.ts\<close>). A span that continues the last one of
  its annotation is merged with it; the lookup is a binary search over the ends. The
  lemmas relate both to the spans that were added.
\<close>

section \<open>Model\<close>

text \<open>The \<open>Map\<close> of annotations by their identity, in insertion order.\<close>

type_synonym annotation_map = "(string \<times> annotation) list"

definition annotationID :: "string \<Rightarrow> (string \<times> string) list option \<Rightarrow> string" where
  "annotationID ty attributes = (case attributes of None \<Rightarrow> ty
    | Some m \<Rightarrow> (case truthy_str (of_option (map_of m ''url'')) of Some u \<Rightarrow> ty @ ''-'' @ u
    | None \<Rightarrow> (case truthy_str (of_option (map_of m ''conversationId'')) of Some u \<Rightarrow> ty @ ''-'' @ u
    | None \<Rightarrow> (case truthy_str (of_option (map_of m ''color'')) of Some u \<Rightarrow> ty @ ''-'' @ u
    | None \<Rightarrow> ty))))"

definition pushSpanToAnnotation :: "annotation \<Rightarrow> int \<Rightarrow> int \<Rightarrow> annotation" where
  "pushSpanToAnnotation a start end' =
     a\<lparr>a_starts := a_starts a @ [start], a_ends := a_ends a @ [end']\<rparr>"

definition addSpanToAnnotation :: "annotation \<Rightarrow> int \<Rightarrow> int \<Rightarrow> annotation" where
  "addSpanToAnnotation a start end' =
     (if a_starts a = [] then pushSpanToAnnotation a start end'
      else (let lastIdx = length (a_starts a) - 1
            in if nth_opt (a_ends a) lastIdx = Some start
               then a\<lparr>a_ends := (a_ends a)[lastIdx := end']\<rparr>
               else pushSpanToAnnotation a start end'))"

definition addSpan ::
  "annotation_map \<Rightarrow> string \<Rightarrow> (string \<times> string) list option \<Rightarrow> int \<Rightarrow> int \<Rightarrow> annotation_map" where
  "addSpan anns ty attributes start end' =
     (let i = annotationID ty attributes;
          a = (case map_of anns i of Some a \<Rightarrow> a
               | None \<Rightarrow> \<lparr>a_type = ty, a_ref = [],
                   a_attributes = (case attributes of None \<Rightarrow> [] | Some m \<Rightarrow> m),
                   a_starts = [], a_ends = []\<rparr>)
      in obj_set i (addSpanToAnnotation a start end') anns)"

text \<open>
  \<open>list\<close>: by identity, then, keeping that order among equals, by the first start. Every
  annotation of the map has a span (\<open>addSpan\<close> gives it one).
\<close>

definition first_start :: "annotation \<Rightarrow> int" where
  "first_start a = (case nth_opt (a_starts a) 0 of Some s \<Rightarrow> s | None \<Rightarrow> 0)"

definition list_annotations :: "annotation_map \<Rightarrow> annotation list" where
  "list_annotations anns =
     sort_key first_start (List.map_filter (map_of anns) (sort (map fst anns)))"

text \<open>The loop of the binary search: what \<open>low\<close> is when it ends. A missing end compares as false.\<close>

function search_ends :: "int list \<Rightarrow> int \<Rightarrow> int \<Rightarrow> int \<Rightarrow> int" where
  "search_ends es pos low high =
     (if low \<le> high then
        (let mid = (low + high) div 2
         in if (case nth_opt es (nat mid) of Some e \<Rightarrow> e \<le> pos | None \<Rightarrow> False)
            then search_ends es pos (mid + 1) high
            else search_ends es pos low (mid - 1))
      else low)"
  by pat_completeness auto

termination
  by (relation "measure (\<lambda>(es, pos, low, high). nat (high - low + 1))") auto

declare search_ends.simps [simp del]

definition annotationContains :: "annotation \<Rightarrow> int \<Rightarrow> int" where
  "annotationContains a pos =
     (let low = search_ends (a_ends a) pos 0 (int (length (a_starts a)) - 1)
      in if low = int (length (a_starts a)) then - 1
         else (case (nth_opt (a_starts a) (nat low), nth_opt (a_ends a) (nat low)) of
             (Some s, Some e) \<Rightarrow> if s \<le> pos \<and> pos < e then low else - 1
           | _ \<Rightarrow> - 1))"

section \<open>The search\<close>

text \<open>Spans in order, each non-empty, with a gap before the next.\<close>

definition spans :: "annotation \<Rightarrow> (int \<times> int) list" where
  "spans a = zip (a_starts a) (a_ends a)"

definition spans_ok :: "annotation \<Rightarrow> bool" where
  "spans_ok a \<longleftrightarrow> length (a_starts a) = length (a_ends a) \<and>
     list_all (\<lambda>(s, e). s < e) (spans a) \<and> sorted_wrt (\<lambda>(s, e) (s', e'). e < s') (spans a)"

lemma search_ends_result:
  assumes "0 \<le> low" "low \<le> high + 1" "high < int (length es)"
    and "\<And>i. i < nat low \<Longrightarrow> es ! i \<le> pos"
    and "\<And>i. int i > high \<Longrightarrow> i < length es \<Longrightarrow> pos < es ! i"
    and "sorted es"
  shows "\<exists>k. search_ends es pos low high = int k \<and> k \<le> length es \<and>
    (\<forall>i < k. es ! i \<le> pos) \<and> (\<forall>i. k \<le> i \<and> i < length es \<longrightarrow> pos < es ! i)"
  using assms
proof (induction es pos low high rule: search_ends.induct)
  case (1 es pos low high)
  show ?case
  proof (cases "low \<le> high")
    case True
    let ?mid = "(low + high) div 2"
    have m: "low \<le> ?mid" "?mid \<le> high" using True by auto
    with 1(3,5) have ml: "nat ?mid < length es" by linarith
    then have nth: "nth_opt es (nat ?mid) = Some (es ! nat ?mid)" by (simp add: nth_opt_nth)
    show ?thesis
    proof (cases "es ! nat ?mid \<le> pos")
      case c: True
      have "es ! i \<le> pos" if "i < nat (?mid + 1)" for i
        using c that ml sorted_nth_mono [OF 1(8), of i "nat ?mid"] by linarith
      then have "\<exists>k. search_ends es pos (?mid + 1) high = int k \<and> k \<le> length es \<and>
          (\<forall>i < k. es ! i \<le> pos) \<and> (\<forall>i. k \<le> i \<and> i < length es \<longrightarrow> pos < es ! i)"
        using m 1(3,5,7,8) c nth by (intro 1(1) [OF True refl]) auto
      with True c nth show ?thesis by (subst (1) search_ends.simps) (simp add: Let_def)
    next
      case c: False
      have "pos < es ! i" if "int i > ?mid - 1" "i < length es" for i
        using c that sorted_nth_mono [OF 1(8), of "nat ?mid" i] by linarith
      then have "\<exists>k. search_ends es pos low (?mid - 1) = int k \<and> k \<le> length es \<and>
          (\<forall>i < k. es ! i \<le> pos) \<and> (\<forall>i. k \<le> i \<and> i < length es \<longrightarrow> pos < es ! i)"
        using m 1(3,5,6,8) c nth by (intro 1(2) [OF True refl]) auto
      with True c nth show ?thesis by (subst (1) search_ends.simps) (simp add: Let_def)
    qed
  next
    case False
    with 1(3,4) have h: "high = low - 1" by simp
    have "pos < es ! i" if "nat low \<le> i" "i < length es" for i
      using 1(3) 1(7) [of i] that h by linarith
    moreover have "nat low \<le> length es" using 1(5) h by linarith
    ultimately have "search_ends es pos low high = int (nat low) \<and> nat low \<le> length es \<and>
        (\<forall>i < nat low. es ! i \<le> pos) \<and> (\<forall>i. nat low \<le> i \<and> i < length es \<longrightarrow> pos < es ! i)"
      using False 1(3,6) by (simp add: search_ends.simps)
    then show ?thesis by blast
  qed
qed

lemma spans_ok_ends: "spans_ok a \<Longrightarrow> sorted (a_ends a)"
proof -
  assume ok: "spans_ok a"
  then have l: "length (a_starts a) = length (a_ends a)" by (simp add: spans_ok_def)
  have "a_ends a ! i \<le> a_ends a ! j" if "i < j" "j < length (a_ends a)" for i j
  proof -
    have "a_ends a ! i < a_starts a ! j" "a_starts a ! j < a_ends a ! j"
      using ok that l by (auto simp: spans_ok_def spans_def sorted_wrt_iff_nth_less list_all_length)
    then show ?thesis by simp
  qed
  then show ?thesis by (simp add: sorted_iff_nth_mono_less)
qed

lemma annotationContains_result:
  assumes "spans_ok a"
  shows "if \<exists>(s, e) \<in> set (spans a). s \<le> pos \<and> pos < e
    then \<exists>i < length (spans a). annotationContains a pos = int i \<and>
      fst (spans a ! i) \<le> pos \<and> pos < snd (spans a ! i)
    else annotationContains a pos = - 1"
proof -
  have l: "length (a_starts a) = length (a_ends a)" using assms by (simp add: spans_ok_def)
  obtain k where k: "search_ends (a_ends a) pos 0 (int (length (a_starts a)) - 1) = int k" "k \<le> length (a_ends a)"
      "\<forall>i < k. a_ends a ! i \<le> pos" "\<forall>i. k \<le> i \<and> i < length (a_ends a) \<longrightarrow> pos < a_ends a ! i"
    using search_ends_result [of 0 "int (length (a_starts a)) - 1" "a_ends a" pos] l spans_ok_ends [OF assms]
    by auto
  have dis: "a_ends a ! i < a_starts a ! j" if "i < j" "j < length (a_ends a)" for i j
    using assms that l by (auto simp: spans_ok_def spans_def sorted_wrt_iff_nth_less)
  have nth: "spans a ! i = (a_starts a ! i, a_ends a ! i)" if "i < length (a_ends a)" for i
    using that l by (simp add: spans_def)
  have len: "length (spans a) = length (a_ends a)" using l by (simp add: spans_def)
  show ?thesis
  proof (cases "\<exists>(s, e) \<in> set (spans a). s \<le> pos \<and> pos < e")
    case True
    then obtain i where i: "i < length (a_ends a)" "a_starts a ! i \<le> pos" "pos < a_ends a ! i"
      using nth len by (metis (no_types, lifting) case_prodE fst_conv in_set_conv_nth snd_conv)
    have "i = k" using k i dis [of k i] by (metis linorder_neqE_nat not_less order.strict_trans1 order_less_le_trans less_imp_le)
    with i have "annotationContains a pos = int i" using k(1) l by (simp add: annotationContains_def nth_opt_nth)
    with True i nth len show ?thesis by auto
  next
    case False
    have "\<not> (a_starts a ! k \<le> pos \<and> pos < a_ends a ! k)" if "k < length (a_ends a)"
      using False nth [OF that] that len by (metis (no_types, lifting) case_prodI nth_mem)
    then have "annotationContains a pos = - 1" using k l by (auto simp: annotationContains_def nth_opt_nth Let_def)
    with False show ?thesis by simp
  qed
qed

section \<open>Adding spans\<close>

definition spanned :: "annotation \<Rightarrow> int \<Rightarrow> bool" where
  "spanned a pos \<longleftrightarrow> (\<exists>(s, e) \<in> set (spans a). s \<le> pos \<and> pos < e)"

lemma annotationContains_iff: "spans_ok a \<Longrightarrow> 0 \<le> annotationContains a pos \<longleftrightarrow> spanned a pos"
  using annotationContains_result [of a pos] by (auto simp: spanned_def split: if_splits)

lemma addSpanToAnnotation_ok:
  assumes ok: "spans_ok a" and se: "s < e" and le: "a_starts a \<noteq> [] \<Longrightarrow> last (a_ends a) \<le> s"
  defines "a' \<equiv> addSpanToAnnotation a s e"
  shows "spans_ok a'" "a_starts a' \<noteq> []" "last (a_ends a') = e"
    "spanned a' p \<longleftrightarrow> spanned a p \<or> s \<le> p \<and> p < e"
proof -
  have l: "length (a_starts a) = length (a_ends a)" using ok by (simp add: spans_ok_def)
  have "spans_ok a' \<and> a_starts a' \<noteq> [] \<and> last (a_ends a') = e \<and>
    (spanned a' p \<longleftrightarrow> spanned a p \<or> s \<le> p \<and> p < e)"
  proof (cases "a_starts a" rule: rev_cases)
    case Nil
    then have "a_ends a = []" using l by simp
    with Nil show ?thesis using se
      by (simp add: a'_def addSpanToAnnotation_def pushSpanToAnnotation_def spans_ok_def spans_def spanned_def)
  next
    case (snoc ss s0)
    then obtain es e0 where es: "a_ends a = es @ [e0]" using l by (cases "a_ends a" rule: rev_cases) auto
    have l': "length ss = length es" using l snoc es by simp
    have sp: "spans a = zip ss es @ [(s0, e0)]" using snoc es l' by (simp add: spans_def)
    have le': "e0 \<le> s" using le snoc es by simp
    have ok': "list_all (\<lambda>(s, e). s < e) (zip ss es)" "s0 < e0"
        "sorted_wrt (\<lambda>(s, e) (s', e'). e < s') (zip ss es)" "\<forall>(s, e) \<in> set (zip ss es). e < s0"
      using ok sp by (auto simp: spans_ok_def sorted_wrt_append)
    show ?thesis
    proof (cases "e0 = s")
      case True
      have "a_starts a' = ss @ [s0]" "a_ends a' = es @ [e]"
        using True snoc es l' by (simp_all add: a'_def addSpanToAnnotation_def nth_opt_nth Let_def)
      then show ?thesis using ok' l' se True sp
        by (auto simp: spans_ok_def spans_def spanned_def sorted_wrt_append)
    next
      case False
      have "a_starts a' = (ss @ [s0]) @ [s]" "a_ends a' = (es @ [e0]) @ [e]"
        using False snoc es l' by (simp_all add: a'_def addSpanToAnnotation_def pushSpanToAnnotation_def nth_opt_nth Let_def)
      moreover from this have "spans a' = spans a @ [(s, e)]" using l' snoc es by (simp add: spans_def)
      ultimately show ?thesis using ok' l' se False le' sp
        by (fastforce simp: spans_ok_def spanned_def sorted_wrt_append)
    qed
  qed
  then show "spans_ok a'" "a_starts a' \<noteq> []" "last (a_ends a') = e"
    "spanned a' p \<longleftrightarrow> spanned a p \<or> s \<le> p \<and> p < e" by auto
qed

text \<open>The calls of \<open>addSpan\<close> of one walk: type, attributes, start, end.\<close>

type_synonym span_call = "string \<times> (string \<times> string) list option \<times> int \<times> int"

definition addSpans :: "span_call list \<Rightarrow> annotation_map" where
  "addSpans calls = foldl (\<lambda>anns (ty, attributes, s, e). addSpan anns ty attributes s e) [] calls"

definition call_id :: "span_call \<Rightarrow> string" where
  "call_id c = (case c of (ty, attributes, s, e) \<Rightarrow> annotationID ty attributes)"

definition calls_cover :: "span_call list \<Rightarrow> string \<Rightarrow> int \<Rightarrow> bool" where
  "calls_cover calls k pos \<longleftrightarrow> list_ex (\<lambda>c. call_id c = k \<and> (case c of (ty, at, s, e) \<Rightarrow> s \<le> pos \<and> pos < e)) calls"

text \<open>Each call has a non-empty span, after the earlier ones of its annotation.\<close>

definition in_order :: "span_call list \<Rightarrow> bool" where
  "in_order calls \<longleftrightarrow> list_all (\<lambda>(ty, at, s, e). s < e) calls \<and>
     sorted_wrt (\<lambda>c d. call_id c = call_id d \<longrightarrow> (case (c, d) of ((_, _, _, e), (_, _, s, _)) \<Rightarrow> e \<le> s)) calls"

lemma addSpans_snoc: "addSpans (calls @ [(ty, at, s, e)]) = addSpan (addSpans calls) ty at s e"
  by (simp add: addSpans_def)

lemma map_of_addSpan: "map_of (addSpan anns ty at s e) k =
  (if k = annotationID ty at
   then Some (addSpanToAnnotation
     (case map_of anns k of Some a \<Rightarrow> a
      | None \<Rightarrow> \<lparr>a_type = ty, a_ref = [], a_attributes = (case at of None \<Rightarrow> [] | Some m \<Rightarrow> m), a_starts = [], a_ends = []\<rparr>) s e)
   else map_of anns k)"
  by (simp add: addSpan_def Let_def update_conv')

definition annotation_inv :: "span_call list \<Rightarrow> string \<Rightarrow> annotation option \<Rightarrow> bool" where
  "annotation_inv calls k r = (case r of
     None \<Rightarrow> \<forall>c \<in> set calls. call_id c \<noteq> k
   | Some a \<Rightarrow> spans_ok a \<and> a_starts a \<noteq> [] \<and>
       (\<exists>(ty, at, s, e) \<in> set calls. annotationID ty at = k \<and> last (a_ends a) = e) \<and>
       (\<forall>pos. spanned a pos \<longleftrightarrow> calls_cover calls k pos))"

lemma calls_cover_none: "\<forall>c \<in> set calls. call_id c \<noteq> k \<Longrightarrow> \<not> calls_cover calls k pos"
  by (auto simp: calls_cover_def list_ex_iff)

lemma addSpans_inv: "in_order calls \<Longrightarrow> annotation_inv calls k (map_of (addSpans calls) k)"
proof (induction calls arbitrary: k rule: rev_induct)
  case Nil
  then show ?case by (simp add: addSpans_def annotation_inv_def)
next
  case (snoc c calls)
  obtain ty at s e where c: "c = (ty, at, s, e)" by (cases c)
  have ord: "in_order calls" and se: "s < e"
    using snoc.prems c by (auto simp: in_order_def sorted_wrt_append)
  have before: "\<forall>(ty', at', s', e') \<in> set calls. annotationID ty' at' = annotationID ty at \<longrightarrow> e' \<le> s"
    using snoc.prems c by (auto simp: in_order_def sorted_wrt_append call_id_def)
  show ?case
  proof (cases "k = annotationID ty at")
    case False
    with snoc.IH [OF ord, of k] show ?thesis
      by (auto simp: c addSpans_snoc map_of_addSpan annotation_inv_def calls_cover_def call_id_def split: option.splits)
  next
    case True
    define a where "a = (case map_of (addSpans calls) k of Some a \<Rightarrow> a
      | None \<Rightarrow> \<lparr>a_type = ty, a_ref = [], a_attributes = (case at of None \<Rightarrow> [] | Some m \<Rightarrow> m), a_starts = [], a_ends = []\<rparr>)"
    have new: "map_of (addSpans (calls @ [c])) k = Some (addSpanToAnnotation a s e)"
      using True by (simp add: c addSpans_snoc map_of_addSpan a_def)
    have a: "spans_ok a" "\<And>pos. spanned a pos \<longleftrightarrow> calls_cover calls k pos"
        "a_starts a \<noteq> [] \<Longrightarrow> last (a_ends a) \<le> s"
      using snoc.IH [OF ord, of k] before True calls_cover_none [of calls k]
      by (auto simp: annotation_inv_def a_def spans_ok_def spans_def spanned_def split: option.splits)
    from addSpanToAnnotation_ok [OF a(1) se a(3)] a(2) True show ?thesis
      unfolding new by (auto simp: annotation_inv_def c calls_cover_def call_id_def)
  qed
qed

section \<open>The list\<close>

lemma keys_addSpans: "distinct (map fst (addSpans calls)) \<and> fst ` set (addSpans calls) = call_id ` set calls"
proof (induction calls rule: rev_induct)
  case (snoc c calls)
  obtain ty at s e where c: "c = (ty, at, s, e)" by (cases c)
  from snoc show ?case
    by (simp add: c addSpans_snoc addSpan_def Let_def call_id_def distinct_update dom_update)
qed (simp add: addSpans_def)

text \<open>A stable sort of an ordered list is ordered by the key and then by the old order.\<close>

lemma sorted_wrt_insort:
  "sorted_wrt (\<lambda>x y. h x < h y \<or> h x = h y \<and> R x y) ys \<Longrightarrow> \<forall>y \<in> set ys. R x y \<Longrightarrow>
   sorted_wrt (\<lambda>x y. (h x :: 'b :: linorder) < h y \<or> h x = h y \<and> R x y) (insort_key h x ys)"
proof (induction ys)
  case (Cons y ys)
  then show ?case by (cases "h x \<le> h y") (auto simp: set_insort_key)
qed simp

lemma sorted_wrt_sort_key:
  "sorted_wrt R xs \<Longrightarrow>
   sorted_wrt (\<lambda>x y. (h x :: 'b :: linorder) < h y \<or> h x = h y \<and> R x y) (sort_key h xs)"
  by (induction xs) (auto intro!: sorted_wrt_insort)

lemma insort_key_map: "insort_key f (g x) (map g ys) = map g (insort_key (\<lambda>x. f (g x)) x ys)"
  by (induction ys) auto

lemma sort_key_map: "sort_key f (map g xs) = map g (sort_key (\<lambda>x. f (g x)) xs)"
  by (induction xs) (auto simp: insort_key_map)

lemma map_filter_total: "\<forall>x \<in> set xs. f x = Some (g x) \<Longrightarrow> List.map_filter f xs = map g xs"
  by (induction xs) (auto simp: map_filter_simps)

section \<open>Properties\<close>

definition calls_sample :: "span_call list" where
  "calls_sample = [(''strong'', None, 0, 2), (''link'', Some [(''url'', ''u'')], 0, 4), (''strong'', None, 2, 4), (''strong'', None, 7, 9)]"

lemma calls_sample_in_order: "in_order calls_sample"
  by (simp add: calls_sample_def in_order_def call_id_def annotationID_def of_option_def)

text \<open>
  C34. Walking over text and adding spans in order, there is an annotation of an identity
  exactly when a span was added for it, its spans stay apart and in order, and
  \<open>annotationContains\<close> finds a position, with the index of the span it is in, exactly when one of
  the added spans has it.
\<close>

theorem annotation_set_finds:
  assumes "in_order calls"
  shows "case map_of (addSpans calls) k of
      None \<Rightarrow> \<forall>c \<in> set calls. call_id c \<noteq> k
    | Some a \<Rightarrow> spans_ok a \<and>
        (if calls_cover calls k pos
         then \<exists>i < length (spans a). annotationContains a pos = int i \<and>
           fst (spans a ! i) \<le> pos \<and> pos < snd (spans a ! i)
         else annotationContains a pos = - 1)"
  using addSpans_inv [OF assms, of k] annotationContains_result [of _ pos]
  by (auto simp: annotation_inv_def spanned_def split: option.splits)

theorem annotation_set_finds_witness:
  "case map_of (addSpans calls_sample) ''strong'' of
      None \<Rightarrow> \<forall>c \<in> set calls_sample. call_id c \<noteq> ''strong''
    | Some a \<Rightarrow> spans_ok a \<and>
        (if calls_cover calls_sample ''strong'' 8
         then \<exists>i < length (spans a). annotationContains a 8 = int i \<and>
           fst (spans a ! i) \<le> 8 \<and> 8 < snd (spans a ! i)
         else annotationContains a 8 = - 1)"
  by (rule annotation_set_finds [OF calls_sample_in_order])

text \<open>
  \<open>list\<close> has each annotation of the set once, by first start, and those that start together
  by identity.
\<close>

theorem annotation_list_sorted:
  "\<exists>ids. distinct ids \<and> set ids = call_id ` set calls \<and>
     list_annotations (addSpans calls) = map (\<lambda>k. the (map_of (addSpans calls) k)) ids \<and>
     sorted_wrt (\<lambda>j k. let sj = first_start (the (map_of (addSpans calls) j));
         sk = first_start (the (map_of (addSpans calls) k)) in sj < sk \<or> sj = sk \<and> j \<le> k) ids"
proof -
  let ?anns = "addSpans calls" and ?g = "\<lambda>k. the (map_of (addSpans calls) k)"
  have "\<forall>k \<in> set (sort (map fst ?anns)). map_of ?anns k = Some (?g k)"
    by (auto simp: map_of_eq_None_iff dest!: weak_map_of_SomeI)
  then have "list_annotations ?anns = map ?g (sort_key (\<lambda>k. first_start (?g k)) (sort (map fst ?anns)))"
    by (simp add: list_annotations_def map_filter_total sort_key_map)
  moreover have "sorted_wrt (\<lambda>j k. first_start (?g j) < first_start (?g k) \<or> first_start (?g j) = first_start (?g k) \<and> j \<le> k)
      (sort_key (\<lambda>k. first_start (?g k)) (sort (map fst ?anns)))"
    by (rule sorted_wrt_sort_key) simp
  ultimately show ?thesis using keys_addSpans [of calls]
    by (intro exI [of _ "sort_key (\<lambda>k. first_start (?g k)) (sort (map fst ?anns))"]) (simp add: Let_def)
qed

end
