(* ===== verification/Styled_Text.thy ===== *)
theory Styled_Text
  imports Hm_Blocks
begin

text \<open>
  From server text with annotations to the editor's inline content
  (\<^verbatim>\<open>frontend/packages/shared/src/client/to-hm-block.ts\<close>, first half):
  \<open>annotationStyle\<close>, \<open>partialBlockToStyledText\<close> and \<open>toHMInlineContent\<close>.
\<close>

section \<open>Model\<close>

definition areStylesEqual :: "styles option \<Rightarrow> styles option \<Rightarrow> string list \<Rightarrow> bool" where
  "areStylesEqual s1 s2 ks = (case (s1, s2) of
      (None, None) \<Rightarrow> True
    | (Some a, Some b) \<Rightarrow> list_all (\<lambda>k. map_of a k = map_of b k) ks
    | _ \<Rightarrow> False)"

definition annotationStyle :: "annotation \<Rightarrow> styles" where
  "annotationStyle a =
     (if a_type a = ''emphasis'' then [(''italic'', True)]
      else if a_type a = ''strong'' then [(''bold'', True)]
      else if a_type a = ''underline'' then [(''underline'', True)]
      else if a_type a = ''strike'' then [(''strike'', True)]
      else if a_type a = ''code'' then [(''code'', True)]
      else [])"

text \<open>
  One span: positions inside the text take the styles on top of what they have. A span with
  no matching end covers nothing, and positions outside the text do not matter.
\<close>

fun apply_spans :: "styles \<Rightarrow> int list \<Rightarrow> int list \<Rightarrow> styles option list \<Rightarrow> styles option list" where
  "apply_spans st (s # ss) (e # es) arr =
     apply_spans st ss es
       (map (\<lambda>(i, cur). if s \<le> int i \<and> int i < e
               then Some (merge_styles (case cur of None \<Rightarrow> [] | Some c \<Rightarrow> c) st) else cur)
            (enumerate 0 arr))"
| "apply_spans st _ _ arr = arr"

definition stylesForIndex :: "nat \<Rightarrow> annotation list \<Rightarrow> styles option list" where
  "stylesForIndex n as =
     foldl (\<lambda>arr a. apply_spans (annotationStyle a) (a_starts a) (a_ends a) arr) (replicate n None) as"

definition allStyleKeys :: "annotation list \<Rightarrow> string list" where
  "allStyleKeys as = concat (map (\<lambda>a. map fst (annotationStyle a)) as)"

text \<open>The loop over the text from position 1: current run, current styles.\<close>

fun group_runs :: "string list \<Rightarrow> string \<Rightarrow> styles option \<Rightarrow> (char \<times> styles option) list \<Rightarrow> inline list" where
  "group_runs ks cur st [] =
     (if cur = [] then [] else [InlText cur (case st of None \<Rightarrow> [] | Some s \<Rightarrow> s)])"
| "group_runs ks cur st ((c, s) # rest) =
     (if areStylesEqual s st ks then group_runs ks (cur @ [c]) st rest
      else InlText cur (case st of None \<Rightarrow> [] | Some s' \<Rightarrow> s') # group_runs ks [c] s rest)"

definition partialBlockToStyledText :: "string option \<Rightarrow> annotation list option \<Rightarrow> inline list" where
  "partialBlockToStyledText txt anns =
     (let text = (case txt of None \<Rightarrow> [] | Some t \<Rightarrow> t);
          as = (case anns of None \<Rightarrow> [] | Some x \<Rightarrow> x);
          sfi = stylesForIndex (length text) as;
          ks = allStyleKeys as
      in case zip text sfi of
           [] \<Rightarrow> []
         | (c, s) # rest \<Rightarrow> group_runs ks [c] s rest)"

text \<open>\<open>s.slice(a, b)\<close> with the negative indices of the language.\<close>

definition js_slice :: "string \<Rightarrow> int \<Rightarrow> int \<Rightarrow> string" where
  "js_slice s a b =
     (let n = int (length s);
          rel = (\<lambda>i. if i < 0 then max 0 (n + i) else min i n)
      in slice (nat (rel a)) (nat (rel b)) s)"

definition shift_annotation :: "int \<Rightarrow> annotation \<Rightarrow> annotation" where
  "shift_annotation d a = a\<lparr>a_starts := map (\<lambda>s. s - d) (a_starts a),
                            a_ends := map (\<lambda>e. e - d) (a_ends a)\<rparr>"

definition getSlicedContent :: "string \<Rightarrow> annotation list \<Rightarrow> int \<Rightarrow> int \<Rightarrow> inline list" where
  "getSlicedContent text as start end' =
     partialBlockToStyledText (Some (js_slice text start end')) (Some (map (shift_annotation start) as))"

definition link_like :: "annotation \<Rightarrow> bool" where
  "link_like a \<longleftrightarrow> a_type a = ''link'' \<or> a_type a = ''inline-embed'' \<or> a_type a = ''range''"

text \<open>
  The loop over the sorted link annotations: where the current one starts, what is left. The
  next start is used only when it is not zero, as \<open>||\<close> does.
\<close>

fun link_loop :: "string \<Rightarrow> annotation list \<Rightarrow> int \<Rightarrow> annotation list \<Rightarrow> inline list" where
  "link_loop text as start [] = []"
| "link_loop text as start (a # rest) =
     (let annotationEnd = start + (hd (a_ends a) - hd (a_starts a));
          this = (if a_type a = ''link'' \<or> a_type a = ''range''
                  then [InlLink (a_type a) (a_ref a) (getSlicedContent text as start annotationEnd)]
                  else if a_type a = ''inline-embed'' then [InlEmbed (a_ref a)] else []);
          next_end = (case rest of
              b # _ \<Rightarrow> if hd (a_starts b) = 0 then int (length text) else hd (a_starts b)
            | [] \<Rightarrow> int (length text))
      in this @ getSlicedContent text as annotationEnd next_end @ link_loop text as next_end rest)"

definition toHMInlineContent :: "hm_block \<Rightarrow> inline list result" where
  "toHMInlineContent block =
     (let as = (case b_annotations block of None \<Rightarrow> [] | Some x \<Rightarrow> x);
          links = filter link_like as
      in if links = [] then Inr (partialBlockToStyledText (b_text block) (b_annotations block))
         else if \<exists>a \<in> set links. length (a_starts a) \<noteq> 1 \<or> length (a_ends a) \<noteq> 1
         then Inl (Error ''Invalid link, embed, or range annotations in this block. Only one range per annotation is allowed'')
         else (case b_text block of None \<Rightarrow> Inl TypeError | Some text \<Rightarrow>
           (let sorted = sort_key (\<lambda>a. hd (a_starts a)) links;
                start = hd (a_starts (hd sorted))
            in Inr (getSlicedContent text as 0 start @ link_loop text as start sorted))))"

section \<open>Which styles a position gets\<close>

text \<open>The specification: a position has a style when some span of an annotation of that style covers it.\<close>

fun in_spans :: "int list \<Rightarrow> int list \<Rightarrow> int \<Rightarrow> bool" where
  "in_spans (s # ss) (e # es) i \<longleftrightarrow> s \<le> i \<and> i < e \<or> in_spans ss es i"
| "in_spans _ _ i \<longleftrightarrow> False"

definition covered :: "annotation list \<Rightarrow> nat \<Rightarrow> string \<Rightarrow> bool" where
  "covered as i k \<longleftrightarrow>
     (\<exists>a \<in> set as. k \<in> fst ` set (annotationStyle a) \<and> in_spans (a_starts a) (a_ends a) (int i))"

definition style_of :: "styles option \<Rightarrow> styles" where
  "style_of s = (case s of None \<Rightarrow> [] | Some x \<Rightarrow> x)"

lemma style_of_simps [simp]: "style_of None = []" "style_of (Some x) = x"
  by (simp_all add: style_of_def)

lemma group_runs_style_of:
  "group_runs ks cur st [] = (if cur = [] then [] else [InlText cur (style_of st)])"
  "group_runs ks cur st ((c, s) # rest) =
     (if areStylesEqual s st ks then group_runs ks (cur @ [c]) st rest
      else InlText cur (style_of st) # group_runs ks [c] s rest)"
  by (simp_all add: style_of_def group_runs.simps)

declare group_runs.simps [simp del]

lemma annotationStyle_True: "\<forall>(x, v) \<in> set (annotationStyle a). v"
  by (auto simp: annotationStyle_def split: if_splits)

lemma map_of_merge_styles:
  assumes "\<forall>(x, v) \<in> set st. v"
  shows "map_of (merge_styles cur st) k = (if k \<in> fst ` set st then Some True else map_of cur k)"
  using assms
proof (induction st arbitrary: cur)
  case Nil
  then show ?case by (simp add: merge_styles_def)
next
  case (Cons kv st)
  obtain k' v where kv: "kv = (k', v)" by (cases kv)
  have "v" using Cons.prems kv by auto
  have "merge_styles cur (kv # st) = merge_styles (obj_set k' v cur) st"
    by (simp add: merge_styles_def kv)
  with Cons \<open>v\<close> kv show ?case by (auto simp: update_conv')
qed

lemma length_apply_spans [simp]: "length (apply_spans st ss es arr) = length arr"
  by (induction st ss es arr rule: apply_spans.induct) auto

lemma apply_spans_at:
  assumes "\<forall>(x, v) \<in> set st. v" "i < length arr"
  shows "map_of (style_of (apply_spans st ss es arr ! i)) k
    = (if in_spans ss es (int i) \<and> k \<in> fst ` set st then Some True else map_of (style_of (arr ! i)) k)"
  using assms
proof (induction st ss es arr rule: apply_spans.induct)
  case (1 st s ss e es arr)
  let ?arr = "map (\<lambda>(i, cur). if s \<le> int i \<and> int i < e
               then Some (merge_styles (case cur of None \<Rightarrow> [] | Some c \<Rightarrow> c) st) else cur) (enumerate 0 arr)"
  have at: "?arr ! i = (if s \<le> int i \<and> int i < e then Some (merge_styles (style_of (arr ! i)) st) else arr ! i)"
    using 1(3) by (simp add: nth_enumerate_eq style_of_def)
  show ?case
    using 1 at map_of_merge_styles [OF 1(2)] by auto
qed auto

lemma stylesForIndex_at:
  assumes "i < n"
  shows "map_of (style_of (stylesForIndex n as ! i)) k = (if covered as i k then Some True else None)"
    and "length (stylesForIndex n as) = n"
proof -
  let ?f = "\<lambda>arr a. apply_spans (annotationStyle a) (a_starts a) (a_ends a) arr"
  have len: "length (foldl ?f arr as) = length arr" for arr
    by (induction as arbitrary: arr) auto
  then show "length (stylesForIndex n as) = n" by (simp add: stylesForIndex_def)
  have "map_of (style_of (foldl ?f arr as ! i)) k
      = (if covered as i k then Some True else map_of (style_of (arr ! i)) k)" if "i < length arr" for arr
    using that
  proof (induction as arbitrary: arr)
    case Nil
    then show ?case by (simp add: covered_def)
  next
    case (Cons a as)
    have "i < length (?f arr a)" using Cons.prems by simp
    note IH = Cons.IH [OF this]
    have "map_of (style_of (?f arr a ! i)) k
      = (if in_spans (a_starts a) (a_ends a) (int i) \<and> k \<in> fst ` set (annotationStyle a)
         then Some True else map_of (style_of (arr ! i)) k)"
      using annotationStyle_True Cons.prems by (intro apply_spans_at) auto
    with IH show ?case by (auto simp: covered_def)
  qed
  from this [of "replicate n None"] assms
  show "map_of (style_of (stylesForIndex n as ! i)) k = (if covered as i k then Some True else None)"
    by (simp add: stylesForIndex_def)
qed

lemma covered_keys: "covered as i k \<Longrightarrow> k \<in> set (allStyleKeys as)"
  by (auto simp: covered_def allStyleKeys_def)

section \<open>Runs\<close>

text \<open>The characters of a list of text runs, each with the styles of its run.\<close>

fun expand :: "inline list \<Rightarrow> (char \<times> styles) list" where
  "expand [] = []"
| "expand (InlText t st # xs) = map (\<lambda>c. (c, st)) t @ expand xs"
| "expand (_ # xs) = expand xs"

lemma areStylesEqual_keys:
  "areStylesEqual s1 s2 ks \<Longrightarrow> k \<in> set ks \<Longrightarrow> map_of (style_of s1) k = map_of (style_of s2) k"
  by (auto simp: areStylesEqual_def list_all_iff split: option.splits)

lemma group_runs_expand:
  assumes "cur \<noteq> []"
  shows "list_all2 (\<lambda>(c, s) (c', st'). c = c' \<and> (\<forall>k \<in> set ks. map_of (style_of s) k = map_of st' k))
     (map (\<lambda>c. (c, st)) cur @ rest) (expand (group_runs ks cur st rest))"
  using assms
proof (induction rest arbitrary: cur st)
  case Nil
  then show ?case by (simp add: group_runs_style_of list_all2_map1 list_all2_map2 list_all2_same)
next
  case (Cons x rest)
  obtain c s where x: "x = (c, s)" by (cases x)
  let ?P = "\<lambda>(c, s) (c', st'). c = c' \<and> (\<forall>k \<in> set ks. map_of (style_of s) k = map_of st' k)"
  show ?case
  proof (cases "areStylesEqual s st ks")
    case True
    have IH: "list_all2 ?P (map (\<lambda>c. (c, st)) (cur @ [c]) @ rest) (expand (group_runs ks (cur @ [c]) st rest))"
      by (rule Cons.IH) simp
    have "list_all2 (\<lambda>(c, s) (c', s'). c = c' \<and> (\<forall>k \<in> set ks. map_of (style_of s) k = map_of (style_of s') k))
       (map (\<lambda>c. (c, st)) cur @ (c, s) # rest) (map (\<lambda>c. (c, st)) (cur @ [c]) @ rest)"
      using areStylesEqual_keys [OF True]
      by (auto simp: list_all2_append list_all2_same)
    from list_all2_trans [OF _ this IH, of ?P] x True show ?thesis
      by (auto simp: group_runs_style_of)
  next
    case False
    have IH: "list_all2 ?P (map (\<lambda>c. (c, s)) [c] @ rest) (expand (group_runs ks [c] s rest))"
      by (rule Cons.IH) simp
    with x False show ?thesis
      by (simp add: group_runs_style_of list_all2_append list_all2_map1 list_all2_map2 list_all2_same)
  qed
qed

lemma group_runs_elems:
  "x \<in> set (group_runs ks cur st rest) \<Longrightarrow>
     \<exists>t s. x = InlText t (style_of s) \<and> s \<in> insert st (snd ` set rest) \<and> (cur \<noteq> [] \<longrightarrow> t \<noteq> [])"
proof (induction rest arbitrary: cur st)
  case Nil
  then show ?case by (auto simp: group_runs_style_of split: if_splits)
next
  case (Cons y rest)
  obtain c s where y: "y = (c, s)" by (cases y)
  show ?case
  proof (cases "areStylesEqual s st ks")
    case True
    with Cons.prems y have "x \<in> set (group_runs ks (cur @ [c]) st rest)" by (simp add: group_runs_style_of)
    from Cons.IH [OF this] y show ?thesis by auto
  next
    case False
    with Cons.prems y have "x = InlText cur (style_of st) \<or> x \<in> set (group_runs ks [c] s rest)"
      by (auto simp: group_runs_style_of)
    then show ?thesis using Cons.IH [of "[c]" s] y by auto
  qed
qed

lemma expand_nth_style:
  "i < length (expand xs) \<Longrightarrow> \<exists>t st. InlText t st \<in> set xs \<and> snd (expand xs ! i) = st"
proof (induction xs arbitrary: i rule: expand.induct)
  case (2 t st xs)
  show ?case
  proof (cases "i < length t")
    case True
    then have "snd (expand (InlText t st # xs) ! i) = st" by (simp add: nth_append)
    then show ?thesis by auto
  next
    case False
    then have "i - length t < length (expand xs)" using 2(2) by auto
    from 2(1) [OF this] obtain t' st' where "InlText t' st' \<in> set xs" "snd (expand xs ! (i - length t)) = st'"
      by blast
    with False show ?thesis by (auto simp: nth_append)
  qed
qed auto

lemma length_stylesForIndex [simp]: "length (stylesForIndex n as) = n"
proof -
  have "length (foldl (\<lambda>arr a. apply_spans (annotationStyle a) (a_starts a) (a_ends a) arr) arr as) = length arr" for arr
    by (induction as arbitrary: arr) auto
  then show ?thesis by (simp add: stylesForIndex_def)
qed

lemma allStyleKeys_style:
  assumes "s \<in> set (stylesForIndex n as)" "map_of (style_of s) k \<noteq> None"
  shows "k \<in> set (allStyleKeys as)"
proof -
  from assms(1) obtain i where i: "i < n" "stylesForIndex n as ! i = s"
    by (auto simp: in_set_conv_nth)
  with stylesForIndex_at(1) [OF i(1), of as k] assms(2) have "covered as i k" by (auto split: if_splits)
  then show ?thesis by (rule covered_keys)
qed

lemma styled_zip:
  "length (zip t (stylesForIndex (length t) as)) = length t"
  "i < length t \<Longrightarrow> zip t (stylesForIndex (length t) as) ! i = (t ! i, stylesForIndex (length t) as ! i)"
  by auto

text \<open>Every character is there, in order, with the styles of the annotations that cover it.\<close>

lemma styled_text_at:
  fixes t :: string and as :: "annotation list"
  defines "x \<equiv> expand (partialBlockToStyledText (Some t) (Some as))"
  shows "length x = length t"
    and "i < length t \<Longrightarrow> fst (x ! i) = t ! i"
    and "i < length t \<Longrightarrow> style_on (snd (x ! i)) k \<longleftrightarrow> covered as i k"
proof -
  let ?z = "zip t (stylesForIndex (length t) as)"
  let ?ks = "allStyleKeys as"
  let ?P = "\<lambda>(c, s) (c', st'). c = c' \<and> (\<forall>k \<in> set ?ks. map_of (style_of s) k = map_of st' k)"
  have P: "list_all2 ?P ?z x"
  proof (cases ?z)
    case Nil
    then have "x = []" unfolding x_def partialBlockToStyledText_def Let_def option.case Nil by simp
    then show ?thesis unfolding Nil by simp
  next
    case (Cons y rest)
    obtain c s where y: "y = (c, s)" by (cases y)
    have "x = expand (group_runs ?ks [c] s rest)"
      using Cons y by (simp add: x_def partialBlockToStyledText_def)
    with group_runs_expand [of "[c]" ?ks s rest] Cons y show ?thesis by simp
  qed
  then show len: "length x = length t" by (auto dest: list_all2_lengthD)
  assume i: "i < length t"
  have Pi: "?P (?z ! i) (x ! i)" using P i by (auto dest: list_all2_nthD)
  with i show "fst (x ! i) = t ! i" by (auto split: prod.splits)
  show "style_on (snd (x ! i)) k \<longleftrightarrow> covered as i k"
  proof (cases "k \<in> set ?ks")
    case True
    with Pi i have "map_of (snd (x ! i)) k = map_of (style_of (stylesForIndex (length t) as ! i)) k"
      by (auto split: prod.splits)
    with stylesForIndex_at(1) [OF i] show ?thesis by (simp add: style_on_def)
  next
    case False
    have "i < length (expand (partialBlockToStyledText (Some t) (Some as)))" using len i by (simp add: x_def)
    from expand_nth_style [OF this] obtain u st
      where u: "InlText u st \<in> set (partialBlockToStyledText (Some t) (Some as))" and st: "snd (x ! i) = st"
      by (auto simp: x_def)
    obtain s where s: "st = style_of s" "s \<in> set (stylesForIndex (length t) as)"
    proof (cases ?z)
      case Nil
      with u show ?thesis by (simp add: partialBlockToStyledText_def)
    next
      case (Cons y rest)
      obtain c s0 where y: "y = (c, s0)" by (cases y)
      have "InlText u st \<in> set (group_runs ?ks [c] s0 rest)"
        using u Cons y by (simp add: partialBlockToStyledText_def)
      from group_runs_elems [OF this] obtain s where "st = style_of s" "s \<in> insert s0 (snd ` set rest)" by auto
      moreover have "insert s0 (snd ` set rest) = snd ` set ?z" using Cons y by simp
      ultimately show ?thesis using that by (metis (no_types, lifting) imageE prod.collapse set_zip_rightD)
    qed
    have "map_of st k = None" using allStyleKeys_style [OF s(2), of k] s(1) False by blast
    then have "\<not> style_on (snd (x ! i)) k" using st by (simp add: style_on_def)
    moreover have "\<not> covered as i k" using covered_keys False by blast
    ultimately show ?thesis by simp
  qed
qed


section \<open>Links and embeds\<close>

datatype mark = Plain | Linked string string | Embedded string

text \<open>What a reader sees: each character with its styles and the link it is in. An embed stands for one space.\<close>

fun flat :: "inline list \<Rightarrow> (char \<times> styles \<times> mark) list" where
  "flat [] = []"
| "flat (InlText t st # xs) = map (\<lambda>c. (c, st, Plain)) t @ flat xs"
| "flat (InlLink ty h c # xs) = map (\<lambda>(c, st). (c, st, Linked ty h)) (expand c) @ flat xs"
| "flat (InlEmbed r # xs) = (CHR '' '', [], Embedded r) # flat xs"

fun only_text :: "inline list \<Rightarrow> bool" where
  "only_text [] \<longleftrightarrow> True"
| "only_text (InlText t st # xs) \<longleftrightarrow> only_text xs"
| "only_text _ \<longleftrightarrow> False"

definition covers :: "annotation \<Rightarrow> int \<Rightarrow> bool" where
  "covers a i \<longleftrightarrow> hd (a_starts a) \<le> i \<and> i < hd (a_ends a)"

definition mark_of :: "annotation \<Rightarrow> mark" where
  "mark_of a = (if a_type a = ''inline-embed'' then Embedded (a_ref a) else Linked (a_type a) (a_ref a))"

definition mark_at :: "annotation list \<Rightarrow> nat \<Rightarrow> mark" where
  "mark_at links i = (case find (\<lambda>a. covers a (int i)) links of None \<Rightarrow> Plain | Some a \<Rightarrow> mark_of a)"

definition links_of :: "annotation list \<Rightarrow> annotation list" where
  "links_of as = sort_key (\<lambda>a. hd (a_starts a)) (filter link_like as)"

text \<open>
  The link annotations of a well-formed block: one span each, in order and disjoint, inside the
  text, an embed over a single space.
\<close>

fun chain :: "string \<Rightarrow> int \<Rightarrow> annotation list \<Rightarrow> bool" where
  "chain text p [] \<longleftrightarrow> p \<le> int (length text)"
| "chain text p (a # rest) \<longleftrightarrow>
     p \<le> hd (a_starts a) \<and> hd (a_starts a) < hd (a_ends a) \<and> hd (a_ends a) \<le> int (length text) \<and>
     length (a_starts a) = 1 \<and> length (a_ends a) = 1 \<and> link_like a \<and>
     (a_type a = ''inline-embed'' \<longrightarrow>
        hd (a_ends a) = hd (a_starts a) + 1 \<and> text ! nat (hd (a_starts a)) = CHR '' '') \<and>
     chain text (hd (a_ends a)) rest"

text \<open>A list of inlines shows the text from position \<open>a\<close> up to \<open>b\<close>, with given marks.\<close>

definition describes :: "string \<Rightarrow> annotation list \<Rightarrow> (nat \<Rightarrow> mark) \<Rightarrow> nat \<Rightarrow> nat \<Rightarrow> inline list \<Rightarrow> bool" where
  "describes text as m a b xs \<longleftrightarrow>
     length (flat xs) = b - a \<and>
     (\<forall>j < b - a. fst (flat xs ! j) = text ! (a + j)
        \<and> snd (snd (flat xs ! j)) = m (a + j)
        \<and> ((\<forall>r. m (a + j) \<noteq> Embedded r) \<longrightarrow>
             (\<forall>k. style_on (fst (snd (flat xs ! j))) k \<longleftrightarrow> covered as (a + j) k)))"

lemma flat_append [simp]: "flat (xs @ ys) = flat xs @ flat ys"
  by (induction xs rule: flat.induct) auto

lemma flat_only_text: "only_text xs \<Longrightarrow> flat xs = map (\<lambda>(c, st). (c, st, Plain)) (expand xs)"
  by (induction xs rule: only_text.induct) auto

lemma only_text_group_runs: "only_text (group_runs ks cur st rest)"
  by (induction ks cur st rest rule: group_runs.induct) (auto simp: group_runs_style_of)

lemma only_text_styled: "only_text (partialBlockToStyledText t as)"
  by (auto simp: partialBlockToStyledText_def Let_def only_text_group_runs split: list.split)

lemma describes_append:
  assumes "describes text as m a b xs" "describes text as m b c ys" "a \<le> b" "b \<le> c"
  shows "describes text as m a c (xs @ ys)"
  unfolding describes_def
proof (intro conjI allI impI)
  show "length (flat (xs @ ys)) = c - a" using assms by (simp add: describes_def)
  fix j assume j: "j < c - a"
  have len: "length (flat xs) = b - a" using assms(1) by (simp add: describes_def)
  have x: "\<And>i. i < b - a \<Longrightarrow> fst (flat xs ! i) = text ! (a + i) \<and> snd (snd (flat xs ! i)) = m (a + i)
        \<and> ((\<forall>r. m (a + i) \<noteq> Embedded r) \<longrightarrow> (\<forall>k. style_on (fst (snd (flat xs ! i))) k \<longleftrightarrow> covered as (a + i) k))"
    using assms(1) by (simp add: describes_def)
  have y: "\<And>i. i < c - b \<Longrightarrow> fst (flat ys ! i) = text ! (b + i) \<and> snd (snd (flat ys ! i)) = m (b + i)
        \<and> ((\<forall>r. m (b + i) \<noteq> Embedded r) \<longrightarrow> (\<forall>k. style_on (fst (snd (flat ys ! i))) k \<longleftrightarrow> covered as (b + i) k))"
    using assms(2) by (simp add: describes_def)
  have at: "flat (xs @ ys) ! j = (if j < b - a then flat xs ! j else flat ys ! (j - (b - a)))"
    using len by (simp add: nth_append)
  have pos: "b + (j - (b - a)) = a + j" if "\<not> j < b - a" using that assms(3) by simp
  have lt: "j - (b - a) < c - b" if "\<not> j < b - a" using that assms(3,4) j by simp
  show "fst (flat (xs @ ys) ! j) = text ! (a + j)"
    using at x [of j] y [OF lt] pos by auto
  show "snd (snd (flat (xs @ ys) ! j)) = m (a + j)"
    using at x [of j] y [OF lt] pos by auto
  fix k assume "\<forall>r. m (a + j) \<noteq> Embedded r"
  then show "style_on (fst (snd (flat (xs @ ys) ! j))) k \<longleftrightarrow> covered as (a + j) k"
    using at x [of j] y [OF lt] pos by auto
qed

lemma describes_cong:
  "describes text as m a b xs \<Longrightarrow> (\<And>i. a \<le> i \<Longrightarrow> i < b \<Longrightarrow> m i = m' i) \<Longrightarrow> describes text as m' a b xs"
  by (auto simp: describes_def)

lemma in_spans_shift:
  "in_spans (map (\<lambda>s. s - d) ss) (map (\<lambda>e. e - d) es) i \<longleftrightarrow> in_spans ss es (i + d)"
  by (induction ss es i rule: in_spans.induct) auto

lemma covered_shift: "covered (map (shift_annotation (int d)) as) i k \<longleftrightarrow> covered as (d + i) k"
proof -
  have "annotationStyle (shift_annotation (int d) a) = annotationStyle a" for a
    by (simp add: shift_annotation_def annotationStyle_def)
  moreover have "in_spans (a_starts (shift_annotation (int d) a)) (a_ends (shift_annotation (int d) a)) (int i)
      \<longleftrightarrow> in_spans (a_starts a) (a_ends a) (int (d + i))" for a
    by (simp add: shift_annotation_def in_spans_shift add.commute)
  ultimately show ?thesis by (simp add: covered_def)
qed

lemma js_slice_slice: "0 \<le> a \<Longrightarrow> a \<le> b \<Longrightarrow> b \<le> int (length s) \<Longrightarrow> js_slice s a b = slice (nat a) (nat b) s"
  by (simp add: js_slice_def)

lemma sliced_content_at:
  fixes as :: "annotation list"
  assumes "a \<le> b" "b \<le> length text"
  defines "x \<equiv> expand (getSlicedContent text as (int a) (int b))"
  shows "length x = b - a"
    and "j < b - a \<Longrightarrow> fst (x ! j) = text ! (a + j)"
    and "j < b - a \<Longrightarrow> style_on (snd (x ! j)) k \<longleftrightarrow> covered as (a + j) k"
proof -
  let ?t = "slice a b text"
  have x: "x = expand (partialBlockToStyledText (Some ?t) (Some (map (shift_annotation (int a)) as)))"
    using assms(1,2) by (simp add: x_def getSlicedContent_def js_slice_slice)
  have len: "length ?t = b - a" using assms(2) by simp
  show "length x = b - a" using styled_text_at(1) len by (simp add: x)
  assume j: "j < b - a"
  then show "fst (x ! j) = text ! (a + j)"
    using styled_text_at(2) [of j ?t] len assms(2) by (simp add: x slice_def)
  show "style_on (snd (x ! j)) k \<longleftrightarrow> covered as (a + j) k"
    using styled_text_at(3) [of j ?t "map (shift_annotation (int a)) as" k] j len
    by (simp add: x covered_shift)
qed

lemma describes_plain:
  assumes "a \<le> b" "b \<le> length text" "\<And>i. a \<le> i \<Longrightarrow> i < b \<Longrightarrow> m i = Plain"
  shows "describes text as m a b (getSlicedContent text as (int a) (int b))"
proof -
  have f: "flat (getSlicedContent text as (int a) (int b))
     = map (\<lambda>(c, st). (c, st, Plain)) (expand (getSlicedContent text as (int a) (int b)))"
    by (simp add: flat_only_text getSlicedContent_def only_text_styled)
  note s = sliced_content_at [OF assms(1,2), where as = as]
  show ?thesis using s assms(3) by (auto simp: describes_def f split_beta)
qed

lemma describes_link:
  assumes "a \<le> b" "b \<le> length text" "\<And>i. a \<le> i \<Longrightarrow> i < b \<Longrightarrow> m i = Linked ty h"
  shows "describes text as m a b [InlLink ty h (getSlicedContent text as (int a) (int b))]"
  using sliced_content_at [OF assms(1,2), where as = as] assms(3)
  by (auto simp: describes_def split_beta)

lemma describes_embed:
  "text ! a = CHR '' '' \<Longrightarrow> m a = Embedded r \<Longrightarrow> describes text as m a (Suc a) [InlEmbed r]"
  by (simp add: describes_def)

lemma chain_le: "chain text p links \<Longrightarrow> p \<le> int (length text)"
  by (induction "text" p links rule: chain.induct) auto

lemma chain_starts: "chain text p links \<Longrightarrow> a \<in> set links \<Longrightarrow> p \<le> hd (a_starts a)"
proof (induction "text" p links rule: chain.induct)
  case (2 t p b rest)
  then show ?case by (cases "a = b") auto
qed simp

lemma chain_hd_least:
  assumes "chain t p links" "a \<in> set links"
  shows "hd (a_starts (hd links)) \<le> hd (a_starts a)"
proof (cases links)
  case (Cons b rest)
  show ?thesis
  proof (cases "a = b")
    case False
    then have "hd (a_ends b) \<le> hd (a_starts a)" using assms Cons chain_starts [of t "hd (a_ends b)" rest a] by auto
    with assms Cons show ?thesis by auto
  qed (simp add: Cons)
qed (use assms in simp)

lemma mark_at_before:
  assumes "\<And>a. a \<in> set links \<Longrightarrow> int i < hd (a_starts a)"
  shows "mark_at links i = Plain"
proof -
  have "find (\<lambda>a. covers a (int i)) links = None"
    using assms by (force simp: find_None_iff covers_def)
  then show ?thesis by (simp add: mark_at_def)
qed

lemma mark_at_Cons: "mark_at (a # rest) i = (if covers a (int i) then mark_of a else mark_at rest i)"
  by (simp add: mark_at_def)

lemma describes_loop:
  assumes "chain text p links" "links \<noteq> []" "hd (a_starts (hd links)) = int start" "\<forall>a \<in> set (tl links). hd (a_starts a) \<noteq> 0"
  shows "describes text as (mark_at links) start (length text) (link_loop text as (int start) links)"
  using assms
proof (induction links arbitrary: p start)
  case Nil
  then show ?case by simp
next
  case (Cons a rest)
  let ?e = "nat (hd (a_ends a))"
  let ?cur = "if a_type a = ''link'' \<or> a_type a = ''range''
     then [InlLink (a_type a) (a_ref a) (getSlicedContent text as (int start) (int ?e))]
     else if a_type a = ''inline-embed'' then [InlEmbed (a_ref a)] else []"
  define ne where "ne = (case rest of b # _ \<Rightarrow> nat (hd (a_starts b)) | [] \<Rightarrow> length text)"
  have a: "int start = hd (a_starts a)" "hd (a_starts a) < hd (a_ends a)" "hd (a_ends a) \<le> int (length text)"
    "link_like a" "chain text (hd (a_ends a)) rest"
    using Cons.prems by auto
  have e: "int ?e = hd (a_ends a)" "start < ?e" "?e \<le> length text" using a by linarith+
  have ne: "?e \<le> ne" "ne \<le> length text" "rest \<noteq> [] \<Longrightarrow> hd (a_starts (hd rest)) = int ne"
    using a(5) e by (auto simp: ne_def split: list.splits)
  have loop: "link_loop text as (int start) (a # rest)
      = ?cur @ getSlicedContent text as (int ?e) (int ne) @ link_loop text as (int ne) rest"
    using a(1) e(1) ne Cons.prems(4) by (cases rest) (auto simp: ne_def Let_def)
  have rest_ge: "int ne \<le> hd (a_starts b)" if "b \<in> set rest" for b
    using chain_hd_least [OF a(5) that] ne(3) that by force
  have cur: "describes text as (mark_at (a # rest)) start ?e ?cur"
  proof (cases "a_type a = ''inline-embed''")
    case True
    then have "hd (a_ends a) = hd (a_starts a) + 1" "text ! nat (hd (a_starts a)) = CHR '' ''"
      using Cons.prems(1) by auto
    then have "?e = Suc start" "text ! start = CHR '' ''" by (auto simp: a(1) [symmetric])
    with True a e show ?thesis
      by (auto intro!: describes_embed simp: mark_at_Cons covers_def mark_of_def)
  next
    case False
    then have ty: "a_type a = ''link'' \<or> a_type a = ''range''" using a(4) by (auto simp: link_like_def)
    have "describes text as (mark_at (a # rest)) start ?e
       [InlLink (a_type a) (a_ref a) (getSlicedContent text as (int start) (int ?e))]"
      using a e False by (intro describes_link) (auto simp: mark_at_Cons covers_def mark_of_def)
    with ty show ?thesis by simp
  qed
  have plain: "describes text as (mark_at (a # rest)) ?e ne (getSlicedContent text as (int ?e) (int ne))"
  proof (rule describes_plain [OF ne(1,2)])
    fix i assume i: "?e \<le> i" "i < ne"
    have "mark_at rest i = Plain" using rest_ge i by (intro mark_at_before) fastforce
    moreover have "\<not> covers a (int i)" using i e(1) by (auto simp: covers_def)
    ultimately show "mark_at (a # rest) i = Plain" by (simp add: mark_at_Cons)
  qed
  have later: "describes text as (mark_at (a # rest)) ne (length text) (link_loop text as (int ne) rest)"
  proof (cases "rest = []")
    case True
    then show ?thesis by (simp add: ne_def describes_def)
  next
    case False
    have "describes text as (mark_at rest) ne (length text) (link_loop text as (int ne) rest)"
      using Cons.IH [OF a(5) False] ne(3) [OF False] Cons.prems(4)
      by (cases rest) auto
    then show ?thesis
      by (rule describes_cong) (use ne e in \<open>auto simp: mark_at_Cons covers_def\<close>)
  qed
  show ?case unfolding loop
    by (intro describes_append [OF cur describes_append [OF plain later ne(1,2)]]) (use e ne in auto)
qed

lemma chain_tl_pos: "chain t p links \<Longrightarrow> 0 \<le> p \<Longrightarrow> a \<in> set (tl links) \<Longrightarrow> hd (a_starts a) \<noteq> 0"
  using chain_starts by (cases links) fastforce+

lemma inline_content_describes:
  assumes "b_text block = Some t" "b_annotations block = Some as"
    and "chain t 0 (links_of as)"
  shows "\<exists>xs. toHMInlineContent block = Inr xs \<and> describes t as (mark_at (links_of as)) 0 (length t) xs"
proof (cases "filter link_like as = []")
  case True
  have "describes t as (mark_at []) 0 (length t) (partialBlockToStyledText (Some t) (Some as))"
    using styled_text_at [where t = t and as = as]
    by (auto simp: describes_def mark_at_def flat_only_text only_text_styled split_beta)
  with True assms show ?thesis by (simp add: toHMInlineContent_def links_of_def)
next
  case False
  let ?l = "links_of as"
  have set: "set ?l = set (filter link_like as)" by (simp add: links_of_def)
  have ne: "?l \<noteq> []" using False set by (metis set_empty)
  have ok: "length (a_starts a) = 1 \<and> length (a_ends a) = 1" if "a \<in> set links" "chain t p links" for a p links
    using that by (induction t p links rule: chain.induct) auto
  define start where "start = nat (hd (a_starts (hd ?l)))"
  have s: "hd (a_starts (hd ?l)) = int start" "start \<le> length t"
    using assms(3) ne by (cases ?l; auto simp: start_def)+
  have eq: "toHMInlineContent block
      = Inr (getSlicedContent t as (int 0) (int start) @ link_loop t as (int start) ?l)"
    using False assms(1,2) ok [OF _ assms(3)] s(1) set
    by (auto simp: toHMInlineContent_def Let_def links_of_def [symmetric])
  have "describes t as (mark_at ?l) 0 start (getSlicedContent t as (int 0) (int start))"
  proof (rule describes_plain)
    fix i assume "i < start"
    then show "mark_at ?l i = Plain"
    proof (intro mark_at_before)
      fix a assume a: "a \<in> set ?l"
      have "hd (a_starts (hd ?l)) \<le> hd (a_starts a)" by (rule chain_hd_least [OF assms(3) a])
      then show "int i < hd (a_starts a)" using s(1) \<open>i < start\<close> by simp
    qed
  qed (use s in auto)
  moreover have "describes t as (mark_at ?l) start (length t) (link_loop t as (int start) ?l)"
    by (rule describes_loop [OF assms(3) ne s(1)]) (use chain_tl_pos [OF assms(3)] in auto)
  ultimately show ?thesis using eq describes_append s(2) by blast
qed

text \<open>
  C26. Text with annotations becomes text runs without loss: the runs hold the characters of
  the text in order, and each character carries a style exactly when some annotation of that
  style covers its position.
\<close>

theorem styled_text_faithful:
  "map fst (expand (partialBlockToStyledText (Some t) (Some as))) = t \<and>
   (\<forall>i < length t. \<forall>k. style_on (snd (expand (partialBlockToStyledText (Some t) (Some as)) ! i)) k
      \<longleftrightarrow> covered as i k)"
  by (auto intro!: nth_equalityI simp: styled_text_at)

theorem styled_text_faithful_witness:
  "map fst (expand (partialBlockToStyledText (Some ''ab'')
     (Some [\<lparr>a_type = ''strong'', a_ref = [], a_attributes = [], a_starts = [1], a_ends = [2]\<rparr>]))) = ''ab''"
  using styled_text_faithful [of "''ab''" "[\<lparr>a_type = ''strong'', a_ref = [], a_attributes = [], a_starts = [1], a_ends = [2]\<rparr>]"]
  by (rule conjunct1)

text \<open>
  C27. Inline content with links and embeds. When the link, range and embed annotations are
  disjoint, inside the text and of one span each, \<open>toHMInlineContent\<close> succeeds, and what it
  returns shows every character of the text in order, inside the link whose annotation covers
  it and with exactly the styles that cover it (an embed stands for the space it covers).
\<close>

theorem toHMInlineContent_faithful:
  assumes "b_text block = Some t" "b_annotations block = Some as"
    and "chain t 0 (links_of as)"
  shows "\<exists>xs. toHMInlineContent block = Inr xs \<and> describes t as (mark_at (links_of as)) 0 (length t) xs"
  using assms by (rule inline_content_describes)

definition link_sample :: hm_block where
  "link_sample = (new_block ''b'' ''paragraph'')\<lparr>b_text := Some ''ab cd'', b_annotations := Some
     [\<lparr>a_type = ''link'', a_ref = ''hm://d/x'', a_attributes = [], a_starts = [0], a_ends = [2]\<rparr>,
      \<lparr>a_type = ''inline-embed'', a_ref = ''hm://d/y'', a_attributes = [], a_starts = [2], a_ends = [3]\<rparr>,
      \<lparr>a_type = ''strong'', a_ref = [], a_attributes = [], a_starts = [1], a_ends = [4]\<rparr>]\<rparr>"

theorem toHMInlineContent_faithful_witness:
  "\<exists>xs. toHMInlineContent link_sample = Inr xs \<and>
     describes ''ab cd'' (the (b_annotations link_sample)) (mark_at (links_of (the (b_annotations link_sample)))) 0 5 xs"
proof -
  have "chain ''ab cd'' 0 (links_of (the (b_annotations link_sample)))" by code_simp
  moreover have "b_text link_sample = Some ''ab cd''" "b_annotations link_sample = Some (the (b_annotations link_sample))"
    by (simp_all add: link_sample_def)
  moreover have "length ''ab cd'' = 5" by simp
  ultimately show ?thesis
    using toHMInlineContent_faithful [of link_sample "''ab cd''" "the (b_annotations link_sample)"] by metis
qed

end
