(* ===== verification/Block_Convert.thy ===== *)
theory Block_Convert
  imports Styled_Text
begin

text \<open>
  Blocks between the editor and the server:
  \<^verbatim>\<open>frontend/packages/shared/src/client/from-hm-block.ts\<close> (\<open>extractContent\<close>,
  \<open>fromHMBlock\<close>), the second half of \<^verbatim>\<open>to-hm-block.ts\<close> (\<open>toHMBlock\<close> and the functions
  it recurses through) and \<^verbatim>\<open>utils/ipfs-cid.ts\<close>. The lemmas relate what is saved to what
  is loaded: \<open>extractContent\<close> covers each position with the styles it has, and loading what was
  saved shows the same text, links and styles.

  An inline without a content field has the empty content here, and a number among the props
  is written as its decimal numeral.
\<close>

section \<open>Saving inline content\<close>

definition styleMarkToAnnotationType :: "string \<Rightarrow> string result" where
  "styleMarkToAnnotationType style =
     (if style = ''bold'' then Inr ''strong''
      else if style = ''italic'' then Inr ''emphasis''
      else if style = ''underline'' then Inr ''underline''
      else if style = ''strike'' then Inr ''strike''
      else if style = ''code'' then Inr ''code''
      else Inl (Error ''Cannot handle this style yet''))"

text \<open>\<open>styleStarts\<close> is the list of its own keys in insertion order, each with the index it starts at.\<close>

record extract_state =
  x_text :: string
  x_annotations :: "annotation list"
  x_starts :: "(string \<times> nat) list"
  x_index :: nat

definition extract_init :: extract_state where
  "extract_init = \<lparr>x_text = [], x_annotations = [], x_starts = [], x_index = 0\<rparr>"

definition span_annotation :: "string \<Rightarrow> string \<Rightarrow> nat \<Rightarrow> nat \<Rightarrow> annotation" where
  "span_annotation ty ref s e =
     \<lparr>a_type = ty, a_ref = ref, a_attributes = [], a_starts = [int s], a_ends = [int e]\<rparr>"

definition start_styles :: "nat \<Rightarrow> styles \<Rightarrow> (string \<times> nat) list \<Rightarrow> (string \<times> nat) list" where
  "start_styles i styles starts =
     foldl (\<lambda>ss (k, v). if v \<and> map_of ss k = None then ss @ [(k, i)] else ss) starts styles"

definition close_span :: "nat \<Rightarrow> string \<times> nat \<Rightarrow> annotation result" where
  "close_span i p = map_result (\<lambda>ty. span_annotation ty [] (snd p) i) (styleMarkToAnnotationType (fst p))"

text \<open>Styles that are open and not on any more are closed at the current index, in order.\<close>

definition end_styles ::
  "nat \<Rightarrow> styles \<Rightarrow> (string \<times> nat) list \<Rightarrow> (annotation list \<times> (string \<times> nat) list) result" where
  "end_styles i styles starts =
     map_result (\<lambda>as. (as, filter (\<lambda>p. style_on styles (fst p)) starts))
       (traverse (close_span i) (filter (\<lambda>p. \<not> style_on styles (fst p)) starts))"

text \<open>The closing loop after all inlines.\<close>

definition extract_close :: "extract_state \<Rightarrow> (string \<times> annotation list) result" where
  "extract_close st = map_result (\<lambda>as. (x_text st, x_annotations st @ as))
     (traverse (close_span (x_index st)) (x_starts st))"

definition extract_text :: "extract_state \<Rightarrow> string \<Rightarrow> styles \<Rightarrow> extract_state result" where
  "extract_text st t styles = map_result
     (\<lambda>(as, ss). st\<lparr>x_text := x_text st @ t, x_annotations := x_annotations st @ as,
                    x_starts := ss, x_index := x_index st + length t\<rparr>)
     (end_styles (x_index st) styles (start_styles (x_index st) styles (x_starts st)))"

definition extract_link :: "extract_state \<Rightarrow> string \<Rightarrow> string \<times> annotation list \<Rightarrow> extract_state" where
  "extract_link st href c = st\<lparr>x_text := x_text st @ fst c,
     x_annotations := x_annotations st @ map (shift_annotation (- int (x_index st))) (snd c)
       @ [span_annotation ''link'' href (x_index st) (x_index st + length (fst c))],
     x_index := x_index st + length (fst c)\<rparr>"

definition extract_embed :: "extract_state \<Rightarrow> string \<Rightarrow> extract_state" where
  "extract_embed st ref = st\<lparr>x_text := x_text st @ '' '',
     x_annotations := x_annotations st @ [span_annotation ''inline-embed'' ref (x_index st) (x_index st + 1)],
     x_index := x_index st + 1\<rparr>"

fun extract_loop :: "extract_state \<Rightarrow> inline list \<Rightarrow> extract_state result" where
  "extract_loop st [] = Inr st"
| "extract_loop st (InlLink ty href content # rest) =
     (if ty = ''link''
      then bind_result (bind_result (extract_loop extract_init content) extract_close)
             (\<lambda>c. extract_loop (extract_link st href c) rest)
      else Inl TypeError)"
| "extract_loop st (InlEmbed ref # rest) = extract_loop (extract_embed st ref) rest"
| "extract_loop st (InlText t styles # rest) =
     bind_result (extract_text st t styles) (\<lambda>st'. extract_loop st' rest)"

definition extractContent :: "inline list \<Rightarrow> (string \<times> annotation list) result" where
  "extractContent content = bind_result (extract_loop extract_init content) extract_close"

section \<open>Saving blocks\<close>

text \<open>A reference that is neither a web address nor an IPFS URL is made one; \<open>ref || ''\<close>.\<close>

definition ipfs_ref :: "string option \<Rightarrow> string" where
  "ipfs_ref url = (case url of None \<Rightarrow> []
    | Some u \<Rightarrow> if u = [] then [] else
        if \<not> starts_with u ''http'' \<and> \<not> starts_with u ''ipfs://'' then ''ipfs://'' @ u else u)"

text \<open>An attributes object with the given properties; an undefined property reads as undefined.\<close>

definition attributes :: "(string \<times> string option) list \<Rightarrow> (string \<Rightarrow> string option) option" where
  "attributes kvs = Some (\<lambda>k. case map_of kvs k of None \<Rightarrow> None | Some v \<Rightarrow> v)"

definition default_str :: "string option \<Rightarrow> string" where
  "default_str v = (case v of None \<Rightarrow> [] | Some s \<Rightarrow> s)"

definition from_extractChildrenType :: "hm_block \<Rightarrow> block_props \<Rightarrow> hm_block" where
  "from_extractChildrenType block props =
     (let at = (\<lambda>b k v. b\<lparr>b_attributes := map_option (\<lambda>m. m(k := v)) (b_attributes b)\<rparr>);
          block1 = (if truthy (p_childrenType props)
                    then at (at block ''childrenType'' (p_childrenType props)) ''listLevel'' (p_listLevel props)
                    else block)
      in if truthy (p_start props) then at block1 ''start'' (p_start props) else block1)"

definition with_content :: "hm_block \<Rightarrow> inline list \<Rightarrow> hm_block result" where
  "with_content b content = map_result (\<lambda>(t, as). b\<lparr>b_text := Some t, b_annotations := Some as\<rparr>)
     (extractContent content)"

definition fromHMBlock :: "editor_block \<Rightarrow> hm_block result" where
  "fromHMBlock b =
     (let i = e_id b; ty = e_type b; props = e_props b; content = e_content b;
          res = (if ty = ''paragraph''
             then with_content (new_block i ''paragraph'') content
           else if ty = ''heading''
             then with_content ((new_block i ''heading'')\<lparr>b_attributes := attributes [(''level'', p_level props)]\<rparr>) content
           else if ty = ''math'' \<or> ty = ''equation''
             then with_content (new_block i ''math'') content
           else if ty = ''image''
             then with_content ((new_block i ''image'')\<lparr>
               b_attributes := attributes [(''name'', p_name props), (''width'', p_width props)],
               b_ref := Some (ipfs_ref (p_url props))\<rparr>) content
           else if ty = ''imagePlaceholder''
             then with_content ((new_block i ''image'')\<lparr>
               b_attributes := attributes [(''name'', p_name props)]\<rparr>) content
           else if ty = ''file''
             then Inr ((new_block i ''file'')\<lparr>
               b_attributes := attributes [(''name'', p_name props), (''size'', p_size props)],
               b_ref := Some (ipfs_ref (p_url props))\<rparr>)
           else if ty = ''nostr''
             then Inr ((new_block i ''file'')\<lparr>
               b_attributes := attributes [(''subType'', Some ''nostr:note''), (''name'', p_name props),
                 (''size'', p_size props), (''text'', p_text props)],
               b_ref := Some (ipfs_ref (p_url props))\<rparr>)
           else if ty = ''web-embed''
             then Inr ((new_block i ''web-embed'')\<lparr>b_ref := Some (default_str (p_url props))\<rparr>)
           else if ty = ''video''
             then Inr ((new_block i ''video'')\<lparr>
               b_attributes := attributes [(''name'', p_name props), (''width'', p_width props)],
               b_ref := Some (ipfs_ref (p_url props))\<rparr>)
           else if ty = ''embed''
             then Inr ((new_block i ''embed'')\<lparr>
               b_ref := Some (default_str (p_url props)),
               b_attributes := attributes [(''view'', p_view props)]\<rparr>)
           else if ty = ''codeBlock''
             then with_content ((new_block i ''codeBlock'')\<lparr>
               b_attributes := attributes [(''language'', p_language props)]\<rparr>) content
           else Inl (Error ''not implemented''))
      in if i = [] then Inl (Error ''this block has no id'')
         else map_result (\<lambda>r. from_extractChildrenType r props) res)"

section \<open>Loading blocks\<close>

definition extractChildrenType :: "string option \<Rightarrow> string" where
  "extractChildrenType ct =
     (if ct = Some ''ol'' then ''ol''
      else if ct = Some ''ul'' then ''ul''
      else if ct = Some ''blockquote'' then ''blockquote''
      else ''group'')"

text \<open>The pattern \<open>ipfs://(.+)\<close>: the leftmost occurrence followed by at least one character that does not end the line.\<close>

fun ipfs_match :: "string \<Rightarrow> string option" where
  "ipfs_match [] = None"
| "ipfs_match (c # s) =
     (let m = takeWhile (\<lambda>c. c \<noteq> CHR 0x0A \<and> c \<noteq> CHR 0x0D) (drop 6 s)
      in if starts_with (c # s) ''ipfs://'' \<and> m \<noteq> [] then Some m else ipfs_match s)"

definition getCIDFromIPFSUrl :: "string option \<Rightarrow> string option" where
  "getCIDFromIPFSUrl url = (case url of None \<Rightarrow> None | Some u \<Rightarrow> ipfs_match u)"

definition leaf_props :: "hm_block \<Rightarrow> block_props" where
  "leaf_props b = no_props\<lparr>p_childrenType := Some (extractChildrenType (attr b ''childrenType''))\<rparr>"

text \<open>The recursion goes down the tree.\<close>

definition nodes_size :: "block_node list option \<Rightarrow> nat" where
  "nodes_size cs = (case cs of None \<Rightarrow> 0 | Some ns \<Rightarrow> size_list size ns)"

lemma nodes_size_children:
  "3 * nodes_size (node_children n) < Suc (3 * size n)"
  "node_children n = Some ns \<Longrightarrow> 3 * nodes_size (Some ns) < Suc (Suc (3 * size n))"
  by (cases n; auto simp: nodes_size_def split: option.split)+

lemma nodes_size_elem: "n \<in> set ns \<Longrightarrow> Suc (Suc (3 * size n)) < 3 * nodes_size (Some ns)"
  by (induction ns) (auto simp: nodes_size_def)

text \<open>The block types that are converted without recursion.\<close>

definition leaf_block :: "hm_block \<Rightarrow> editor_block result option" where
  "leaf_block b =
     (if b_type b = ''image'' then Some (map_result (\<lambda>c. EditorBlock (b_id b) ''image''
         ((leaf_props b)\<lparr>p_url := b_ref b, p_name := attr b ''name'', p_width := attr b ''width'',
            p_textAlignment := Some ''left''\<rparr>) c []) (toHMInlineContent b))
      else if b_type b = ''file'' then
        (if (case attr b ''subType'' of None \<Rightarrow> False | Some s \<Rightarrow> starts_with s ''nostr:'')
         then Some (Inr (EditorBlock (b_id b) ''nostr''
           ((leaf_props b)\<lparr>p_url := getCIDFromIPFSUrl (b_ref b), p_name := attr b ''name'',
              p_size := attr b ''size'', p_textAlignment := Some ''left''\<rparr>) [] []))
         else Some (Inr (EditorBlock (b_id b) ''file''
           ((leaf_props b)\<lparr>p_url := b_ref b, p_name := attr b ''name'',
              p_size := attr b ''size'', p_textAlignment := Some ''left''\<rparr>) [] [])))
      else if b_type b = ''video'' then Some (map_result (\<lambda>c. EditorBlock (b_id b) ''video''
          ((leaf_props b)\<lparr>p_url := b_ref b, p_name := attr b ''name'', p_width := attr b ''width''\<rparr>) c [])
          (toHMInlineContent b))
      else if b_type b = ''web-embed'' then Some (Inr (EditorBlock (b_id b) ''web-embed''
          ((leaf_props b)\<lparr>p_url := b_ref b\<rparr>) [] []))
      else if b_type b = ''embed'' then Some (Inr (EditorBlock (b_id b) ''embed''
          ((leaf_props b)\<lparr>p_url := b_ref b,
             p_view := (if truthy (attr b ''view'') then attr b ''view'' else Some ''content''),
             p_textAlignment := Some ''left''\<rparr>) [] []))
      else if b_type b = ''codeBlock'' then Some (map_result (\<lambda>c. EditorBlock (b_id b) ''codeBlock''
          ((leaf_props b)\<lparr>p_language := attr b ''language'', p_textAlignment := Some ''left''\<rparr>) c [])
          (toHMInlineContent b))
      else None)"

text \<open>The attributes that replace props of the converted block, when they are there.\<close>

definition override_props :: "hm_block \<Rightarrow> block_props \<Rightarrow> block_props" where
  "override_props b p0 =
     (let p1 = (if truthy (attr b ''childrenType'') then p0\<lparr>p_childrenType := attr b ''childrenType''\<rparr> else p0);
          p2 = (if truthy (attr b ''start'') then p1\<lparr>p_start := attr b ''start''\<rparr> else p1)
      in if truthy (attr b ''listLevel'') then p2\<lparr>p_listLevel := attr b ''listLevel''\<rparr> else p2)"

text \<open>
  \<open>toHMBlock\<close> and the functions it calls: the level of the options, 0 when there is none. The
  recursive functions compute the children once, and \<open>toHMBlock\<close> computes them again one level
  deeper when there are any.
\<close>

function toHMBlock :: "block_node list option \<Rightarrow> nat \<Rightarrow> editor_block list result"
  and toHMBlock_one :: "nat \<Rightarrow> block_node \<Rightarrow> editor_block result"
  and toHMBlockParagraph :: "block_node \<Rightarrow> nat \<Rightarrow> editor_block result"
  and toHMBlockHeading :: "block_node \<Rightarrow> nat \<Rightarrow> editor_block result"
  and toHMBlockMath :: "block_node \<Rightarrow> nat \<Rightarrow> editor_block result" where
  "toHMBlock children level =
     (case children of None \<Rightarrow> Inr [] | Some ns \<Rightarrow> traverse (toHMBlock_one level) ns)"
| "toHMBlock_one level n =
     bind_result
       (case node_block n of
          None \<Rightarrow> toHMBlockParagraph n level
        | Some b \<Rightarrow> (case leaf_block b of
            Some res \<Rightarrow> res
          | None \<Rightarrow>
              if b_type b = ''heading'' then toHMBlockHeading n level
              else if b_type b = ''math'' \<or> b_type b = ''equation'' then toHMBlockMath n level
              else toHMBlockParagraph n level))
       (\<lambda>res.
          let props = (case node_block n of None \<Rightarrow> e_props res | Some b \<Rightarrow> override_props b (e_props res))
          in if node_children n = None \<or> node_children n = Some []
             then Inr (EditorBlock (e_id res) (e_type res) props (e_content res) (e_children res))
             else map_result (EditorBlock (e_id res) (e_type res) props (e_content res))
               (toHMBlock (node_children n) (if level = 0 then 1 else level + 1)))"
| "toHMBlockParagraph n level = (case node_block n of
      None \<Rightarrow> Inl (Error ''Server BlockNode is missing Block data'')
    | Some b \<Rightarrow> bind_result (toHMInlineContent b) (\<lambda>c.
        map_result (EditorBlock (b_id b) ''paragraph'' (leaf_props b) c) (toHMBlock (node_children n) level)))"
| "toHMBlockHeading n level = (case node_block n of
      None \<Rightarrow> Inl (Error ''Server BlockNode is missing Block data'')
    | Some b \<Rightarrow> bind_result (toHMInlineContent b) (\<lambda>c.
        map_result (EditorBlock (b_id b) ''heading''
            (no_props\<lparr>p_level := Some (show_nat (if level = 0 then 1 else level))\<rparr>) c)
          (toHMBlock (node_children n) (level + 1))))"
| "toHMBlockMath n level = (case node_block n of
      None \<Rightarrow> Inl (Error ''Server BlockNode is missing Block data'')
    | Some b \<Rightarrow> bind_result (toHMInlineContent b) (\<lambda>c.
        map_result (EditorBlock (b_id b) ''math'' (leaf_props b) c) (toHMBlock (node_children n) level)))"
  by pat_completeness auto


termination
  by (relation "measure (\<lambda>x. case x of
      Inl (Inl (cs, _)) \<Rightarrow> 3 * nodes_size cs
    | Inl (Inr (_, n)) \<Rightarrow> 3 * size n + 2
    | Inr (Inl (n, _)) \<Rightarrow> 3 * size n + 1
    | Inr (Inr (Inl (n, _))) \<Rightarrow> 3 * size n + 1
    | Inr (Inr (Inr (n, _))) \<Rightarrow> 3 * size n + 1)")
    (simp_all add: nodes_size_children nodes_size_elem, auto simp: nodes_size_children)


section \<open>What is saved covers what was shown\<close>

definition known_style :: "string \<Rightarrow> bool" where
  "known_style k \<longleftrightarrow> k \<in> {''bold'', ''italic'', ''underline'', ''strike'', ''code''}"

text \<open>A styles object: keys once, and every style that is on has an annotation type.\<close>

definition styles_ok :: "styles \<Rightarrow> bool" where
  "styles_ok st \<longleftrightarrow> distinct (map fst st) \<and> (\<forall>(k, v) \<in> set st. v \<longrightarrow> known_style k)"

fun content_ok :: "inline list \<Rightarrow> bool" where
  "content_ok [] \<longleftrightarrow> True"
| "content_ok (InlText t st # xs) \<longleftrightarrow> styles_ok st \<and> content_ok xs"
| "content_ok (InlLink ty h c # xs) \<longleftrightarrow> ty = ''link'' \<and> content_ok c \<and> content_ok xs"
| "content_ok (InlEmbed r # xs) \<longleftrightarrow> content_ok xs"

definition on_styles :: "styles \<Rightarrow> string set" where
  "on_styles st = {k. style_on st k}"

text \<open>
  The characters of inline content with the styles they are saved with: those of their text
  run; inside a link or at an embed, also those that are on in the last run before it.
\<close>

fun carry :: "string set \<Rightarrow> inline list \<Rightarrow> (char \<times> string set) list" where
  "carry cur [] = []"
| "carry cur (InlText t st # xs) = map (\<lambda>c. (c, on_styles st)) t @ carry (on_styles st) xs"
| "carry cur (InlLink ty h c # xs) = map (\<lambda>(ch, s). (ch, s \<union> cur)) (carry {} c) @ carry cur xs"
| "carry cur (InlEmbed r # xs) = (CHR '' '', cur) # carry cur xs"

fun last_on :: "string set \<Rightarrow> inline list \<Rightarrow> string set" where
  "last_on cur [] = cur"
| "last_on cur (InlText t st # xs) = last_on (on_styles st) xs"
| "last_on cur (_ # xs) = last_on cur xs"

lemma styleMark_known: "known_style k \<Longrightarrow> \<exists>ty. styleMarkToAnnotationType k = Inr ty"
  by (auto simp: known_style_def styleMarkToAnnotationType_def)

lemma annotationStyle_mark:
  "styleMarkToAnnotationType k = Inr ty \<Longrightarrow> a_type a = ty \<Longrightarrow> annotationStyle a = [(k, True)]"
  by (auto simp: styleMarkToAnnotationType_def annotationStyle_def split: if_splits)

lemma annotationStyle_span_link:
  "annotationStyle (span_annotation ''link'' r s e) = []"
  "annotationStyle (span_annotation ''inline-embed'' r s e) = []"
  by (simp_all add: annotationStyle_def span_annotation_def)

lemma covered_append [simp]: "covered (as @ bs) i k \<longleftrightarrow> covered as i k \<or> covered bs i k"
  by (auto simp: covered_def)

lemma covered_Nil [simp]: "\<not> covered [] i k"
  by (simp add: covered_def)

lemma covered_link [simp]:
  "\<not> covered [span_annotation ''link'' r s e] i k"
  "\<not> covered [span_annotation ''inline-embed'' r s e] i k"
  by (simp_all add: covered_def annotationStyle_span_link)

lemma close_spans:
  assumes "\<forall>(k, s) \<in> set ps. known_style k"
  shows "\<exists>as. traverse (close_span i) ps = Inr as
    \<and> (\<forall>j k. covered as j k \<longleftrightarrow> (\<exists>s. (k, s) \<in> set ps \<and> s \<le> j \<and> j < i))
    \<and> filter link_like as = []"
  using assms
proof (induction ps)
  case Nil
  then show ?case by simp
next
  case (Cons p ps)
  obtain k s where p: "p = (k, s)" by (cases p)
  from Cons.prems p obtain ty where ty: "styleMarkToAnnotationType k = Inr ty" using styleMark_known by auto
  let ?a = "span_annotation ty [] s i"
  have st: "annotationStyle ?a = [(k, True)]" using annotationStyle_mark [OF ty] by (simp add: span_annotation_def)
  from Cons obtain as where as: "traverse (close_span i) ps = Inr as"
    "\<forall>j k. covered as j k \<longleftrightarrow> (\<exists>s. (k, s) \<in> set ps \<and> s \<le> j \<and> j < i)" "filter link_like as = []" by auto
  have one: "covered [?a] j k' \<longleftrightarrow> k' = k \<and> s \<le> j \<and> j < i" for j k'
    by (auto simp: covered_def st) (auto simp: span_annotation_def)
  have cov: "covered (?a # as) j k' \<longleftrightarrow> (\<exists>s'. (k', s') \<in> set (p # ps) \<and> s' \<le> j \<and> j < i)" for j k'
    using covered_append [of "[?a]" as j k'] one as(2) p by auto
  have "\<not> link_like ?a"
    using ty by (auto simp: link_like_def span_annotation_def styleMarkToAnnotationType_def split: if_splits)
  moreover have "traverse (close_span i) (p # ps) = Inr (?a # as)"
    using as(1) ty p by (simp add: close_span_def)
  ultimately show ?case using cov as(3) by auto
qed

lemma start_styles_props:
  assumes "distinct (map fst starts)"
  shows "distinct (map fst (start_styles i st starts))"
    and "map_of (start_styles i st starts) k = (case map_of starts k of Some s \<Rightarrow> Some s
           | None \<Rightarrow> if (k, True) \<in> set st then Some i else None)"
proof -
  let ?f = "\<lambda>ss (k, v). if v \<and> map_of ss k = None then ss @ [(k, i)] else ss"
  have "distinct (map fst (foldl ?f starts st)) \<and> (\<forall>k. map_of (foldl ?f starts st) k = (case map_of starts k of Some s \<Rightarrow> Some s
           | None \<Rightarrow> if (k, True) \<in> set st then Some i else None))"
    using assms
  proof (induction st arbitrary: starts)
    case Nil
    then show ?case by (auto split: option.split)
  next
    case (Cons p st)
    obtain k' v where p: "p = (k', v)" by (cases p)
    have "distinct (map fst (?f starts p))"
      using Cons.prems p by (auto simp: map_of_eq_None_iff)
    note IH = Cons.IH [OF this]
    show ?case using IH p by (auto simp: map_add_def split: option.splits if_splits)
  qed
  then show "distinct (map fst (start_styles i st starts))"
    and "map_of (start_styles i st starts) k = (case map_of starts k of Some s \<Rightarrow> Some s
           | None \<Rightarrow> if (k, True) \<in> set st then Some i else None)"
    by (auto simp: start_styles_def)
qed

lemma style_on_ok: "styles_ok st \<Longrightarrow> style_on st k \<longleftrightarrow> (k, True) \<in> set st"
  by (auto simp: styles_ok_def style_on_def dest: map_of_SomeD)

text \<open>A state of the loop: what it covers so far, with the styles that are open.\<close>

definition shown :: "extract_state \<Rightarrow> nat \<Rightarrow> string \<Rightarrow> bool" where
  "shown st i k \<longleftrightarrow> covered (x_annotations st) i k \<or>
     (\<exists>s. map_of (x_starts st) k = Some s \<and> s \<le> i \<and> i < x_index st)"

definition nonneg :: "annotation list \<Rightarrow> bool" where
  "nonneg as \<longleftrightarrow> (\<forall>a \<in> set as. \<forall>s \<in> set (a_starts a). 0 \<le> s)"

lemma nonneg_simps [simp]: "nonneg []" "nonneg (as @ bs) \<longleftrightarrow> nonneg as \<and> nonneg bs"
  "nonneg (a # as) \<longleftrightarrow> (\<forall>s \<in> set (a_starts a). 0 \<le> s) \<and> nonneg as"
  by (auto simp: nonneg_def)

lemma span_annotation_starts [simp]: "a_starts (span_annotation ty r s e) = [int s]"
  by (simp add: span_annotation_def)

lemma nonneg_close: "traverse (close_span i) ps = Inr as \<Longrightarrow> nonneg as"
proof (induction ps arbitrary: as)
  case (Cons p ps)
  then show ?case
    by (auto simp: bind_result_Inr_iff map_result_Inr_iff close_span_def)
qed simp

definition extract_inv :: "string set \<Rightarrow> extract_state \<Rightarrow> bool" where
  "extract_inv cur st \<longleftrightarrow> distinct (map fst (x_starts st)) \<and> dom (map_of (x_starts st)) = cur \<and>
     (\<forall>k \<in> cur. known_style k) \<and> (\<forall>(k, s) \<in> set (x_starts st). s \<le> x_index st) \<and>
     x_index st = length (x_text st) \<and> (\<forall>i k. covered (x_annotations st) i k \<longrightarrow> i < x_index st) \<and> nonneg (x_annotations st)"

text \<open>Going from one state to a later one adds the given characters with their styles.\<close>

definition extends_by :: "(char \<times> string set) list \<Rightarrow> extract_state \<Rightarrow> extract_state \<Rightarrow> bool" where
  "extends_by new st st' \<longleftrightarrow> x_text st' = x_text st @ map fst new \<and>
     (\<forall>i k. shown st' i k \<longleftrightarrow> (if i < x_index st then shown st i k
        else i - x_index st < length new \<and> k \<in> snd (new ! (i - x_index st))))"

lemma shown_lt: "extract_inv cur st \<Longrightarrow> shown st i k \<Longrightarrow> i < x_index st"
  by (auto simp: shown_def extract_inv_def)

lemma extends_by_trans:
  assumes "extract_inv c st" "extract_inv c' st'" "extends_by a st st'" "extends_by b st' st''"
  shows "extends_by (a @ b) st st''"
proof -
  have idx: "x_index st' = x_index st + length a"
    using assms(1,2,3) by (simp add: extract_inv_def extends_by_def)
  show ?thesis
    using assms(3,4) idx unfolding extends_by_def
    by (auto simp: nth_append)
qed

lemma extract_text_step:
  assumes inv: "extract_inv cur st" and ok: "styles_ok styles"
  shows "\<exists>st'. extract_text st t styles = Inr st' \<and> extract_inv (on_styles styles) st'
     \<and> extends_by (map (\<lambda>c. (c, on_styles styles)) t) st st'
     \<and> filter link_like (x_annotations st') = filter link_like (x_annotations st)"
proof -
  let ?i = "x_index st"
  let ?ss = "start_styles ?i styles (x_starts st)"
  let ?open = "filter (\<lambda>p. style_on styles (fst p)) ?ss"
  let ?shut = "filter (\<lambda>p. \<not> style_on styles (fst p)) ?ss"
  have d0: "distinct (map fst (x_starts st))" using inv by (simp add: extract_inv_def)
  note d = start_styles_props(1) [OF d0, of ?i styles]
  have mof: "map_of ?ss k = Some s \<longleftrightarrow> (k, s) \<in> set ?ss" for k s
    using d by simp
  have ss: "map_of ?ss k = (case map_of (x_starts st) k of Some s \<Rightarrow> Some s
           | None \<Rightarrow> if style_on styles k then Some ?i else None)" for k
    using start_styles_props(2) [OF d0, of ?i styles k] style_on_ok [OF ok] by simp
  have known: "known_style k" if "(k, s) \<in> set ?ss" for k s
  proof -
    from that mof have "map_of ?ss k = Some s" by simp
    with ss [of k] have "k \<in> dom (map_of (x_starts st)) \<or> style_on styles k" by (auto split: option.splits if_splits)
    then show ?thesis using inv ok style_on_ok [OF ok] by (auto simp: extract_inv_def styles_ok_def)
  qed
  obtain as where as: "traverse (close_span ?i) ?shut = Inr as"
    "\<forall>j k. covered as j k \<longleftrightarrow> (\<exists>s. (k, s) \<in> set ?shut \<and> s \<le> j \<and> j < ?i)" "filter link_like as = []"
    using close_spans [of ?shut ?i] known by auto
  let ?st = "st\<lparr>x_text := x_text st @ t, x_annotations := x_annotations st @ as,
                    x_starts := ?open, x_index := ?i + length t\<rparr>"
  have run: "extract_text st t styles = Inr ?st"
    by (simp add: extract_text_def end_styles_def as(1))
  have d': "distinct (map fst ?open)" using d by (rule distinct_map_filter)
  have mopen: "map_of ?open k = (if style_on styles k then map_of ?ss k else None)" for k
    by (rule map_of_filter_key)
  have le: "s \<le> ?i" if "map_of (x_starts st) k = Some s" for k s
    using inv that by (auto simp: extract_inv_def dest: map_of_SomeD)
  have ssle: "s \<le> ?i" if "map_of ?ss k = Some s" for k s
    using ss [of k] that le by (auto split: option.splits if_splits)
  have old: "\<not> covered (x_annotations st) i k" if "\<not> i < ?i" for i k
    using inv that by (auto simp: extract_inv_def)
  have shut: "covered as i k \<longleftrightarrow> \<not> style_on styles k \<and> (\<exists>s. map_of ?ss k = Some s \<and> s \<le> i \<and> i < ?i)" for i k
    using as(2) mof by auto
  have inv': "extract_inv (on_styles styles) ?st"
    unfolding extract_inv_def
  proof (intro conjI)
    show "dom (map_of (x_starts ?st)) = on_styles styles"
      using mopen ss by (auto simp: on_styles_def dom_def split: option.splits)
    show "\<forall>k \<in> on_styles styles. known_style k"
      using ok style_on_ok [OF ok] by (auto simp: on_styles_def styles_ok_def)
    show "\<forall>(k, s) \<in> set (x_starts ?st). s \<le> x_index ?st"
      using ssle mof by fastforce
    show "nonneg (x_annotations ?st)" using inv nonneg_close [OF as(1)] by (simp add: extract_inv_def)
    show "\<forall>i k. covered (x_annotations ?st) i k \<longrightarrow> i < x_index ?st"
      using old shut by (auto intro: trans_less_add1)
  qed (use d' inv in \<open>simp_all add: extract_inv_def\<close>)
  have "shown ?st i k \<longleftrightarrow> (if i < ?i then shown st i k else i - ?i < length t \<and> style_on styles k)" for i k
  proof (cases "i < ?i")
    case True
    then show ?thesis using shut [of i k] mopen [of k] ss [of k]
      by (auto simp: shown_def split: option.splits if_splits)
  next
    case False
    then show ?thesis using shut [of i k] mopen [of k] ss [of k] old [OF False] ssle [of k]
      by (auto simp: shown_def split: option.splits if_splits)
  qed
  then have ext: "extends_by (map (\<lambda>c. (c, on_styles styles)) t) st ?st"
    by (auto simp: extends_by_def on_styles_def comp_def)
  show ?thesis using run inv' ext as(3) by auto
qed

lemma extract_close_step:
  assumes "extract_inv cur st"
  shows "\<exists>as. extract_close st = Inr (x_text st, x_annotations st @ as)
    \<and> (\<forall>i k. covered (x_annotations st @ as) i k \<longleftrightarrow> shown st i k) \<and> filter link_like as = []"
proof -
  have mof: "map_of (x_starts st) k = Some s \<longleftrightarrow> (k, s) \<in> set (x_starts st)" for k s
    using assms by (simp add: extract_inv_def)
  have "\<forall>(k, s) \<in> set (x_starts st). known_style k"
    using assms mof by (auto simp: extract_inv_def)
  from close_spans [OF this, of "x_index st"] obtain as where
    "traverse (close_span (x_index st)) (x_starts st) = Inr as"
    "\<forall>j k. covered as j k \<longleftrightarrow> (\<exists>s. (k, s) \<in> set (x_starts st) \<and> s \<le> j \<and> j < x_index st)"
    "filter link_like as = []" by blast
  then show ?thesis using mof by (auto simp: extract_close_def shown_def)
qed

lemma inv_open:
  assumes "extract_inv cur st"
  shows "map_of (x_starts st) k = Some s \<Longrightarrow> k \<in> cur \<and> s \<le> x_index st"
    and "k \<in> cur \<Longrightarrow> \<exists>s. map_of (x_starts st) k = Some s"
  using assms by (auto simp: extract_inv_def dest: map_of_SomeD)

text \<open>Advancing over characters whose annotations are already there.\<close>

lemma extract_advance:
  assumes inv: "extract_inv cur st" and st': "x_text st' = x_text st @ map fst new" "x_starts st' = x_starts st"
    "x_index st' = x_index st + length new" "x_annotations st' = x_annotations st @ as" "nonneg as"
    and cov: "\<And>i k. covered as i k \<longleftrightarrow> x_index st \<le> i \<and> i - x_index st < length new \<and> k \<in> snd (new ! (i - x_index st))"
  shows "extract_inv cur st'" and "extends_by (map (\<lambda>(c, s). (c, s \<union> cur)) new) st st'"
proof -
  have old: "\<not> covered (x_annotations st) i k" if "\<not> i < x_index st" for i k
    using inv that by (auto simp: extract_inv_def)
  show "extract_inv cur st'"
    unfolding extract_inv_def st'
  proof (intro conjI)
    show "\<forall>i k. covered (x_annotations st @ as) i k \<longrightarrow> i < x_index st + length new"
      using old cov by (auto intro: trans_less_add1)
    show "\<forall>(k, s) \<in> set (x_starts st). s \<le> x_index st + length new"
      using inv by (fastforce simp: extract_inv_def)
  qed (use inv st'(5) in \<open>auto simp: extract_inv_def\<close>)
  have "shown st' i k \<longleftrightarrow> (if i < x_index st then shown st i k
     else i - x_index st < length new \<and> k \<in> snd (new ! (i - x_index st)) \<union> cur)" for i k
  proof (cases "i < x_index st")
    case True
    then show ?thesis using cov [of i k] by (auto simp: shown_def st')
  next
    case False
    then show ?thesis using cov [of i k] old [OF False, of k] inv_open [OF inv, where k = k]
      by (fastforce simp: shown_def st')
  qed
  then show "extends_by (map (\<lambda>(c, s). (c, s \<union> cur)) new) st st'"
    by (auto simp: extends_by_def st' comp_def split_beta)
qed

lemma extract_embed_step:
  assumes "extract_inv cur st"
  shows "extract_inv cur (extract_embed st r)" and "extends_by [(CHR '' '', cur)] st (extract_embed st r)"
  using extract_advance [OF assms, of "extract_embed st r" "[(CHR '' '', {})]"]
  by (simp_all add: extract_embed_def)

lemma covered_shift_up:
  assumes "nonneg as"
  shows "covered (map (shift_annotation (- int d)) as) i k \<longleftrightarrow> d \<le> i \<and> covered as (i - d) k"
proof -
  have st: "annotationStyle (shift_annotation (- int d) a) = annotationStyle a" for a
    by (simp add: shift_annotation_def annotationStyle_def)
  have neg: "\<not> in_spans ss es j" if "\<forall>s \<in> set ss. 0 \<le> s" "j < 0" for ss es and j :: int
    using that by (induction ss es j rule: in_spans.induct) auto
  have "in_spans (a_starts (shift_annotation (- int d) a)) (a_ends (shift_annotation (- int d) a)) (int i)
      \<longleftrightarrow> d \<le> i \<and> in_spans (a_starts a) (a_ends a) (int (i - d))" if "a \<in> set as" for a
  proof -
    have "in_spans (a_starts (shift_annotation (- int d) a)) (a_ends (shift_annotation (- int d) a)) (int i)
      \<longleftrightarrow> in_spans (a_starts a) (a_ends a) (int i - int d)"
      using in_spans_shift [of "- int d" "a_starts a" "a_ends a" "int i"] by (simp add: shift_annotation_def)
    then show ?thesis using neg [of "a_starts a" "int i - int d"] assms that
      by (cases "d \<le> i") (auto simp: nonneg_def of_nat_diff)
  qed
  then show ?thesis by (auto simp: covered_def st)
qed

lemma extract_link_step:
  assumes inv: "extract_inv cur st" and new: "t = map fst new" "nonneg as"
    and cov: "\<And>i k. covered as i k \<longleftrightarrow> i < length new \<and> k \<in> snd (new ! i)"
  shows "extract_inv cur (extract_link st h (t, as))"
    and "extends_by (map (\<lambda>(c, s). (c, s \<union> cur)) new) st (extract_link st h (t, as))"
proof -
  let ?as = "map (shift_annotation (- int (x_index st))) as @ [span_annotation ''link'' h (x_index st) (x_index st + length t)]"
  have "nonneg (map (shift_annotation (- int (x_index st))) as)"
    using new(2) by (auto simp: nonneg_def shift_annotation_def)
  then have "nonneg ?as" by simp
  moreover have "covered ?as i k \<longleftrightarrow> x_index st \<le> i \<and> i - x_index st < length new \<and> k \<in> snd (new ! (i - x_index st))" for i k
    using covered_shift_up [OF new(2)] cov by auto
  ultimately show "extract_inv cur (extract_link st h (t, as))"
    and "extends_by (map (\<lambda>(c, s). (c, s \<union> cur)) new) st (extract_link st h (t, as))"
    using extract_advance [OF inv, of "extract_link st h (t, as)" new ?as] new(1)
    by (auto simp: extract_link_def)
qed

lemma extract_init_inv [simp]: "extract_inv {} extract_init" "\<not> shown extract_init i k"
  by (simp_all add: extract_inv_def extract_init_def shown_def)

lemma extract_loop_shown:
  "content_ok content \<Longrightarrow> extract_inv cur st \<Longrightarrow>
     \<exists>st'. extract_loop st content = Inr st' \<and> extract_inv (last_on cur content) st'
       \<and> extends_by (carry cur content) st st'"
proof (induction st content arbitrary: cur rule: extract_loop.induct)
  case (1 st)
  then show ?case by (auto simp: extends_by_def shown_lt)
next
  case (2 st ty href content rest)
  from 2(1) [of "{}"] 2(3) obtain s1 where s1: "extract_loop extract_init content = Inr s1"
    "extract_inv (last_on {} content) s1" "extends_by (carry {} content) extract_init s1" by auto
  obtain as where as: "extract_close s1 = Inr (x_text s1, x_annotations s1 @ as)"
    "\<forall>i k. covered (x_annotations s1 @ as) i k \<longleftrightarrow> shown s1 i k"
    using extract_close_step [OF s1(2)] by auto
  have nn: "nonneg (x_annotations s1 @ as)"
    using as(1) s1(2) nonneg_close by (auto simp: extract_close_def map_result_Inr_iff extract_inv_def)
  have tx: "x_text s1 = map fst (carry {} content)" using s1(3) by (simp add: extends_by_def extract_init_def)
  have cov: "covered (x_annotations s1 @ as) i k \<longleftrightarrow> i < length (carry {} content) \<and> k \<in> snd (carry {} content ! i)" for i k
    using as(2) s1(3) by (simp add: extends_by_def extract_init_def)
  let ?c = "(x_text s1, x_annotations s1 @ as)"
  note step = extract_link_step [OF 2(4) tx nn cov, of href]
  have "bind_result (extract_loop extract_init content) extract_close = Inr ?c" using s1(1) as(1) by simp
  with 2(2) [of ?c] step(1) 2(3) obtain st' where
    "extract_loop (extract_link st href ?c) rest = Inr st'" "extract_inv (last_on cur rest) st'"
    "extends_by (carry cur rest) (extract_link st href ?c) st'" by auto
  with s1(1) as(1) 2(3) extends_by_trans [OF 2(4) step(1) step(2)] show ?case by auto
next
  case (3 st ref rest)
  note step = extract_embed_step [OF 3(3), of ref]
  from 3(1) [OF _ step(1)] 3(2) obtain st' where
    "extract_loop (extract_embed st ref) rest = Inr st'" "extract_inv (last_on cur rest) st'"
    "extends_by (carry cur rest) (extract_embed st ref) st'" by auto
  with extends_by_trans [OF 3(3) step(1) step(2)] show ?case by auto
next
  case (4 st t styles rest)
  from extract_text_step [OF 4(3), of styles t] 4(2) obtain s1 where s1: "extract_text st t styles = Inr s1"
    "extract_inv (on_styles styles) s1" "extends_by (map (\<lambda>c. (c, on_styles styles)) t) st s1" by auto
  from 4(1) [OF s1(1) _ s1(2)] 4(2) obtain st' where
    "extract_loop s1 rest = Inr st'" "extract_inv (last_on (on_styles styles) rest) st'"
    "extends_by (carry (on_styles styles) rest) s1 st'" by auto
  with s1(1) extends_by_trans [OF 4(3) s1(2) s1(3)] show ?case by auto
qed

lemma extractContent_shown:
  assumes "content_ok content"
  shows "\<exists>t as. extractContent content = Inr (t, as) \<and> t = map fst (carry {} content)
    \<and> (\<forall>i k. covered as i k \<longleftrightarrow> i < length t \<and> k \<in> snd (carry {} content ! i))"
proof -
  from extract_loop_shown [OF assms extract_init_inv(1)] obtain st where
    st: "extract_loop extract_init content = Inr st" "extract_inv (last_on {} content) st"
    "extends_by (carry {} content) extract_init st" by auto
  from extract_close_step [OF st(2)] obtain as where
    as: "extract_close st = Inr (x_text st, x_annotations st @ as)"
    "\<forall>i k. covered (x_annotations st @ as) i k \<longleftrightarrow> shown st i k" by auto
  with st show ?thesis by (auto simp: extractContent_def extends_by_def extract_init_def)
qed

section \<open>Loading what was saved\<close>

text \<open>Content as the editor makes it: links hold text only, at least one character of it.\<close>

fun simple_links :: "inline list \<Rightarrow> bool" where
  "simple_links [] \<longleftrightarrow> True"
| "simple_links (InlLink ty h c # xs) \<longleftrightarrow> only_text c \<and> expand c \<noteq> [] \<and> simple_links xs"
| "simple_links (_ # xs) \<longleftrightarrow> simple_links xs"

fun link_anns :: "nat \<Rightarrow> inline list \<Rightarrow> annotation list" where
  "link_anns i [] = []"
| "link_anns i (InlText t st # xs) = link_anns (i + length t) xs"
| "link_anns i (InlLink ty h c # xs) =
     span_annotation ''link'' h i (i + length (expand c)) # link_anns (i + length (expand c)) xs"
| "link_anns i (InlEmbed r # xs) = span_annotation ''inline-embed'' r i (i + 1) # link_anns (i + 1) xs"

lemma only_text_links: "only_text xs \<Longrightarrow> simple_links xs \<and> link_anns i xs = []"
  by (induction xs arbitrary: i rule: only_text.induct) auto

lemma carry_only_text: "only_text xs \<Longrightarrow> map fst (carry cur xs) = map fst (expand xs)"
  by (induction xs arbitrary: cur rule: only_text.induct) (auto simp: comp_def)

lemma carry_flat: "simple_links xs \<Longrightarrow> map fst (carry cur xs) = map fst (flat xs)"
proof (induction xs arbitrary: cur rule: simple_links.induct)
  case (2 ty h c xs)
  then show ?case using carry_only_text [of c "{}"] by (auto simp: comp_def split_beta)
qed (auto simp: comp_def)

lemma close_not_links: "traverse (close_span i) ps = Inr as \<Longrightarrow> filter link_like as = []"
proof (induction ps arbitrary: as)
  case (Cons p ps)
  then show ?case
    by (auto simp: bind_result_Inr_iff map_result_Inr_iff close_span_def span_annotation_def
        link_like_def styleMarkToAnnotationType_def split: if_splits)
qed simp

lemma link_like_span [simp]:
  "link_like (span_annotation ''link'' r s e)" "link_like (span_annotation ''inline-embed'' r s e)"
  "link_like (shift_annotation d a) \<longleftrightarrow> link_like a"
  by (simp_all add: link_like_def span_annotation_def shift_annotation_def)

lemma filter_shift: "filter link_like as = [] \<Longrightarrow> filter link_like (map (shift_annotation d) as) = []"
  by (auto simp: filter_empty_conv)

lemma extract_init_simps [simp]: "x_annotations extract_init = []" "x_index extract_init = 0"
  by (simp_all add: extract_init_def)

lemma extract_loop_links:
  "content_ok content \<Longrightarrow> simple_links content \<Longrightarrow> extract_inv cur st \<Longrightarrow> extract_loop st content = Inr st' \<Longrightarrow>
     filter link_like (x_annotations st') = filter link_like (x_annotations st) @ link_anns (x_index st) content"
proof (induction st content arbitrary: cur st' rule: extract_loop.induct)
  case (1 st)
  then show ?case by auto
next
  case (2 st ty href content rest)
  from extract_loop_shown [of content "{}" extract_init] 2(3) obtain s1 where
    s1: "extract_loop extract_init content = Inr s1" "extract_inv (last_on {} content) s1"
      "extends_by (carry {} content) extract_init s1" by auto
  have only: "only_text content" using 2(4) by simp
  have "filter link_like (x_annotations s1) = []"
    using 2(1) [of "{}" s1] 2(3) s1(1) only_text_links [OF only] by auto
  moreover obtain as where as: "extract_close s1 = Inr (x_text s1, x_annotations s1 @ as)" "filter link_like as = []"
    "\<forall>i k. covered (x_annotations s1 @ as) i k \<longleftrightarrow> shown s1 i k"
    using extract_close_step [OF s1(2)] by auto
  ultimately have nl: "filter link_like (x_annotations s1 @ as) = []" by simp
  have nn: "nonneg (x_annotations s1 @ as)"
    using as(1) s1(2) nonneg_close by (auto simp: extract_close_def map_result_Inr_iff extract_inv_def)
  have tx: "x_text s1 = map fst (carry {} content)" using s1(3) by (simp add: extends_by_def extract_init_def)
  have len: "length (x_text s1) = length (expand content)"
    using tx carry_only_text [OF only] by (metis length_map)
  have cov: "covered (x_annotations s1 @ as) i k \<longleftrightarrow> i < length (carry {} content) \<and> k \<in> snd (carry {} content ! i)" for i k
    using as(3) s1(3) by (simp add: extends_by_def extract_init_def)
  let ?c = "(x_text s1, x_annotations s1 @ as)"
  note step = extract_link_step [OF 2(5) tx nn cov, of href]
  have c: "bind_result (extract_loop extract_init content) extract_close = Inr ?c" using s1(1) as(1) by simp
  have "extract_loop (extract_link st href ?c) rest = Inr st'" using 2(3,6) c by simp
  with 2(2) [of ?c, OF _ c _ _ step(1)] 2(3,4)
  have "filter link_like (x_annotations st')
      = filter link_like (x_annotations (extract_link st href ?c)) @ link_anns (x_index (extract_link st href ?c)) rest"
    by simp
  with filter_shift [OF nl] len show ?case by (simp add: extract_link_def del: filter_map map_append)
next
  case (3 st ref rest)
  from 3(1) [OF _ _ extract_embed_step(1) [OF 3(4)]] 3(2,3,5) show ?case
    by (simp add: extract_embed_def)
next
  case (4 st t styles rest)
  from extract_text_step [OF 4(4), of styles t] 4(2) obtain s1 where s1: "extract_text st t styles = Inr s1"
    "extract_inv (on_styles styles) s1" "filter link_like (x_annotations s1) = filter link_like (x_annotations st)" by auto
  have "x_index s1 = x_index st + length t" using s1(1) by (auto simp: extract_text_def map_result_Inr_iff)
  with 4(1) [OF s1(1) _ _ s1(2)] 4(2,3,5) s1 show ?case by simp
qed

lemma link_anns_starts: "a \<in> set (link_anns i xs) \<Longrightarrow> int i \<le> hd (a_starts a)"
  by (induction i xs rule: link_anns.induct) (fastforce simp: span_annotation_def)+

lemma chain_link_anns:
  "simple_links xs \<Longrightarrow> p \<le> int (length pre) \<Longrightarrow> chain (pre @ map fst (flat xs)) p (link_anns (length pre) xs)"
proof (induction xs arbitrary: pre p)
  case Nil
  then show ?case by simp
next
  case (Cons x xs)
  let ?new = "map fst (flat [x])"
  have split: "pre @ map fst (flat (x # xs)) = (pre @ ?new) @ map fst (flat xs)"
    using flat_append [of "[x]" xs] by simp
  have xs: "simple_links xs" using Cons.prems(1) by (cases x) auto
  note IH = Cons.IH [OF xs, of _ "pre @ ?new"]
  show ?case
  proof (cases x)
    case (InlText t st)
    with IH [of p] Cons.prems(2) split show ?thesis by (simp add: comp_def)
  next
    case (InlLink ty h c)
    with IH [of "int (length pre + length (expand c))"] Cons.prems split show ?thesis
      by (simp add: span_annotation_def link_like_def)
  next
    case (InlEmbed r)
    with IH [of "int (length pre + 1)"] Cons.prems split show ?thesis
      by (simp add: span_annotation_def link_like_def nth_append)
  qed
qed

lemma sorted_link_anns: "sorted (map (\<lambda>a. hd (a_starts a)) (link_anns i xs))"
proof (induction i xs rule: link_anns.induct)
  case (3 i ty h c xs)
  then show ?case using link_anns_starts [of _ "i + length (expand c)" xs] by (fastforce simp: span_annotation_def)
next
  case (4 i r xs)
  then show ?case using link_anns_starts [of _ "i + 1" xs] by (fastforce simp: span_annotation_def)
qed auto

lemma mark_at_link_anns:
  "simple_links xs \<Longrightarrow> content_ok xs \<Longrightarrow> j < length (flat xs) \<Longrightarrow> mark_at (link_anns i xs) (i + j) = snd (snd (flat xs ! j))"
proof (induction i xs arbitrary: j rule: link_anns.induct)
  case (2 i t st xs)
  show ?case
  proof (cases "j < length t")
    case True
    have "mark_at (link_anns (i + length t) xs) (i + j) = Plain"
      using link_anns_starts [of _ "i + length t" xs] True by (intro mark_at_before) fastforce
    with True show ?thesis by (simp add: nth_append)
  next
    case False
    with 2(1) [of "j - length t"] 2(2-4) show ?thesis by (simp add: nth_append)
  qed
next
  case (3 i ty h c xs)
  show ?case
  proof (cases "j < length (expand c)")
    case True
    with 3(3) show ?thesis by (simp add: nth_append mark_at_Cons covers_def span_annotation_def mark_of_def split_beta)
  next
    case False
    with 3(1) [of "j - length (expand c)"] 3(2-4) show ?thesis
      by (simp add: nth_append mark_at_Cons covers_def span_annotation_def)
  qed
next
  case (4 i r xs)
  show ?case
  proof (cases j)
    case 0
    then show ?thesis by (simp add: mark_at_Cons covers_def span_annotation_def mark_of_def)
  next
    case (Suc k)
    with 4(1) [of k] 4(2-4) show ?thesis
      by (simp add: mark_at_Cons covers_def span_annotation_def)
  qed
qed simp

text \<open>The links saved are the links of the content, in order.\<close>

lemma extractContent_links:
  assumes "content_ok content" "simple_links content"
  shows "\<exists>t as. extractContent content = Inr (t, as) \<and> t = map fst (flat content)
    \<and> links_of as = link_anns 0 content
    \<and> (\<forall>i k. covered as i k \<longleftrightarrow> i < length t \<and> k \<in> snd (carry {} content ! i))"
proof -
  from extractContent_shown [OF assms(1)] obtain t as where
    ex: "extractContent content = Inr (t, as)" "t = map fst (carry {} content)"
    "\<forall>i k. covered as i k \<longleftrightarrow> i < length t \<and> k \<in> snd (carry {} content ! i)" by auto
  from ex(1) obtain st as' where st: "extract_loop extract_init content = Inr st"
    "traverse (close_span (x_index st)) (x_starts st) = Inr as'" "as = x_annotations st @ as'"
    by (auto simp: extractContent_def extract_close_def bind_result_Inr_iff map_result_Inr_iff)
  have "filter link_like as = link_anns 0 content"
    using extract_loop_links [OF assms extract_init_inv(1) st(1)] close_not_links [OF st(2)] st(3) by simp
  then have "links_of as = link_anns 0 content"
    using sorted_link_anns [of 0 content] by (simp add: links_of_def sorted_sort_id sort_key_id_if_sorted)
  with ex carry_flat [OF assms(2)] show ?thesis by auto
qed

text \<open>
  Two contents look the same: the same characters, in the same links and embeds, and outside
  embeds with the styles that were saved for them.
\<close>

definition shows_same :: "inline list \<Rightarrow> inline list \<Rightarrow> bool" where
  "shows_same content xs \<longleftrightarrow>
    map fst (flat xs) = map fst (flat content) \<and>
    map (snd \<circ> snd) (flat xs) = map (snd \<circ> snd) (flat content) \<and>
    (\<forall>i < length (flat xs). (\<forall>r. snd (snd (flat xs ! i)) \<noteq> Embedded r) \<longrightarrow>
       on_styles (fst (snd (flat xs ! i))) = snd (carry {} content ! i))"

lemma save_load_content:
  assumes "content_ok content" "simple_links content"
  shows "\<exists>t as xs. extractContent content = Inr (t, as) \<and>
    toHMInlineContent (b\<lparr>b_text := Some t, b_annotations := Some as\<rparr>) = Inr xs \<and> shows_same content xs"
proof -
  from extractContent_links [OF assms] obtain t as where
    ex: "extractContent content = Inr (t, as)" "t = map fst (flat content)" "links_of as = link_anns 0 content"
    "\<forall>i k. covered as i k \<longleftrightarrow> i < length t \<and> k \<in> snd (carry {} content ! i)" by auto
  let ?b = "b\<lparr>b_text := Some t, b_annotations := Some as\<rparr>"
  have "chain t 0 (links_of as)" using chain_link_anns [OF assms(2), of 0 "[]"] ex(2,3) by simp
  from inline_content_describes [of ?b t as, OF _ _ this] obtain xs where
    xs: "toHMInlineContent ?b = Inr xs" "describes t as (mark_at (links_of as)) 0 (length t) xs" by auto
  have len: "length (flat xs) = length t" "length t = length (flat content)" using xs(2) ex(2) by (simp_all add: describes_def)
  have at: "fst (flat xs ! i) = t ! i \<and> snd (snd (flat xs ! i)) = snd (snd (flat content ! i))" if "i < length t" for i
    using xs(2) that mark_at_link_anns [OF assms(2,1), of i 0] len ex(3) by (simp add: describes_def)
  have st: "on_styles (fst (snd (flat xs ! i))) = snd (carry {} content ! i)"
    if "i < length t" "\<forall>r. snd (snd (flat xs ! i)) \<noteq> Embedded r" for i
    using xs(2) that ex(4) by (auto simp: describes_def on_styles_def)
  have "map fst (flat xs) = map fst (flat content)" "map (snd \<circ> snd) (flat xs) = map (snd \<circ> snd) (flat content)"
    using at len ex(2) by (auto intro!: nth_equalityI)
  with ex(1) xs(1) st len show ?thesis by (auto simp: shows_same_def)
qed

declare toHMBlock.simps [simp del] toHMBlock_one.simps [simp del] toHMBlockParagraph.simps [simp del]
  toHMBlockHeading.simps [simp del] toHMBlockMath.simps [simp del]

section \<open>The shape of what is loaded\<close>

definition has_children :: "block_node \<Rightarrow> bool" where
  "has_children n \<longleftrightarrow> node_children n \<noteq> None \<and> node_children n \<noteq> Some []"

lemma toHMBlock_no_children: "\<not> has_children n \<Longrightarrow> toHMBlock (node_children n) l = Inr []"
  by (auto simp: has_children_def toHMBlock.simps split: option.split)

text \<open>What a block loads as: its id, and for a heading the level of its depth.\<close>

definition loads_as :: "nat \<Rightarrow> hm_block \<Rightarrow> editor_block \<Rightarrow> bool" where
  "loads_as level b e \<longleftrightarrow> e_id e = b_id b \<and> (e_type e = ''heading'' \<longleftrightarrow> b_type b = ''heading'') \<and>
     (b_type b = ''heading'' \<longrightarrow> p_level (e_props e) = Some (show_nat (if level = 0 then 1 else level)))"

lemma leaf_block_loads:
  "leaf_block b = Some (Inr e) \<Longrightarrow> loads_as level b e \<and> e_children e = []"
  by (auto simp: leaf_block_def loads_as_def map_result_Inr_iff split: if_splits)

lemma override_props_level [simp]: "p_level (override_props b p) = p_level p"
  by (simp add: override_props_def Let_def)

lemma recursive_loads:
  "toHMBlockParagraph n level = Inr e \<Longrightarrow> \<exists>b. node_block n = Some b \<and> e_id e = b_id b \<and> e_type e = ''paragraph'' \<and>
     (\<not> has_children n \<longrightarrow> e_children e = [])"
  "toHMBlockMath n level = Inr e \<Longrightarrow> \<exists>b. node_block n = Some b \<and> e_id e = b_id b \<and> e_type e = ''math'' \<and>
     (\<not> has_children n \<longrightarrow> e_children e = [])"
  "toHMBlockHeading n level = Inr e \<Longrightarrow> \<exists>b. node_block n = Some b \<and> e_id e = b_id b \<and> e_type e = ''heading'' \<and>
     p_level (e_props e) = Some (show_nat (if level = 0 then 1 else level)) \<and> (\<not> has_children n \<longrightarrow> e_children e = [])"
  by (auto simp: toHMBlockParagraph.simps toHMBlockMath.simps toHMBlockHeading.simps
      bind_result_Inr_iff map_result_Inr_iff toHMBlock_no_children split: option.splits)

lemma toHMBlock_one_loads:
  assumes "toHMBlock_one level n = Inr e"
  shows "\<exists>b. node_block n = Some b \<and> loads_as level b e \<and>
    (if has_children n then toHMBlock (node_children n) (level + 1) = Inr (e_children e) else e_children e = [])"
proof -
  from assms obtain e0 where first: "(case node_block n of
          None \<Rightarrow> toHMBlockParagraph n level
        | Some b \<Rightarrow> (case leaf_block b of
            Some res \<Rightarrow> res
          | None \<Rightarrow>
              if b_type b = ''heading'' then toHMBlockHeading n level
              else if b_type b = ''math'' \<or> b_type b = ''equation'' then toHMBlockMath n level
              else toHMBlockParagraph n level)) = Inr e0"
    and more: "e_id e = e_id e0" "e_type e = e_type e0" "p_level (e_props e) = p_level (e_props e0)"
      "if has_children n then toHMBlock (node_children n) (level + 1) = Inr (e_children e) else e_children e = e_children e0"
    unfolding toHMBlock_one.simps bind_result_Inr_iff
    by (auto simp: has_children_def Let_def map_result_Inr_iff split: option.splits if_splits)
  from first obtain b where b: "node_block n = Some b"
    by (cases "node_block n") (auto dest: recursive_loads)
  have "loads_as level b e0 \<and> (\<not> has_children n \<longrightarrow> e_children e0 = [])"
  proof (cases "leaf_block b")
    case None
    with first b show ?thesis by (auto simp: loads_as_def dest: recursive_loads split: if_splits)
  next
    case (Some r)
    with first b show ?thesis using leaf_block_loads by auto
  qed
  with b more show ?thesis by (auto simp: loads_as_def)
qed

datatype shape = Shape string "shape list"

fun node_shape :: "block_node \<Rightarrow> shape" where
  "node_shape (BlockNode b cs) = Shape (case b of None \<Rightarrow> [] | Some b \<Rightarrow> b_id b)
     (case cs of None \<Rightarrow> [] | Some ns \<Rightarrow> map node_shape ns)"

fun editor_shape :: "editor_block \<Rightarrow> shape" where
  "editor_shape (EditorBlock i ty p c cs) = Shape i (map editor_shape cs)"

text \<open>Every heading of a block tree has the level of its depth.\<close>

fun levels_ok :: "nat \<Rightarrow> editor_block \<Rightarrow> bool" where
  "levels_ok l (EditorBlock i ty p c cs) \<longleftrightarrow>
     (ty = ''heading'' \<longrightarrow> p_level p = Some (show_nat l)) \<and> (\<forall>b \<in> set cs. levels_ok (l + 1) b)"

lemma toHMBlock_one_shape:
  "toHMBlock_one level n = Inr e \<Longrightarrow> 0 < level \<Longrightarrow> editor_shape e = node_shape n \<and> levels_ok level e"
proof (induction n arbitrary: level e)
  case (BlockNode mb cs)
  let ?n = "BlockNode mb cs"
  from toHMBlock_one_loads [OF BlockNode.prems(1)] obtain b where b: "mb = Some b" "loads_as level b e"
    "if has_children ?n then toHMBlock cs (level + 1) = Inr (e_children e) else e_children e = []"
    unfolding block_node.sel by blast
  have kids: "map editor_shape (e_children e) = (case cs of None \<Rightarrow> [] | Some ns \<Rightarrow> map node_shape ns)
      \<and> (\<forall>c \<in> set (e_children e). levels_ok (level + 1) c)"
  proof (cases "has_children ?n")
    case False
    then have "cs = None \<or> cs = Some []" by (auto simp: has_children_def)
    with b(3) False show ?thesis by auto
  next
    case True
    then obtain ns where ns: "cs = Some ns" by (auto simp: has_children_def)
    with True b(3) have "list_all2 (\<lambda>x y. toHMBlock_one (level + 1) x = Inr y) ns (e_children e)"
      by (simp add: toHMBlock.simps traverse_Inr_iff)
    then have "list_all2 (\<lambda>x y. editor_shape y = node_shape x \<and> levels_ok (level + 1) y) ns (e_children e)"
      using BlockNode.IH ns by (auto elim!: list.rel_mono_strong)
    then show ?thesis
      by (auto simp: ns list_all2_conv_all_nth in_set_conv_nth intro!: nth_equalityI)
  qed
  with b(1,2) BlockNode.prems(2) show ?case by (cases e) (auto simp: loads_as_def)
qed

text \<open>When loading succeeds.\<close>

definition uses_content :: "string \<Rightarrow> bool" where
  "uses_content ty \<longleftrightarrow> ty \<notin> {''file'', ''web-embed'', ''embed''}"

fun node_ok :: "block_node \<Rightarrow> bool" where
  "node_ok (BlockNode b cs) \<longleftrightarrow>
     (case b of None \<Rightarrow> False | Some b \<Rightarrow> uses_content (b_type b) \<longrightarrow> (\<exists>c. toHMInlineContent b = Inr c)) \<and>
     (case cs of None \<Rightarrow> True | Some ns \<Rightarrow> \<forall>n \<in> set ns. node_ok n)"

lemma traverse_ok: "(\<exists>ys. traverse f xs = Inr ys) \<longleftrightarrow> (\<forall>x \<in> set xs. \<exists>y. f x = Inr y)"
  by (induction xs) (auto simp: bind_result_Inr_iff map_result_Inr_iff)

lemma leaf_block_ok:
  "leaf_block b = Some r \<Longrightarrow> (\<exists>e. r = Inr e) \<longleftrightarrow> (uses_content (b_type b) \<longrightarrow> (\<exists>c. toHMInlineContent b = Inr c))"
  by (auto simp: leaf_block_def uses_content_def map_result_Inr_iff split: if_splits)

lemma leaf_block_None: "leaf_block b = None \<Longrightarrow> uses_content (b_type b)"
  by (auto simp: leaf_block_def uses_content_def split: if_splits)

lemma recursive_ok:
  "(\<exists>e. toHMBlockParagraph n l = Inr e) \<longleftrightarrow> (\<exists>b c cs. node_block n = Some b \<and> toHMInlineContent b = Inr c \<and> toHMBlock (node_children n) l = Inr cs)"
  "(\<exists>e. toHMBlockMath n l = Inr e) \<longleftrightarrow> (\<exists>b c cs. node_block n = Some b \<and> toHMInlineContent b = Inr c \<and> toHMBlock (node_children n) l = Inr cs)"
  "(\<exists>e. toHMBlockHeading n l = Inr e) \<longleftrightarrow> (\<exists>b c cs. node_block n = Some b \<and> toHMInlineContent b = Inr c \<and> toHMBlock (node_children n) (l + 1) = Inr cs)"
  by (auto simp: toHMBlockParagraph.simps toHMBlockMath.simps toHMBlockHeading.simps
      bind_result_Inr_iff map_result_Inr_iff split: option.splits)

lemma toHMBlock_one_ok: "(\<exists>e. toHMBlock_one l n = Inr e) \<longleftrightarrow> node_ok n"
proof (induction n arbitrary: l)
  case (BlockNode mb cs)
  let ?n = "BlockNode mb cs"
  let ?kids = "case cs of None \<Rightarrow> True | Some ns \<Rightarrow> \<forall>n \<in> set ns. node_ok n"
  have kids: "(\<exists>es. toHMBlock cs l = Inr es) \<longleftrightarrow> ?kids" for l
    using BlockNode by (auto simp: toHMBlock.simps traverse_ok split: option.split)
  have nokids: "?kids" if "cs = None \<or> cs = Some []" using that by auto
  show ?case
  proof (cases mb)
    case None
    then show ?thesis using recursive_ok(1) [of ?n l] by (auto simp: toHMBlock_one.simps bind_result_Inr_iff)
  next
    case (Some b)
    let ?first = "case leaf_block b of Some res \<Rightarrow> res
      | None \<Rightarrow> if b_type b = ''heading'' then toHMBlockHeading ?n l
          else if b_type b = ''math'' \<or> b_type b = ''equation'' then toHMBlockMath ?n l
          else toHMBlockParagraph ?n l"
    let ?own = "uses_content (b_type b) \<longrightarrow> (\<exists>c. toHMInlineContent b = Inr c)"
    have first: "(\<exists>e. ?first = Inr e) \<and> ?kids \<longleftrightarrow> ?own \<and> ?kids"
    proof (cases "leaf_block b")
      case None
      then show ?thesis using leaf_block_None [OF None] recursive_ok [of ?n l] kids Some by auto
    qed (use leaf_block_ok in auto)
    have "(\<exists>e. toHMBlock_one l ?n = Inr e) \<longleftrightarrow> (\<exists>e. ?first = Inr e) \<and> ?kids"
    proof (cases "cs = None \<or> cs = Some []")
      case True
      then show ?thesis using nokids Some by (auto simp: toHMBlock_one.simps bind_result_Inr_iff Let_def)
    next
      case False
      then show ?thesis using kids [of "if l = 0 then 1 else l + 1"] Some
        by (auto simp: toHMBlock_one.simps bind_result_Inr_iff map_result_Inr_iff Let_def)
    qed
    with first Some show ?thesis by simp
  qed
qed

section \<open>Saving and loading a block\<close>

text \<open>Save a block, then load the document that holds it alone.\<close>

definition save_load :: "editor_block \<Rightarrow> editor_block list result" where
  "save_load e = bind_result (fromHMBlock e) (\<lambda>b. toHMBlock (Some [BlockNode (Some b) None]) 1)"

text \<open>
  Media blocks as the editor holds them after loading: a children type, a list level and a
  start when there are any, the url, and the props of the type (\<open>x\<close> is the width, size or view).
\<close>

definition media_block ::
  "string \<Rightarrow> string \<Rightarrow> string \<Rightarrow> string option \<Rightarrow> string option \<Rightarrow> string \<Rightarrow> string option \<Rightarrow> string option \<Rightarrow> editor_block" where
  "media_block ty i ct ll start u nm x =
     (let p = no_props\<lparr>p_childrenType := Some ct, p_listLevel := ll, p_start := start, p_url := Some u\<rparr>
      in EditorBlock i ty
        (if ty = ''image'' then p\<lparr>p_name := nm, p_width := x, p_textAlignment := Some ''left''\<rparr>
         else if ty = ''file'' then p\<lparr>p_name := nm, p_size := x, p_textAlignment := Some ''left''\<rparr>
         else if ty = ''video'' then p\<lparr>p_name := nm, p_width := x\<rparr>
         else if ty = ''embed'' then p\<lparr>p_view := x, p_textAlignment := Some ''left''\<rparr>
         else p) [] [])"

lemma extractContent_Nil: "extractContent [] = Inr ([], [])"
  by (simp add: extractContent_def extract_close_def extract_init_def)

lemma toHMInlineContent_empty:
  "b_text b = Some [] \<Longrightarrow> b_annotations b = Some [] \<Longrightarrow> toHMInlineContent b = Inr []"
  by (simp add: toHMInlineContent_def partialBlockToStyledText_def)

lemma load_one:
  "toHMBlock (Some [BlockNode (Some b) None]) (Suc 0) = (case leaf_block b of
     Some r \<Rightarrow> map_result (\<lambda>e. [EditorBlock (e_id e) (e_type e) (override_props b (e_props e)) (e_content e) (e_children e)]) r
   | None \<Rightarrow> map_result (\<lambda>c. [if b_type b = ''heading''
       then EditorBlock (b_id b) ''heading'' (override_props b (no_props\<lparr>p_level := Some (show_nat 1)\<rparr>)) c []
       else EditorBlock (b_id b) (if b_type b = ''math'' \<or> b_type b = ''equation'' then ''math'' else ''paragraph'')
              (override_props b (leaf_props b)) c []]) (toHMInlineContent b))"
  by (cases "leaf_block b"; cases "toHMInlineContent b")
     (auto simp: toHMBlock.simps toHMBlock_one.simps toHMBlockParagraph.simps toHMBlockHeading.simps
       toHMBlockMath.simps Let_def js_simps)

lemma media_save_load:
  assumes "ty \<in> {''image'', ''file'', ''video'', ''web-embed'', ''embed''}"
    and "i \<noteq> []" "ct \<noteq> []" "ll \<noteq> Some []" "start \<noteq> Some []"
    and "ty = ''web-embed'' \<or> ty = ''embed'' \<or> ipfs_ref (Some u) = u"
    and "ty = ''embed'' \<Longrightarrow> truthy x"
  shows "save_load (media_block ty i ct ll start u nm x) = Inr [media_block ty i ct ll start u nm x]"
proof -
  have t: "truthy ll \<longleftrightarrow> ll \<noteq> None" "truthy start \<longleftrightarrow> start \<noteq> None"
    using assms(4,5) by (auto simp: truthy_def)
  note d = save_load_def media_block_def fromHMBlock_def Let_def load_one leaf_block_def with_content_def
      extractContent_Nil new_block_def attributes_def from_extractChildrenType_def leaf_props_def
      toHMInlineContent_empty override_props_def attr_def no_props_def default_str_def t assms
  from assms(1) consider "ty = ''image''" | "ty = ''file''" | "ty = ''video''" | "ty = ''web-embed''" | "ty = ''embed''"
    by blast
  then show ?thesis
  proof cases
    case 1 with assms(2-6) show ?thesis by (cases ll; cases start) (simp_all add: d(1-20))
  next
    case 2 with assms(2-6) show ?thesis by (cases ll; cases start) (simp_all add: d(1-20))
  next
    case 3 with assms(2-6) show ?thesis by (cases ll; cases start) (simp_all add: d(1-20))
  next
    case 4 with assms(2-5) show ?thesis by (cases ll; cases start) (simp_all add: d(1-20))
  next
    case 5 with assms(2-5,7) show ?thesis by (cases ll; cases start) (simp_all add: d(1-20))
  qed
qed

text \<open>Loading reads text and annotations only, so what holds for one block holds for all with the same ones.\<close>

lemma toHMInlineContent_cong:
  "b_text a = b_text b \<Longrightarrow> b_annotations a = b_annotations b \<Longrightarrow> toHMInlineContent a = toHMInlineContent b"
  by (simp only: toHMInlineContent_def)

lemma from_extractChildrenType_fields [simp]:
  "b_id (from_extractChildrenType b p) = b_id b" "b_type (from_extractChildrenType b p) = b_type b"
  "b_text (from_extractChildrenType b p) = b_text b" "b_annotations (from_extractChildrenType b p) = b_annotations b"
  by (simp_all add: from_extractChildrenType_def Let_def)

lemma text_save_load:
  assumes "ty \<in> {''paragraph'', ''math'', ''heading'', ''codeBlock''}" "i \<noteq> []"
    and "content_ok content" "simple_links content"
  shows "\<exists>xs p. save_load (EditorBlock i ty props content []) = Inr [EditorBlock i ty p xs []] \<and> shows_same content xs"
proof -
  let ?b = "new_block [] []"
  from save_load_content [OF assms(3,4), of ?b] obtain t as xs where
    sl: "extractContent content = Inr (t, as)" "shows_same content xs"
    "toHMInlineContent (?b\<lparr>b_text := Some t, b_annotations := Some as\<rparr>) = Inr xs"
    by blast
  have load: "toHMInlineContent b = Inr xs" if "b_text b = Some t" "b_annotations b = Some as" for b
  proof -
    have "toHMInlineContent b = toHMInlineContent (?b\<lparr>b_text := Some t, b_annotations := Some as\<rparr>)"
      by (rule toHMInlineContent_cong) (simp_all add: that)
    with sl(3) show ?thesis by simp
  qed
  from assms(1) consider "ty = ''paragraph''" | "ty = ''math''" | "ty = ''heading''" | "ty = ''codeBlock''" by blast
  then have "\<exists>b. fromHMBlock (EditorBlock i ty props content []) = Inr b \<and> b_id b = i \<and> b_type b = ty \<and>
     b_text b = Some t \<and> b_annotations b = Some as"
    by cases (simp_all add: assms(2) fromHMBlock_def Let_def with_content_def sl(1) new_block_def)
  then obtain b where b: "fromHMBlock (EditorBlock i ty props content []) = Inr b" "b_id b = i" "b_type b = ty"
     "b_text b = Some t" "b_annotations b = Some as" by blast
  then show ?thesis using assms(1) load [of b] sl(2)
    by (auto simp: save_load_def load_one leaf_block_def)
qed

text \<open>
  C28. What is saved covers what was shown: \<open>extractContent\<close> of inline content returns the
  text of all inlines, and an annotation of a style covers a position exactly when the
  position is saved with that style: the styles of its own run, and inside a link also those
  still on in the last run before the link.
\<close>

theorem extractContent_covers:
  assumes "content_ok content"
  shows "\<exists>t as. extractContent content = Inr (t, as) \<and> t = map fst (carry {} content)
    \<and> (\<forall>i k. covered as i k \<longleftrightarrow> i < length t \<and> k \<in> snd (carry {} content ! i))"
  using assms by (rule extractContent_shown)

definition content_sample :: "inline list" where
  "content_sample = [InlText ''ab'' [(''bold'', True)], InlLink ''link'' ''hm://d/x'' [InlText ''c'' []], InlText ''d'' []]"

theorem extractContent_covers_witness:
  "\<exists>t as. extractContent content_sample = Inr (t, as) \<and> t = map fst (carry {} content_sample)
    \<and> (\<forall>i k. covered as i k \<longleftrightarrow> i < length t \<and> k \<in> snd (carry {} content_sample ! i))"
  by (rule extractContent_covers)
    (simp add: content_sample_def styles_ok_def known_style_def)



text \<open>
  Round trip of media blocks: an image, file, video, web embed or document embed with
  its props in loaded form is loaded exactly as it was saved.
\<close>

theorem media_block_roundtrip:
  assumes "ty \<in> {''image'', ''file'', ''video'', ''web-embed'', ''embed''}"
    and "i \<noteq> []" "ct \<noteq> []" "ll \<noteq> Some []" "start \<noteq> Some []"
    and "ty = ''web-embed'' \<or> ty = ''embed'' \<or> ipfs_ref (Some u) = u"
    and "ty = ''embed'' \<Longrightarrow> truthy x"
  shows "save_load (media_block ty i ct ll start u nm x) = Inr [media_block ty i ct ll start u nm x]"
  using assms by (rule media_save_load)

theorem media_block_roundtrip_witness:
  "save_load (media_block ''image'' ''b1'' ''ul'' (Some ''2'') None ''ipfs://cid'' (Some ''pic.png'') (Some ''300''))
     = Inr [media_block ''image'' ''b1'' ''ul'' (Some ''2'') None ''ipfs://cid'' (Some ''pic.png'') (Some ''300'')]"
  by (rule media_block_roundtrip) (simp_all add: ipfs_ref_def starts_with_def)

text \<open>
  C29. Loading keeps the tree: whenever a block tree loads at a level above zero, the blocks
  have the ids of the nodes in the same tree, and every heading has the level of its depth.
\<close>

theorem toHMBlock_shape:
  assumes "toHMBlock (Some ns) level = Inr bs" "0 < level"
  shows "map editor_shape bs = map node_shape ns \<and> (\<forall>b \<in> set bs. levels_ok level b)"
proof -
  have "list_all2 (\<lambda>x y. toHMBlock_one level x = Inr y) ns bs"
    using assms(1) by (simp add: toHMBlock.simps traverse_Inr_iff)
  then have "list_all2 (\<lambda>x y. editor_shape y = node_shape x \<and> levels_ok level y) ns bs"
    using toHMBlock_one_shape [OF _ assms(2)] by (auto elim!: list.rel_mono_strong)
  then show ?thesis
    by (auto simp: list_all2_conv_all_nth in_set_conv_nth intro!: nth_equalityI)
qed

definition tree_sample :: "block_node list" where
  "tree_sample = [BlockNode (Some (new_block ''h1'' ''heading''))
     (Some [BlockNode (Some (new_block ''p1'' ''paragraph'')) None,
            BlockNode (Some (new_block ''h2'' ''heading'')) (Some [])])]"

theorem toHMBlock_shape_witness:
  "\<exists>bs. toHMBlock (Some tree_sample) 1 = Inr bs \<and> map editor_shape bs = map node_shape tree_sample
     \<and> (\<forall>b \<in> set bs. levels_ok 1 b)"
proof -
  obtain bs where bs: "toHMBlock (Some tree_sample) 1 = Inr bs"
  proof -
    have "\<forall>n \<in> set tree_sample. node_ok n"
      by (simp add: tree_sample_def new_block_def toHMInlineContent_empty)
    then have "\<exists>bs. toHMBlock (Some tree_sample) 1 = Inr bs"
      by (simp add: toHMBlock.simps traverse_ok toHMBlock_one_ok)
    then show ?thesis using that by blast
  qed
  then show ?thesis using toHMBlock_shape [OF bs] by auto
qed

text \<open>
  When loading succeeds: a block tree loads exactly when every node has its block and the
  inline content of each block that has any converts; the level plays no part.
\<close>

theorem toHMBlock_succeeds:
  "(\<exists>bs. toHMBlock (Some ns) level = Inr bs) \<longleftrightarrow> list_all node_ok ns"
  by (simp add: toHMBlock.simps traverse_ok toHMBlock_one_ok list_all_iff)

text \<open>
  Saving fails exactly for a block without id, for a type with no counterpart on the
  server, and for content that does not convert.
\<close>

theorem fromHMBlock_errors:
  "(\<exists>b. fromHMBlock e = Inr b) \<longleftrightarrow> e_id e \<noteq> [] \<and>
     (e_type e \<in> {''file'', ''nostr'', ''web-embed'', ''video'', ''embed''} \<or>
      e_type e \<in> {''paragraph'', ''heading'', ''math'', ''equation'', ''image'', ''imagePlaceholder'', ''codeBlock''}
        \<and> (\<exists>c. extractContent (e_content e) = Inr c))"
  by (auto simp: fromHMBlock_def Let_def with_content_def map_result_Inr_iff)

text \<open>
  A style that is on before a link spreads over the link when the content is saved, even
  when the text of the link does not have it.
\<close>

theorem style_spreads_over_link:
  assumes "known_style k" "j < length u"
  shows "\<exists>t as. extractContent [InlText s [(k, True)], InlLink ''link'' h [InlText u []]] = Inr (t, as)
     \<and> covered as (length s + j) k"
proof -
  let ?c = "[InlText s [(k, True)], InlLink ''link'' h [InlText u []]]"
  have "content_ok ?c" using assms(1) by (simp add: styles_ok_def)
  from extractContent_shown [OF this] obtain t as where ex: "extractContent ?c = Inr (t, as)" "t = map fst (carry {} ?c)"
    "\<forall>i k. covered as i k \<longleftrightarrow> i < length t \<and> k \<in> snd (carry {} ?c ! i)" by auto
  have "covered as (length s + j) k"
    using ex(2,3) assms(2) by (simp add: nth_append on_styles_def style_on_def)
  with ex(1) show ?thesis by blast
qed

theorem style_spreads_over_link_witness:
  "\<exists>t as. extractContent [InlText ''ab'' [(''bold'', True)], InlLink ''link'' ''hm://d/x'' [InlText ''c'' []]] = Inr (t, as)
     \<and> covered as (length ''ab'' + 0) ''bold''"
  by (rule style_spreads_over_link) (simp_all add: known_style_def)

end
