(* ===== verification/Blocks_Diff.thy ===== *)
theory Blocks_Diff
  imports Block_Convert
begin

text \<open>
  Saving a draft (\<^verbatim>\<open>frontend/packages/app/models/documents.ts\<close>): the map of the blocks of
  the stored document, the comparison of the editor's blocks or of another draft with it, the
  changes sent to the server, the deletes.

  A blocks map is the list of its own keys in insertion order. The comparison of annotations
  (\<open>isEqual\<close> of lodash) and the group a block's children are in (read off the editor's
  document) are parameters.
\<close>

section \<open>Model\<close>

record BlocksMapItem =
  bm_parent :: string
  bm_left :: string
  bm_block :: hm_block

type_synonym BlocksMap = "(string \<times> BlocksMapItem) list"

datatype document_change =
  SetTitle string
| MoveBlock (mv_block: string) (mv_parent: string) (mv_left: string)
| ReplaceBlock hm_block
| DeleteBlock string

definition node_id :: "block_node option \<Rightarrow> string" where
  "node_id n = (case n of None \<Rightarrow> [] | Some n' \<Rightarrow> (case node_block n' of None \<Rightarrow> [] | Some b \<Rightarrow> b_id b))"

text \<open>The loop of \<open>createBlocksMap\<close>: the map so far, the node before, the nodes left.\<close>

fun blocks_map_loop :: "BlocksMap \<Rightarrow> block_node option \<Rightarrow> block_node list \<Rightarrow> string \<Rightarrow> BlocksMap" where
  "blocks_map_loop res prev [] parent = res"
| "blocks_map_loop res prev (BlockNode mb cs # rest) parent =
     blocks_map_loop
       (case mb of None \<Rightarrow> res
        | Some b \<Rightarrow> if b_id b = [] then res else
            (let res1 = obj_set (b_id b) \<lparr>bm_parent = parent, bm_left = node_id prev, bm_block = b\<rparr> res
             in case cs of None \<Rightarrow> res1 | Some [] \<Rightarrow> res1
                | Some (c # ns) \<Rightarrow> obj_spread res1 (blocks_map_loop [] None (c # ns) (b_id b))))
       (Some (BlockNode mb cs)) rest parent"

definition createBlocksMap :: "block_node list option \<Rightarrow> string \<Rightarrow> BlocksMap" where
  "createBlocksMap blockNodes parentId =
     blocks_map_loop [] None (case blockNodes of None \<Rightarrow> [] | Some ns \<Rightarrow> ns) parentId"

definition isBlockAttributesEqual :: "hm_block \<Rightarrow> hm_block \<Rightarrow> bool" where
  "isBlockAttributesEqual b1 b2 =
     (case (b_attributes b1, b_attributes b2) of
        (None, None) \<Rightarrow> True
      | (Some a1, Some a2) \<Rightarrow> list_all (\<lambda>k. a1 k = a2 k)
          [''childrenType'', ''start'', ''level'', ''url'', ''size'', ''ref'', ''language'', ''view'', ''width'']
      | _ \<Rightarrow> False)"

type_synonym annotations_eq = "annotation list option \<Rightarrow> annotation list option \<Rightarrow> bool"

definition isBlocksEqual :: "annotations_eq \<Rightarrow> hm_block \<Rightarrow> hm_block \<Rightarrow> bool" where
  "isBlocksEqual isEqual b1 b2 \<longleftrightarrow>
     b_text b1 = b_text b2 \<and> b_ref b1 = b_ref b2 \<and> isEqual (b_annotations b1) (b_annotations b2) \<and>
     isBlockAttributesEqual b1 b2 \<and> b_type b1 = b_type b2"

text \<open>
  The changes for one block: where it stands now, what it holds now, and the item of the map, if
  there is one; \<open>fresh\<close> says that an item is to be treated as if it were new.
\<close>

definition block_changes ::
  "annotations_eq \<Rightarrow> (hm_block \<Rightarrow> bool) \<Rightarrow> BlocksMapItem option \<Rightarrow> string \<Rightarrow> string \<Rightarrow> string \<Rightarrow> hm_block \<Rightarrow> document_change list" where
  "block_changes isEqual fresh prev i left parent cur =
     (case prev of
        None \<Rightarrow> [MoveBlock i parent left, ReplaceBlock cur]
      | Some it \<Rightarrow>
          if fresh (bm_block it) then [MoveBlock i parent left, ReplaceBlock cur]
          else (if bm_left it \<noteq> left \<or> bm_parent it \<noteq> parent then [MoveBlock i parent left] else []) @
               (if isBlocksEqual isEqual (bm_block it) cur then [] else [ReplaceBlock cur]))"

text \<open>The group that holds a block's children, as \<open>getBlockGroup\<close> reads it; a start of 0 counts as none.\<close>

record child_group =
  g_type :: "string option"
  g_listLevel :: "string option"
  g_start :: "nat option"

definition group_props :: "child_group option \<Rightarrow> block_props \<Rightarrow> block_props" where
  "group_props cg p = (case cg of None \<Rightarrow> p
    | Some g \<Rightarrow>
        (let p1 = p\<lparr>p_childrenType := Some (case g_type g of None \<Rightarrow> ''group'' | Some t \<Rightarrow> if t = [] then ''group'' else t),
                    p_listLevel := g_listLevel g\<rparr>
         in case g_start g of None \<Rightarrow> p1 | Some n \<Rightarrow> if n = 0 then p1 else p1\<lparr>p_start := Some (show_nat n)\<rparr>))"

fun set_props :: "(block_props \<Rightarrow> block_props) \<Rightarrow> editor_block \<Rightarrow> editor_block" where
  "set_props f (EditorBlock i ty p c cs) = EditorBlock i ty (f p) c cs"

definition editor_id :: "editor_block option \<Rightarrow> string" where
  "editor_id b = (case b of None \<Rightarrow> [] | Some e \<Rightarrow> e_id e)"

fun compare_blocks_loop ::
  "annotations_eq \<Rightarrow> (string \<Rightarrow> child_group option) \<Rightarrow> BlocksMap \<Rightarrow> editor_block option \<Rightarrow> editor_block list \<Rightarrow> string
     \<Rightarrow> (document_change list \<times> string list) result" where
  "compare_blocks_loop isEqual grp bm prev [] parent = Inr ([], [])"
| "compare_blocks_loop isEqual grp bm prev (EditorBlock i ty p c cs # rest) parent =
     bind_result (fromHMBlock (EditorBlock i ty (group_props (grp i) p) c cs)) (\<lambda>cur.
       bind_result (compare_blocks_loop isEqual grp bm None cs i) (\<lambda>(chs, ts).
         map_result (\<lambda>(chs', ts').
             (block_changes isEqual (\<lambda>b. attr b ''listLevel'' \<noteq> attr cur ''listLevel'') (map_of bm i) i (editor_id prev) parent cur
                @ chs @ chs', i # ts @ ts'))
           (compare_blocks_loop isEqual grp bm (Some (EditorBlock i ty p c cs)) rest parent)))"

definition compareBlocksWithMap ::
  "annotations_eq \<Rightarrow> (string \<Rightarrow> child_group option) \<Rightarrow> BlocksMap \<Rightarrow> editor_block list \<Rightarrow> string
     \<Rightarrow> (document_change list \<times> string list) result" where
  "compareBlocksWithMap isEqual grp bm blocks parentId = compare_blocks_loop isEqual grp bm None blocks parentId"

text \<open>
  The same over a draft from the server. The id of the node before is read with a
  non-null assertion: when that node has no block, this is a TypeError.
\<close>

fun compare_draft_loop ::
  "annotations_eq \<Rightarrow> BlocksMap \<Rightarrow> block_node option \<Rightarrow> block_node list \<Rightarrow> string
     \<Rightarrow> (document_change list \<times> string list) result" where
  "compare_draft_loop isEqual bm prev [] parent = Inr ([], [])"
| "compare_draft_loop isEqual bm prev (BlockNode mb cs # rest) parent =
     (case mb of
        None \<Rightarrow> compare_draft_loop isEqual bm (Some (BlockNode mb cs)) rest parent
      | Some b \<Rightarrow>
          if (case prev of None \<Rightarrow> False | Some n \<Rightarrow> node_block n = None) then Inl TypeError
          else bind_result (case cs of None \<Rightarrow> Inr ([], []) | Some ns \<Rightarrow> compare_draft_loop isEqual bm None ns (b_id b)) (\<lambda>(chs, ts).
            map_result (\<lambda>(chs', ts').
                (block_changes isEqual (\<lambda>_. False) (map_of bm (b_id b)) (b_id b) (node_id prev) parent b @ chs @ chs',
                 b_id b # ts @ ts'))
              (compare_draft_loop isEqual bm (Some (BlockNode mb cs)) rest parent)))"

definition compareDraftWithMap ::
  "annotations_eq \<Rightarrow> BlocksMap \<Rightarrow> block_node list \<Rightarrow> string \<Rightarrow> (document_change list \<times> string list) result" where
  "compareDraftWithMap isEqual bm blockNodes parentId = compare_draft_loop isEqual bm None blockNodes parentId"

definition extractDeletes :: "BlocksMap \<Rightarrow> string list \<Rightarrow> document_change list" where
  "extractDeletes bm touched = map DeleteBlock (filter (\<lambda>i. i \<notin> set touched) (map fst bm))"

section \<open>Entries\<close>

text \<open>What the comparison visits, in order: each block with where it stands.\<close>

record entry =
  en_id :: string
  en_parent :: string
  en_left :: string
  en_block :: hm_block

fun draft_entries :: "block_node option \<Rightarrow> block_node list \<Rightarrow> string \<Rightarrow> entry list" where
  "draft_entries prev [] p = []"
| "draft_entries prev (BlockNode mb cs # rest) p =
     (case mb of None \<Rightarrow> []
      | Some b \<Rightarrow> \<lparr>en_id = b_id b, en_parent = p, en_left = node_id prev, en_block = b\<rparr> #
          (case cs of None \<Rightarrow> [] | Some ns \<Rightarrow> draft_entries None ns (b_id b)))
     @ draft_entries (Some (BlockNode mb cs)) rest p"

text \<open>Every node has a block with an id.\<close>

fun draft_wf :: "block_node list \<Rightarrow> bool" where
  "draft_wf [] \<longleftrightarrow> True"
| "draft_wf (BlockNode mb cs # rest) \<longleftrightarrow>
     (case mb of None \<Rightarrow> False | Some b \<Rightarrow> b_id b \<noteq> []) \<and>
     (case cs of None \<Rightarrow> True | Some ns \<Rightarrow> draft_wf ns) \<and> draft_wf rest"

definition draft_ids :: "block_node list \<Rightarrow> string list" where
  "draft_ids ns = map en_id (draft_entries None ns [])"

fun editor_entries ::
  "(string \<Rightarrow> child_group option) \<Rightarrow> editor_block option \<Rightarrow> editor_block list \<Rightarrow> string \<Rightarrow> entry list result" where
  "editor_entries grp prev [] p = Inr []"
| "editor_entries grp prev (EditorBlock i ty pr c cs # rest) p =
     bind_result (fromHMBlock (EditorBlock i ty (group_props (grp i) pr) c cs)) (\<lambda>cur.
       bind_result (editor_entries grp None cs i) (\<lambda>es.
         map_result (\<lambda>es'. \<lparr>en_id = i, en_parent = p, en_left = editor_id prev, en_block = cur\<rparr> # es @ es')
           (editor_entries grp (Some (EditorBlock i ty pr c cs)) rest p)))"

definition draft_diff :: "annotations_eq \<Rightarrow> BlocksMapItem option \<Rightarrow> entry \<Rightarrow> document_change list" where
  "draft_diff isEqual prev e =
     block_changes isEqual (\<lambda>_. False) prev (en_id e) (en_left e) (en_parent e) (en_block e)"

definition editor_diff :: "annotations_eq \<Rightarrow> BlocksMapItem option \<Rightarrow> entry \<Rightarrow> document_change list" where
  "editor_diff isEqual prev e =
     block_changes isEqual (\<lambda>b. attr b ''listLevel'' \<noteq> attr (en_block e) ''listLevel'') prev
       (en_id e) (en_left e) (en_parent e) (en_block e)"

definition item_of :: "entry \<Rightarrow> BlocksMapItem" where
  "item_of e = \<lparr>bm_parent = en_parent e, bm_left = en_left e, bm_block = en_block e\<rparr>"

lemma compare_draft_entries:
  "draft_wf ns \<Longrightarrow> (\<And>n. prev = Some n \<Longrightarrow> node_block n \<noteq> None) \<Longrightarrow>
   compare_draft_loop isEqual bm prev ns p =
     Inr (concat (map (\<lambda>e. draft_diff isEqual (map_of bm (en_id e)) e) (draft_entries prev ns p)),
          map en_id (draft_entries prev ns p))"
proof (induction isEqual bm prev ns p rule: compare_draft_loop.induct)
  case (2 isEqual bm prev mb cs rest parent)
  from 2(4) obtain b where b: "mb = Some b" by (cases mb) auto
  have prev: "\<not> (case prev of None \<Rightarrow> False | Some n \<Rightarrow> node_block n = None)"
    using 2(5) by (cases prev) auto
  let ?kids = "case cs of None \<Rightarrow> [] | Some ns \<Rightarrow> draft_entries None ns (b_id b)"
  have kids: "(case cs of None \<Rightarrow> Inr ([], []) | Some ns \<Rightarrow> compare_draft_loop isEqual bm None ns (b_id b))
     = Inr (concat (map (\<lambda>e. draft_diff isEqual (map_of bm (en_id e)) e) ?kids), map en_id ?kids)"
    using 2(2) [OF b prev] 2(4) b by (cases cs) auto
  from 2(3) [OF b prev kids refl] 2(4) b kids prev show ?case
    by (simp add: draft_diff_def)
qed simp

lemma draft_entries_block: "e \<in> set (draft_entries prev ns p) \<Longrightarrow> b_id (en_block e) = en_id e"
  by (induction prev ns p rule: draft_entries.induct) (auto split: option.splits)

lemma ids_draft_entries:
  "map en_id (draft_entries prev ns p) = map en_id (draft_entries prev' ns p')"
proof (induction prev ns p arbitrary: prev' p' rule: draft_entries.induct)
  case (2 prev mb cs rest p)
  show ?case using 2(2) [of "Some (BlockNode mb cs)" p'] by (simp split: option.split)
qed simp

lemma draft_ids_eq: "map en_id (draft_entries prev ns p) = draft_ids ns"
  unfolding draft_ids_def by (rule ids_draft_entries)

lemma blocks_map_entries:
  "draft_wf ns \<Longrightarrow> distinct (map fst res @ map en_id (draft_entries prev ns p)) \<Longrightarrow>
   blocks_map_loop res prev ns p = res @ map (\<lambda>e. (en_id e, item_of e)) (draft_entries prev ns p)"
proof (induction res prev ns p rule: blocks_map_loop.induct)
  case (2 res prev mb cs rest parent)
  from 2(3) obtain b where b: "mb = Some b" "b_id b \<noteq> []" by (cases mb) auto
  let ?e = "\<lparr>en_id = b_id b, en_parent = parent, en_left = node_id prev, en_block = b\<rparr>"
  let ?res1 = "obj_set (b_id b) \<lparr>bm_parent = parent, bm_left = node_id prev, bm_block = b\<rparr> res"
  let ?kids = "case cs of None \<Rightarrow> [] | Some ns \<Rightarrow> draft_entries None ns (b_id b)"
  have r1: "?res1 = res @ [(b_id b, item_of ?e)]"
    using 2(4) b by (auto simp: item_of_def intro!: obj_set_new)
  let ?res2 = "case cs of None \<Rightarrow> ?res1 | Some [] \<Rightarrow> ?res1
                | Some (c # ns) \<Rightarrow> obj_spread ?res1 (blocks_map_loop [] None (c # ns) (b_id b))"
  have r2: "?res2 = res @ (b_id b, item_of ?e) # map (\<lambda>e. (en_id e, item_of e)) ?kids"
  proof (cases "cs = None \<or> cs = Some []")
    case True
    then show ?thesis using r1 by auto
  next
    case False
    then obtain c ns where cs: "cs = Some (c # ns)" by (cases cs) (auto simp: neq_Nil_conv)
    have "blocks_map_loop [] None (c # ns) (b_id b) = map (\<lambda>e. (en_id e, item_of e)) (draft_entries None (c # ns) (b_id b))"
      using 2(1) [OF b refl cs] 2(3,4) b cs by simp
    moreover have "obj_spread ?res1 (map (\<lambda>e. (en_id e, item_of e)) (draft_entries None (c # ns) (b_id b)))
       = ?res1 @ map (\<lambda>e. (en_id e, item_of e)) (draft_entries None (c # ns) (b_id b))"
      unfolding r1 using 2(4) b cs by (intro obj_spread_new) (auto simp: comp_def)
    ultimately show ?thesis using cs r1 by simp
  qed
  have "blocks_map_loop ?res2 (Some (BlockNode mb cs)) rest parent
     = ?res2 @ map (\<lambda>e. (en_id e, item_of e)) (draft_entries (Some (BlockNode mb cs)) rest parent)"
  proof -
    have "(case mb of None \<Rightarrow> res | Some b \<Rightarrow> if b_id b = [] then res else
            (let res1 = obj_set (b_id b) \<lparr>bm_parent = parent, bm_left = node_id prev, bm_block = b\<rparr> res
             in case cs of None \<Rightarrow> res1 | Some [] \<Rightarrow> res1
                | Some (c # ns) \<Rightarrow> obj_spread res1 (blocks_map_loop [] None (c # ns) (b_id b)))) = ?res2"
      using b by (simp add: Let_def)
    note IH = 2(2) [unfolded this]
    show ?thesis using 2(3,4) b by (intro IH) (auto simp: r2 comp_def split: option.split)
  qed
  then show ?case using b r2 by (simp add: Let_def)
qed simp

lemma createBlocksMap_entries:
  "draft_wf ns \<Longrightarrow> distinct (draft_ids ns) \<Longrightarrow>
     createBlocksMap (Some ns) p = map (\<lambda>e. (en_id e, item_of e)) (draft_entries None ns p)"
  using blocks_map_entries [of ns "[]" None p] draft_ids_eq by (simp add: createBlocksMap_def)

lemma compare_blocks_entries:
  "compare_blocks_loop isEqual grp bm prev bs p = map_result
     (\<lambda>es. (concat (map (\<lambda>e. editor_diff isEqual (map_of bm (en_id e)) e) es), map en_id es))
     (editor_entries grp prev bs p)"
proof (induction isEqual grp bm prev bs p rule: compare_blocks_loop.induct)
  case (2 isEqual grp bm prev i ty pr c cs rest parent)
  show ?case
  proof (cases "fromHMBlock (EditorBlock i ty (group_props (grp i) pr) c cs)")
    case (Inr cur)
    note IH1 = 2(1) [OF Inr]
    show ?thesis
    proof (cases "editor_entries grp None cs i")
      case (Inr es)
      with IH1 have kids: "compare_blocks_loop isEqual grp bm None cs i
        = Inr (concat (map (\<lambda>e. editor_diff isEqual (map_of bm (en_id e)) e) es), map en_id es)" by simp
      from 2(2) [OF \<open>fromHMBlock _ = _\<close> kids refl] Inr \<open>fromHMBlock _ = _\<close> kids show ?thesis
        by (simp add: js_simps editor_diff_def)
    qed (use Inr IH1 in simp)
  qed simp
qed simp

lemma fromHMBlock_id: "fromHMBlock e = Inr b \<Longrightarrow> b_id b = e_id e"
  by (auto simp: fromHMBlock_def Let_def with_content_def new_block_def map_result_Inr_iff split: if_splits)

lemma editor_entries_block:
  "editor_entries grp prev bs p = Inr es \<Longrightarrow> e \<in> set es \<Longrightarrow> b_id (en_block e) = en_id e"
proof (induction grp prev bs p arbitrary: es rule: editor_entries.induct)
  case (2 grp prev i ty pr c cs rest p)
  from 2(3) obtain cur es1 es2 where
    cur: "fromHMBlock (EditorBlock i ty (group_props (grp i) pr) c cs) = Inr cur"
    and es1: "editor_entries grp None cs i = Inr es1"
    and es2: "editor_entries grp (Some (EditorBlock i ty pr c cs)) rest p = Inr es2"
    and es: "es = \<lparr>en_id = i, en_parent = p, en_left = editor_id prev, en_block = cur\<rparr> # es1 @ es2"
    by (auto simp: bind_result_Inr_iff map_result_Inr_iff)
  with 2(1) [OF cur es1] 2(2) [OF cur es1 es2] 2(4) fromHMBlock_id [OF cur] show ?case by auto
qed simp

section \<open>What the changes do\<close>

text \<open>
  The meaning of the changes on the recorded positions: a move records a parent and a left
  sibling, a replacement records a block, a delete forgets one.
\<close>

fun apply_change :: "(string \<rightharpoonup> BlocksMapItem) \<Rightarrow> document_change \<Rightarrow> (string \<rightharpoonup> BlocksMapItem)" where
  "apply_change m (SetTitle t) = m"
| "apply_change m (MoveBlock i p l) = m(i \<mapsto>
     (case m i of None \<Rightarrow> \<lparr>bm_parent = p, bm_left = l, bm_block = new_block i []\<rparr>
                | Some it \<Rightarrow> it\<lparr>bm_parent := p, bm_left := l\<rparr>))"
| "apply_change m (ReplaceBlock b) =
     (case m (b_id b) of None \<Rightarrow> m | Some it \<Rightarrow> m(b_id b \<mapsto> it\<lparr>bm_block := b\<rparr>))"
| "apply_change m (DeleteBlock i) = m(i := None)"

definition reached :: "annotations_eq \<Rightarrow> BlocksMapItem \<Rightarrow> BlocksMapItem \<Rightarrow> bool" where
  "reached isEqual it goal \<longleftrightarrow> bm_parent it = bm_parent goal \<and> bm_left it = bm_left goal \<and>
     (bm_block it = bm_block goal \<or> isBlocksEqual isEqual (bm_block it) (bm_block goal))"

text \<open>
  A comparison of one block with its recorded state, and what it promises: the changes it
  returns bring the recorded state of that block where it should be and touch no other.
\<close>

locale differ =
  fixes diff :: "BlocksMapItem option \<Rightarrow> entry \<Rightarrow> document_change list"
    and good :: "BlocksMapItem \<Rightarrow> BlocksMapItem \<Rightarrow> bool"
  assumes diff_applies: "b_id (en_block e) = en_id e \<Longrightarrow>
    \<exists>it. foldl apply_change m (diff (m (en_id e)) e) = m(en_id e \<mapsto> it) \<and> good it (item_of e)"
begin

lemma diffs_apply:
  assumes "distinct (map en_id es)" "\<And>e. e \<in> set es \<Longrightarrow> b_id (en_block e) = en_id e"
    and "\<And>e. e \<in> set es \<Longrightarrow> m (en_id e) = m0 (en_id e)"
  defines "m' \<equiv> foldl apply_change m (concat (map (\<lambda>e. diff (m0 (en_id e)) e) es))"
  shows "\<And>e. e \<in> set es \<Longrightarrow> \<exists>it. m' (en_id e) = Some it \<and> good it (item_of e)"
    and "\<And>i. i \<notin> en_id ` set es \<Longrightarrow> m' i = m i"
proof -
  have "(\<forall>e \<in> set es. \<exists>it. m' (en_id e) = Some it \<and> good it (item_of e)) \<and> (\<forall>i. i \<notin> en_id ` set es \<longrightarrow> m' i = m i)"
    unfolding m'_def using assms(1-3)
  proof (induction es arbitrary: m)
    case Nil
    then show ?case by simp
  next
    case (Cons e es)
    from diff_applies [of e m] Cons.prems(2,3) obtain it where
      it: "foldl apply_change m (diff (m0 (en_id e)) e) = m(en_id e \<mapsto> it)" "good it (item_of e)" by auto
    let ?m = "m(en_id e \<mapsto> it)"
    let ?m' = "foldl apply_change ?m (concat (map (\<lambda>e. diff (m0 (en_id e)) e) es))"
    have notin: "en_id e \<notin> en_id ` set es" using Cons.prems(1) by simp
    then have ne: "en_id e' \<noteq> en_id e" if "e' \<in> set es" for e' using that by (metis image_eqI)
    have IH: "(\<forall>e' \<in> set es. \<exists>it. ?m' (en_id e') = Some it \<and> good it (item_of e')) \<and> (\<forall>i. i \<notin> en_id ` set es \<longrightarrow> ?m' i = ?m i)"
      using Cons.prems ne by (intro Cons.IH) auto
    have eq: "foldl apply_change m (concat (map (\<lambda>e. diff (m0 (en_id e)) e) (e # es))) = ?m'"
      using it(1) by simp
    show ?case unfolding eq using IH it(2) notin by auto
  qed
  then show "\<And>e. e \<in> set es \<Longrightarrow> \<exists>it. m' (en_id e) = Some it \<and> good it (item_of e)"
    and "\<And>i. i \<notin> en_id ` set es \<Longrightarrow> m' i = m i" by auto
qed

lemma deletes_apply:
  "foldl apply_change m (map DeleteBlock is) = (\<lambda>i. if i \<in> set is then None else m i)"
  by (induction "is" arbitrary: m) auto

text \<open>All changes and then the deletes: every block where it should be, and no others.\<close>

lemma update_reaches:
  assumes "distinct (map en_id es)" "\<And>e. e \<in> set es \<Longrightarrow> b_id (en_block e) = en_id e"
  shows "rel_option good
    (foldl apply_change (map_of bm) (concat (map (\<lambda>e. diff (map_of bm (en_id e)) e) es)
        @ extractDeletes bm (map en_id es)) i)
    (map_of (map (\<lambda>e. (en_id e, item_of e)) es) i)"
proof -
  let ?m' = "foldl apply_change (map_of bm) (concat (map (\<lambda>e. diff (map_of bm (en_id e)) e) es))"
  have d: "\<exists>it. ?m' (en_id e) = Some it \<and> good it (item_of e)" if "e \<in> set es" for e
    using diffs_apply(1) [OF assms(1), of "map_of bm" "map_of bm" e] assms(2) that by blast
  have d2: "?m' i = map_of bm i" if "i \<notin> en_id ` set es"
    using diffs_apply(2) [OF assms(1), of "map_of bm" "map_of bm" i] assms(2) that by blast
  have del: "foldl apply_change ?m' (extractDeletes bm (map en_id es)) i
    = (if i \<in> fst ` set bm \<and> i \<notin> en_id ` set es then None else ?m' i)"
    by (simp add: extractDeletes_def deletes_apply)
  show ?thesis
  proof (cases "i \<in> en_id ` set es")
    case True
    then obtain e where e: "e \<in> set es" "i = en_id e" by auto
    have "map_of (map (\<lambda>e. (en_id e, item_of e)) es) i = Some (item_of e)"
      using assms(1) e by (intro map_of_is_SomeI) (auto simp: comp_def)
    with d [OF e(1)] del True e(2) show ?thesis by auto
  next
    case False
    then have "map_of (map (\<lambda>e. (en_id e, item_of e)) es) i = None"
      by (auto simp: map_of_eq_None_iff)
    moreover have "?m' i = map_of bm i" using d2 False by blast
    moreover have "map_of bm i = None" if "i \<notin> fst ` set bm" using that by (simp add: map_of_eq_None_iff)
    ultimately show ?thesis using del False by (cases "i \<in> fst ` set bm") simp_all
  qed
qed

end

lemma block_changes_apply:
  assumes "b_id cur = i"
  shows "\<exists>it. foldl apply_change m (block_changes isEqual fresh (m i) i left parent cur) = m(i \<mapsto> it)
    \<and> reached isEqual it \<lparr>bm_parent = parent, bm_left = left, bm_block = cur\<rparr>"
proof (cases "m i")
  case None
  with assms show ?thesis
    by (intro exI [of _ "\<lparr>bm_parent = parent, bm_left = left, bm_block = cur\<rparr>"])
      (simp add: block_changes_def reached_def)
next
  case (Some it)
  let ?it1 = "it\<lparr>bm_parent := parent, bm_left := left\<rparr>"
  let ?move = "if bm_left it \<noteq> left \<or> bm_parent it \<noteq> parent then [MoveBlock i parent left] else []"
  have move: "foldl apply_change m ?move = m(i \<mapsto> ?it1)"
    using Some by (cases it) (auto simp: map_upd_triv)
  show ?thesis
  proof (cases "fresh (bm_block it)")
    case True
    with Some assms show ?thesis
      by (intro exI [of _ "?it1\<lparr>bm_block := cur\<rparr>"]) (simp add: block_changes_def reached_def)
  next
    case False
    have "foldl apply_change m (block_changes isEqual fresh (m i) i left parent cur)
      = m(i \<mapsto> if isBlocksEqual isEqual (bm_block it) cur then ?it1 else ?it1\<lparr>bm_block := cur\<rparr>)"
      using Some False assms move by (simp add: block_changes_def)
    then show ?thesis by (auto simp: reached_def)
  qed
qed

interpretation draft: differ "draft_diff isEqual" "reached isEqual"
  by unfold_locales (use block_changes_apply in \<open>simp add: draft_diff_def item_of_def\<close>)

interpretation editor: differ "editor_diff isEqual" "reached isEqual"
  by unfold_locales (use block_changes_apply in \<open>simp add: editor_diff_def item_of_def\<close>)

lemma rel_option_map_of_id: "rel_option R x y \<Longrightarrow> y = None \<Longrightarrow> x = None"
  by auto

lemma draft_update_reaches:
  assumes "draft_wf ns" "distinct (draft_ids ns)"
  shows "\<exists>chs touched. compareDraftWithMap isEqual bm ns p = Inr (chs, touched) \<and>
    (\<forall>i. rel_option (reached isEqual)
       (foldl apply_change (map_of bm) (chs @ extractDeletes bm touched) i)
       (map_of (createBlocksMap (Some ns) p) i))"
proof -
  let ?es = "draft_entries None ns p"
  have d: "distinct (map en_id ?es)" using assms(2) draft_ids_eq by simp
  have "compareDraftWithMap isEqual bm ns p
    = Inr (concat (map (\<lambda>e. draft_diff isEqual (map_of bm (en_id e)) e) ?es), map en_id ?es)"
    using compare_draft_entries [OF assms(1), of None] by (simp add: compareDraftWithMap_def)
  with draft.update_reaches [OF d draft_entries_block] createBlocksMap_entries [OF assms] show ?thesis by auto
qed

lemma editor_update_reaches:
  assumes "compareBlocksWithMap isEqual grp bm bs p = Inr (chs, touched)" "distinct touched"
    and "editor_entries grp None bs p = Inr es"
  shows "rel_option (reached isEqual)
       (foldl apply_change (map_of bm) (chs @ extractDeletes bm touched) i)
       (map_of (map (\<lambda>e. (en_id e, item_of e)) es) i)"
proof -
  have eq: "chs = concat (map (\<lambda>e. editor_diff isEqual (map_of bm (en_id e)) e) es)" "touched = map en_id es"
    using assms(1,3) by (simp_all add: compareBlocksWithMap_def compare_blocks_entries)
  show ?thesis unfolding eq
    using assms(2) editor_entries_block [OF assms(3)] by (intro editor.update_reaches) (simp_all add: eq)
qed

lemma unchanged_draft:
  assumes "draft_wf ns" "distinct (draft_ids ns)" "\<And>x. isEqual x x"
  shows "compareDraftWithMap isEqual (createBlocksMap (Some ns) p) ns p = Inr ([], draft_ids ns)"
    and "extractDeletes (createBlocksMap (Some ns) p) (draft_ids ns) = []"
proof -
  let ?es = "draft_entries None ns p"
  let ?bm = "createBlocksMap (Some ns) p"
  have bm: "?bm = map (\<lambda>e. (en_id e, item_of e)) ?es" by (rule createBlocksMap_entries [OF assms(1,2)])
  have d: "distinct (map en_id ?es)" using assms(2) draft_ids_eq by simp
  have refl: "isBlocksEqual isEqual b b" for b
    using assms(3) by (simp add: isBlocksEqual_def isBlockAttributesEqual_def split: option.split)
  have "draft_diff isEqual (map_of ?bm (en_id e)) e = []" if "e \<in> set ?es" for e
  proof -
    have "map_of ?bm (en_id e) = Some (item_of e)"
      unfolding bm using d that by (intro map_of_is_SomeI) (auto simp: comp_def)
    then show ?thesis using refl by (simp add: draft_diff_def block_changes_def item_of_def)
  qed
  then have "concat (map (\<lambda>e. draft_diff isEqual (map_of ?bm (en_id e)) e) ?es) = []" by auto
  with compare_draft_entries [OF assms(1), of None isEqual ?bm p]
  show "compareDraftWithMap isEqual ?bm ns p = Inr ([], draft_ids ns)"
    by (simp add: compareDraftWithMap_def draft_ids_eq)
  show "extractDeletes ?bm (draft_ids ns) = []"
    unfolding bm extractDeletes_def using draft_ids_eq [of None ns p, symmetric] by (auto simp: filter_empty_conv)
qed

section \<open>The order of siblings\<close>

text \<open>
  A move as the backend carries it out: the block leaves the list it is in and goes right
  after its left sibling in the list of its parent, or to the front. The children of each
  block are a list; the top level is under the empty id.
\<close>

fun insert_after :: "string \<Rightarrow> string \<Rightarrow> string list \<Rightarrow> string list" where
  "insert_after l i [] = []"
| "insert_after l i (x # xs) = (if x = l then x # i # xs else x # insert_after l i xs)"

definition place :: "string \<Rightarrow> string \<Rightarrow> string \<Rightarrow> (string \<Rightarrow> string list) \<Rightarrow> (string \<Rightarrow> string list)" where
  "place i p l f = (let g = (\<lambda>q. removeAll i (f q))
     in g(p := if l = [] then i # g p else insert_after l i (g p)))"

fun move_step :: "(string \<Rightarrow> string list) \<Rightarrow> document_change \<Rightarrow> (string \<Rightarrow> string list)" where
  "move_step f (MoveBlock i p l) = place i p l f"
| "move_step f (DeleteBlock i) = (\<lambda>q. removeAll i (f q))"
| "move_step f _ = f"

definition siblings :: "entry list \<Rightarrow> string \<Rightarrow> string list" where
  "siblings es q = map en_id (filter (\<lambda>e. en_parent e = q) es)"

lemma siblings_simps:
  "siblings [] q = []" "siblings (es @ es') q = siblings es q @ siblings es' q"
  "siblings (e # es) q = (if en_parent e = q then en_id e # siblings es q else siblings es q)"
  by (simp_all add: siblings_def)

text \<open>Each entry names the last child its parent has so far.\<close>

fun lefts_ok :: "(string \<Rightarrow> string list) \<Rightarrow> entry list \<Rightarrow> bool" where
  "lefts_ok f [] \<longleftrightarrow> True"
| "lefts_ok f (e # es) \<longleftrightarrow>
     en_left e = (if f (en_parent e) = [] then [] else last (f (en_parent e))) \<and>
     lefts_ok (f(en_parent e := f (en_parent e) @ [en_id e])) es"

definition grown :: "(string \<Rightarrow> string list) \<Rightarrow> entry list \<Rightarrow> string \<Rightarrow> string list" where
  "grown f es q = f q @ siblings es q"

lemma grown_Nil [simp]: "grown f [] = f"
  by (simp add: grown_def siblings_def fun_eq_iff)

lemma grown_Cons: "grown (f(en_parent e := f (en_parent e) @ [en_id e])) es = grown f (e # es)"
  by (auto simp: grown_def siblings_def fun_eq_iff)

lemma grown_append: "grown f (es @ es') = grown (grown f es) es'"
  by (simp add: grown_def siblings_def fun_eq_iff)

lemma lefts_ok_append: "lefts_ok f (es @ es') \<longleftrightarrow> lefts_ok f es \<and> lefts_ok (grown f es) es'"
  by (induction es arbitrary: f) (auto simp: grown_Cons)

lemma draft_entries_parents: "e \<in> set (draft_entries prev ns p) \<Longrightarrow> en_parent e = p \<or> en_parent e \<in> en_id ` set (draft_entries prev ns p)"
proof (induction prev ns p rule: draft_entries.induct)
  case (2 prev mb cs rest p)
  show ?case
  proof (cases mb)
    case None
    with 2 show ?thesis by auto
  next
    case (Some b)
    let ?kids = "case cs of None \<Rightarrow> [] | Some ns \<Rightarrow> draft_entries None ns (b_id b)"
    from 2(3) Some consider "en_parent e = p" | "e \<in> set ?kids"
      | "e \<in> set (draft_entries (Some (BlockNode mb cs)) rest p)" by auto
    then show ?thesis
    proof cases
      case 2
      then obtain ns where ns: "cs = Some ns" "e \<in> set (draft_entries None ns (b_id b))" by (auto split: option.splits)
      from \<open>mb = Some b\<close> 2(1) ns show ?thesis
        using "2.IH"(1) [OF Some ns] by auto
    next
      case 3
      then show ?thesis using "2.IH"(2) [OF 3] Some by auto
    qed simp
  qed
qed simp

lemma lefts_ok_cong: "(\<And>e. e \<in> set es \<Longrightarrow> f (en_parent e) = g (en_parent e)) \<Longrightarrow> lefts_ok f es = lefts_ok g es"
proof (induction es arbitrary: f g)
  case (Cons e es)
  have "lefts_ok (f(en_parent e := f (en_parent e) @ [en_id e])) es = lefts_ok (g(en_parent e := g (en_parent e) @ [en_id e])) es"
    using Cons.prems by (intro Cons.IH) auto
  with Cons.prems show ?case by auto
qed simp

lemma lefts_ok_draft:
  "draft_wf ns \<Longrightarrow> distinct (map en_id (draft_entries prev ns p)) \<Longrightarrow> p \<notin> en_id ` set (draft_entries prev ns p) \<Longrightarrow>
   (\<And>q. q \<in> en_id ` set (draft_entries prev ns p) \<Longrightarrow> f q = []) \<Longrightarrow>
   (if f p = [] then [] else last (f p)) = node_id prev \<Longrightarrow> lefts_ok f (draft_entries prev ns p)"
proof (induction prev ns p arbitrary: f rule: draft_entries.induct)
  case (2 prev mb cs rest p)
  from 2(3) obtain b where b: "mb = Some b" "b_id b \<noteq> []" by (cases mb) auto
  let ?i = "b_id b"
  let ?e = "\<lparr>en_id = ?i, en_parent = p, en_left = node_id prev, en_block = b\<rparr>"
  let ?kids = "case cs of None \<Rightarrow> [] | Some ns \<Rightarrow> draft_entries None ns ?i"
  let ?rest = "draft_entries (Some (BlockNode mb cs)) rest p"
  let ?f1 = "f(p := f p @ [?i])"
  have es: "draft_entries prev (BlockNode mb cs # rest) p = ?e # ?kids @ ?rest" using b by simp
  have d: "distinct (?i # map en_id ?kids @ map en_id ?rest)" using 2(4) unfolding es by simp
  have dd: "?i \<notin> en_id ` set ?rest" "en_id ` set ?kids \<inter> en_id ` set ?rest = {}"
    using d unfolding distinct.simps distinct_append set_map set_append by blast+
  have p: "p \<noteq> ?i" "p \<notin> en_id ` set ?kids" "p \<notin> en_id ` set ?rest" using 2(5) unfolding es by auto
  have f0: "f ?i = []" "\<And>q. q \<in> en_id ` set ?kids \<union> en_id ` set ?rest \<Longrightarrow> f q = []" using 2(6) unfolding es by auto
  have kp: "en_parent e = ?i \<or> en_parent e \<in> en_id ` set ?kids" if "e \<in> set ?kids" for e
  proof (cases cs)
    case (Some ns)
    with that have "e \<in> set (draft_entries None ns ?i)" by simp
    from draft_entries_parents [OF this] Some show ?thesis by simp
  qed (use that in simp)
  have kids: "lefts_ok ?f1 ?kids"
  proof (cases cs)
    case (Some ns)
    have "lefts_ok ?f1 (draft_entries None ns ?i)"
      using 2(3) b Some d p f0 by (intro 2(1) [OF b(1) Some]) (auto simp: node_id_def)
    with Some show ?thesis by simp
  qed simp
  have stay: "grown ?f1 ?kids q = ?f1 q" if "q \<noteq> ?i" "q \<notin> en_id ` set ?kids" for q
    using kp that by (auto simp: grown_def siblings_def filter_empty_conv)
  have "lefts_ok (grown ?f1 ?kids) ?rest"
  proof (rule 2(2))
    show "draft_wf rest" using 2(3) by simp
    show "distinct (map en_id ?rest)" "p \<notin> en_id ` set ?rest" using d p by auto
    show "grown ?f1 ?kids q = []" if "q \<in> en_id ` set ?rest" for q
    proof -
      have "q \<noteq> ?i" "q \<notin> en_id ` set ?kids" "q \<noteq> p" using that dd p(3) by blast+
      with stay [of q] f0(2) that show ?thesis by auto
    qed
    show "(if grown ?f1 ?kids p = [] then [] else last (grown ?f1 ?kids p)) = node_id (Some (BlockNode mb cs))"
      using stay [OF p(1,2)] b by (simp add: node_id_def)
  qed
  with kids 2(7) [symmetric] show ?case unfolding es by (simp add: lefts_ok_append)
qed simp

lemma insert_after_last: "distinct xs \<Longrightarrow> xs \<noteq> [] \<Longrightarrow> insert_after (last xs) i xs = xs @ [i]"
  by (induction xs) auto

text \<open>Moves that name the last child each time build the children up in order.\<close>

lemma moves_build:
  assumes "lefts_ok f es" "distinct (map en_id es)" "\<And>q. distinct (f q)" "\<And>q. [] \<notin> set (f q)"
    "\<And>q. set (f q) \<inter> en_id ` set es = {}" "[] \<notin> en_id ` set es"
  shows "foldl move_step f (concat (map (\<lambda>e. [MoveBlock (en_id e) (en_parent e) (en_left e), ReplaceBlock (en_block e)]) es))
    = grown f es"
  using assms
proof (induction es arbitrary: f)
  case (Cons e es)
  let ?p = "en_parent e"
  let ?f1 = "f(?p := f ?p @ [en_id e])"
  have rm: "removeAll (en_id e) (f q) = f q" for q
    using Cons.prems(5) [of q] by (auto intro: removeAll_id)
  have left: "en_left e = (if f ?p = [] then [] else last (f ?p))" using Cons.prems(1) by simp
  have "last (f ?p) \<noteq> []" if "f ?p \<noteq> []" using that Cons.prems(4) [of ?p] last_in_set by metis
  then have "place (en_id e) ?p (en_left e) f = ?f1"
    using left Cons.prems(3) by (auto simp: place_def rm insert_after_last)
  moreover have "foldl move_step ?f1 (concat (map (\<lambda>e. [MoveBlock (en_id e) (en_parent e) (en_left e), ReplaceBlock (en_block e)]) es))
     = grown ?f1 es"
  proof (rule Cons.IH)
    show "distinct (?f1 q)" for q using Cons.prems(3) [of q] Cons.prems(5) [of q] by auto
    show "[] \<notin> set (?f1 q)" for q using Cons.prems(4) [of q] Cons.prems(6) by auto
    show "set (?f1 q) \<inter> en_id ` set es = {}" for q using Cons.prems(5) [of q] Cons.prems(2) by auto
    show "lefts_ok ?f1 es" using Cons.prems(1) by (simp only: lefts_ok.simps)
    show "distinct (map en_id es)" "[] \<notin> en_id ` set es" using Cons.prems(2,6) by simp_all
  qed
  ultimately show ?case by (simp add: grown_Cons)
qed simp

lemma draft_ids_ne: "draft_wf ns \<Longrightarrow> [] \<notin> en_id ` set (draft_entries prev ns p)"
  by (induction prev ns p rule: draft_entries.induct) (auto split: option.splits)

lemma fresh_draft_builds:
  assumes "draft_wf ns" "distinct (draft_ids ns)"
  shows "\<exists>chs touched. compareDraftWithMap isEqual [] ns [] = Inr (chs, touched) \<and>
    foldl move_step (\<lambda>_. []) chs = siblings (draft_entries None ns [])"
proof -
  let ?es = "draft_entries None ns []"
  have d: "distinct (map en_id ?es)" using assms(2) draft_ids_eq by simp
  have "compareDraftWithMap isEqual [] ns [] = Inr (concat (map (\<lambda>e. draft_diff isEqual None e) ?es), map en_id ?es)"
    using compare_draft_entries [OF assms(1), of None isEqual "[]" "[]"] by (simp add: compareDraftWithMap_def)
  moreover have "draft_diff isEqual None = (\<lambda>e. [MoveBlock (en_id e) (en_parent e) (en_left e), ReplaceBlock (en_block e)])"
    by (simp add: draft_diff_def block_changes_def fun_eq_iff)
  moreover have "lefts_ok (\<lambda>_. []) ?es"
    using draft_ids_ne [OF assms(1)] by (intro lefts_ok_draft assms(1) d) (auto simp: node_id_def)
  then have "foldl move_step (\<lambda>_. []) (concat (map (\<lambda>e. [MoveBlock (en_id e) (en_parent e) (en_left e), ReplaceBlock (en_block e)]) ?es))
    = grown (\<lambda>_. []) ?es"
    using draft_ids_ne [OF assms(1)] by (intro moves_build d) auto
  moreover have "grown (\<lambda>_. []) ?es = siblings ?es" by (simp add: grown_def fun_eq_iff)
  ultimately show ?thesis by auto
qed

section \<open>Properties\<close>

definition editor_sample :: "editor_block list" where
  "editor_sample = [EditorBlock ''b1'' ''paragraph'' no_props [InlText ''hi'' []]
     [EditorBlock ''b2'' ''heading'' no_props [] []]]"

definition map_sample :: BlocksMap where
  "map_sample = [(''b2'', \<lparr>bm_parent = [], bm_left = [], bm_block = new_block ''b2'' ''heading''\<rparr>),
     (''b3'', \<lparr>bm_parent = [], bm_left = ''b2'', bm_block = new_block ''b3'' ''paragraph''\<rparr>)]"

lemma editor_sample_compares:
  "\<exists>chs touched es. compareBlocksWithMap (=) (\<lambda>_. None) map_sample editor_sample [] = Inr (chs, touched) \<and>
     distinct touched \<and> editor_entries (\<lambda>_. None) None editor_sample [] = Inr es"
proof -
  obtain es where es: "editor_entries (\<lambda>_. None) None editor_sample [] = Inr es" "map en_id es = [''b1'', ''b2'']"
    by (simp add: editor_sample_def fromHMBlock_def Let_def with_content_def group_props_def extractContent_def
        extract_close_def extract_init_def extract_text_def end_styles_def start_styles_def)
  then show ?thesis by (simp add: compareBlocksWithMap_def compare_blocks_entries)
qed

text \<open>
  C3. Restoring another version: for a draft whose blocks all have different ids the comparison
  always succeeds, and its changes with the deletes take the recorded positions of any document
  to those of the draft, as \<open>createBlocksMap\<close> records them.
\<close>

theorem compareDraftWithMap_reaches:
  assumes "draft_wf ns" "distinct (draft_ids ns)"
  shows "\<exists>chs touched. compareDraftWithMap isEqual bm ns p = Inr (chs, touched) \<and>
    (\<forall>i. rel_option (reached isEqual)
       (foldl apply_change (map_of bm) (chs @ extractDeletes bm touched) i)
       (map_of (createBlocksMap (Some ns) p) i))"
  using assms by (rule draft_update_reaches)

theorem compareDraftWithMap_reaches_witness:
  "\<exists>chs touched. compareDraftWithMap (=) map_sample tree_sample [] = Inr (chs, touched) \<and>
    (\<forall>i. rel_option (reached (=))
       (foldl apply_change (map_of map_sample) (chs @ extractDeletes map_sample touched) i)
       (map_of (createBlocksMap (Some tree_sample) []) i))"
  by (rule compareDraftWithMap_reaches) (simp_all add: tree_sample_def new_block_def draft_ids_def)

text \<open>
  Nothing to save: comparing a document with its own map gives no changes and no deletes.
\<close>

theorem compareDraftWithMap_unchanged:
  assumes "draft_wf ns" "distinct (draft_ids ns)" "\<forall>x. isEqual x x"
  shows "compareDraftWithMap isEqual (createBlocksMap (Some ns) p) ns p = Inr ([], draft_ids ns) \<and>
     extractDeletes (createBlocksMap (Some ns) p) (draft_ids ns) = []"
  using unchanged_draft [OF assms(1,2), of isEqual p] assms(3) by blast

theorem compareDraftWithMap_unchanged_witness:
  "compareDraftWithMap (=) (createBlocksMap (Some tree_sample) []) tree_sample [] = Inr ([], draft_ids tree_sample) \<and>
     extractDeletes (createBlocksMap (Some tree_sample) []) (draft_ids tree_sample) = []"
  by (rule compareDraftWithMap_unchanged) (simp_all add: tree_sample_def new_block_def draft_ids_def)

text \<open>
  C4. A new document: with nothing stored, the moves build up exactly the lists of children of
  the draft, when each move puts a block right after its left sibling.
\<close>

theorem compareDraftWithMap_builds:
  assumes "draft_wf ns" "distinct (draft_ids ns)"
  shows "\<exists>chs touched. compareDraftWithMap isEqual [] ns [] = Inr (chs, touched) \<and>
    foldl move_step (\<lambda>_. []) chs = siblings (draft_entries None ns [])"
  using assms by (rule fresh_draft_builds)

theorem compareDraftWithMap_builds_witness:
  "\<exists>chs touched. compareDraftWithMap (=) [] tree_sample [] = Inr (chs, touched) \<and>
    foldl move_step (\<lambda>_. []) chs = siblings (draft_entries None tree_sample [])"
  by (rule compareDraftWithMap_builds) (simp_all add: tree_sample_def new_block_def draft_ids_def)

definition para :: "string \<Rightarrow> block_node" where
  "para i = BlockNode (Some (new_block i ''paragraph'')) None"

text \<open>
  The comparison leaves out the move of a block that follows the same left sibling as
  before, even when that sibling has moved. Moving the last two of four blocks to the front
  then ends in another order than asked for.
\<close>

theorem moved_pair_misplaced:
  "siblings (draft_entries None (map para [''C'', ''D'', ''A'', ''B'']) []) [] = [''C'', ''D'', ''A'', ''B''] \<and>
   map_result (\<lambda>(chs, touched).
       foldl move_step (siblings (draft_entries None (map para [''A'', ''B'', ''C'', ''D'']) [])) chs [])
     (compareDraftWithMap (=) (createBlocksMap (Some (map para [''A'', ''B'', ''C'', ''D''])) [])
        (map para [''C'', ''D'', ''A'', ''B'']) [])
   = Inr [''C'', ''B'', ''D'', ''A'']"
  by (simp add: para_def siblings_def compareDraftWithMap_def createBlocksMap_def block_changes_def
      isBlocksEqual_def isBlockAttributesEqual_def new_block_def node_id_def place_def)

end
