(* ===== verification/Draft_Machine.thy ===== *)
theory Draft_Machine
  imports Blocks_Diff
begin

text \<open>
  The state machines of the draft editor
  (\<^verbatim>\<open>frontend/packages/app/models/draft-machine.ts\<close>): \<open>draftMachine\<close>, which
  loads a draft, follows the edits and saves them, and \<open>saveIndicator\<close>, which the user sees.

  A step takes a state and an event to the next state and the list of actions it runs, in the
  order exit, transition, entry of the statechart library. The delays of a state and the result of the
  promise it invokes are events too; they only reach the machine while it is in that state. A
  transition of an inner state comes before those of the root.
\<close>

section \<open>Model\<close>

record hm_document =
  d_title :: "string option"
  d_children :: "block_node list option"

datatype ready_state = Idle | Changed | Saving | SaveError | Restoring | Resetting

datatype draft_state = Fetching | MountingEditor | ErrorState | Ready ready_state

record draft_context =
  c_blocksMap :: BlocksMap
  c_hasChangedWhileSaving :: bool
  c_draft :: "hm_document option"
  c_title :: "string option"
  c_errorMessage :: string
  c_restoreTries :: nat
  c_changed :: "bool option"

definition initial_context :: draft_context where
  "initial_context = \<lparr>c_blocksMap = [], c_hasChangedWhileSaving = False, c_draft = None,
     c_title = Some [], c_errorMessage = [], c_restoreTries = 0, c_changed = Some False\<rparr>"

text \<open>What the promise that saves returns: the response with the new document, a message, or nothing.\<close>

datatype save_output = SavedDoc hm_document | Message string | NoOutput

datatype draft_event =
  CHANGE "string option"
| RESET_DRAFT
| RESTORE_DRAFT
| RESET_CORRUPT_DRAFT
| GET_DRAFT_ERROR
| GET_DRAFT_RETRY
| GET_DRAFT_SUCCESS hm_document
| SAVE_ON_EXIT
| MountDelay
| AutosaveDelay
| SaveDone save_output
| SaveFailed
| RestoreDone
| RestoreFailed
| ResetDone
| ResetFailed

datatype draft_action =
  PopulateEditor
| FocusEditor
| IndicatorChange
| IndicatorSaving
| IndicatorSaved
| IndicatorError
| IndicatorIdle
| OnSaveSuccess
| ResetDraftAndRedirectToDraftList
| Reload
| InvokeUpdateDraft draft_context
| InvokeRestoreDraft draft_context
| InvokeResetDraft

text \<open>The assignments to the context.\<close>

definition setchanged :: "draft_context \<Rightarrow> draft_context" where
  "setchanged c = c\<lparr>c_changed := (if c_changed c \<noteq> Some True then Some True else None)\<rparr>"

definition setCurrentBlocksmap :: "hm_document \<Rightarrow> draft_context \<Rightarrow> draft_context" where
  "setCurrentBlocksmap d c = c\<lparr>c_blocksMap := createBlocksMap (d_children d) [],
     c_title := (if truthy (d_title d) then d_title d else Some [])\<rparr>"

definition setTitle :: "string option \<Rightarrow> draft_context \<Rightarrow> draft_context" where
  "setTitle t c = (if truthy t then c\<lparr>c_title := t\<rparr> else c)"

definition updateContextAfterSave :: "save_output \<Rightarrow> draft_context \<Rightarrow> draft_context" where
  "updateContextAfterSave out c = (case out of
      SavedDoc d \<Rightarrow> c\<lparr>c_blocksMap := createBlocksMap (d_children d) [], c_draft := Some d,
        c_hasChangedWhileSaving := False, c_title := d_title d\<rparr>
    | _ \<Rightarrow> c)"

text \<open>The entry actions of the states, run on the context that the transition left.\<close>

definition enter_changed :: "draft_context \<Rightarrow> draft_state \<times> draft_context \<times> draft_action list" where
  "enter_changed c = (Ready Changed, setchanged c, [IndicatorChange])"

definition enter_saving :: "draft_context \<Rightarrow> draft_state \<times> draft_context \<times> draft_action list" where
  "enter_saving c = (let c' = c\<lparr>c_hasChangedWhileSaving := False\<rparr>
     in (Ready Saving, c', [IndicatorSaving, InvokeUpdateDraft c']))"

definition before :: "draft_action list \<Rightarrow> draft_state \<times> draft_context \<times> draft_action list
    \<Rightarrow> draft_state \<times> draft_context \<times> draft_action list" where
  "before as r = (case r of (s, c, bs) \<Rightarrow> (s, c, as @ bs))"

text \<open>The transitions of the root, taken in any state that does not handle the event itself.\<close>

definition root_step :: "draft_state \<Rightarrow> draft_context \<Rightarrow> draft_event
    \<Rightarrow> draft_state \<times> draft_context \<times> draft_action list" where
  "root_step s c ev = (case ev of
      GET_DRAFT_SUCCESS d \<Rightarrow>
        (MountingEditor, setCurrentBlocksmap d (c\<lparr>c_draft := Some d\<rparr>), [PopulateEditor])
    | GET_DRAFT_ERROR \<Rightarrow> (ErrorState, c\<lparr>c_errorMessage := ''ERROR: ''\<rparr>, [IndicatorError])
    | SAVE_ON_EXIT \<Rightarrow> before [FocusEditor] (enter_saving c)
    | _ \<Rightarrow> (s, c, []))"

definition saving_step :: "draft_context \<Rightarrow> draft_event \<Rightarrow> draft_state \<times> draft_context \<times> draft_action list" where
  "saving_step c ev = (case ev of
      SaveDone out \<Rightarrow>
        if c_hasChangedWhileSaving c then enter_saving (updateContextAfterSave out c)
        else (case out of
            Message m \<Rightarrow> (Ready Idle, c, [IndicatorIdle])
          | _ \<Rightarrow> (Ready Idle, updateContextAfterSave out c, [OnSaveSuccess, IndicatorSaved]))
    | SaveFailed \<Rightarrow> (Ready SaveError, c, [IndicatorError])
    | CHANGE t \<Rightarrow> (Ready Saving, setTitle t (c\<lparr>c_hasChangedWhileSaving := True\<rparr>), [])
    | _ \<Rightarrow> root_step (Ready Saving) c ev)"

definition ready_step :: "ready_state \<Rightarrow> draft_context \<Rightarrow> draft_event
    \<Rightarrow> draft_state \<times> draft_context \<times> draft_action list" where
  "ready_step r c ev = (case r of
      Idle \<Rightarrow> (case ev of CHANGE t \<Rightarrow> enter_changed (setTitle t c) | _ \<Rightarrow> root_step (Ready r) c ev)
    | Changed \<Rightarrow> (case ev of
          CHANGE t \<Rightarrow> enter_changed (setTitle t c)
        | AutosaveDelay \<Rightarrow> enter_saving c
        | _ \<Rightarrow> root_step (Ready r) c ev)
    | Saving \<Rightarrow> saving_step c ev
    | SaveError \<Rightarrow> (case ev of
          RESET_DRAFT \<Rightarrow> (Ready Resetting, c, [InvokeResetDraft])
        | RESTORE_DRAFT \<Rightarrow>
            (let c' = c\<lparr>c_restoreTries := c_restoreTries c + 1\<rparr> in (Ready Restoring, c', [InvokeRestoreDraft c']))
        | _ \<Rightarrow> root_step (Ready r) c ev)
    | Restoring \<Rightarrow> (case ev of
          RestoreDone \<Rightarrow> (Ready Restoring, c, [Reload])
        | RestoreFailed \<Rightarrow> (Ready SaveError, c, [])
        | _ \<Rightarrow> root_step (Ready r) c ev)
    | Resetting \<Rightarrow> (case ev of
          ResetDone \<Rightarrow> (Ready Resetting, c, [Reload])
        | ResetFailed \<Rightarrow> (Ready SaveError, c, [])
        | _ \<Rightarrow> root_step (Ready r) c ev))"

definition draft_step :: "draft_state \<Rightarrow> draft_context \<Rightarrow> draft_event
    \<Rightarrow> draft_state \<times> draft_context \<times> draft_action list" where
  "draft_step s c ev = (case s of
      Fetching \<Rightarrow> root_step s c ev
    | MountingEditor \<Rightarrow> (case ev of
          MountDelay \<Rightarrow> (Ready Idle, c, [FocusEditor])
        | _ \<Rightarrow> root_step s c ev)
    | ErrorState \<Rightarrow> (case ev of
          GET_DRAFT_RETRY \<Rightarrow>
            (Fetching, c\<lparr>c_blocksMap := [], c_hasChangedWhileSaving := False, c_draft := None\<rparr>, [])
        | RESET_CORRUPT_DRAFT \<Rightarrow> (ErrorState, c, [ResetDraftAndRedirectToDraftList])
        | _ \<Rightarrow> root_step s c ev)
    | Ready r \<Rightarrow> ready_step r c ev)"

section \<open>The indicator\<close>

datatype indicator = IIdle | IChanged | ISaving | ISaved | IError

datatype indicator_event = I_CHANGE | I_SAVING | I_SAVED | I_ERROR | I_IDLE | SavedDelay

definition indicator_step :: "indicator \<Rightarrow> indicator_event \<Rightarrow> indicator" where
  "indicator_step s ev = (case ev of
      I_SAVING \<Rightarrow> if s = IChanged then ISaving else s
    | I_SAVED \<Rightarrow> if s = ISaving then ISaved else s
    | SavedDelay \<Rightarrow> if s = ISaved then IIdle else s
    | I_CHANGE \<Rightarrow> IChanged
    | I_ERROR \<Rightarrow> IError
    | I_IDLE \<Rightarrow> IIdle)"

text \<open>The actions of the draft machine that send an event to the indicator (\<open>documents.ts\<close>).\<close>

definition indicator_of :: "draft_action \<Rightarrow> indicator_event option" where
  "indicator_of a = (case a of
      IndicatorChange \<Rightarrow> Some I_CHANGE
    | IndicatorSaving \<Rightarrow> Some I_SAVING
    | IndicatorSaved \<Rightarrow> Some I_SAVED
    | IndicatorError \<Rightarrow> Some I_ERROR
    | IndicatorIdle \<Rightarrow> Some I_IDLE
    | _ \<Rightarrow> None)"

section \<open>The editor, the draft machine and the indicator together\<close>

text \<open>
  Revisions stand for the content of the editor: each change makes a new one, starting to
  save takes the current one, and a save that returns has stored the one it took. What is
  loaded counts as stored when the editor has been mounted.
\<close>

record draft_system =
  s_state :: draft_state
  s_context :: draft_context
  s_indicator :: indicator
  s_edits :: nat
  s_sent :: nat
  s_saved :: nat

datatype system_event = Draft draft_event | IndicatorDelay

definition system_init :: draft_system where
  "system_init = \<lparr>s_state = Fetching, s_context = initial_context, s_indicator = IIdle,
     s_edits = 0, s_sent = 0, s_saved = 0\<rparr>"

definition is_invoke :: "draft_action \<Rightarrow> bool" where
  "is_invoke a = (case a of InvokeUpdateDraft c \<Rightarrow> True | _ \<Rightarrow> False)"

definition system_step :: "draft_system \<Rightarrow> system_event \<Rightarrow> draft_system" where
  "system_step s ev = (case ev of
      IndicatorDelay \<Rightarrow> s\<lparr>s_indicator := indicator_step (s_indicator s) SavedDelay\<rparr>
    | Draft e \<Rightarrow> (case draft_step (s_state s) (s_context s) e of (st, c, as) \<Rightarrow>
        (let edits = (case e of CHANGE _ \<Rightarrow> s_edits s + 1 | _ \<Rightarrow> s_edits s)
         in \<lparr>s_state = st, s_context = c,
             s_indicator = foldl indicator_step (s_indicator s) (List.map_filter indicator_of as),
             s_edits = edits,
             s_sent = (if list_ex is_invoke as then edits else s_sent s),
             s_saved = (case e of
                 SaveDone _ \<Rightarrow> if s_state s = Ready Saving then s_sent s else s_saved s
               | MountDelay \<Rightarrow> if s_state s = MountingEditor then edits else s_saved s
               | _ \<Rightarrow> s_saved s)\<rparr>)))"

definition system_inv :: "draft_system \<Rightarrow> bool" where
  "system_inv s \<longleftrightarrow>
     (s_state s = Ready Idle \<longrightarrow> s_saved s = s_edits s) \<and>
     (s_state s = Ready Saving \<longrightarrow> s_sent s = s_edits s \<or> c_hasChangedWhileSaving (s_context s)) \<and>
     (s_state s = Ready Changed \<longrightarrow> s_indicator s = IChanged) \<and>
     (s_state s \<in> {ErrorState, Ready SaveError, Ready Restoring, Ready Resetting} \<longrightarrow> s_indicator s = IError)"

lemmas step_defs = draft_step_def ready_step_def saving_step_def root_step_def enter_saving_def enter_changed_def before_def

lemma setTitle_flag [simp]: "c_hasChangedWhileSaving (setTitle t c) = c_hasChangedWhileSaving c"
  by (simp add: setTitle_def)

lemma map_filter_simps [simp]:
  "List.map_filter f [] = []"
  "List.map_filter f (x # xs) = (case f x of None \<Rightarrow> List.map_filter f xs | Some y \<Rightarrow> y # List.map_filter f xs)"
  by (simp_all add: List.map_filter_def split: option.split)

lemma indicator_delay [simp]:
  "indicator_step i SavedDelay = IChanged \<longleftrightarrow> i = IChanged" "indicator_step i SavedDelay = IError \<longleftrightarrow> i = IError"
  by (auto simp: indicator_step_def)

lemma system_step_inv:
  assumes "system_inv s"
  shows "system_inv (system_step s ev)"
proof (cases ev)
  case IndicatorDelay
  with assms show ?thesis by (simp add: system_step_def system_inv_def)
next
  case (Draft e)
  show ?thesis
  proof (cases "s_state s")
    case Fetching
    with Draft assms show ?thesis
      by (cases e) (simp_all add: system_step_def system_inv_def step_defs is_invoke_def indicator_of_def indicator_step_def Let_def)
  next
    case MountingEditor
    with Draft assms show ?thesis
      by (cases e) (simp_all add: system_step_def system_inv_def step_defs is_invoke_def indicator_of_def indicator_step_def Let_def)
  next
    case ErrorState
    with Draft assms show ?thesis
      by (cases e) (simp_all add: system_step_def system_inv_def step_defs is_invoke_def indicator_of_def indicator_step_def Let_def)
  next
    case (Ready r)
    show ?thesis
    proof (cases r)
      case Saving
      show ?thesis
      proof (cases e)
        case (SaveDone out)
        with Draft Ready Saving assms show ?thesis
          by (cases out) (auto simp: system_step_def system_inv_def step_defs is_invoke_def indicator_of_def
              indicator_step_def Let_def updateContextAfterSave_def)
      qed (use Draft Ready Saving assms in \<open>simp_all add: system_step_def system_inv_def step_defs is_invoke_def
          indicator_of_def indicator_step_def Let_def\<close>)
    qed (use Draft Ready assms in \<open>cases e; simp add: system_step_def system_inv_def step_defs is_invoke_def
          indicator_of_def indicator_step_def Let_def\<close>)+
  qed
qed

interpretation autosave: machine system_step system_inv
  by unfold_locales (rule system_step_inv)

lemma system_init_inv: "system_inv system_init"
  by (simp add: system_inv_def system_init_def)

lemma reachable_inv: "system_inv (foldl system_step system_init evs)"
  by (rule autosave.run_inv [OF system_init_inv])


definition sample_doc :: hm_document where
  "sample_doc = \<lparr>d_title = Some ''t'', d_children = Some tree_sample\<rparr>"

definition sample_run :: "system_event list" where
  "sample_run = map Draft [GET_DRAFT_SUCCESS sample_doc, MountDelay, CHANGE None, AutosaveDelay, CHANGE None,
     SaveDone (SavedDoc sample_doc), SaveDone (SavedDoc sample_doc)]"

lemma sample_run_idle:
  "s_state (foldl system_step system_init sample_run) = Ready Idle"
  "s_edits (foldl system_step system_init sample_run) = 2"
  by (simp_all add: sample_run_def system_step_def system_init_def step_defs Let_def updateContextAfterSave_def)


lemma changes_while_saving:
  "s_state s = Ready Saving \<Longrightarrow>
     s_state (foldl system_step s (map (\<lambda>t. Draft (CHANGE t)) ts)) = Ready Saving \<and>
     (ts \<noteq> [] \<longrightarrow> c_hasChangedWhileSaving (s_context (foldl system_step s (map (\<lambda>t. Draft (CHANGE t)) ts))))
     \<and> (ts = [] \<longrightarrow> foldl system_step s (map (\<lambda>t. Draft (CHANGE t)) ts) = s)"
proof (induction ts rule: rev_induct)
  case (snoc t ts)
  then show ?case by (simp add: system_step_def step_defs Let_def)
qed simp

lemma save_done_idle:
  assumes "s_state s = Ready Saving" "\<not> c_hasChangedWhileSaving (s_context s)"
  shows "s_state (system_step s (Draft (SaveDone out))) = Ready Idle"
  using assms by (cases out) (simp_all add: system_step_def step_defs Let_def)

lemma save_done_again:
  assumes "s_state s = Ready Saving" "c_hasChangedWhileSaving (s_context s)"
  shows "s_state (system_step s (Draft (SaveDone out))) = Ready Saving \<and>
    \<not> c_hasChangedWhileSaving (s_context (system_step s (Draft (SaveDone out))))"
  using assms by (simp add: system_step_def step_defs Let_def)

definition save_run :: "string option list \<Rightarrow> save_output list \<Rightarrow> system_event list" where
  "save_run ts outs = Draft AutosaveDelay # map (\<lambda>t. Draft (CHANGE t)) ts @ map (\<lambda>out. Draft (SaveDone out)) outs"

lemma save_run_idle:
  assumes "s_state s = Ready Changed" "length outs = (if ts = [] then 1 else 2)"
  shows "s_state (foldl system_step s (save_run ts outs)) = Ready Idle"
proof -
  let ?s1 = "system_step s (Draft AutosaveDelay)"
  let ?s2 = "foldl system_step ?s1 (map (\<lambda>t. Draft (CHANGE t)) ts)"
  have s1: "s_state ?s1 = Ready Saving" "\<not> c_hasChangedWhileSaving (s_context ?s1)"
    using assms(1) by (simp_all add: system_step_def step_defs Let_def)
  note s2 = changes_while_saving [OF s1(1), of ts]
  show ?thesis
  proof (cases "ts = []")
    case True
    then obtain a where "outs = [a]" using assms(2) by (auto simp: length_Suc_conv)
    with True save_done_idle [OF s1] show ?thesis by (simp add: save_run_def)
  next
    case False
    then obtain a b where outs: "outs = [a, b]" using assms(2) by (auto simp: length_Suc_conv numeral_2_eq_2)
    from False s2 have "s_state ?s2 = Ready Saving" "c_hasChangedWhileSaving (s_context ?s2)" by auto
    from save_done_again [OF this, of a] save_done_idle [of "system_step ?s2 (Draft (SaveDone a))" b]
    show ?thesis by (simp add: save_run_def outs)
  qed
qed


lemma sample_changed:
  "s_state (foldl system_step system_init (map Draft [GET_DRAFT_SUCCESS sample_doc, MountDelay, CHANGE None])) = Ready Changed"
  by (simp add: system_step_def system_init_def step_defs Let_def)


text \<open>
  The indicator tells the truth: in every reachable state it shows a change when there are
  unsaved changes waiting, and an error when loading or saving has failed.
\<close>

theorem indicator_agrees:
  "(s_state (foldl system_step system_init evs) = Ready Changed \<longrightarrow>
      s_indicator (foldl system_step system_init evs) = IChanged) \<and>
   (s_state (foldl system_step system_init evs) \<in> {ErrorState, Ready SaveError, Ready Restoring, Ready Resetting} \<longrightarrow>
      s_indicator (foldl system_step system_init evs) = IError)"
  using reachable_inv [of evs] by (simp add: system_inv_def)

theorem indicator_agrees_witness:
  "s_indicator (foldl system_step system_init
     (map Draft [GET_DRAFT_SUCCESS sample_doc, MountDelay, CHANGE None])) = IChanged"
  using indicator_agrees [of "map Draft [GET_DRAFT_SUCCESS sample_doc, MountDelay, CHANGE None]"] sample_changed by blast

text \<open>
  A title typed while a save is running does not reach the server: when the save ends, the
  title of the saved document replaces it, and the second save is started with that one.
\<close>

theorem title_typed_while_saving_is_replaced:
  "\<exists>c' acts. (case draft_step (Ready Saving) c (CHANGE t) of (st, c1, as) \<Rightarrow> draft_step st c1 (SaveDone (SavedDoc d)))
      = (Ready Saving, c', acts) \<and> c_title c' = d_title d \<and> InvokeUpdateDraft c' \<in> set acts"
  by (simp add: step_defs updateContextAfterSave_def Let_def setTitle_def)

text \<open>
  The changed flag of the context is set by the first change and unset by the next one
  before the save: two changes in a row leave it undefined.
\<close>

theorem changed_flag_toggles:
  "(case draft_step (Ready Idle) (c\<lparr>c_changed := Some False\<rparr>) (CHANGE t) of (st, c1, as) \<Rightarrow>
      c_changed c1 = Some True \<and> (case draft_step st c1 (CHANGE t') of (st', c2, as') \<Rightarrow> c_changed c2 = None))"
  by (simp add: step_defs setchanged_def setTitle_def)

end
