(* ===== verification/Hm_Url.thy ===== *)
theory Hm_Url
  imports Prelude
begin

text \<open>
  Hypermedia identifiers and their web URLs
  (\<^verbatim>\<open>frontend/packages/shared/src/utils/entity-id-url.ts\<close>): creation, parsing,
  block fragments with ranges, and publication variants in the query string.
\<close>

section \<open>The platform's URL classes\<close>

text \<open>
  \<open>new URL(s).toString()\<close> for \<open>s = hm://host/rest\<close>: trailing blanks go, tabs and line
  breaks go, dot segments are resolved, and characters outside a component's set are percent
  encoded. The host is one of the keys \<open>inKeys\<close> accepts (letters and underscores), which
  the parser leaves as it is.
\<close>

definition hex_digit :: "nat \<Rightarrow> char" where
  "hex_digit n = ''0123456789ABCDEF'' ! (n mod 16)"

definition pct :: "char \<Rightarrow> string" where
  "pct c = [CHR ''%'', hex_digit (of_char c div 16), hex_digit (of_char c)]"

definition encode_with :: "(char \<Rightarrow> bool) \<Rightarrow> string \<Rightarrow> string" where
  "encode_with p s = concat (map (\<lambda>c. if p c then pct c else [c]) s)"

definition c0_control :: "char \<Rightarrow> bool" where
  "c0_control c \<longleftrightarrow> (of_char c :: nat) < 32 \<or> (of_char c :: nat) > 126"

definition fragment_set :: "char \<Rightarrow> bool" where
  "fragment_set c \<longleftrightarrow> c0_control c \<or> c \<in> set '' <>`'' \<or> c = CHR 0x22"

definition query_set :: "char \<Rightarrow> bool" where
  "query_set c \<longleftrightarrow> c0_control c \<or> c \<in> set '' #<>'' \<or> c = CHR 0x22"

definition path_set :: "char \<Rightarrow> bool" where
  "path_set c \<longleftrightarrow> query_set c \<or> c \<in> set ''?`{}''"

definition tab_or_newline :: "char \<Rightarrow> bool" where
  "tab_or_newline c \<longleftrightarrow> c = CHR 0x09 \<or> c = CHR 0x0A \<or> c = CHR 0x0D"

definition strip_trailing :: "string \<Rightarrow> string" where
  "strip_trailing s = rev (dropWhile (\<lambda>c. (of_char c :: nat) \<le> 32) (rev s))"

definition single_dot :: "string \<Rightarrow> bool" where
  "single_dot s \<longleftrightarrow> s \<in> {''.'', ''%2e'', ''%2E''}"

definition double_dot :: "string \<Rightarrow> bool" where
  "double_dot s \<longleftrightarrow> s \<in> {''..'', ''.%2e'', ''.%2E'', ''%2e.'', ''%2E.'',
     ''%2e%2e'', ''%2e%2E'', ''%2E%2e'', ''%2E%2E''}"

text \<open>The path state machine: the accumulator holds the segments kept so far.\<close>

fun norm_path :: "string list \<Rightarrow> string list \<Rightarrow> string list" where
  "norm_path acc [] = acc"
| "norm_path acc [s] =
     (if double_dot s then butlast acc @ [[]]
      else if single_dot s then acc @ [[]] else acc @ [encode_with path_set s])"
| "norm_path acc (s # t # ss) =
     norm_path (if double_dot s then butlast acc
                else if single_dot s then acc else acc @ [encode_with path_set s]) (t # ss)"

text \<open>Cut at the first occurrence of a character.\<close>

definition cut :: "char \<Rightarrow> string \<Rightarrow> string \<times> string option" where
  "cut c s = (let a = takeWhile (\<lambda>x. x \<noteq> c) s; b = dropWhile (\<lambda>x. x \<noteq> c) s
              in (a, if b = [] then None else Some (tl b)))"

definition url_to_string :: "string \<Rightarrow> string \<Rightarrow> string" where
  "url_to_string host rest =
     (let s = filter (\<lambda>c. \<not> tab_or_newline c) (strip_trailing rest);
          (pq, frag) = cut CHR ''#'' s;
          (p, q) = cut CHR ''?'' pq
      in ''hm://'' @ host
         @ concat (map (\<lambda>seg. CHR ''/'' # seg) (norm_path [] (split_char CHR ''/'' p)))
         @ (case q of None \<Rightarrow> [] | Some x \<Rightarrow> CHR ''?'' # encode_with query_set x)
         @ (case frag of None \<Rightarrow> [] | Some x \<Rightarrow> CHR ''#'' # encode_with fragment_set x))"

text \<open>
  \<open>new URLSearchParams(q)\<close>: pairs separated by ampersands, empty ones skipped, \<open>+\<close> read as a
  blank, percent escapes decoded.
\<close>

definition hex_val :: "char \<Rightarrow> nat option" where
  "hex_val c = (if is_digit c then Some (digit_val c)
     else if c \<in> set ''ABCDEF'' then Some (of_char c - 55)
     else if c \<in> set ''abcdef'' then Some (of_char c - 87) else None)"

fun pct_decode :: "string \<Rightarrow> string" where
  "pct_decode (c # h # l # s) =
     (if c = CHR ''%'' \<and> hex_val h \<noteq> None \<and> hex_val l \<noteq> None
      then char_of (16 * the (hex_val h) + the (hex_val l)) # pct_decode s
      else c # pct_decode (h # l # s))"
| "pct_decode s = s"

definition form_decode :: "string \<Rightarrow> string" where
  "form_decode s = pct_decode (map (\<lambda>c. if c = CHR ''+'' then CHR '' '' else c) s)"

definition search_params :: "string option \<Rightarrow> (string \<times> string) list" where
  "search_params q = (case q of None \<Rightarrow> []
     | Some s \<Rightarrow>
        map (\<lambda>kv. case cut CHR ''='' kv of (k, v) \<Rightarrow>
               (form_decode k, case v of None \<Rightarrow> [] | Some x \<Rightarrow> form_decode x))
          (filter (\<lambda>kv. kv \<noteq> []) (split_char CHR ''&''
             (if starts_with s ''?'' then tl s else s))))"

definition params_get :: "(string \<times> string) list \<Rightarrow> string \<Rightarrow> string option" where
  "params_get ps k = map_of ps k"

definition params_has :: "(string \<times> string) list \<Rightarrow> string \<Rightarrow> bool" where
  "params_has ps k \<longleftrightarrow> map_of ps k \<noteq> None"

section \<open>Constants and types\<close>

definition HYPERMEDIA_PUBLIC_WEB_GATEWAY :: string where
  "HYPERMEDIA_PUBLIC_WEB_GATEWAY = ''https://hyper.media''"

definition HYPERMEDIA_SCHEME :: string where
  "HYPERMEDIA_SCHEME = ''hm''"

definition HYPERMEDIA_ENTITY_TYPES :: "(string \<times> string) list" where
  "HYPERMEDIA_ENTITY_TYPES =
     [(''a'', ''Account''), (''d'', ''Document''), (''g'', ''Group''), (''c'', ''Comment'')]"

text \<open>What every object literal inherits: reading one of these keys is truthy.\<close>

definition object_prototype_keys :: "string list" where
  "object_prototype_keys = [''constructor'', ''__defineGetter__'', ''__defineSetter__'',
     ''hasOwnProperty'', ''__lookupGetter__'', ''__lookupSetter__'', ''isPrototypeOf'',
     ''propertyIsEnumerable'', ''toString'', ''valueOf'', ''__proto__'', ''toLocaleString'']"

datatype block_range = BlockRange nat nat | ExpandedBlockRange bool

text \<open>
  An author is \<open>undefined\<close> (\<open>None\<close>) when the query string carries a bare \<open>a\<close>; a path name is
  \<open>null\<close> when there is none.
\<close>

datatype publication_variant =
  GroupVariant (groupId: string) (pathName: "string option")
| AuthorVariant (author: "string option")

record UnpackedHypermediaId =
  u_id :: string
  u_type :: string
  u_eid :: "string option"
  u_qid :: string
  u_groupPathName :: "string jsval"
  u_version :: "string jsval"
  u_blockRef :: "string jsval"
  u_blockRange :: "block_range jsval"
  u_hostname :: "string jsval"
  u_scheme :: "string option"
  u_variants :: "publication_variant list jsval"
  u_latest :: "bool jsval"

record hm_opts =
  o_version :: "string jsval"
  o_blockRef :: "string jsval"
  o_blockRange :: "block_range jsval"
  o_groupPathName :: "string jsval"
  o_variants :: "publication_variant list jsval"
  o_latest :: "bool jsval"
  o_hostname :: "string jsval"

definition no_opts :: hm_opts where
  "no_opts = \<lparr>o_version = Absent, o_blockRef = Absent, o_blockRange = Absent,
     o_groupPathName = Absent, o_variants = Absent, o_latest = Absent, o_hostname = Absent\<rparr>"

text \<open>A template literal prints \<open>undefined\<close> for a missing value.\<close>

definition show_undef :: "string option \<Rightarrow> string" where
  "show_undef v = (case v of None \<Rightarrow> ''undefined'' | Some s \<Rightarrow> s)"

section \<open>Fragments\<close>

definition serializeBlockRange :: "block_range jsval \<Rightarrow> string" where
  "serializeBlockRange r = (case r of
       Val (ExpandedBlockRange e) \<Rightarrow> if e then ''+'' else []
     | Val (BlockRange a b) \<Rightarrow>
         ''['' @ show_nat a @ '':'' @ show_nat b @ '']''
     | _ \<Rightarrow> [])"

record parsed_fragment =
  blockId :: string
  frange :: "block_range option"

definition js_space :: "char \<Rightarrow> bool" where
  "js_space c \<longleftrightarrow> (9 \<le> (of_char c :: nat) \<and> (of_char c :: nat) \<le> 13) \<or> c = CHR '' ''"

text \<open>The group \<open>\[(\d+):(\d+)\]\<close> of the pattern, up to the end of the input.\<close>

definition match_range :: "string \<Rightarrow> (nat \<times> nat) option" where
  "match_range s = (case s of [] \<Rightarrow> None | c # t \<Rightarrow>
     if c \<noteq> CHR ''['' then None else
     (let d1 = takeWhile is_digit t; t1 = dropWhile is_digit t in
      if d1 = [] then None else
      (case t1 of [] \<Rightarrow> None | c1 # t2 \<Rightarrow>
        if c1 \<noteq> CHR '':'' then None else
        (let d2 = takeWhile is_digit t2; t3 = dropWhile is_digit t2 in
         if d2 = [] \<or> t3 \<noteq> '']'' then None else Some (parse_nat d1, parse_nat d2)))))"

definition parseFragment :: "string option \<Rightarrow> parsed_fragment option" where
  "parseFragment input = (case input of None \<Rightarrow> None | Some s \<Rightarrow>
     if s = [] then None else
     (let b = take 8 s; r = drop 8 s in
      if length b = 8 \<and> (\<forall>c \<in> set b. \<not> js_space c) then
        (if r = [] then Some \<lparr>blockId = b, frange = None\<rparr>
         else if r = ''+'' then Some \<lparr>blockId = b, frange = Some (ExpandedBlockRange True)\<rparr>
         else (case match_range r of
             Some (x, y) \<Rightarrow> Some \<lparr>blockId = b, frange = Some (BlockRange x y)\<rparr>
           | None \<Rightarrow> Some \<lparr>blockId = s, frange = None\<rparr>))
      else Some \<lparr>blockId = s, frange = None\<rparr>))"

text \<open>\<open>url.match(/#(.*)$/)\<close>: from the leftmost hash that no line break follows.\<close>

fun match_hash :: "string \<Rightarrow> string option" where
  "match_hash [] = None"
| "match_hash (c # s) =
     (if c = CHR ''#'' \<and> CHR 0x0A \<notin> set s \<and> CHR 0x0D \<notin> set s then Some s else match_hash s)"

definition extractBlockRefOfUrl :: "string option \<Rightarrow> string option" where
  "extractBlockRefOfUrl url =
     (case url of None \<Rightarrow> None | Some u \<Rightarrow>
       (case match_hash u of None \<Rightarrow> None | Some f \<Rightarrow>
         if f = [] then None else
         (case parseFragment (Some f) of None \<Rightarrow> None
            | Some r \<Rightarrow> if blockId r = [] then None else Some (blockId r))))"

text \<open>The inner option is the object left without its block id: \<open>None\<close> is \<open>{}\<close>.\<close>

definition extractBlockRangeOfUrl :: "string option \<Rightarrow> block_range option option" where
  "extractBlockRangeOfUrl url =
     (case url of None \<Rightarrow> None | Some u \<Rightarrow>
       (case match_hash u of None \<Rightarrow> None | Some f \<Rightarrow>
         if f = [] then None else map_option frange (parseFragment (Some f))))"

section \<open>Parsing\<close>

record parsed_url =
  p_scheme :: string
  p_path :: "string list"
  p_query :: "(string \<times> string) list"
  p_fragment :: "string option"

definition parseCustomURL :: "string \<Rightarrow> parsed_url option" where
  "parseCustomURL url =
     (if url = [] then None else
      (let parts = split_on ''://'' url in
       (case nth_opt parts 1 of None \<Rightarrow> None | Some rest \<Rightarrow>
          if rest = [] then None else
          (let hs = split_char CHR ''#'' rest;
               qs = split_char CHR ''?'' (hd hs)
           in Some \<lparr>p_scheme = hd parts,
                    p_path = split_char CHR ''/'' (hd qs),
                    p_query = search_params (nth_opt qs 1),
                    p_fragment = nth_opt hs 1\<rparr>))))"

definition inKeys :: "string option \<Rightarrow> (string \<times> string) list \<Rightarrow> string option" where
  "inKeys key values = (case key of None \<Rightarrow> None | Some k \<Rightarrow>
     if (case map_of values k of Some v \<Rightarrow> v \<noteq> [] | None \<Rightarrow> k \<in> set object_prototype_keys)
     then Some k else None)"

text \<open>\<open>createHmId(type, id)\<close> without options.\<close>

definition createHmId_plain :: "string \<Rightarrow> string \<Rightarrow> string" where
  "createHmId_plain type eid = url_to_string type eid"

datatype variants_input = OneString string | ManyStrings "string list"

definition parse_variant :: "string \<Rightarrow> publication_variant list" where
  "parse_variant s =
     (if s = [] then [] else
      (let parts = split_by (\<lambda>c. c = CHR '':'' \<or> c = CHR ''/'') s;
           key = hd parts; rest = tl parts in
       if key = ''g'' then
         [GroupVariant (createHmId_plain ''g'' (show_undef (nth_opt rest 0)))
            (case nth_opt rest 1 of None \<Rightarrow> None | Some p \<Rightarrow> if p = [] then None else Some p)]
       else if key = ''a'' then [AuthorVariant (nth_opt rest 0)]
       else []))"

definition parseVariantsQuery :: "variants_input option \<Rightarrow> publication_variant list option" where
  "parseVariantsQuery inp = (case inp of None \<Rightarrow> None | Some i \<Rightarrow>
     if i = OneString [] then None else
     (let s = (case i of OneString x \<Rightarrow> x | ManyStrings xs \<Rightarrow> join ''.'' xs);
          vs = concat (map parse_variant (split_char CHR ''.'' s))
      in if vs = [] then None else Some vs))"

definition unpack_parts :: "string \<Rightarrow> parsed_url \<Rightarrow> nat \<Rightarrow> string jsval \<Rightarrow> UnpackedHypermediaId option" where
  "unpack_parts hypermediaId p k host =
     (case inKeys (nth_opt (p_path p) k) HYPERMEDIA_ENTITY_TYPES of None \<Rightarrow> None | Some type \<Rightarrow>
       (let eid = nth_opt (p_path p) (Suc k);
            fragment = parseFragment (p_fragment p)
        in Some \<lparr>u_id = hypermediaId,
                 u_type = type,
                 u_eid = eid,
                 u_qid = createHmId_plain type (show_undef eid),
                 u_groupPathName = or_null (of_option (nth_opt (p_path p) (Suc (Suc k)))),
                 u_version = of_option (params_get (p_query p) ''v''),
                 u_blockRef = (case fragment of None \<Rightarrow> Null | Some f \<Rightarrow> Val (blockId f)),
                 u_blockRange = (case fragment of None \<Rightarrow> Null | Some f \<Rightarrow> of_option (frange f)),
                 u_hostname = host,
                 u_scheme = Some (p_scheme p),
                 u_variants = of_option (parseVariantsQuery
                    (map_option OneString (params_get (p_query p) ''b''))),
                 u_latest = Val (params_has (p_query p) ''l'')\<rparr>))"

definition unpackHmId :: "string \<Rightarrow> UnpackedHypermediaId option" where
  "unpackHmId hypermediaId =
     (case parseCustomURL hypermediaId of None \<Rightarrow> None | Some parsed \<Rightarrow>
       if p_scheme parsed = HYPERMEDIA_SCHEME then unpack_parts hypermediaId parsed 0 Null
       else if p_scheme parsed = ''https'' \<or> p_scheme parsed = ''http''
       then unpack_parts hypermediaId parsed 1 (of_option (nth_opt (p_path parsed) 0))
       else None)"

section \<open>Creation\<close>

definition variant_param :: "publication_variant \<Rightarrow> string option" where
  "variant_param v = (case v of
       GroupVariant gid path \<Rightarrow>
         (case unpackHmId gid of None \<Rightarrow> None
          | Some g \<Rightarrow> Some (''g/'' @ show_undef (u_eid g)
              @ (case path of None \<Rightarrow> [] | Some p \<Rightarrow> if p = [] then [] else CHR ''/'' # p)))
     | AuthorVariant a \<Rightarrow> Some (''a/'' @ show_undef a))"

definition getVariantsParamValue :: "publication_variant list \<Rightarrow> string" where
  "getVariantsParamValue vs = join ''.'' (List.map_filter variant_param vs)"

definition serializeQueryString :: "(string \<times> string option) list \<Rightarrow> string" where
  "serializeQueryString query =
     (let qs = join ''&'' (map (\<lambda>(k, v). case v of None \<Rightarrow> k | Some x \<Rightarrow> k @ ''='' @ x) query)
      in if qs = [] then [] else CHR ''?'' # qs)"

text \<open>The query object the link builders fill, in insertion order.\<close>

definition hm_query ::
  "string jsval \<Rightarrow> publication_variant list jsval \<Rightarrow> bool jsval \<Rightarrow> (string \<times> string option) list" where
  "hm_query version variants latest =
     (case truthy_str version of None \<Rightarrow> [] | Some v \<Rightarrow> [(''v'', Some v)])
     @ (case js_get variants of None \<Rightarrow> []
        | Some vs \<Rightarrow> if vs = [] then [] else [(''b'', Some (getVariantsParamValue vs))])
     @ (if js_get latest = Some True then [(''l'', None)] else [])"

definition hm_fragment :: "string jsval \<Rightarrow> block_range jsval \<Rightarrow> string" where
  "hm_fragment blockRef blockRange = (case truthy_str blockRef of None \<Rightarrow> []
     | Some b \<Rightarrow> CHR ''#'' # b @ serializeBlockRange blockRange)"

definition createHmId :: "string \<Rightarrow> string \<Rightarrow> hm_opts \<Rightarrow> string" where
  "createHmId type eid opts =
     url_to_string type
       (eid @ (case truthy_str (o_groupPathName opts) of None \<Rightarrow> [] | Some p \<Rightarrow> CHR ''/'' # p))
     @ serializeQueryString (hm_query (o_version opts) (o_variants opts) (o_latest opts))
     @ hm_fragment (o_blockRef opts) (o_blockRange opts)"

definition createPublicWebHmUrl :: "string \<Rightarrow> string \<Rightarrow> hm_opts \<Rightarrow> string" where
  "createPublicWebHmUrl type eid opts =
     (case o_hostname opts of Null \<Rightarrow> [] | Val h \<Rightarrow> h | _ \<Rightarrow> HYPERMEDIA_PUBLIC_WEB_GATEWAY)
     @ ''/'' @ type @ ''/'' @ eid
     @ serializeQueryString (hm_query (o_version opts) (o_variants opts) (o_latest opts))
     @ hm_fragment (o_blockRef opts) (o_blockRange opts)"

text \<open>The default \<open>hostname = null\<close> turns a missing or undefined argument into \<open>null\<close>.\<close>

definition groupDocUrl :: "string \<Rightarrow> string jsval \<Rightarrow> string \<Rightarrow> string jsval \<Rightarrow> string" where
  "groupDocUrl groupEid version path hostname =
     (case hostname of Val h \<Rightarrow> h | _ \<Rightarrow> [])
     @ ''/g/'' @ groupEid
     @ (if path \<noteq> [] \<and> path \<noteq> ''/'' then CHR ''/'' # path else [])
     @ (case truthy_str version of None \<Rightarrow> [] | Some v \<Rightarrow> ''?v='' @ v)"

definition hmId :: "string \<Rightarrow> string \<Rightarrow> hm_opts \<Rightarrow> UnpackedHypermediaId" where
  "hmId type eid opts =
     \<lparr>u_id = createHmId type eid opts,
      u_type = type,
      u_eid = Some eid,
      u_qid = createHmId type eid no_opts,
      u_groupPathName = spread (or_null (o_groupPathName opts)) (o_groupPathName opts),
      u_version = spread (or_null (o_version opts)) (o_version opts),
      u_blockRef = spread (or_null (o_blockRef opts)) (o_blockRef opts),
      u_blockRange = spread (of_option (js_get (o_blockRange opts))) (o_blockRange opts),
      u_hostname = spread (or_null (o_hostname opts)) (o_hostname opts),
      u_scheme = None,
      u_variants = o_variants opts,
      u_latest = o_latest opts\<rparr>"

datatype url_error = NotADocument string

definition unpackDocId :: "string \<Rightarrow> url_error + (UnpackedHypermediaId \<times> string) option" where
  "unpackDocId inputUrl =
     (case unpackHmId inputUrl of None \<Rightarrow> Inr None
      | Some u \<Rightarrow> (case u_eid u of None \<Rightarrow> Inr None
          | Some e \<Rightarrow> if e = [] then Inr None
              else if u_type u \<noteq> ''d'' then Inl (NotADocument inputUrl)
              else Inr (Some (u\<lparr>u_id := inputUrl, u_type := ''d''\<rparr>, createHmId_plain ''d'' e))))"

definition isHypermediaScheme :: "string option \<Rightarrow> bool" where
  "isHypermediaScheme url = (case url of None \<Rightarrow> False
     | Some u \<Rightarrow> starts_with u (HYPERMEDIA_SCHEME @ ''://''))"

text \<open>\<open>indexOf(gw) === 0\<close>: the gateway URL the stream holds is a prefix.\<close>

definition isPublicGatewayLink :: "string \<Rightarrow> string \<Rightarrow> bool" where
  "isPublicGatewayLink txt gwUrl \<longleftrightarrow> starts_with txt gwUrl"

definition js_or_str :: "string jsval \<Rightarrow> string jsval \<Rightarrow> string jsval" where
  "js_or_str a b = (case truthy_str a of None \<Rightarrow> b | Some s \<Rightarrow> Val s)"

definition js_or_range :: "block_range jsval \<Rightarrow> block_range jsval \<Rightarrow> block_range jsval" where
  "js_or_range a b = (case js_get a of None \<Rightarrow> b | Some r \<Rightarrow> Val r)"

definition idToUrl :: "string \<Rightarrow> string jsval \<Rightarrow> hm_opts \<Rightarrow> string option" where
  "idToUrl hm hostname opts =
     (case unpackHmId hm of None \<Rightarrow> None | Some u \<Rightarrow>
        if u_type u = [] then None else
        Some (createPublicWebHmUrl (u_type u) (show_undef (u_eid u))
          (no_opts\<lparr>o_version := js_or_str (o_version opts) (u_version u),
                   o_blockRef := js_or_str (o_blockRef opts) (u_blockRef u),
                   o_blockRange := js_or_range (o_blockRange opts) (u_blockRange u),
                   o_hostname := hostname,
                   o_variants := o_variants opts\<rparr>)))"

definition normalizeHmId :: "string \<Rightarrow> string \<Rightarrow> string option" where
  "normalizeHmId urlMaybe gwUrl =
     (if isHypermediaScheme (Some urlMaybe) then Some urlMaybe
      else if isPublicGatewayLink urlMaybe gwUrl then
        (case unpackHmId urlMaybe of None \<Rightarrow> None | Some u \<Rightarrow>
          (case u_eid u of None \<Rightarrow> None | Some e \<Rightarrow>
             if e = [] \<or> u_type u = [] then None
             else Some (createHmId (u_type u) e
               (no_opts\<lparr>o_blockRange := u_blockRange u, o_blockRef := u_blockRef u,
                        o_version := u_version u\<rparr>))))
      else None)"

definition hash_ref :: "string jsval \<Rightarrow> block_range jsval \<Rightarrow> string" where
  "hash_ref blockRef blockRange = (case truthy_str blockRef of None \<Rightarrow> []
     | Some b \<Rightarrow> (if starts_with b ''#'' then [] else ''#'') @ b @ serializeBlockRange blockRange)"

definition createHmDocLink :: "string \<Rightarrow> hm_opts \<Rightarrow> string" where
  "createHmDocLink documentId opts =
     documentId
     @ serializeQueryString (hm_query (o_version opts) (o_variants opts) (o_latest opts))
     @ hash_ref (o_blockRef opts) (o_blockRange opts)"

definition createHmGroupDocLink ::
  "string \<Rightarrow> string \<Rightarrow> string jsval \<Rightarrow> string jsval \<Rightarrow> block_range jsval \<Rightarrow> string" where
  "createHmGroupDocLink gid path version blockRef blockRange =
     gid
     @ (if path = [] then [] else if path = ''/'' then ''/-'' else CHR ''/'' # path)
     @ (case truthy_str version of None \<Rightarrow> [] | Some v \<Rightarrow> ''?v='' @ v)
     @ hash_ref blockRef blockRange"

definition labelOfEntityType :: "string \<Rightarrow> string option" where
  "labelOfEntityType type = map_of HYPERMEDIA_ENTITY_TYPES type"

definition hmIdWithVersion ::
  "string jsval \<Rightarrow> string jsval \<Rightarrow> string jsval \<Rightarrow> block_range jsval \<Rightarrow> string option" where
  "hmIdWithVersion hm version blockRef blockRange =
     (case truthy_str hm of None \<Rightarrow> None | Some h \<Rightarrow>
       (case unpackHmId h of None \<Rightarrow> None | Some u \<Rightarrow>
          Some (createHmId (u_type u) (show_undef (u_eid u))
            (no_opts\<lparr>o_groupPathName := u_groupPathName u,
                     o_version := js_or_str version (u_version u),
                     o_blockRef := blockRef, o_blockRange := blockRange\<rparr>))))"

section \<open>Plain identifiers pass through unchanged\<close>

definition seg_char :: "char \<Rightarrow> bool" where
  "seg_char c \<longleftrightarrow> \<not> path_set c \<and> c \<notin> set ''/:%&+''"

definition seg_ok :: "string \<Rightarrow> bool" where
  "seg_ok s \<longleftrightarrow> s \<noteq> [] \<and> (\<forall>c \<in> set s. seg_char c) \<and> s \<noteq> ''.'' \<and> s \<noteq> ''..''"

lemma seg_charD:
  assumes "seg_char c"
  shows "\<not> path_set c" "\<not> query_set c" "c \<noteq> CHR ''/''" "c \<noteq> CHR '':''" "c \<noteq> CHR ''%''" "c \<noteq> CHR ''&''"
    "c \<noteq> CHR ''+''" "c \<noteq> CHR ''?''" "c \<noteq> CHR ''#''" "\<not> tab_or_newline c" "32 < (of_char c :: nat)"
proof -
  show p: "\<not> path_set c" and "c \<noteq> CHR ''/''" "c \<noteq> CHR '':''" "c \<noteq> CHR ''%''" "c \<noteq> CHR ''&''" "c \<noteq> CHR ''+''"
    using assms by (auto simp: seg_char_def)
  then show q: "\<not> query_set c" and "c \<noteq> CHR ''?''" by (auto simp: path_set_def)
  then show "c \<noteq> CHR ''#''" by (auto simp: query_set_def)
  from q have c0: "\<not> c0_control c" and sp: "c \<noteq> CHR '' ''" by (auto simp: query_set_def)
  show "\<not> tab_or_newline c" using c0 by (auto simp: tab_or_newline_def c0_control_def)
  show "32 < (of_char c :: nat)"
  proof -
    have "32 \<le> (of_char c :: nat)" using c0 by (auto simp: c0_control_def)
    moreover have "(of_char c :: nat) \<noteq> 32"
    proof
      assume "(of_char c :: nat) = 32"
      then have "(of_char c :: nat) = of_char (CHR '' '')" by simp
      then show False using sp by (simp only: of_char_eq_iff)
    qed
    ultimately show ?thesis by linarith
  qed
qed

lemma encode_with_id: "(\<And>c. c \<in> set s \<Longrightarrow> \<not> p c) \<Longrightarrow> encode_with p s = s"
  by (induction s) (auto simp: encode_with_def)

lemma seg_ok_dots: "seg_ok s \<Longrightarrow> \<not> single_dot s \<and> \<not> double_dot s"
proof -
  assume s: "seg_ok s"
  then have "CHR ''%'' \<notin> set s" using seg_charD(5) by (auto simp: seg_ok_def)
  with s show ?thesis by (auto simp: seg_ok_def single_dot_def double_dot_def)
qed

lemma seg_ok_encode: "seg_ok s \<Longrightarrow> encode_with path_set s = s"
  by (rule encode_with_id) (auto simp: seg_ok_def dest: seg_charD)

lemma norm_path_plain:
  "(\<And>s. s \<in> set ss \<Longrightarrow> \<not> single_dot s \<and> \<not> double_dot s \<and> encode_with path_set s = s)
    \<Longrightarrow> norm_path acc ss = acc @ ss"
  by (induction acc ss rule: norm_path.induct) auto

lemma norm_path_ok: "(\<And>s. s \<in> set ss \<Longrightarrow> seg_ok s) \<Longrightarrow> norm_path acc ss = acc @ ss"
  using seg_ok_dots seg_ok_encode by (intro norm_path_plain) blast

lemma cut_none: "c \<notin> set s \<Longrightarrow> cut c s = (s, None)"
  by (auto simp: cut_def Let_def takeWhile_eq_all_conv dropWhile_eq_Nil_conv)

lemma cut_append: "c \<notin> set a \<Longrightarrow> cut c (a @ c # b) = (a, Some b)"
  by (induction a) (auto simp: cut_def Let_def split: if_splits)

lemma strip_trailing_id:
  assumes "s \<noteq> []" "\<And>c. c \<in> set s \<Longrightarrow> 32 < (of_char c :: nat)"
  shows "strip_trailing s = s"
proof -
  have "dropWhile (\<lambda>c. (of_char c :: nat) \<le> 32) (rev s) = rev s"
  proof (cases "rev s")
    case Nil
    then show ?thesis by simp
  next
    case (Cons a l)
    then have "a \<in> set s" by (metis list.set_intros(1) set_rev)
    with assms(2) have "32 < (of_char a :: nat)" by blast
    with Cons show ?thesis by simp
  qed
  then show ?thesis by (simp add: strip_trailing_def)
qed

lemma set_join_subset: "c \<in> set (join sep xs) \<Longrightarrow> c \<in> set sep \<or> (\<exists>x \<in> set xs. c \<in> set x)"
  by (induction sep xs rule: join.induct) auto

lemma concat_slash: "ss \<noteq> [] \<Longrightarrow> concat (map (\<lambda>seg. CHR ''/'' # seg) ss) = CHR ''/'' # join ''/'' ss"
  by (induction "''/''" ss rule: join.induct) auto

text \<open>Plain segments pass through the URL class unchanged.\<close>

lemma url_to_string_ok:
  assumes ss: "ss \<noteq> []" "\<And>s. s \<in> set ss \<Longrightarrow> seg_ok s"
  shows "url_to_string host (join ''/'' ss) = ''hm://'' @ host @ ''/'' @ join ''/'' ss"
proof -
  let ?s = "join ''/'' ss"
  have chars: "c = CHR ''/'' \<or> seg_char c" if "c \<in> set ?s" for c
    using set_join_subset [OF that] ss(2) by (auto simp: seg_ok_def)
  obtain x xs where x: "ss = x # xs" using ss(1) by (cases ss) auto
  have "x \<noteq> []" using ss(2) [of x] x by (simp add: seg_ok_def)
  then have ne: "?s \<noteq> []" using x by (cases xs) auto
  have "strip_trailing ?s = ?s"
    by (rule strip_trailing_id [OF ne]) (use chars seg_charD in force)
  moreover have "filter (\<lambda>c. \<not> tab_or_newline c) ?s = ?s"
    using chars seg_charD(10) by (intro filter_True) (auto simp: tab_or_newline_def)
  moreover have "cut CHR ''#'' ?s = (?s, None)"
    using chars seg_charD(9) by (intro cut_none) force
  moreover have "cut CHR ''?'' ?s = (?s, None)"
    using chars seg_charD(8) by (intro cut_none) force
  moreover have "split_char CHR ''/'' ?s = ss"
    using ss seg_charD(3) by (intro split_by_join) (auto simp: seg_ok_def)
  moreover have "norm_path [] ss = ss" using norm_path_ok [of ss "[]"] ss by simp
  ultimately show ?thesis using concat_slash [OF ss(1)] by (simp add: url_to_string_def)
qed

lemma createHmId_plain_ok: "seg_ok e \<Longrightarrow> createHmId_plain t e = ''hm://'' @ t @ ''/'' @ e"
  using url_to_string_ok [of "[e]" t] by (simp add: createHmId_plain_def)

lemma createHmId_no_opts: "createHmId t e no_opts = createHmId_plain t e"
  by (simp add: createHmId_def createHmId_plain_def no_opts_def serializeQueryString_def hm_query_def
      hm_fragment_def)

text \<open>A URL assembled from its parts is taken apart again.\<close>

lemma parse_parts:
  assumes sch: "CHR '':'' \<notin> set sch"
    and ss: "ss \<noteq> []" "join ''/'' ss \<noteq> []"
      "\<And>s c. s \<in> set ss \<Longrightarrow> c \<in> set s \<Longrightarrow> c \<notin> set ''/:?#''"
    and q: "\<And>x c. q = Some x \<Longrightarrow> c \<in> set x \<Longrightarrow> c \<notin> set '':?#''"
    and f: "\<And>x c. f = Some x \<Longrightarrow> c \<in> set x \<Longrightarrow> c \<notin> set ''/#''"
  shows "parseCustomURL (sch @ ''://'' @ join ''/'' ss
      @ (case q of None \<Rightarrow> [] | Some x \<Rightarrow> CHR ''?'' # x) @ (case f of None \<Rightarrow> [] | Some x \<Rightarrow> CHR ''#'' # x))
    = Some \<lparr>p_scheme = sch, p_path = ss, p_query = search_params q, p_fragment = f\<rparr>"
proof -
  let ?j = "join ''/'' ss"
  let ?q = "case q of None \<Rightarrow> [] | Some x \<Rightarrow> CHR ''?'' # x"
  let ?f = "case f of None \<Rightarrow> [] | Some x \<Rightarrow> CHR ''#'' # x"
  have j: "c \<notin> set '':?#''" if "c \<in> set ?j" for c
    using set_join_subset [OF that] ss(3) by fastforce
  have "CHR '':'' \<notin> set (?j @ ?q)" using j q by (fastforce split: option.splits)
  moreover have "CHR ''/'' \<notin> set ?f" using f by (fastforce split: option.splits)
  ultimately have "\<not> occurs_in ''://'' ((?j @ ?q) @ ?f)" by (rule not_occurs_scheme_sep)
  then have rest: "split_on ''://'' (?j @ ?q @ ?f) = [?j @ ?q @ ?f]"
    by (simp add: split_on_none)
  have parts: "split_on ''://'' (sch @ ''://'' @ ?j @ ?q @ ?f) = [sch, ?j @ ?q @ ?f]"
    using split_on_append [of "''://''" sch "?j @ ?q @ ?f"] sch rest by simp
  have jq: "c \<noteq> CHR ''#''" if "c \<in> set (?j @ ?q)" for c
    using that j q by (fastforce split: option.splits)
  have hs: "split_char CHR ''#'' (?j @ ?q @ ?f) = (?j @ ?q) # (case f of None \<Rightarrow> [] | Some x \<Rightarrow> [x])"
  proof (cases f)
    case None
    then show ?thesis using split_by_none [of "?j @ ?q"] jq by simp
  next
    case (Some x)
    have "split_char CHR ''#'' ((?j @ ?q) @ CHR ''#'' # x) = (?j @ ?q) # split_char CHR ''#'' x"
      using jq by (intro split_by_append) auto
    moreover have "split_char CHR ''#'' x = [x]"
      using f Some by (intro split_by_none) fastforce
    ultimately show ?thesis using Some by simp
  qed
  have qs: "split_char CHR ''?'' (?j @ ?q) = ?j # (case q of None \<Rightarrow> [] | Some x \<Rightarrow> [x])"
  proof (cases q)
    case None
    then show ?thesis using split_by_none [of ?j] j by fastforce
  next
    case (Some x)
    have "split_char CHR ''?'' (?j @ CHR ''?'' # x) = ?j # split_char CHR ''?'' x"
      using j by (intro split_by_append) fastforce+
    moreover have "split_char CHR ''?'' x = [x]"
      using q Some by (intro split_by_none) fastforce
    ultimately show ?thesis using Some by simp
  qed
  have pth: "split_char CHR ''/'' ?j = ss"
    using ss by (intro split_by_join) fastforce+
  show ?thesis
    using parts hs qs pth ss(2)
    by (cases f; cases q) (auto simp: parseCustomURL_def Let_def)
qed

section \<open>Query strings\<close>

definition qval_char :: "char \<Rightarrow> bool" where
  "qval_char c \<longleftrightarrow> c \<notin> set ''&+%#?:''"

definition qval_ok :: "string \<Rightarrow> bool" where
  "qval_ok s \<longleftrightarrow> (\<forall>c \<in> set s. qval_char c)"

lemma pct_decode_id: "CHR ''%'' \<notin> set s \<Longrightarrow> pct_decode s = s"
  by (induction s rule: pct_decode.induct) auto

lemma form_decode_id: "qval_ok s \<Longrightarrow> form_decode s = s"
proof -
  assume s: "qval_ok s"
  then have "map (\<lambda>c. if c = CHR ''+'' then CHR '' '' else c) s = s"
    by (intro map_idI) (auto simp: qval_ok_def qval_char_def)
  moreover have "CHR ''%'' \<notin> set s" using s by (auto simp: qval_ok_def qval_char_def)
  ultimately show ?thesis by (simp add: form_decode_def pct_decode_id)
qed

definition query_pair :: "string \<times> string option \<Rightarrow> string" where
  "query_pair = (\<lambda>(k, v). case v of None \<Rightarrow> k | Some x \<Rightarrow> k @ ''='' @ x)"

definition query_ok :: "(string \<times> string option) list \<Rightarrow> bool" where
  "query_ok qs \<longleftrightarrow> (\<forall>(k, v) \<in> set qs. k \<noteq> [] \<and> qval_ok k \<and> CHR ''='' \<notin> set k
     \<and> (case v of None \<Rightarrow> True | Some x \<Rightarrow> qval_ok x))"

lemma query_pair_ok:
  assumes "query_ok qs" "kv \<in> set qs"
  shows "query_pair kv \<noteq> []" "qval_ok (query_pair kv)"
    "(case cut CHR ''='' (query_pair kv) of (k, v) \<Rightarrow>
        (form_decode k, case v of None \<Rightarrow> [] | Some x \<Rightarrow> form_decode x))
     = (fst kv, case snd kv of None \<Rightarrow> [] | Some x \<Rightarrow> x)"
proof -
  obtain k v where kv: "kv = (k, v)" by (cases kv)
  have k: "k \<noteq> []" "qval_ok k" "CHR ''='' \<notin> set k" and v: "\<And>x. v = Some x \<Longrightarrow> qval_ok x"
    using assms kv by (auto simp: query_ok_def)
  show "query_pair kv \<noteq> []" using k by (auto simp: query_pair_def kv split: option.split)
  show "qval_ok (query_pair kv)"
    using k v by (cases v) (auto simp: query_pair_def kv qval_ok_def qval_char_def)
  show "(case cut CHR ''='' (query_pair kv) of (k, v) \<Rightarrow>
        (form_decode k, case v of None \<Rightarrow> [] | Some x \<Rightarrow> form_decode x))
     = (fst kv, case snd kv of None \<Rightarrow> [] | Some x \<Rightarrow> x)"
    using k v by (cases v) (auto simp: query_pair_def kv cut_none cut_append form_decode_id)
qed

lemma search_params_join:
  assumes "query_ok qs" "qs \<noteq> []"
  shows "search_params (Some (join ''&'' (map query_pair qs)))
    = map (\<lambda>(k, v). (k, case v of None \<Rightarrow> [] | Some x \<Rightarrow> x)) qs"
proof -
  let ?s = "join ''&'' (map query_pair qs)"
  have "c \<noteq> CHR ''?''" if "c \<in> set ?s" for c
    using set_join_subset [OF that] query_pair_ok(2) [OF assms(1)]
    by (auto simp: qval_ok_def qval_char_def)
  then have "\<not> starts_with ?s ''?''" by (cases ?s) (auto simp: starts_with_def)
  moreover have "split_char CHR ''&'' ?s = map query_pair qs"
    using assms query_pair_ok(2) [OF assms(1)]
    by (intro split_by_join) (auto simp: qval_ok_def qval_char_def)
  moreover have "filter (\<lambda>kv. kv \<noteq> []) (map query_pair qs) = map query_pair qs"
    using query_pair_ok(1) [OF assms(1)] by (intro filter_True) auto
  moreover have "map (\<lambda>kv. case cut CHR ''='' kv of (k, v) \<Rightarrow>
               (form_decode k, case v of None \<Rightarrow> [] | Some x \<Rightarrow> form_decode x)) (map query_pair qs)
     = map (\<lambda>(k, v). (k, case v of None \<Rightarrow> [] | Some x \<Rightarrow> x)) qs"
    using query_pair_ok(3) [OF assms(1)] by (auto simp: case_prod_beta)
  ultimately show ?thesis by (simp add: search_params_def)
qed

section \<open>Fragments are read back\<close>

definition block_ok :: "string \<Rightarrow> bool" where
  "block_ok b \<longleftrightarrow> length b = 8 \<and> (\<forall>c \<in> set b. \<not> js_space c)"

definition range_ok :: "block_range option \<Rightarrow> bool" where
  "range_ok r \<longleftrightarrow> r \<noteq> Some (ExpandedBlockRange False)"

lemma match_range_serialized: "match_range (serializeBlockRange (Val (BlockRange a b))) = Some (a, b)"
proof -
  have nd: "\<not> is_digit CHR '':''" "\<not> is_digit CHR '']''" by (auto simp: is_digit_def)
  show ?thesis
    using takeWhile_digits_append [OF nd(1), of a] takeWhile_digits_append [OF nd(2), of b "[]"]
    by (simp add: match_range_def serializeBlockRange_def)
qed

lemma parse_fragment_serialized:
  assumes "block_ok b" "range_ok r"
  shows "parseFragment (Some (b @ serializeBlockRange (of_option r))) = Some \<lparr>blockId = b, frange = r\<rparr>"
proof -
  have b: "b \<noteq> []" "take 8 (b @ s) = b" "drop 8 (b @ s) = s" "length b = 8" for s
    using assms(1) by (auto simp: block_ok_def)
  consider "r = None" | "r = Some (ExpandedBlockRange True)" | x y where "r = Some (BlockRange x y)"
    using assms(2) by (cases r rule: option.exhaust; auto simp: range_ok_def)
      (metis block_range.exhaust)
  then show ?thesis
  proof cases
    case 3
    then have "match_range (serializeBlockRange (of_option r)) = Some (x, y)"
      using match_range_serialized by simp
    then show ?thesis using 3 b assms(1)
      by (auto simp: parseFragment_def block_ok_def serializeBlockRange_def)
  qed (use b assms(1) in \<open>auto simp: parseFragment_def block_ok_def serializeBlockRange_def\<close>)
qed

text \<open>Fragments as a codec: a block id with an optional range.\<close>

definition frag_enc :: "string \<times> block_range option \<Rightarrow> string" where
  "frag_enc f = fst f @ serializeBlockRange (of_option (snd f))"

definition frag_dec :: "string \<Rightarrow> (string \<times> block_range option) option" where
  "frag_dec s = map_option (\<lambda>f. (blockId f, frange f)) (parseFragment (Some s))"

interpretation fragments: codec "\<lambda>f. block_ok (fst f) \<and> range_ok (snd f)" frag_enc frag_dec
  by unfold_locales (auto simp: frag_enc_def frag_dec_def parse_fragment_serialized)

section \<open>Variants are read back\<close>

definition var_char :: "char \<Rightarrow> bool" where
  "var_char c \<longleftrightarrow> seg_char c \<and> c \<noteq> CHR ''.''"

definition variant_ok :: "publication_variant \<Rightarrow> bool" where
  "variant_ok v = (case v of
      GroupVariant gid path \<Rightarrow> starts_with gid ''hm://g/'' \<and> seg_ok (drop 7 gid)
        \<and> (\<forall>c \<in> set (drop 7 gid). var_char c)
        \<and> (case path of None \<Rightarrow> True | Some p \<Rightarrow> p \<noteq> [] \<and> (\<forall>c \<in> set p. var_char c))
    | AuthorVariant a \<Rightarrow> (case a of None \<Rightarrow> False | Some s \<Rightarrow> \<forall>c \<in> set s. var_char c))"

lemma unpack_plain_group:
  assumes "seg_ok e"
  shows "map_option u_eid (unpackHmId (''hm://g/'' @ e)) = Some (Some e)"
proof -
  have "c \<notin> set ''/:?#''" if "s \<in> set [''g'', e]" "c \<in> set s" for s c
    using that assms seg_charD by (fastforce simp: seg_ok_def)
  then have "parseCustomURL (''hm'' @ ''://'' @ join ''/'' [''g'', e])
    = Some \<lparr>p_scheme = ''hm'', p_path = [''g'', e], p_query = search_params None, p_fragment = None\<rparr>"
    using parse_parts [of "''hm''" "[''g'', e]" None None] by simp
  then show ?thesis
    by (simp add: unpackHmId_def HYPERMEDIA_SCHEME_def unpack_parts_def inKeys_def
        HYPERMEDIA_ENTITY_TYPES_def Let_def)
qed

lemma var_charD:
  assumes "var_char c"
  shows "seg_char c" "c \<noteq> CHR ''.''" "c \<noteq> CHR ''/''" "c \<noteq> CHR '':''" "qval_char c"
  using assms seg_charD [of c] by (auto simp: var_char_def qval_char_def)

lemma variant_param_parse:
  assumes "variant_ok v"
  obtains s where "variant_param v = Some s" "parse_variant s = [v]" "CHR ''.'' \<notin> set s" "qval_ok s"
proof (cases v)
  case (GroupVariant gid path)
  define e where "e = drop 7 gid"
  have e: "seg_ok e" "\<And>c. c \<in> set e \<Longrightarrow> var_char c" and gid0: "starts_with gid ''hm://g/''"
    and p: "\<And>q. path = Some q \<Longrightarrow> q \<noteq> []" "\<And>q c. path = Some q \<Longrightarrow> c \<in> set q \<Longrightarrow> var_char c"
    using assms GroupVariant by (auto simp: variant_ok_def e_def)
  have gid: "gid = ''hm://g/'' @ e"
    using gid0 by (auto simp: starts_with_prefix prefix_def e_def)
  obtain g where g: "unpackHmId gid = Some g" "u_eid g = Some e"
    using unpack_plain_group [OF e(1)] gid by (auto simp: map_option_eq_Some)
  let ?s = "''g/'' @ e @ (case path of None \<Rightarrow> [] | Some q \<Rightarrow> CHR ''/'' # q)"
  let ?sep = "\<lambda>c. c = CHR '':'' \<or> c = CHR ''/''"
  have "variant_param v = Some ?s"
    using GroupVariant g p(1) by (auto simp: variant_param_def show_undef_def split: option.splits)
  moreover have "parse_variant ?s = [v]"
  proof -
    have "split_by ?sep ?s = [''g'', e] @ (case path of None \<Rightarrow> [] | Some q \<Rightarrow> [q])"
    proof (cases path)
      case None
      then show ?thesis using split_by_none [of e ?sep] e(2) var_charD by auto
    next
      case (Some q)
      have "split_by ?sep (e @ CHR ''/'' # q) = e # split_by ?sep q"
        using e(2) var_charD by (intro split_by_append) auto
      moreover have "split_by ?sep q = [q]"
        using p(2) Some var_charD by (intro split_by_none) auto
      ultimately show ?thesis using Some by simp
    qed
    then show ?thesis
      using GroupVariant gid createHmId_plain_ok [OF e(1), of "''g''"] p(1)
      by (auto simp: parse_variant_def show_undef_def split: option.splits)
  qed
  moreover have "CHR ''.'' \<notin> set ?s" using e(2) p(2) var_charD(2) by (auto split: option.splits)
  moreover have "qval_ok ?s"
    using e(2) p(2) var_charD(5) by (auto simp: qval_ok_def qval_char_def split: option.splits)
  ultimately show ?thesis using that by blast
next
  case (AuthorVariant a)
  then obtain s where s: "a = Some s" "\<And>c. c \<in> set s \<Longrightarrow> var_char c"
    using assms by (auto simp: variant_ok_def split: option.splits)
  let ?sep = "\<lambda>c. c = CHR '':'' \<or> c = CHR ''/''"
  have "split_by ?sep s = [s]" using s(2) var_charD by (intro split_by_none) auto
  then have "parse_variant (''a/'' @ s) = [v]"
    using AuthorVariant s(1) by (simp add: parse_variant_def)
  moreover have "variant_param v = Some (''a/'' @ s)"
    using AuthorVariant s(1) by (simp add: variant_param_def show_undef_def)
  moreover have "CHR ''.'' \<notin> set (''a/'' @ s)" using s(2) var_charD(2) by auto
  moreover have "qval_ok (''a/'' @ s)"
    using s(2) var_charD(5) by (auto simp: qval_ok_def qval_char_def)
  ultimately show ?thesis using that by blast
qed

lemma variants_roundtrip:
  assumes "vs \<noteq> []" "\<And>v. v \<in> set vs \<Longrightarrow> variant_ok v"
  shows "parseVariantsQuery (Some (OneString (getVariantsParamValue vs))) = Some vs"
    and "qval_ok (getVariantsParamValue vs)"
proof -
  let ?ss = "List.map_filter variant_param vs"
  have "concat (map parse_variant ?ss) = vs \<and> (\<forall>s \<in> set ?ss. CHR ''.'' \<notin> set s \<and> qval_ok s)
      \<and> length ?ss = length vs"
    using assms(2)
  proof (induction vs)
    case Nil
    then show ?case by (simp add: List.map_filter_def)
  next
    case (Cons v vs)
    obtain s where "variant_param v = Some s" "parse_variant s = [v]" "CHR ''.'' \<notin> set s" "qval_ok s"
      using variant_param_parse [of v] Cons.prems by auto
    with Cons show ?case by (simp add: List.map_filter_simps)
  qed
  then have ss: "concat (map parse_variant ?ss) = vs"
      "\<And>s. s \<in> set ?ss \<Longrightarrow> CHR ''.'' \<notin> set s \<and> qval_ok s" "?ss \<noteq> []"
    using assms(1) by auto
  have sp: "split_char CHR ''.'' (getVariantsParamValue vs) = ?ss"
    unfolding getVariantsParamValue_def using ss by (intro split_by_join) auto
  have "getVariantsParamValue vs \<noteq> []"
  proof
    assume "getVariantsParamValue vs = []"
    with sp have "?ss = [[]]" by simp
    with ss(1) assms(1) show False by (simp add: parse_variant_def)
  qed
  with sp ss assms(1) show "parseVariantsQuery (Some (OneString (getVariantsParamValue vs))) = Some vs"
    by (simp add: parseVariantsQuery_def Let_def del: concat_eq_Nil_conv)
  show "qval_ok (getVariantsParamValue vs)"
    using ss(2) set_join_subset [of _ "''.''" ?ss]
    by (fastforce simp: getVariantsParamValue_def qval_ok_def qval_char_def)
qed

definition variants_dec :: "string \<Rightarrow> publication_variant list option" where
  "variants_dec s = parseVariantsQuery (Some (OneString s))"

interpretation variants: codec "\<lambda>vs. vs \<noteq> [] \<and> (\<forall>v \<in> set vs. variant_ok v)"
    getVariantsParamValue variants_dec
  by unfold_locales (simp add: variants_dec_def variants_roundtrip)

section \<open>Identifiers are read back\<close>

text \<open>Options a caller fills with plain parts.\<close>

definition str_opt_ok :: "(string \<Rightarrow> bool) \<Rightarrow> string jsval \<Rightarrow> bool" where
  "str_opt_ok p v = (case truthy_str v of None \<Rightarrow> True | Some s \<Rightarrow> p s)"

definition frag_ok :: "string \<Rightarrow> bool" where
  "frag_ok b \<longleftrightarrow> block_ok b \<and> (\<forall>c \<in> set b. c \<notin> set ''/#'')"

definition opts_ok :: "hm_opts \<Rightarrow> bool" where
  "opts_ok opts \<longleftrightarrow> str_opt_ok qval_ok (o_version opts)
     \<and> str_opt_ok frag_ok (o_blockRef opts)
     \<and> range_ok (js_get (o_blockRange opts))
     \<and> (case js_get (o_variants opts) of None \<Rightarrow> True | Some vs \<Rightarrow> \<forall>v \<in> set vs. variant_ok v)"

text \<open>What parsing recovers of the options, whatever the path.\<close>

definition given_variants :: "publication_variant list jsval \<Rightarrow> publication_variant list jsval" where
  "given_variants v = (case js_get v of None \<Rightarrow> Null | Some vs \<Rightarrow> if vs = [] then Null else Val vs)"

definition given_range :: "string jsval \<Rightarrow> block_range jsval \<Rightarrow> block_range jsval" where
  "given_range b r = (case truthy_str b of None \<Rightarrow> Null | Some _ \<Rightarrow> of_option (js_get r))"

lemma serializeBlockRange_get: "serializeBlockRange r = serializeBlockRange (of_option (js_get r))"
  by (cases r) (auto simp: serializeBlockRange_def)

lemma serializeBlockRange_chars: "c \<in> set (serializeBlockRange r) \<Longrightarrow> is_digit c \<or> c \<in> set ''[]:+''"
proof (cases r)
  case (Val x)
  assume "c \<in> set (serializeBlockRange r)"
  with Val show ?thesis
    by (cases x) (auto simp: serializeBlockRange_def dest: show_nat_digits split: if_splits)
qed (auto simp: serializeBlockRange_def)

lemma hm_query_ok:
  assumes "opts_ok opts"
  defines "qs \<equiv> hm_query (o_version opts) (o_variants opts) (o_latest opts)"
  shows "query_ok qs"
    and "map_of (map (\<lambda>(k, v). (k, case v of None \<Rightarrow> [] | Some x \<Rightarrow> x)) qs) ''v'' = truthy_str (o_version opts)"
    and "of_option (parseVariantsQuery (map_option OneString
          (map_of (map (\<lambda>(k, v). (k, case v of None \<Rightarrow> [] | Some x \<Rightarrow> x)) qs) ''b''))) = given_variants (o_variants opts)"
    and "map_of (map (\<lambda>(k, v). (k, case v of None \<Rightarrow> [] | Some x \<Rightarrow> x)) qs) ''l'' \<noteq> None
          \<longleftrightarrow> js_get (o_latest opts) = Some True"
proof -
  have v: "\<And>s. truthy_str (o_version opts) = Some s \<Longrightarrow> qval_ok s"
    using assms(1) by (auto simp: opts_ok_def str_opt_ok_def)
  have b: "vs \<noteq> [] \<Longrightarrow> js_get (o_variants opts) = Some vs \<Longrightarrow>
      qval_ok (getVariantsParamValue vs)
      \<and> parseVariantsQuery (Some (OneString (getVariantsParamValue vs))) = Some vs" for vs
    using assms(1) variants_roundtrip [of vs] by (auto simp: opts_ok_def)
  have keys: "qval_ok ''v''" "qval_ok ''b''" "qval_ok ''l''" by (auto simp: qval_ok_def qval_char_def)
  show "query_ok qs"
    using v b keys by (auto simp: qs_def hm_query_def query_ok_def split: option.splits if_splits)
  show "map_of (map (\<lambda>(k, v). (k, case v of None \<Rightarrow> [] | Some x \<Rightarrow> x)) qs) ''v'' = truthy_str (o_version opts)"
    by (auto simp: qs_def hm_query_def split: option.splits)
  show "of_option (parseVariantsQuery (map_option OneString
          (map_of (map (\<lambda>(k, v). (k, case v of None \<Rightarrow> [] | Some x \<Rightarrow> x)) qs) ''b''))) = given_variants (o_variants opts)"
    using b by (auto simp: qs_def hm_query_def given_variants_def parseVariantsQuery_def [of None] split: option.splits)
  show "map_of (map (\<lambda>(k, v). (k, case v of None \<Rightarrow> [] | Some x \<Rightarrow> x)) qs) ''l'' \<noteq> None
          \<longleftrightarrow> js_get (o_latest opts) = Some True"
    by (auto simp: qs_def hm_query_def split: option.splits)
qed

text \<open>The common tail of every link: query and fragment, behind any plain path.\<close>

lemma parse_link:
  assumes sch: "CHR '':'' \<notin> set sch"
    and ss: "ss \<noteq> []" "\<And>s. s \<in> set ss \<Longrightarrow> s \<noteq> []"
      "\<And>s c. s \<in> set ss \<Longrightarrow> c \<in> set s \<Longrightarrow> c \<notin> set ''/:?#''"
    and ok: "opts_ok opts"
  obtains ps where "parseCustomURL (sch @ ''://'' @ join ''/'' ss
      @ serializeQueryString (hm_query (o_version opts) (o_variants opts) (o_latest opts))
      @ hm_fragment (o_blockRef opts) (o_blockRange opts))
    = Some \<lparr>p_scheme = sch, p_path = ss, p_query = ps,
        p_fragment = map_option (\<lambda>b. b @ serializeBlockRange (o_blockRange opts)) (truthy_str (o_blockRef opts))\<rparr>"
    and "params_get ps ''v'' = truthy_str (o_version opts)"
    and "of_option (parseVariantsQuery (map_option OneString (params_get ps ''b''))) = given_variants (o_variants opts)"
    and "params_has ps ''l'' = (js_get (o_latest opts) = Some True)"
proof -
  let ?qs = "hm_query (o_version opts) (o_variants opts) (o_latest opts)"
  let ?q = "if ?qs = [] then None else Some (join ''&'' (map query_pair ?qs))"
  let ?f = "map_option (\<lambda>b. b @ serializeBlockRange (o_blockRange opts)) (truthy_str (o_blockRef opts))"
  let ?ps = "map (\<lambda>(k, v). (k, case v of None \<Rightarrow> [] | Some x \<Rightarrow> x)) ?qs"
  note q = hm_query_ok [OF ok]
  have jne: "join ''/'' ss \<noteq> []" using ss(1,2) by (cases ss; cases "tl ss") auto
  have qne: "?qs \<noteq> [] \<Longrightarrow> join ''&'' (map query_pair ?qs) \<noteq> []"
    using query_pair_ok(1) [OF q(1)] by (cases ?qs; cases "tl ?qs") auto
  have ser: "serializeQueryString ?qs = (case ?q of None \<Rightarrow> [] | Some x \<Rightarrow> CHR ''?'' # x)"
    using qne by (auto simp: serializeQueryString_def query_pair_def)
  have frag: "hm_fragment (o_blockRef opts) (o_blockRange opts) = (case ?f of None \<Rightarrow> [] | Some x \<Rightarrow> CHR ''#'' # x)"
    by (auto simp: hm_fragment_def split: option.splits)
  have qc: "c \<notin> set '':?#''" if "?q = Some x" "c \<in> set x" for x c
    using that set_join_subset [of c "''&''" "map query_pair ?qs"] query_pair_ok(2) [OF q(1)]
    by (fastforce simp: qval_ok_def qval_char_def split: if_splits)
  have rng: "c \<notin> set ''/#''" if "c \<in> set (serializeBlockRange (o_blockRange opts))" for c
    using serializeBlockRange_chars [OF that] by (auto simp: is_digit_def)
  have fc: "c \<notin> set ''/#''" if "?f = Some x" "c \<in> set x" for x c
  proof -
    from that(1) obtain b where b: "truthy_str (o_blockRef opts) = Some b"
      "x = b @ serializeBlockRange (o_blockRange opts)" by auto
    then have "frag_ok b" using ok by (simp add: opts_ok_def str_opt_ok_def)
    then have "c \<notin> set ''/#''" if "c \<in> set b" using that by (simp add: frag_ok_def)
    with b(2) that(2) rng show ?thesis by (metis Un_iff set_append)
  qed
  have sp: "search_params ?q = ?ps"
    using search_params_join [OF q(1)] by (simp add: search_params_def [of None])
  have "parseCustomURL (sch @ ''://'' @ join ''/'' ss @ serializeQueryString ?qs
      @ hm_fragment (o_blockRef opts) (o_blockRange opts))
    = Some \<lparr>p_scheme = sch, p_path = ss, p_query = ?ps, p_fragment = ?f\<rparr>"
    using parse_parts [of sch ss ?q ?f, OF sch ss(1) jne ss(3) qc fc] ser frag sp by simp
  then show ?thesis
    using that [of ?ps] q by (simp add: params_get_def params_has_def)
qed

lemma given_fragment:
  assumes "opts_ok opts"
  defines "f \<equiv> parseFragment (map_option (\<lambda>b. b @ serializeBlockRange (o_blockRange opts)) (truthy_str (o_blockRef opts)))"
  shows "(case f of None \<Rightarrow> Null | Some f \<Rightarrow> Val (blockId f)) = or_null (o_blockRef opts)"
    and "(case f of None \<Rightarrow> Null | Some f \<Rightarrow> of_option (frange f)) = given_range (o_blockRef opts) (o_blockRange opts)"
proof -
  have "f = (case truthy_str (o_blockRef opts) of None \<Rightarrow> None
     | Some b \<Rightarrow> Some \<lparr>blockId = b, frange = js_get (o_blockRange opts)\<rparr>)"
  proof (cases "truthy_str (o_blockRef opts)")
    case None
    then show ?thesis by (simp add: f_def parseFragment_def)
  next
    case (Some b)
    then have "block_ok b" "range_ok (js_get (o_blockRange opts))"
      using assms(1) by (auto simp: opts_ok_def str_opt_ok_def frag_ok_def)
    then show ?thesis
      using Some parse_fragment_serialized [of b "js_get (o_blockRange opts)"]
      by (simp add: f_def serializeBlockRange_get [of "o_blockRange opts"])
  qed
  then show "(case f of None \<Rightarrow> Null | Some f \<Rightarrow> Val (blockId f)) = or_null (o_blockRef opts)"
    and "(case f of None \<Rightarrow> Null | Some f \<Rightarrow> of_option (frange f)) = given_range (o_blockRef opts) (o_blockRange opts)"
    by (auto simp: or_null_def given_range_def split: option.splits)
qed

definition entity_type :: "string \<Rightarrow> bool" where
  "entity_type t \<longleftrightarrow> t \<in> set (map fst HYPERMEDIA_ENTITY_TYPES)"

lemma entity_typeD:
  assumes "entity_type t"
  shows "inKeys (Some t) HYPERMEDIA_ENTITY_TYPES = Some t" "t \<noteq> []"
    "\<And>c. c \<in> set t \<Longrightarrow> c \<notin> set ''/:?#''"
  using assms by (auto simp: entity_type_def inKeys_def HYPERMEDIA_ENTITY_TYPES_def)

lemma seg_ok_parts: "seg_ok s \<Longrightarrow> s \<noteq> [] \<and> (\<forall>c \<in> set s. c \<notin> set ''/:?#'')"
  using seg_charD by (fastforce simp: seg_ok_def)

text \<open>What parsing gives back of an identifier built from plain parts.\<close>

definition unpacked_of ::
  "string \<Rightarrow> string \<Rightarrow> string \<Rightarrow> string jsval \<Rightarrow> string jsval \<Rightarrow> string \<Rightarrow> hm_opts \<Rightarrow> UnpackedHypermediaId" where
  "unpacked_of url t e path host sch opts =
     \<lparr>u_id = url, u_type = t, u_eid = Some e, u_qid = createHmId t e no_opts,
      u_groupPathName = path, u_version = or_null (o_version opts),
      u_blockRef = or_null (o_blockRef opts),
      u_blockRange = given_range (o_blockRef opts) (o_blockRange opts),
      u_hostname = host, u_scheme = Some sch,
      u_variants = given_variants (o_variants opts),
      u_latest = Val (js_get (o_latest opts) = Some True)\<rparr>"

lemma createHmId_ok:
  assumes "seg_ok e" "str_opt_ok seg_ok (o_groupPathName opts)"
  shows "createHmId t e opts = ''hm'' @ ''://''
     @ join ''/'' ([t, e] @ (case truthy_str (o_groupPathName opts) of None \<Rightarrow> [] | Some p \<Rightarrow> [p]))
     @ serializeQueryString (hm_query (o_version opts) (o_variants opts) (o_latest opts))
     @ hm_fragment (o_blockRef opts) (o_blockRange opts)"
proof (cases "truthy_str (o_groupPathName opts)")
  case None
  then show ?thesis using url_to_string_ok [of "[e]" t] assms(1) by (simp add: createHmId_def)
next
  case (Some p)
  then have "seg_ok p" using assms(2) by (simp add: str_opt_ok_def)
  then have "seg_ok s" if "s \<in> set [e, p]" for s using that assms(1) by auto
  then have "url_to_string t (join ''/'' [e, p]) = ''hm://'' @ t @ ''/'' @ join ''/'' [e, p]"
    by (intro url_to_string_ok) auto
  then show ?thesis using Some by (simp add: createHmId_def)
qed

lemma unpack_parts_given:
  assumes path: "nth_opt (p_path p) k = Some t" "nth_opt (p_path p) (Suc k) = Some e"
      "nth_opt (p_path p) (Suc (Suc k)) = truthy_str path"
    and t: "entity_type t" and ok: "opts_ok opts"
    and q: "params_get (p_query p) ''v'' = truthy_str (o_version opts)"
      "of_option (parseVariantsQuery (map_option OneString (params_get (p_query p) ''b''))) = given_variants (o_variants opts)"
      "params_has (p_query p) ''l'' = (js_get (o_latest opts) = Some True)"
    and f: "p_fragment p = map_option (\<lambda>b. b @ serializeBlockRange (o_blockRange opts)) (truthy_str (o_blockRef opts))"
  shows "unpack_parts url p k host = Some (unpacked_of url t e (or_null path) host (p_scheme p) opts)"
proof -
  have path': "or_null (of_option (truthy_str path)) = or_null path" by (cases path) auto
  have v: "of_option (truthy_str (o_version opts)) = or_null (o_version opts)"
    by (simp add: or_null_def of_option_def)
  show ?thesis
    using path q f v path' entity_typeD(1) [OF t] given_fragment [OF ok]
    by (simp add: unpack_parts_def unpacked_of_def Let_def show_undef_def createHmId_no_opts)
qed

lemma unpack_created:
  assumes "entity_type t" "seg_ok e" "str_opt_ok seg_ok (o_groupPathName opts)" "opts_ok opts"
  shows "unpackHmId (createHmId t e opts)
    = Some (unpacked_of (createHmId t e opts) t e (or_null (o_groupPathName opts)) Null ''hm'' opts)"
proof -
  let ?ss = "[t, e] @ (case truthy_str (o_groupPathName opts) of None \<Rightarrow> [] | Some p \<Rightarrow> [p])"
  have ss: "s \<noteq> [] \<and> (\<forall>c \<in> set s. c \<notin> set ''/:?#'')" if "s \<in> set ?ss" for s
    using that assms(2,3) entity_typeD(2,3) [OF assms(1)] seg_ok_parts [of s]
    by (auto simp: str_opt_ok_def split: option.splits)
  have sch: "CHR '':'' \<notin> set ''hm''" by simp
  have ne: "?ss \<noteq> []" by simp
  obtain ps where
      ps: "parseCustomURL (createHmId t e opts)
         = Some \<lparr>p_scheme = ''hm'', p_path = ?ss, p_query = ps,
             p_fragment = map_option (\<lambda>b. b @ serializeBlockRange (o_blockRange opts)) (truthy_str (o_blockRef opts))\<rparr>"
      and q: "params_get ps ''v'' = truthy_str (o_version opts)"
      "of_option (parseVariantsQuery (map_option OneString (params_get ps ''b''))) = given_variants (o_variants opts)"
      "params_has ps ''l'' = (js_get (o_latest opts) = Some True)"
    unfolding createHmId_ok [OF assms(2,3)]
    using parse_link [of "''hm''" ?ss opts, OF sch ne _ _ assms(4)] ss by blast
  have "unpack_parts (createHmId t e opts)
      \<lparr>p_scheme = ''hm'', p_path = ?ss, p_query = ps,
             p_fragment = map_option (\<lambda>b. b @ serializeBlockRange (o_blockRange opts)) (truthy_str (o_blockRef opts))\<rparr> 0 Null
    = Some (unpacked_of (createHmId t e opts) t e (or_null (o_groupPathName opts)) Null ''hm'' opts)"
    by (subst unpack_parts_given [where path = "o_groupPathName opts" and t = t and e = e and opts = opts])
      (use q assms in \<open>auto split: option.splits\<close>)
  with ps show ?thesis by (simp add: unpackHmId_def HYPERMEDIA_SCHEME_def)
qed



definition host_ok :: "string \<Rightarrow> bool" where
  "host_ok h \<longleftrightarrow> h \<noteq> [] \<and> (\<forall>c \<in> set h. c \<notin> set ''/:?#'')"

lemma unpack_web_url:
  assumes t: "entity_type t" and e: "seg_ok e" and sch: "sch = ''http'' \<or> sch = ''https''"
    and h: "host_ok h" and ok: "opts_ok opts"
    and host: "o_hostname opts = Val (sch @ ''://'' @ h)"
  shows "unpackHmId (createPublicWebHmUrl t e opts)
    = Some (unpacked_of (createPublicWebHmUrl t e opts) t e Null (Val h) sch opts)"
proof -
  let ?ss = "[h, t, e]"
  let ?f = "map_option (\<lambda>b. b @ serializeBlockRange (o_blockRange opts)) (truthy_str (o_blockRef opts))"
  have ss: "s \<noteq> [] \<and> (\<forall>c \<in> set s. c \<notin> set ''/:?#'')" if "s \<in> set ?ss" for s
    using that h entity_typeD(2,3) [OF t] seg_ok_parts [OF e] by (auto simp: host_ok_def)
  have sc: "CHR '':'' \<notin> set sch" using sch by auto
  have ne: "?ss \<noteq> []" by simp
  have url: "createPublicWebHmUrl t e opts = sch @ ''://'' @ join ''/'' ?ss
     @ serializeQueryString (hm_query (o_version opts) (o_variants opts) (o_latest opts))
     @ hm_fragment (o_blockRef opts) (o_blockRange opts)"
    by (simp add: createPublicWebHmUrl_def host)
  obtain ps where
      ps: "parseCustomURL (createPublicWebHmUrl t e opts)
         = Some \<lparr>p_scheme = sch, p_path = ?ss, p_query = ps, p_fragment = ?f\<rparr>"
      and q: "params_get ps ''v'' = truthy_str (o_version opts)"
      "of_option (parseVariantsQuery (map_option OneString (params_get ps ''b''))) = given_variants (o_variants opts)"
      "params_has ps ''l'' = (js_get (o_latest opts) = Some True)"
    unfolding url using parse_link [of sch ?ss opts, OF sc ne _ _ ok] ss by blast
  have "unpack_parts (createPublicWebHmUrl t e opts)
      \<lparr>p_scheme = sch, p_path = ?ss, p_query = ps, p_fragment = ?f\<rparr> 1 (Val h)
    = Some (unpacked_of (createPublicWebHmUrl t e opts) t e (or_null Null) (Val h) sch opts)"
    by (subst unpack_parts_given [where path = Null and t = t and e = e and opts = opts])
      (use q t ok in auto)
  with ps sch show ?thesis by (auto simp: unpackHmId_def HYPERMEDIA_SCHEME_def)
qed

text \<open>
  Pasting a gateway link: when the page URL of an entity on the gateway, with its version,
  block and range, is normalised, the result is the hypermedia id of the same entity, version,
  block and range.
\<close>

theorem normalize_gateway_link:
  assumes "entity_type t" "seg_ok e" "sch = ''http'' \<or> sch = ''https''" "host_ok h" "opts_ok opts"
    "o_hostname opts = Val (sch @ ''://'' @ h)"
  shows "normalizeHmId (createPublicWebHmUrl t e opts) (sch @ ''://'' @ h)
    = Some (createHmId t e (no_opts\<lparr>o_version := or_null (o_version opts),
         o_blockRef := or_null (o_blockRef opts),
         o_blockRange := given_range (o_blockRef opts) (o_blockRange opts)\<rparr>))"
proof -
  let ?u = "createPublicWebHmUrl t e opts"
  have "?u = (sch @ ''://'' @ h) @ ''/'' @ t @ ''/'' @ e
     @ serializeQueryString (hm_query (o_version opts) (o_variants opts) (o_latest opts))
     @ hm_fragment (o_blockRef opts) (o_blockRange opts)"
    by (simp add: createPublicWebHmUrl_def assms(6))
  then have "starts_with ?u (sch @ ''://'' @ h)" by (simp only: starts_with_append)
  moreover have "\<not> isHypermediaScheme (Some ?u)"
    using assms(3) by (auto simp: isHypermediaScheme_def createPublicWebHmUrl_def assms(6)
        starts_with_def HYPERMEDIA_SCHEME_def)
  moreover note unpack_web_url [OF assms]
  moreover have "e \<noteq> []" "t \<noteq> []" using assms(2) entity_typeD(2) [OF assms(1)] by (auto simp: seg_ok_def)
  ultimately show ?thesis
    by (simp add: normalizeHmId_def isPublicGatewayLink_def unpacked_of_def no_opts_def)
qed

theorem normalize_gateway_link_witness:
  "normalizeHmId ''https://hyper.media/d/abc?v=v1#abcdefgh[3:17]'' ''https://hyper.media''
   = Some ''hm://d/abc?v=v1#abcdefgh[3:17]''"
proof -
  let ?o = "no_opts\<lparr>o_version := Val ''v1'', o_blockRef := Val ''abcdefgh'',
      o_blockRange := Val (BlockRange 3 17), o_hostname := Val (''https'' @ ''://'' @ ''hyper.media'')\<rparr>"
  have "entity_type ''d''" "seg_ok ''abc''" "''https'' = ''http'' \<or> ''https'' = ''https''" "host_ok ''hyper.media''"
     "opts_ok ?o" "o_hostname ?o = Val (''https'' @ ''://'' @ ''hyper.media'')"
    by code_simp+
  note normalize_gateway_link [OF this]
  moreover have "createPublicWebHmUrl ''d'' ''abc'' ?o = ''https://hyper.media/d/abc?v=v1#abcdefgh[3:17]''"
    by code_simp
  moreover have "createHmId ''d'' ''abc'' (no_opts\<lparr>o_version := or_null (o_version ?o),
         o_blockRef := or_null (o_blockRef ?o),
         o_blockRange := given_range (o_blockRef ?o) (o_blockRange ?o)\<rparr>) = ''hm://d/abc?v=v1#abcdefgh[3:17]''"
    by code_simp
  ultimately show ?thesis by simp
qed

text \<open>
  Publishing a link and reading it back: \<open>idToUrl\<close> of a hypermedia id, on the default
  gateway, is a web URL that unpacks to the same entity id, qualified id, version, block and
  range.
\<close>

theorem idToUrl_unpack:
  assumes "entity_type t" "seg_ok e" "str_opt_ok seg_ok (o_groupPathName opts)" "opts_ok opts"
  shows "\<exists>url u. idToUrl (createHmId t e opts) Undefined no_opts = Some url \<and> unpackHmId url = Some u
    \<and> u_type u = t \<and> u_eid u = Some e \<and> u_qid u = createHmId t e no_opts
    \<and> u_version u = or_null (o_version opts) \<and> u_blockRef u = or_null (o_blockRef opts)
    \<and> u_blockRange u = given_range (o_blockRef opts) (o_blockRange opts)
    \<and> u_hostname u = Val ''hyper.media''"
proof -
  let ?o = "no_opts\<lparr>o_version := or_null (o_version opts), o_blockRef := or_null (o_blockRef opts),
         o_blockRange := given_range (o_blockRef opts) (o_blockRange opts)\<rparr>"
  let ?w = "?o\<lparr>o_hostname := Val (''https'' @ ''://'' @ ''hyper.media'')\<rparr>"
  let ?url = "createPublicWebHmUrl t e ?w"
  have js_or: "js_or_str Absent v = v" "js_or_range Absent r = r" for v r
    by (auto simp: js_or_str_def js_or_range_def)
  have "idToUrl (createHmId t e opts) Undefined no_opts = Some ?url"
    using unpack_created [OF assms] entity_typeD(2) [OF assms(1)]
    by (simp add: idToUrl_def unpacked_of_def show_undef_def no_opts_def js_or
        createPublicWebHmUrl_def HYPERMEDIA_PUBLIC_WEB_GATEWAY_def)
  moreover have "opts_ok ?w"
    using assms(4) by (auto simp: opts_ok_def str_opt_ok_def no_opts_def given_range_def range_ok_def
        of_option_def split: option.splits)
  then have "unpackHmId ?url = Some (unpacked_of ?url t e Null (Val ''hyper.media'') ''https'' ?w)"
    using assms by (intro unpack_web_url) (auto simp: host_ok_def)
  moreover have "given_range (or_null b) (given_range b r) = given_range b r" "or_null (or_null b) = or_null b" for b r
    by (auto simp: given_range_def or_null_def of_option_def truthy_str_eq_Some split: option.splits)
  ultimately show ?thesis by (auto simp: unpacked_of_def)
qed

theorem idToUrl_unpack_witness:
  "\<exists>url u. idToUrl (createHmId ''d'' ''abc'' (no_opts\<lparr>o_version := Val ''v1''\<rparr>)) Undefined no_opts = Some url
    \<and> unpackHmId url = Some u \<and> u_eid u = Some ''abc'' \<and> u_version u = Val ''v1''"
proof -
  have "entity_type ''d''" "seg_ok ''abc''" "str_opt_ok seg_ok (o_groupPathName (no_opts\<lparr>o_version := Val ''v1''\<rparr>))"
    "opts_ok (no_opts\<lparr>o_version := Val ''v1''\<rparr>)"
    by code_simp+
  from idToUrl_unpack [OF this] show ?thesis by auto
qed

text \<open>
  Variants survive the query string: the parameter written for a non-empty list of group
  and author variants parses back to that list, and two different lists never share a
  parameter value.
\<close>

theorem variants_param_roundtrip:
  assumes "vs \<noteq> []" "\<forall>v \<in> set vs. variant_ok v"
  shows "parseVariantsQuery (Some (OneString (getVariantsParamValue vs))) = Some vs
    \<and> (\<forall>ws. ws \<noteq> [] \<longrightarrow> (\<forall>v \<in> set ws. variant_ok v) \<longrightarrow>
         getVariantsParamValue ws = getVariantsParamValue vs \<longrightarrow> ws = vs)"
  using assms variants.dec_enc [of vs] variants.enc_inj [of _ vs] by (simp add: variants_dec_def)

theorem variants_param_roundtrip_witness:
  "parseVariantsQuery (Some (OneString ''g/foo/bar.a/bob''))
    = Some [GroupVariant ''hm://g/foo'' (Some ''bar''), AuthorVariant (Some ''bob'')]"
proof -
  let ?vs = "[GroupVariant ''hm://g/foo'' (Some ''bar''), AuthorVariant (Some ''bob'')]"
  have "?vs \<noteq> []" "\<forall>v \<in> set ?vs. variant_ok v" by code_simp+
  from variants_param_roundtrip [OF this] have "parseVariantsQuery (Some (OneString (getVariantsParamValue ?vs))) = Some ?vs"
    by simp
  moreover have "getVariantsParamValue ?vs = ''g/foo/bar.a/bob''" by code_simp
  ultimately show ?thesis by simp
qed

lemma match_hash_append:
  assumes "CHR ''#'' \<notin> set a" "CHR 0x0A \<notin> set f" "CHR 0x0D \<notin> set f"
  shows "match_hash (a @ CHR ''#'' # f) = Some f"
  using assms by (induction a) auto

lemma frag_line_breaks:
  assumes "block_ok b"
  shows "CHR 0x0A \<notin> set (b @ serializeBlockRange r)" "CHR 0x0D \<notin> set (b @ serializeBlockRange r)"
proof -
  have "js_space CHR 0x0A" "js_space CHR 0x0D" by code_simp+
  then have "CHR 0x0A \<notin> set b" "CHR 0x0D \<notin> set b"
    using assms unfolding block_ok_def by blast+
  moreover have "CHR 0x0A \<notin> set (serializeBlockRange r)" "CHR 0x0D \<notin> set (serializeBlockRange r)"
    by (auto dest!: serializeBlockRange_chars simp: is_digit_def)
  ultimately show "CHR 0x0A \<notin> set (b @ serializeBlockRange r)" "CHR 0x0D \<notin> set (b @ serializeBlockRange r)"
    by auto
qed

text \<open>
  Block references with ranges: whatever precedes the hash, the block id and range of a
  link are the ones \<open>serializeBlockRange\<close> wrote behind an eight-character block id.
\<close>

theorem extract_block_of_url:
  assumes "block_ok b" "range_ok r" "CHR ''#'' \<notin> set a"
  shows "extractBlockRefOfUrl (Some (a @ CHR ''#'' # b @ serializeBlockRange (of_option r))) = Some b
    \<and> extractBlockRangeOfUrl (Some (a @ CHR ''#'' # b @ serializeBlockRange (of_option r))) = Some r"
proof -
  let ?f = "b @ serializeBlockRange (of_option r)"
  have "b \<noteq> []" using assms(1) by (auto simp: block_ok_def)
  moreover have "match_hash (a @ CHR ''#'' # ?f) = Some ?f"
    using match_hash_append [OF assms(3) frag_line_breaks [OF assms(1)]] by blast
  ultimately show ?thesis
    using parse_fragment_serialized [OF assms(1,2)]
    by (simp add: extractBlockRefOfUrl_def extractBlockRangeOfUrl_def)
qed

theorem extract_block_of_url_witness:
  "extractBlockRangeOfUrl (Some ''hm://d/abc#abcdefgh[3:17]'') = Some (Some (BlockRange 3 17))"
proof -
  have "block_ok ''abcdefgh''" "range_ok (Some (BlockRange 3 17))" "CHR ''#'' \<notin> set ''hm://d/abc''"
    by code_simp+
  note extract_block_of_url [OF this]
  moreover have "''hm://d/abc'' @ CHR ''#'' # ''abcdefgh'' @ serializeBlockRange (of_option (Some (BlockRange 3 17)))
     = ''hm://d/abc#abcdefgh[3:17]''" by code_simp
  ultimately show ?thesis by simp
qed

text \<open>
  The type test of the parser looks keys up with property access, so a key inherited from
  the object prototype counts as an entity type: such an identifier is accepted, with that key
  as its type, although no entity type has that name.
\<close>

theorem prototype_key_accepted:
  assumes "k \<in> set object_prototype_keys" "seg_ok e"
  shows "labelOfEntityType k = None
    \<and> (\<exists>u. unpackHmId (''hm://'' @ k @ ''/'' @ e) = Some u \<and> u_type u = k \<and> u_eid u = Some e)"
proof -
  have lbl: "labelOfEntityType k = None"
    using assms(1) by (auto simp: labelOfEntityType_def HYPERMEDIA_ENTITY_TYPES_def object_prototype_keys_def)
  have k: "k \<noteq> []" "\<forall>c \<in> set k. c \<notin> set ''/:?#''"
    using assms(1) by (auto simp: object_prototype_keys_def)
  have "c \<notin> set ''/:?#''" if "s \<in> set [k, e]" "c \<in> set s" for s c
    using that k(2) seg_ok_parts [OF assms(2)] by auto
  then have "parseCustomURL (''hm'' @ ''://'' @ join ''/'' [k, e])
    = Some \<lparr>p_scheme = ''hm'', p_path = [k, e], p_query = search_params None, p_fragment = None\<rparr>"
    using parse_parts [of "''hm''" "[k, e]" None None] k(1) by simp
  moreover have "inKeys (Some k) HYPERMEDIA_ENTITY_TYPES = Some k"
    using lbl assms(1) by (simp add: inKeys_def labelOfEntityType_def)
  ultimately show ?thesis using lbl
    by (auto simp: unpackHmId_def HYPERMEDIA_SCHEME_def unpack_parts_def Let_def)
qed

theorem prototype_key_accepted_witness:
  "\<exists>u. unpackHmId ''hm://constructor/abc'' = Some u \<and> u_type u = ''constructor''"
proof -
  have "''constructor'' \<in> set object_prototype_keys" "seg_ok ''abc''" by code_simp+
  from prototype_key_accepted [OF this] show ?thesis by auto
qed

text \<open>
  \<open>unpackDocId\<close> on every branch: nothing for a URL that does not parse or has no entity id,
  an exception exactly for a parsed entity of another type, and otherwise the document with its
  qualified id.
\<close>

theorem unpackDocId_cases:
  "unpackDocId url =
    (case unpackHmId url of
       None \<Rightarrow> Inr None
     | Some u \<Rightarrow>
        if u_eid u = None \<or> u_eid u = Some [] then Inr None
        else if u_type u = ''d'' then Inr (Some (u, createHmId ''d'' (the (u_eid u)) no_opts))
        else Inl (NotADocument url))"
proof -
  have "u\<lparr>u_id := url, u_type := ''d''\<rparr> = u" if "unpackHmId url = Some u" "u_type u = ''d''" for u
    using that by (auto simp: unpackHmId_def unpack_parts_def Let_def split: option.splits if_splits)
  then show ?thesis
    by (auto simp: unpackDocId_def createHmId_no_opts split: option.splits)
qed
end
