(* ===== verification/Drafts.thy ===== *)
theory Drafts
  imports Draft_Machine Hm_Url
begin

text \<open>
  The operations on drafts and publications of
  \<^verbatim>\<open>frontend/packages/app/models/documents.ts\<close> around the comparison of blocks: what is
  sent when a draft is saved or restored, publishing into a group, the embeds of a document, its
  text, the check for a newer version; with \<^verbatim>\<open>utils/path.ts\<close>.

  The calls to the daemon are parameters: what they answer is an argument, what is sent is
  part of the result.
\<close>

section \<open>Saving and restoring\<close>

text \<open>What \<open>updateDraft\<close> sends, if anything: a new title first, then the changes, then the deletes.\<close>

definition updateDraft ::
  "annotations_eq \<Rightarrow> (string \<Rightarrow> child_group option) \<Rightarrow> BlocksMap \<Rightarrow> hm_document option \<Rightarrow> string option
     \<Rightarrow> editor_block list \<Rightarrow> document_change list option result" where
  "updateDraft isEqual grp blocksMap draft title topLevelBlocks =
     map_result (\<lambda>(changes, touchedBlocks).
        (let deletedBlocks = extractDeletes blocksMap touchedBlocks;
             changes' = (if (case draft of None \<Rightarrow> None | Some d \<Rightarrow> d_title d) \<noteq> title
                         then SetTitle (default_str title) # changes else changes);
             capturedChanges = changes' @ deletedBlocks
         in if capturedChanges = [] then None else Some capturedChanges))
       (compareBlocksWithMap isEqual grp blocksMap topLevelBlocks [])"

text \<open>
  \<open>restoreDraft\<close>: the draft to restore and the answers to deleting the draft and to making a
  new one (\<open>None\<close> when the call fails); an error, or what is sent, if anything.
\<close>

definition restoreDraft ::
  "annotations_eq \<Rightarrow> hm_document option \<Rightarrow> bool \<Rightarrow> hm_document option option \<Rightarrow> document_change list option result" where
  "restoreDraft isEqual prevDraft deleted created =
     (case prevDraft of
        None \<Rightarrow> Inl (Error ''Expecting previous draft to restore'')
      | Some prev \<Rightarrow> (case d_children prev of
          None \<Rightarrow> Inl (Error ''Expecting previous draft with children to restore'')
        | Some children \<Rightarrow>
            if \<not> deleted then Inl (Error ''Error restoring'')
            else (case created of
              None \<Rightarrow> Inl (Error ''Error restoring'')
            | Some newDraft \<Rightarrow>
                (let newBlocksMap = (case newDraft of None \<Rightarrow> []
                     | Some d \<Rightarrow> (case d_children d of None \<Rightarrow> [] | Some ns \<Rightarrow> createBlocksMap (Some ns) []))
                 in (case compareDraftWithMap isEqual newBlocksMap children [] of
                      Inl e \<Rightarrow> Inl (Error ''Error restoring'')
                    | Inr (changes, touchedBlocks) \<Rightarrow>
                        (let capturedChanges = changes @ extractDeletes newBlocksMap touchedBlocks
                         in Inr (if capturedChanges = [] then None else Some capturedChanges)))))))"

text \<open>\<open>resetDraft\<close>: delete and make a new one.\<close>

definition resetDraft :: "bool \<Rightarrow> hm_document option \<Rightarrow> hm_document result" where
  "resetDraft deleted created = (if \<not> deleted then Inl (Error ''Error resetting'')
     else (case created of None \<Rightarrow> Inl (Error ''Error resetting'') | Some d \<Rightarrow> Inr d))"

section \<open>Embeds\<close>

record listed_embed =
  le_blockId :: string
  le_ref :: string
  le_refId :: UnpackedHypermediaId

fun extract_refs_from :: "bool \<Rightarrow> block_node \<Rightarrow> listed_embed list" where
  "extract_refs_from skipCards (BlockNode mb cs) =
     (let kids = (case cs of None \<Rightarrow> [] | Some ns \<Rightarrow> concat (map (extract_refs_from skipCards) ns))
      in case mb of
           None \<Rightarrow> kids
         | Some b \<Rightarrow>
             if b_type b = ''embed'' \<and> truthy (b_ref b)
             then (if attr b ''view'' = Some ''card'' \<and> skipCards then []
                   else (case unpackHmId (the (b_ref b)) of
                       None \<Rightarrow> kids
                     | Some refId \<Rightarrow> \<lparr>le_blockId = b_id b, le_ref = the (b_ref b), le_refId = refId\<rparr> # kids))
             else kids)"

definition extractRefs :: "block_node list \<Rightarrow> bool \<Rightarrow> listed_embed list" where
  "extractRefs children skipCards = concat (map (extract_refs_from skipCards) children)"

text \<open>The queries of \<open>useDocumentEmbeds\<close> by the type of the entity, and the object it returns.\<close>

definition embed_queries :: "hm_document option \<Rightarrow> bool \<Rightarrow> bool \<Rightarrow> string \<Rightarrow> listed_embed list" where
  "embed_queries doc enabled skipCards ty =
     (if \<not> enabled then []
      else filter (\<lambda>e. u_type (le_refId e) = ty)
        (extractRefs (case doc of None \<Rightarrow> [] | Some d \<Rightarrow> (case d_children d of None \<Rightarrow> [] | Some ns \<Rightarrow> ns)) skipCards))"

definition useDocumentEmbeds ::
  "(UnpackedHypermediaId \<Rightarrow> 'p) \<Rightarrow> (UnpackedHypermediaId \<Rightarrow> 'p) \<Rightarrow> (UnpackedHypermediaId \<Rightarrow> 'p)
     \<Rightarrow> hm_document option \<Rightarrow> bool \<Rightarrow> bool \<Rightarrow> (string \<times> string \<times> 'p) list" where
  "useDocumentEmbeds pubs groups accounts doc enabled skipCards =
     (let entries = (\<lambda>ty get. map (\<lambda>e. (le_blockId e, ty, get (le_refId e))) (embed_queries doc enabled skipCards ty))
      in obj_spread [] (entries ''d'' pubs @ entries ''g'' groups @ entries ''a'' accounts))"

section \<open>Short names\<close>

definition to_lower_char :: "char \<Rightarrow> char" where
  "to_lower_char c = (let n = (of_char c :: nat) in if 65 \<le> n \<and> n \<le> 90 then char_of (n + 32) else c)"

text \<open>Replacing every run of characters of a kind by one character.\<close>

lemma length_dropWhile_less [termination_simp]: "length (dropWhile p s) < Suc (length s)"
  by (simp add: le_imp_less_Suc length_dropWhile_le)

fun squeeze :: "(char \<Rightarrow> bool) \<Rightarrow> char \<Rightarrow> string \<Rightarrow> string" where
  "squeeze p r [] = []"
| "squeeze p r (c # s) = (if p c then r # squeeze p r (dropWhile p s) else c # squeeze p r s)"

text \<open>The class \<open>[a-z0-9-_]\<close>.\<close>

definition path_char :: "char \<Rightarrow> bool" where
  "path_char c \<longleftrightarrow> c \<in> set ''abcdefghijklmnopqrstuvwxyz0123456789-_''"

definition pathNameify :: "string \<Rightarrow> string" where
  "pathNameify name = squeeze (\<lambda>c. c = CHR ''-'') CHR ''-''
     (filter path_char (squeeze is_space CHR ''-'' (map to_lower_char (trim name))))"

definition getDefaultShortname :: "string option \<Rightarrow> string \<Rightarrow> url_error + string" where
  "getDefaultShortname docTitle docId = (case unpackDocId docId of
      Inl e \<Rightarrow> Inl e
    | Inr unpacked \<Rightarrow>
        (let idShortname = (case unpacked of None \<Rightarrow> []
               | Some (u, _) \<Rightarrow> map to_lower_char (slice 0 5 (default_str (u_eid u))));
             kebabName = (if truthy docTitle then pathNameify (the docTitle) else idShortname)
         in Inr (if length kebabName > 40 then take 40 kebabName else kebabName)))"

section \<open>Publishing\<close>

text \<open>
  What \<open>usePublishDraft\<close> knows of the account, the route and the group when the draft is published,
  and the title in the cache of drafts.
\<close>

record publish_env =
  pe_rootDocument :: "string option"
  pe_routeIsProfile :: bool
  pe_routeDraftId :: "string option"
  pe_groupVariant :: "publication_variant option"
  pe_groupContent :: "(string \<times> string) list option"
  pe_docTitle :: "string option"

datatype publish_call = UpdateProfile string | UpdateGroup string string string

record publish_result =
  pr_calls :: "publish_call list"
  pr_groupVariant :: "publication_variant option"
  pr_isFirstPublish :: bool
  pr_isProfileDocument :: bool

definition isProfileDocument :: "publish_env \<Rightarrow> bool" where
  "isProfileDocument env \<longleftrightarrow> pe_routeIsProfile env \<or> pe_rootDocument env = pe_routeDraftId env"

definition prevGroupVariantId :: "publish_env \<Rightarrow> url_error + (UnpackedHypermediaId \<times> string) option" where
  "prevGroupVariantId env = (case pe_groupVariant env of
      Some (GroupVariant g (Some path)) \<Rightarrow>
        (case (if path = [] then None else map_of (case pe_groupContent env of None \<Rightarrow> [] | Some c \<Rightarrow> c) path) of
           None \<Rightarrow> Inr None
         | Some url \<Rightarrow> if url = [] then Inr None else unpackDocId url)
    | _ \<Rightarrow> Inr None)"

text \<open>
  \<open>mutationFn\<close>: the published id and version that the daemon answered, whether this is the first
  publication, and the entry the group had before.
\<close>

definition publishDraft ::
  "publish_env \<Rightarrow> (UnpackedHypermediaId \<times> string) option \<Rightarrow> string option \<Rightarrow> string \<Rightarrow> bool \<Rightarrow> publish_result result" where
  "publishDraft env prev pubId version firstPublish =
     (if \<not> truthy pubId then Inl (Error ''Could not get ID of published document'')
      else (let publishedId = the pubId;
                groupVariantChanged = (case prev of None \<Rightarrow> True
                  | Some (u, docId) \<Rightarrow> publishedId \<noteq> docId \<or> js_get (u_version u) \<noteq> Some version);
                publishedDocId = publishedId @ ''?v='' @ version;
                plain = (\<lambda>calls. \<lparr>pr_calls = calls, pr_groupVariant = pe_groupVariant env,
                   pr_isFirstPublish = firstPublish, pr_isProfileDocument = isProfileDocument env\<rparr>)
            in if isProfileDocument env
               then Inr (plain (if pe_rootDocument env \<noteq> Some publishedId then [UpdateProfile publishedId] else []))
               else (case pe_groupVariant env of
                   Some (GroupVariant gid path) \<Rightarrow>
                     if \<not> groupVariantChanged then Inr (plain [])
                     else (case (if truthy path then Inr (the path)
                                 else getDefaultShortname (pe_docTitle env) publishedId) of
                         Inl e \<Rightarrow> Inl (Error ''URL is expected to be a document ID'')
                       | Inr publishPathName \<Rightarrow>
                           if publishPathName = [] then Inr (plain [])
                           else Inr ((plain [UpdateGroup gid publishPathName publishedDocId])
                             \<lparr>pr_groupVariant := Some (GroupVariant gid (Some publishPathName))\<rparr>))
                 | _ \<Rightarrow> Inr (plain []))))"

section \<open>Text, versions, order\<close>

text \<open>
  \<open>useDocTextContent\<close>. The text collected so far is a variable of both functions, and \<open>res +=\<close>
  reads it before it calls: what the nested call adds to it is in its result and is overwritten.
\<close>

fun text_blocks :: "string \<Rightarrow> block_node list \<Rightarrow> string"
  and block_text :: "string \<Rightarrow> block_node \<Rightarrow> string" where
  "text_blocks res [] = res"
| "text_blocks res (bn # rest) =
     text_blocks (if length res < 300 then res @ block_text res bn else res) rest"
| "block_text res (BlockNode mb cs) =
     (case mb of None \<Rightarrow> []
      | Some b \<Rightarrow> default_str (b_text b) @
          (case cs of None \<Rightarrow> [] | Some [] \<Rightarrow> [] | Some (n # ns) \<Rightarrow> text_blocks res (n # ns)))"

definition useDocTextContent :: "hm_document option \<Rightarrow> string" where
  "useDocTextContent doc = (case doc of None \<Rightarrow> [] | Some d \<Rightarrow>
     (case d_children d of None \<Rightarrow> [] | Some ns \<Rightarrow> text_blocks [] ns))"

text \<open>\<open>checkForRebase\<close>: the new version to rebase on, if there is one.\<close>

definition checkForRebase :: "string option \<Rightarrow> string \<Rightarrow> string option" where
  "checkForRebase previousVersion latest =
     (if \<not> truthy previousVersion then None
      else (let prevVersion = split_char CHR ''.'' (the previousVersion);
                latestVersion = split_char CHR ''.'' latest
            in if latestVersion \<noteq> prevVersion
               then Some (if length latestVersion > 1 then join ''.'' latestVersion else hd latestVersion)
               else None))"

definition sortDocuments :: "int option \<Rightarrow> int option \<Rightarrow> int" where
  "sortDocuments a b =
     (let dateA = (case a of None \<Rightarrow> 0 | Some t \<Rightarrow> t);
          dateB = (case b of None \<Rightarrow> 1 | Some t \<Rightarrow> t)
      in dateB - dateA)"

section \<open>Properties\<close>

lemma updateDraft_cases:
  assumes "updateDraft isEqual grp bm draft title bs = Inr sent"
  obtains chs touched where "compareBlocksWithMap isEqual grp bm bs [] = Inr (chs, touched)"
    "(case sent of None \<Rightarrow> [] | Some cs \<Rightarrow> cs) =
       (if (case draft of None \<Rightarrow> None | Some d \<Rightarrow> d_title d) \<noteq> title then [SetTitle (default_str title)] else [])
         @ chs @ extractDeletes bm touched"
  using assms by (cases "compareBlocksWithMap isEqual grp bm bs []")
    (auto simp: updateDraft_def Let_def split: if_splits)






definition publish_sample :: publish_env where
  "publish_sample = \<lparr>pe_rootDocument = Some ''hm://d/me'', pe_routeIsProfile = False, pe_routeDraftId = Some ''hm://d/x'',
     pe_groupVariant = Some (GroupVariant ''hm://g/y'' (Some ''notes'')), pe_groupContent = Some [], pe_docTitle = None\<rparr>"


text \<open>The embeds of a tree, one block at a time.\<close>

definition embed_of :: "hm_block \<Rightarrow> listed_embed option" where
  "embed_of b = (if b_type b = ''embed'' \<and> truthy (b_ref b)
     then map_option (\<lambda>u. \<lparr>le_blockId = b_id b, le_ref = the (b_ref b), le_refId = u\<rparr>) (unpackHmId (the (b_ref b)))
     else None)"

fun node_blocks :: "block_node \<Rightarrow> hm_block list" where
  "node_blocks (BlockNode mb cs) = (case mb of None \<Rightarrow> [] | Some b \<Rightarrow> [b]) @
     (case cs of None \<Rightarrow> [] | Some ns \<Rightarrow> concat (map node_blocks ns))"

lemma map_filter_concat: "List.map_filter f (concat xss) = concat (map (List.map_filter f) xss)"
  by (induction xss) (simp_all add: map_filter_append)

lemma extract_refs_from_blocks:
  "extract_refs_from False n = List.map_filter embed_of (node_blocks n)"
proof (induction n)
  case (BlockNode mb cs)
  have kids: "(case cs of None \<Rightarrow> [] | Some ns \<Rightarrow> concat (map (extract_refs_from False) ns))
    = List.map_filter embed_of (case cs of None \<Rightarrow> [] | Some ns \<Rightarrow> concat (map node_blocks ns))"
  proof (cases cs)
    case (Some ns)
    have "map (extract_refs_from False) ns = map (\<lambda>n. List.map_filter embed_of (node_blocks n)) ns"
      using BlockNode Some by (intro map_cong) auto
    then have "concat (map (extract_refs_from False) ns) = concat (map (\<lambda>n. List.map_filter embed_of (node_blocks n)) ns)"
      by (rule arg_cong)
    then show ?thesis using Some by (simp add: map_filter_concat comp_def)
  qed simp
  show ?case
  proof (cases mb)
    case None
    then show ?thesis using kids by simp
  next
    case (Some b)
    have one: "List.map_filter embed_of (node_blocks (BlockNode (Some b) cs))
      = (case embed_of b of None \<Rightarrow> [] | Some e \<Rightarrow> [e])
        @ List.map_filter embed_of (case cs of None \<Rightarrow> [] | Some ns \<Rightarrow> concat (map node_blocks ns))"
      by (simp add: map_filter_append split: option.split)
    have "extract_refs_from False (BlockNode (Some b) cs)
      = (case embed_of b of None \<Rightarrow> [] | Some e \<Rightarrow> [e])
        @ (case cs of None \<Rightarrow> [] | Some ns \<Rightarrow> concat (map (extract_refs_from False) ns))"
      unfolding embed_of_def by (simp only: extract_refs_from.simps Let_def) (auto split: option.split)
    then show ?thesis unfolding Some one kids .
  qed
qed

text \<open>
  The embeds of a document are exactly its embed blocks, at any depth and in document
  order, whose reference unpacks, each with its id and its unpacked reference.
\<close>

theorem extractRefs_blocks:
  "extractRefs ns False = List.map_filter embed_of (concat (map node_blocks ns))"
proof -
  have "extract_refs_from False = (\<lambda>n. List.map_filter embed_of (node_blocks n))"
    by (rule ext) (rule extract_refs_from_blocks)
  then show ?thesis by (simp add: extractRefs_def map_filter_concat comp_def)
qed

text \<open>
  A newer version is offered exactly when the draft has a previous version and the latest
  version is another string; it is offered as it came.
\<close>

theorem checkForRebase_iff:
  "checkForRebase p latest = (if truthy p \<and> p \<noteq> Some latest then Some latest else None)"
proof -
  have inj: "split_char c a = split_char c b \<longleftrightarrow> a = b" for a b c by (metis join_split_by)
  have j: "(if length (split_char c a) > 1 then join [c] (split_char c a) else hd (split_char c a)) = a" for a c
  proof (cases "length (split_char c a) > 1")
    case False
    then obtain x where "split_char c a = [x]"
      by (metis One_nat_def Suc_lessI length_0_conv length_Suc_conv length_greater_0_conv split_by_ne)
    then show ?thesis using join_split_by [of c a] by simp
  qed simp
  then have h: "hd (split_char c a) = a" if "\<not> length (split_char c a) > 1" for a c using that by metis
  show ?thesis by (cases p) (auto simp: checkForRebase_def Let_def inj h)
qed

section \<open>Path names\<close>

fun no_double_dash :: "string \<Rightarrow> bool" where
  "no_double_dash (x # y # s) \<longleftrightarrow> \<not> (x = CHR ''-'' \<and> y = CHR ''-'') \<and> no_double_dash (y # s)"
| "no_double_dash _ \<longleftrightarrow> True"

lemma squeeze_set: "set (squeeze p r s) \<subseteq> insert r (set s)"
proof (induction p r s rule: squeeze.induct)
  case (2 p r c s)
  then show ?case using set_dropWhileD [of _ p s] by auto
qed simp

lemma dropWhile_hd: "dropWhile p s = [] \<or> \<not> p (hd (dropWhile p s))"
  by (induction s) auto

lemma squeeze_dash: "no_double_dash (squeeze (\<lambda>c. c = CHR ''-'') CHR ''-'' s)"
proof (induction s rule: length_induct)
  case (1 s)
  show ?case
  proof (cases s)
    case (Cons c t)
    let ?q = "\<lambda>c. c = CHR ''-''"
    show ?thesis
    proof (cases "c = CHR ''-''")
      case True
      let ?d = "dropWhile ?q t"
      have "length ?d < length s" using Cons length_dropWhile_le [of ?q t] by simp
      with 1 have IH: "no_double_dash (squeeze ?q CHR ''-'' ?d)" by blast
      show ?thesis
      proof (cases ?d)
        case Nil
        with \<open>s = c # t\<close> True show ?thesis by (simp del: dropWhile_eq_Nil_conv)
      next
        case (Cons x xs)
        with dropWhile_hd [of ?q t] have "x \<noteq> CHR ''-''" by auto
        with IH Cons \<open>s = c # t\<close> True show ?thesis by simp
      qed
    next
      case False
      from 1 Cons have "no_double_dash (squeeze ?q CHR ''-'' t)" by simp
      with Cons False show ?thesis by (cases "squeeze ?q CHR ''-'' t") auto
    qed
  qed simp
qed

lemma squeeze_id:
  "no_double_dash s \<Longrightarrow> squeeze (\<lambda>c. c = CHR ''-'') CHR ''-'' s = s"
proof (induction s rule: no_double_dash.induct)
  case (1 x y s)
  then show ?case by (cases "x = CHR ''-''") auto
qed auto

lemma squeeze_space_id: "(\<And>c. c \<in> set s \<Longrightarrow> \<not> p c) \<Longrightarrow> squeeze p r s = s"
  by (induction s) auto

lemma path_char_props: "path_char c \<Longrightarrow> \<not> is_space c \<and> to_lower_char c = c"
  by (auto simp: path_char_def is_space_def to_lower_char_def)

lemma pathNameify_chars: "c \<in> set (pathNameify s) \<Longrightarrow> path_char c"
proof -
  assume "c \<in> set (pathNameify s)"
  then have "c \<in> insert CHR ''-'' (set (filter path_char (squeeze is_space CHR ''-'' (map to_lower_char (trim s)))))"
    unfolding pathNameify_def using squeeze_set by blast
  then show ?thesis by (auto simp: path_char_def)
qed

text \<open>
  Path names made of titles are clean: only lower-case letters, digits, dashes and
  underscores, no two dashes in a row; making a path name of a path name changes nothing.
\<close>

theorem pathNameify_normal:
  "list_all path_char (pathNameify s) \<and> no_double_dash (pathNameify s) \<and> pathNameify (pathNameify s) = pathNameify s"
proof -
  let ?p = "pathNameify s"
  have c: "path_char c \<and> \<not> is_space c \<and> to_lower_char c = c" if "c \<in> set ?p" for c
    using that pathNameify_chars path_char_props by blast
  have d: "no_double_dash ?p" unfolding pathNameify_def by (rule squeeze_dash)
  have "map to_lower_char (trim ?p) = ?p" using c by (simp add: trim_id map_idI)
  moreover have "squeeze is_space CHR ''-'' ?p = ?p" using c by (intro squeeze_space_id) auto
  moreover have "filter path_char ?p = ?p" using c by (simp add: filter_id_conv)
  ultimately have "pathNameify ?p = squeeze (\<lambda>c. c = CHR ''-'') CHR ''-'' ?p"
    unfolding pathNameify_def [of ?p] by simp
  with squeeze_id [OF d] c d show ?thesis by (simp add: list_all_iff)
qed

text \<open>
  The text of a document repeats itself: the text before a block with children comes once
  more in front of the text of its children.
\<close>

theorem useDocTextContent_repeats:
  assumes "length a + length b < 300"
  shows "useDocTextContent (Some \<lparr>d_title = t, d_children = Some
      [BlockNode (Some ((new_block i ''paragraph'')\<lparr>b_text := Some a\<rparr>)) None,
       BlockNode (Some ((new_block j ''paragraph'')\<lparr>b_text := Some b\<rparr>))
         (Some [BlockNode (Some ((new_block k ''paragraph'')\<lparr>b_text := Some c\<rparr>)) None])]\<rparr>) = a @ b @ a @ c"
  using assms by (simp add: useDocTextContent_def default_str_def)

theorem useDocTextContent_repeats_witness:
  "useDocTextContent (Some \<lparr>d_title = None, d_children = Some
      [BlockNode (Some ((new_block ''i'' ''paragraph'')\<lparr>b_text := Some ''one ''\<rparr>)) None,
       BlockNode (Some ((new_block ''j'' ''paragraph'')\<lparr>b_text := Some ''two ''\<rparr>))
         (Some [BlockNode (Some ((new_block ''k'' ''paragraph'')\<lparr>b_text := Some ''three''\<rparr>)) None])]\<rparr>)
   = ''one '' @ ''two '' @ ''one '' @ ''three''"
  by (rule useDocTextContent_repeats) simp

end
