(* ===== verification/Comment_Threads.thy ===== *)
theory Comment_Threads
  imports Drafts
begin

text \<open>
  Comments of a publication (\<^verbatim>\<open>frontend/packages/app/models/comments.ts\<close>): the groups a
  list of comments is shown in, the thread above a comment, and what is saved and sent of a comment
  that is being written.

  The walks over replies are loops that do not end on a cycle of replies, so they are partial
  functions: \<open>None\<close> is a loop that runs forever.
\<close>

section \<open>Model\<close>

record HMComment =
  cm_id :: string
  cm_target :: "string option"
  cm_repliedComment :: "string option"
  cm_author :: "string option"
  cm_content :: "block_node list option"

record CommentGroup =
  cg_comments :: "HMComment list"
  cg_moreCommentsCount :: nat
  cg_id :: string

definition is_group_start :: "string option \<Rightarrow> HMComment \<Rightarrow> bool" where
  "is_group_start target c \<longleftrightarrow>
     target \<noteq> None \<and> cm_repliedComment c = target \<or> \<not> truthy target \<and> cm_repliedComment c = Some []"

definition replies_to :: "HMComment list \<Rightarrow> string \<Rightarrow> HMComment list" where
  "replies_to cs i = filter (\<lambda>c. cm_repliedComment c = Some i) cs"

text \<open>The first loop: the comments after \<open>c\<close> as long as each has one reply.\<close>

partial_function (option) follow_replies :: "HMComment list \<Rightarrow> HMComment \<Rightarrow> HMComment list option" where
  "follow_replies cs c =
     (case replies_to cs (cm_id c) of
        [n] \<Rightarrow> Option.bind (follow_replies cs n) (\<lambda>rest. Some (n # rest))
      | _ \<Rightarrow> Some [])"

text \<open>The second loop: \<open>moreComments\<close> (\<open>seen\<close>) and \<open>walkMoreCommentIds\<close>.\<close>

definition next_walk :: "HMComment list \<Rightarrow> string list \<Rightarrow> string list" where
  "next_walk cs walk = set_add_all [] (map cm_id (filter (\<lambda>c.
     truthy (cm_repliedComment c) \<and> the (cm_repliedComment c) \<in> set walk) cs))"

partial_function (option) walk_more :: "HMComment list \<Rightarrow> string list \<Rightarrow> string list \<Rightarrow> string list option" where
  "walk_more cs seen walk =
     (if walk = [] then Some seen
      else walk_more cs (set_add_all seen walk) (next_walk cs walk))"

definition comment_group :: "HMComment list \<Rightarrow> HMComment \<Rightarrow> CommentGroup option" where
  "comment_group cs c =
     Option.bind (follow_replies cs c) (\<lambda>rest.
     Option.bind (walk_more cs [] [cm_id (last (c # rest))]) (\<lambda>seen.
       Some \<lparr>cg_comments = c # rest, cg_moreCommentsCount = length seen - 1, cg_id = cm_id c\<rparr>))"

definition useCommentGroups :: "HMComment list option \<Rightarrow> string option \<Rightarrow> CommentGroup list option" where
  "useCommentGroups comments target = (case comments of
      None \<Rightarrow> Some []
    | Some cs \<Rightarrow> those (map (comment_group cs) (filter (is_group_start target) cs)))"

text \<open>\<open>comments.data?.find\<close>; no comment has an undefined id.\<close>

definition find_comment :: "HMComment list option \<Rightarrow> string option \<Rightarrow> HMComment option" where
  "find_comment comments i = (case (comments, i) of
      (Some cs, Some j) \<Rightarrow> List.find (\<lambda>c. cm_id c = j) cs | _ \<Rightarrow> None)"

partial_function (option) thread_loop ::
  "HMComment list option \<Rightarrow> HMComment option \<Rightarrow> HMComment option list \<Rightarrow> HMComment option list option" where
  "thread_loop comments comment thread = (case comment of
      None \<Rightarrow> Some thread
    | Some c \<Rightarrow> (let p = find_comment comments (cm_repliedComment c)
                in thread_loop comments p (p # thread)))"

definition useCommentReplies :: "HMComment list option \<Rightarrow> string \<Rightarrow> HMComment option list option" where
  "useCommentReplies comments target =
     (let comment = find_comment comments (Some target) in thread_loop comments comment [comment])"

section \<open>The replies as a relation\<close>

definition reply_rel :: "HMComment list \<Rightarrow> (string \<times> string) set" where
  "reply_rel cs = (\<lambda>c. (the (cm_repliedComment c), cm_id c)) ` {c \<in> set cs. truthy (cm_repliedComment c)}"

lemma in_reply_rel: "(i, j) \<in> reply_rel cs \<longleftrightarrow> (\<exists>c \<in> set cs. cm_repliedComment c = Some i \<and> i \<noteq> [] \<and> j = cm_id c)"
  by (force simp: reply_rel_def truthy_def)

lemma finite_reply_rel [simp]: "finite (reply_rel cs)"
  by (simp add: reply_rel_def)

lemma reply_relI: "c \<in> set (replies_to cs i) \<Longrightarrow> i \<noteq> [] \<Longrightarrow> (i, cm_id c) \<in> reply_rel cs"
  by (auto simp: replies_to_def in_reply_rel)

lemma set_next_walk: "set (next_walk cs walk) = reply_rel cs `` set walk"
  by (auto simp: next_walk_def Image_def in_reply_rel truthy_def)

section \<open>The walks end\<close>

text \<open>The thread of a group: each comment is the only reply to the one before.\<close>

fun only_replies :: "HMComment list \<Rightarrow> HMComment list \<Rightarrow> bool" where
  "only_replies cs (c # d # thread) \<longleftrightarrow> replies_to cs (cm_id c) = [d] \<and> only_replies cs (d # thread)"
| "only_replies cs [c] \<longleftrightarrow> length (replies_to cs (cm_id c)) \<noteq> 1"
| "only_replies cs [] \<longleftrightarrow> False"

lemma follow_replies_ends:
  assumes "acyclic (reply_rel cs)" "\<forall>c \<in> set cs. cm_id c \<noteq> []" "c \<in> set cs"
  shows "\<exists>rest. follow_replies cs c = Some rest \<and> only_replies cs (c # rest)"
  using assms(3)
proof (induction "reach_count (reply_rel cs) (cm_id c)" arbitrary: c rule: less_induct)
  case less
  show ?case
  proof (cases "\<exists>n. replies_to cs (cm_id c) = [n]")
    case True
    then obtain n where n: "replies_to cs (cm_id c) = [n]" by blast
    then have "n \<in> set (replies_to cs (cm_id c))" by simp
    then have "n \<in> set cs" "(cm_id c, cm_id n) \<in> reply_rel cs"
      using less.prems assms(2) by (auto simp: replies_to_def in_reply_rel)
    with less.hyps obtain rest where "follow_replies cs n = Some rest" "only_replies cs (n # rest)"
      using reach_count_less [OF finite_reply_rel assms(1)] by blast
    with n show ?thesis by (subst follow_replies.simps) simp
  next
    case False
    then have "length (replies_to cs (cm_id c)) \<noteq> 1" by (auto simp: length_Suc_conv)
    with False show ?thesis
      by (subst follow_replies.simps) (auto split: list.splits)
  qed
qed

lemma walk_more_ends:
  assumes "acyclic (reply_rel cs)"
  shows "\<forall>i \<in> set walk. reach_count (reply_rel cs) i < n \<Longrightarrow>
    \<exists>r. walk_more cs seen walk = Some r \<and> set r = set seen \<union> (reply_rel cs)\<^sup>* `` set walk \<and>
      (distinct seen \<longrightarrow> distinct r)"
proof (induction n arbitrary: seen walk)
  case 0
  then have "walk = []" by (cases walk) auto
  then show ?case by (subst walk_more.simps) simp
next
  case (Suc n)
  have "reach_count (reply_rel cs) j < n" if "j \<in> set (next_walk cs walk)" for j
    using that Suc.prems reach_count_less [OF finite_reply_rel assms]
    by (fastforce simp: set_next_walk)
  with Suc.IH [of "next_walk cs walk" "set_add_all seen walk"]
  obtain r where r: "walk_more cs (set_add_all seen walk) (next_walk cs walk) = Some r"
      "set r = set seen \<union> set walk \<union> (reply_rel cs)\<^sup>* `` (reply_rel cs `` set walk)" "distinct seen \<longrightarrow> distinct r"
    by (auto simp: set_next_walk)
  have "(reply_rel cs)\<^sup>* `` set walk = set walk \<union> (reply_rel cs)\<^sup>* `` (reply_rel cs `` set walk)"
    by (auto elim: converse_rtranclE intro: converse_rtrancl_into_rtrancl)
  with r show ?case by (subst walk_more.simps) auto
qed

lemma walk_more_count:
  assumes "acyclic (reply_rel cs)"
  shows "\<exists>r. walk_more cs [] [i] = Some r \<and> length r = Suc (card ((reply_rel cs)\<^sup>+ `` {i}))"
proof -
  obtain r where r: "walk_more cs [] [i] = Some r" "set r = (reply_rel cs)\<^sup>* `` {i}" "distinct r"
    using walk_more_ends [OF assms, of "[i]" "Suc (reach_count (reply_rel cs) i)" "[]"] by auto
  have "i \<notin> (reply_rel cs)\<^sup>+ `` {i}" using assms by (auto simp: acyclic_def)
  moreover have "(reply_rel cs)\<^sup>* `` {i} = insert i ((reply_rel cs)\<^sup>+ `` {i})"
    by (auto dest: rtranclD intro: trancl_into_rtrancl)
  ultimately have "length r = Suc (card ((reply_rel cs)\<^sup>+ `` {i}))"
    using r distinct_card [of r] by (simp add: finite_reach)
  with r show ?thesis by blast
qed

lemma those_map: "(\<forall>x \<in> set xs. \<exists>y. f x = Some y \<and> P x y) \<Longrightarrow>
  \<exists>ys. those (map f xs) = Some ys \<and> list_all2 P xs ys"
  by (induction xs) fastforce+

definition good_group :: "HMComment list \<Rightarrow> HMComment \<Rightarrow> CommentGroup \<Rightarrow> bool" where
  "good_group cs c g \<longleftrightarrow> hd (cg_comments g) = c \<and> only_replies cs (cg_comments g) \<and> cg_id g = cm_id c \<and>
     cg_moreCommentsCount g = card ((reply_rel cs)\<^sup>+ `` {cm_id (last (cg_comments g))})"

lemma comment_group_good:
  assumes "acyclic (reply_rel cs)" "\<forall>c \<in> set cs. cm_id c \<noteq> []" "c \<in> set cs"
  shows "\<exists>g. comment_group cs c = Some g \<and> good_group cs c g"
proof -
  obtain rest where rest: "follow_replies cs c = Some rest" "only_replies cs (c # rest)"
    using follow_replies_ends [OF assms] by blast
  obtain r where "walk_more cs [] [cm_id (last (c # rest))] = Some r"
      "length r = Suc (card ((reply_rel cs)\<^sup>+ `` {cm_id (last (c # rest))}))"
    using walk_more_count [OF assms(1)] by blast
  with rest show ?thesis by (simp add: comment_group_def good_group_def)
qed

section \<open>Threads\<close>

lemma find_comment_SomeD: "find_comment comments i = Some c \<Longrightarrow>
  \<exists>cs. comments = Some cs \<and> c \<in> set cs \<and> i = Some (cm_id c)"
  by (auto simp: find_comment_def find_Some_iff split: option.splits)

text \<open>Each comment is what the next one replies to, and the first one replies to none that is there.\<close>

fun ancestry :: "HMComment list option \<Rightarrow> HMComment list \<Rightarrow> bool" where
  "ancestry comments (p # c # thread) \<longleftrightarrow>
     find_comment comments (cm_repliedComment c) = Some p \<and> ancestry comments (c # thread)"
| "ancestry comments _ \<longleftrightarrow> True"

definition rooted :: "HMComment list option \<Rightarrow> HMComment list \<Rightarrow> bool" where
  "rooted comments thread \<longleftrightarrow> ancestry comments thread \<and>
     (case thread of [] \<Rightarrow> True | c # _ \<Rightarrow> find_comment comments (cm_repliedComment c) = None)"

lemma thread_loop_ends:
  assumes ac: "acyclic (reply_rel cs)" and ne: "\<forall>c \<in> set cs. cm_id c \<noteq> []"
  shows "c \<in> set cs \<Longrightarrow> ancestry (Some cs) (c # down) \<Longrightarrow>
    \<exists>up. thread_loop (Some cs) (Some c) (map Some (c # down)) = Some (None # map Some (up @ c # down))
      \<and> rooted (Some cs) (up @ c # down)"
proof (induction "reach_count ((reply_rel cs)\<inverse>) (cm_id c)" arbitrary: c down rule: less_induct)
  case less
  show ?case
  proof (cases "find_comment (Some cs) (cm_repliedComment c)")
    case None
    then have "thread_loop (Some cs) (Some c) (map Some (c # down)) = Some (None # map Some ([] @ c # down))"
      by (subst thread_loop.simps, simp, subst thread_loop.simps, simp)
    with None less.prems show ?thesis by (intro exI [of _ "[]"]) (simp add: rooted_def)
  next
    case (Some p)
    then have p: "p \<in> set cs" "cm_repliedComment c = Some (cm_id p)" by (auto dest: find_comment_SomeD)
    then have "(cm_id c, cm_id p) \<in> (reply_rel cs)\<inverse>" using less.prems ne by (auto simp: in_reply_rel)
    with ac have "reach_count ((reply_rel cs)\<inverse>) (cm_id p) < reach_count ((reply_rel cs)\<inverse>) (cm_id c)"
      by (intro reach_count_less) simp_all
    with less.hyps [of p "c # down"] p Some less.prems obtain up where
        "thread_loop (Some cs) (Some p) (map Some (p # c # down)) = Some (None # map Some (up @ p # c # down))"
        "rooted (Some cs) (up @ p # c # down)" by auto
    with Some show ?thesis
      by (intro exI [of _ "up @ [p]"]) (subst thread_loop.simps, simp)
  qed
qed

lemma replies_thread:
  assumes "acyclic (reply_rel cs)" "\<forall>c \<in> set cs. cm_id c \<noteq> []"
  shows "\<exists>thread. useCommentReplies (Some cs) target = Some (None # map Some thread) \<and>
    rooted (Some cs) thread \<and>
    (case find_comment (Some cs) (Some target) of None \<Rightarrow> thread = [] | Some c \<Rightarrow> thread \<noteq> [] \<and> last thread = c)"
proof (cases "find_comment (Some cs) (Some target)")
  case None
  then show ?thesis
    by (intro exI [of _ "[]"]) (simp add: useCommentReplies_def rooted_def thread_loop.simps)
next
  case (Some c)
  then have "c \<in> set cs" by (auto dest: find_comment_SomeD)
  from thread_loop_ends [OF assms this, of "[]"] obtain up where
    "thread_loop (Some cs) (Some c) [Some c] = Some (None # map Some (up @ [c]))" "rooted (Some cs) (up @ [c])" by auto
  with Some show ?thesis by (intro exI [of _ "up @ [c]"]) (simp add: useCommentReplies_def)
qed

section \<open>Writing a comment\<close>

text \<open>
  \<open>serverBlockNodesFromEditorBlocks\<close>: the group of a block's children is an argument, as for
  drafts; here its attributes are set on the block after the conversion.
\<close>

definition group_attributes :: "child_group option \<Rightarrow> hm_block \<Rightarrow> hm_block" where
  "group_attributes cg b =
     (let g = (case cg of None \<Rightarrow> \<lparr>g_type = None, g_listLevel = None, g_start = None\<rparr> | Some g \<Rightarrow> g);
          at = (\<lambda>b k v. b\<lparr>b_attributes := map_option (\<lambda>m. m(k := v)) (b_attributes b)\<rparr>);
          b1 = at b ''childrenType'' (if truthy (g_type g) then g_type g else Some ''group'');
          b2 = at b1 ''listLevel'' (g_listLevel g)
      in case g_start g of None \<Rightarrow> b2 | Some n \<Rightarrow> if n = 0 then b2 else at b2 ''start'' (Some (show_nat n)))"

fun serverBlockNodesFromEditorBlocks ::
  "(string \<Rightarrow> child_group option) \<Rightarrow> editor_block list \<Rightarrow> block_node list result" where
  "serverBlockNodesFromEditorBlocks grp [] = Inr []"
| "serverBlockNodesFromEditorBlocks grp (EditorBlock i ty p c cs # rest) =
     bind_result (fromHMBlock (EditorBlock i ty p c cs)) (\<lambda>b.
     bind_result (serverBlockNodesFromEditorBlocks grp cs) (\<lambda>children.
     map_result (Cons (BlockNode (Some (group_attributes (grp i) b)) (Some children)))
       (serverBlockNodesFromEditorBlocks grp rest)))"

text \<open>
  \<open>onSubmit\<close>: the last node is to be dropped when it is an empty paragraph, but the test reads
  \<open>type\<close> and \<open>text\<close> of the node, which has only \<open>block\<close> and \<open>children\<close>, and not of its block.
\<close>

definition node_field :: "block_node \<Rightarrow> string \<Rightarrow> string option" where
  "node_field n k = None"

definition without_last_empty :: "block_node list \<Rightarrow> block_node list" where
  "without_last_empty content =
     map snd (filter (\<lambda>(index, n). \<not> (Suc index = length content \<and> node_field n ''type'' = Some ''paragraph'' \<and>
       node_field n ''text'' = Some [] \<and> node_children n = Some [])) (enumerate 0 content))"

record comment_draft =
  cd_blocks :: "block_node list"
  cd_targetDocEid :: string
  cd_targetDocVersion :: string
  cd_targetCommentId :: "string option"

record comment_request =
  cr_content :: "block_node list"
  cr_target :: string
  cr_repliedComment :: "string option"

definition onSubmit ::
  "(string \<Rightarrow> child_group option) \<Rightarrow> editor_block list \<Rightarrow> comment_draft option \<Rightarrow> comment_request result" where
  "onSubmit grp blocks draft = (case draft of
      None \<Rightarrow> Inl (Error ''no draft found to publish'')
    | Some d \<Rightarrow> map_result (\<lambda>content. \<lparr>
          cr_content = without_last_empty content,
          cr_target = createHmId ''d'' (cd_targetDocEid d) (no_opts\<lparr>o_version := Val (cd_targetDocVersion d)\<rparr>),
          cr_repliedComment = (if truthy (cd_targetCommentId d) then cd_targetCommentId d else None)\<rparr>)
        (serverBlockNodesFromEditorBlocks grp blocks))"

text \<open>
  \<open>useCreateComment\<close>: the blocks a new draft starts with. Without an embed the list holds a
  block where a node is expected: an object with no \<open>block\<close>. The block of an embed has no id,
  here the empty one.
\<close>

definition new_comment_blocks :: "string option \<Rightarrow> block_node list" where
  "new_comment_blocks embedRef =
     (if truthy embedRef
      then [BlockNode (Some \<lparr>b_id = [], b_type = ''embed'', b_text = None, b_ref = embedRef,
              b_annotations = None, b_attributes = Some (\<lambda>_. None)\<rparr>) (Some []),
            BlockNode (Some \<lparr>b_id = [], b_type = ''paragraph'', b_text = Some [], b_ref = None,
              b_annotations = None, b_attributes = Some (\<lambda>_. None)\<rparr>) (Some [])]
      else [BlockNode None (Some [])])"

definition new_comment_draft :: "string \<Rightarrow> string \<Rightarrow> string option \<Rightarrow> string option \<Rightarrow> comment_draft" where
  "new_comment_draft targetDocEid targetDocVersion targetCommentId embedRef = \<lparr>
     cd_blocks = new_comment_blocks embedRef, cd_targetDocEid = targetDocEid,
     cd_targetDocVersion = targetDocVersion,
     cd_targetCommentId = (if truthy targetCommentId then targetCommentId else None)\<rparr>"

text \<open>\<open>initDraft\<close>: what the editor starts with.\<close>

definition init_draft_blocks :: "comment_draft \<Rightarrow> editor_block list result" where
  "init_draft_blocks d = toHMBlock (Some (cd_blocks d)) 0"

lemma group_attributes_id [simp]: "b_id (group_attributes cg b) = b_id b"
  by (simp add: group_attributes_def Let_def split: option.splits)

lemma serverBlockNodes_shape:
  "serverBlockNodesFromEditorBlocks grp bs = Inr ns \<Longrightarrow> map node_shape ns = map editor_shape bs"
  by (induction grp bs arbitrary: ns rule: serverBlockNodesFromEditorBlocks.induct)
    (auto simp: bind_result_Inr_iff map_result_Inr_iff fromHMBlock_id)

lemma without_last_empty_all [simp]: "without_last_empty content = content"
  by (simp add: without_last_empty_def node_field_def)

section \<open>Properties\<close>

definition comment_sample :: "HMComment list" where
  "comment_sample = map (\<lambda>(i, r). \<lparr>cm_id = i, cm_target = Some ''hm://d/x'', cm_repliedComment = Some r,
      cm_author = None, cm_content = None\<rparr>)
    [(''a'', []), (''b'', ''a''), (''c'', ''b''), (''d'', ''b''), (''e'', ''c''), (''f'', [])]"

lemma comment_sample_acyclic: "acyclic (reply_rel comment_sample)"
  by (rule acyclicI_order [where f = "\<lambda>i. 200 - (of_char (hd i) :: nat)"])
    (auto simp: comment_sample_def in_reply_rel)

lemma comment_sample_ids: "\<forall>c \<in> set comment_sample. cm_id c \<noteq> []"
  by (simp add: comment_sample_def)

text \<open>
  C37. When no comment replies to itself through others, the groups of comments are computed: there is
  one for each comment that starts one, in order; its thread goes on as long as a comment has
  exactly one reply, and the count of further comments is the number of all comments below the last
  one of the thread.
\<close>

theorem comment_groups:
  assumes "acyclic (reply_rel cs)" "\<forall>c \<in> set cs. cm_id c \<noteq> []"
  shows "\<exists>gs. useCommentGroups (Some cs) target = Some gs \<and>
    list_all2 (good_group cs) (filter (is_group_start target) cs) gs"
  unfolding useCommentGroups_def option.case
  by (rule those_map) (use comment_group_good [OF assms] in auto)

theorem comment_groups_witness:
  "\<exists>gs. useCommentGroups (Some comment_sample) None = Some gs \<and>
    list_all2 (good_group comment_sample) (filter (is_group_start None) comment_sample) gs"
  by (rule comment_groups [OF comment_sample_acyclic comment_sample_ids])

text \<open>
  Under the same condition the thread above a comment is computed: it ends with the comment, each
  one is what the next replies to, up to one that replies to none of the list; in front of it is an
  undefined entry.
\<close>

theorem comment_thread:
  assumes "acyclic (reply_rel cs)" "\<forall>c \<in> set cs. cm_id c \<noteq> []"
  shows "\<exists>thread. useCommentReplies (Some cs) target = Some (None # map Some thread) \<and>
    rooted (Some cs) thread \<and>
    (case find_comment (Some cs) (Some target) of None \<Rightarrow> thread = [] | Some c \<Rightarrow> thread \<noteq> [] \<and> last thread = c)"
  using assms by (rule replies_thread)

theorem comment_thread_witness:
  "\<exists>thread. useCommentReplies (Some comment_sample) ''e'' = Some (None # map Some thread) \<and>
    rooted (Some comment_sample) thread \<and> thread \<noteq> [] \<and> cm_id (last thread) = ''e''"
  using comment_thread [OF comment_sample_acyclic comment_sample_ids, of "''e''"]
  by (auto simp: find_comment_def comment_sample_def split: option.splits)

text \<open>
  Publishing a comment sends the whole tree of the editor's blocks, an id that unpacks to the
  document and version the draft was written for, and the comment it replies to.
\<close>

theorem comment_submit:
  assumes "onSubmit grp blocks (Some d) = Inr r"
    and "seg_ok (cd_targetDocEid d)" "str_opt_ok qval_ok (Val (cd_targetDocVersion d))"
  shows "map node_shape (cr_content r) = map editor_shape blocks \<and>
    (\<exists>u. unpackHmId (cr_target r) = Some u \<and> u_type u = ''d'' \<and> u_eid u = Some (cd_targetDocEid d) \<and>
       u_version u = or_null (Val (cd_targetDocVersion d))) \<and>
    cr_repliedComment r = (if cd_targetCommentId d = Some [] then None else cd_targetCommentId d)"
proof -
  let ?o = "no_opts\<lparr>o_version := Val (cd_targetDocVersion d)\<rparr>"
  have "entity_type ''d''" by (simp add: entity_type_def HYPERMEDIA_ENTITY_TYPES_def)
  moreover have "str_opt_ok seg_ok (o_groupPathName ?o)" "opts_ok ?o"
    using assms(3) by (simp_all add: no_opts_def opts_ok_def str_opt_ok_def range_ok_def)
  ultimately have "unpackHmId (createHmId ''d'' (cd_targetDocEid d) ?o)
      = Some (unpacked_of (createHmId ''d'' (cd_targetDocEid d) ?o) ''d'' (cd_targetDocEid d)
          (or_null (o_groupPathName ?o)) Null ''hm'' ?o)"
    using assms(2) by (intro unpack_created)
  with assms(1) show ?thesis
    by (cases "cd_targetCommentId d")
      (auto simp: onSubmit_def map_result_Inr_iff serverBlockNodes_shape unpacked_of_def truthy_def)
qed

theorem comment_submit_witness:
  "\<exists>r. onSubmit (\<lambda>_. None) [EditorBlock ''b1'' ''paragraph'' no_props [InlText ''hi'' []] []]
      (Some (new_comment_draft ''abc'' ''v1'' (Some ''c1'') None)) = Inr r \<and>
    map node_shape (cr_content r) = [Shape ''b1'' []] \<and>
    (\<exists>u. unpackHmId (cr_target r) = Some u \<and> u_eid u = Some ''abc'' \<and> u_version u = Val ''v1'')"
proof -
  let ?d = "new_comment_draft ''abc'' ''v1'' (Some ''c1'') None"
  let ?bs = "[EditorBlock ''b1'' ''paragraph'' no_props [InlText ''hi'' []] []]"
  have ok: "seg_ok (cd_targetDocEid ?d)" "str_opt_ok qval_ok (Val (cd_targetDocVersion ?d))" by code_simp+
  obtain r where r: "onSubmit (\<lambda>_. None) ?bs (Some ?d) = Inr r"
  proof -
    have "\<exists>r. onSubmit (\<lambda>_. None) ?bs (Some ?d) = Inr r"
      by (simp add: onSubmit_def fromHMBlock_def with_content_def extractContent_def extract_init_def
          extract_text_def extract_close_def start_styles_def end_styles_def)
    then show ?thesis using that by blast
  qed
  from comment_submit [OF r ok] r show ?thesis
    by (auto simp: new_comment_draft_def or_null_def)
qed

text \<open>
  The draft of a new comment cannot be loaded into the editor when it was made without an embed:
  \<open>toHMBlock\<close> raises its error. Made with an embed it loads.
\<close>

theorem new_comment_unreadable:
  "init_draft_blocks (new_comment_draft e v t None) = Inl (Error ''Server BlockNode is missing Block data'') \<and>
   (\<exists>bs. init_draft_blocks (new_comment_draft e v t (Some (c # ref))) = Inr bs)"
proof
  show "init_draft_blocks (new_comment_draft e v t None) = Inl (Error ''Server BlockNode is missing Block data'')"
    by (simp add: init_draft_blocks_def new_comment_draft_def new_comment_blocks_def
        toHMBlock.simps toHMBlock_one.simps toHMBlockParagraph.simps)
  have "\<forall>n \<in> set (new_comment_blocks (Some (c # ref))). node_ok n"
    by (simp add: new_comment_blocks_def uses_content_def toHMInlineContent_def partialBlockToStyledText_def)
  then show "\<exists>bs. init_draft_blocks (new_comment_draft e v t (Some (c # ref))) = Inr bs"
    by (simp add: init_draft_blocks_def new_comment_draft_def toHMBlock.simps traverse_ok toHMBlock_one_ok)
qed

end
