(* ===== verification/Comment_Store.thy ===== *)
theory Comment_Store
  imports Comment_Threads
begin

text \<open>
  The drafts of comments that the desktop app keeps (\<^verbatim>\<open>frontend/apps/desktop/src/app-comments.ts\<close>):
  a record for each draft and an index of drafts for each document. They refine the plain list of
  the drafts that were created and not removed.
\<close>

section \<open>Model\<close>

text \<open>
  The keys \<open>Comment-i\<close> and \<open>Doc-e\<close> of the one store never meet, so it is two dictionaries. An
  index has a value for each draft id: true, or undefined after the draft is removed.
\<close>

record comment_store =
  ks_comments :: "(string \<times> comment_draft) list"
  ks_index :: "(string \<times> (string \<times> bool option) list) list"

definition getCommentDraft :: "comment_store \<Rightarrow> string option \<Rightarrow> (string \<times> comment_draft) option" where
  "getCommentDraft ks i = (case i of None \<Rightarrow> None
    | Some j \<Rightarrow> if j = [] then None else map_option (Pair j) (map_of (ks_comments ks) j))"

definition getCommentDrafts :: "comment_store \<Rightarrow> string \<Rightarrow> (string \<times> comment_draft) list" where
  "getCommentDrafts ks docEid = (case map_of (ks_index ks) docEid of None \<Rightarrow> []
    | Some result \<Rightarrow> List.map_filter (\<lambda>i. map_option (Pair i) (map_of (ks_comments ks) i)) (map fst result))"

text \<open>The random id of the new draft is an argument.\<close>

definition createCommentDraft ::
  "string \<Rightarrow> string \<Rightarrow> string \<Rightarrow> string option \<Rightarrow> block_node list option \<Rightarrow> comment_store \<Rightarrow> comment_store" where
  "createCommentDraft draftId docEid docVersion commentId blocks ks =
     (let prevIndex = (case map_of (ks_index ks) docEid of None \<Rightarrow> [] | Some ix \<Rightarrow> ix)
      in ks\<lparr>ks_index := obj_set docEid (obj_set draftId (Some True) prevIndex) (ks_index ks),
            ks_comments := obj_set draftId \<lparr>cd_blocks = (case blocks of None \<Rightarrow> [] | Some bs \<Rightarrow> bs),
              cd_targetDocEid = docEid, cd_targetDocVersion = docVersion, cd_targetCommentId = commentId\<rparr>
              (ks_comments ks)\<rparr>)"

definition writeCommentDraft :: "string \<Rightarrow> block_node list \<Rightarrow> comment_store \<Rightarrow> comment_store result" where
  "writeCommentDraft i blocks ks = (case map_of (ks_comments ks) i of
      None \<Rightarrow> Inl (Error ''Comment with this commentId not found'')
    | Some c \<Rightarrow> Inr (ks\<lparr>ks_comments := obj_set i (c\<lparr>cd_blocks := blocks\<rparr>) (ks_comments ks)\<rparr>))"

text \<open>The record goes before the index is read, so it is gone even when that raises.\<close>

definition removeCommentDraft :: "string \<Rightarrow> comment_store \<Rightarrow> comment_store \<times> js_error option" where
  "removeCommentDraft i ks = (case map_of (ks_comments ks) i of
      None \<Rightarrow> (ks, Some (Error ''Comment with this commentId not found''))
    | Some c \<Rightarrow> (let ks1 = ks\<lparr>ks_comments := AList.delete i (ks_comments ks)\<rparr>
        in case map_of (ks_index ks) (cd_targetDocEid c) of
            None \<Rightarrow> (ks1, Some (Error ''Comment index not found''))
          | Some ix \<Rightarrow> (ks1\<lparr>ks_index := obj_set (cd_targetDocEid c) (obj_set i None ix) (ks_index ks)\<rparr>, None)))"

datatype comment_op =
  CreateDraft string string string "string option" "block_node list option"
| WriteDraft string "block_node list"
| RemoveDraft string

fun comment_step :: "comment_store \<Rightarrow> comment_op \<Rightarrow> comment_store" where
  "comment_step ks (CreateDraft i e v t bs) = createCommentDraft i e v t bs ks"
| "comment_step ks (WriteDraft i bs) = (case writeCommentDraft i bs ks of Inl _ \<Rightarrow> ks | Inr ks' \<Rightarrow> ks')"
| "comment_step ks (RemoveDraft i) = fst (removeCommentDraft i ks)"

section \<open>The drafts, plainly\<close>

type_synonym draft_list = "(string \<times> comment_draft) list"

fun draft_list_step :: "draft_list \<Rightarrow> comment_op \<Rightarrow> draft_list" where
  "draft_list_step ds (CreateDraft i e v t bs) = ds @ [(i, \<lparr>cd_blocks = (case bs of None \<Rightarrow> [] | Some b \<Rightarrow> b),
     cd_targetDocEid = e, cd_targetDocVersion = v, cd_targetCommentId = t\<rparr>)]"
| "draft_list_step ds (WriteDraft i bs) = map (\<lambda>(j, d). (j, if j = i then d\<lparr>cd_blocks := bs\<rparr> else d)) ds"
| "draft_list_step ds (RemoveDraft i) = filter (\<lambda>(j, d). j \<noteq> i) ds"

definition drafts_for :: "string \<Rightarrow> draft_list \<Rightarrow> draft_list" where
  "drafts_for e ds = filter (\<lambda>(i, d). cd_targetDocEid d = e) ds"

fun created :: "comment_op \<Rightarrow> string option" where
  "created (CreateDraft i e v t bs) = Some i"
| "created _ = None"

definition index_keys :: "comment_store \<Rightarrow> string \<Rightarrow> string list" where
  "index_keys ks e = (case map_of (ks_index ks) e of None \<Rightarrow> [] | Some ix \<Rightarrow> map fst ix)"

text \<open>
  The store represents the drafts: the records agree, each index lists its drafts in order
  (with ids of removed ones between them), and all ids are among the used ones.
\<close>

definition represents :: "string set \<Rightarrow> comment_store \<Rightarrow> draft_list \<Rightarrow> bool" where
  "represents used ks ds \<longleftrightarrow>
     map_of (ks_comments ks) = map_of ds \<and> distinct (map fst ds) \<and> fst ` set ds \<subseteq> used \<and>
     (\<forall>e. set (index_keys ks e) \<subseteq> used) \<and>
     (\<forall>e. List.map_filter (\<lambda>i. map_option (Pair i) (map_of ds i)) (index_keys ks e) = drafts_for e ds)"

lemma getCommentDrafts_keys:
  "getCommentDrafts ks e = List.map_filter (\<lambda>i. map_option (Pair i) (map_of (ks_comments ks) i)) (index_keys ks e)"
  by (simp add: getCommentDrafts_def index_keys_def map_filter_simps split: option.splits)

lemma represents_listed: "represents used ks ds \<Longrightarrow> getCommentDrafts ks e = drafts_for e ds"
  by (simp add: getCommentDrafts_keys represents_def)

lemma represents_indexed:
  assumes "represents used ks ds" "map_of ds i = Some d"
  shows "i \<in> set (index_keys ks (cd_targetDocEid d))"
proof -
  have "(i, d) \<in> set (drafts_for (cd_targetDocEid d) ds)"
    using assms(2) by (auto simp: drafts_for_def dest: map_of_SomeD)
  then have "(i, d) \<in> set (List.map_filter (\<lambda>i. map_option (Pair i) (map_of ds i)) (index_keys ks (cd_targetDocEid d)))"
    using assms(1) by (simp add: represents_def)
  then show ?thesis by (auto simp: List.map_filter_def)
qed

lemma represents_create:
  assumes r: "represents used ks ds" and new: "i \<notin> used"
  shows "represents (insert i used) (createCommentDraft i e v t bs ks) (draft_list_step ds (CreateDraft i e v t bs))"
proof -
  let ?d = "\<lparr>cd_blocks = (case bs of None \<Rightarrow> [] | Some b \<Rightarrow> b), cd_targetDocEid = e, cd_targetDocVersion = v, cd_targetCommentId = t\<rparr>"
  have i: "i \<notin> fst ` set ds" "\<And>e. i \<notin> set (index_keys ks e)" using r new by (auto simp: represents_def)
  have keys: "index_keys (createCommentDraft i e v t bs ks) e' = (if e' = e then index_keys ks e @ [i] else index_keys ks e')" for e'
    using i(2) [of e] by (auto simp: index_keys_def createCommentDraft_def Let_def update_conv' obj_set_new split: option.splits)
  have look: "map_of (ds @ [(i, ?d)]) = (map_of ds)(i \<mapsto> ?d)"
    using i(1) by (auto simp: fun_eq_iff map_add_def map_of_eq_None_iff [symmetric] split: option.splits)
  have same: "List.map_filter (\<lambda>j. map_option (Pair j) (((map_of ds)(i \<mapsto> ?d)) j)) (index_keys ks e')
      = drafts_for e' ds" for e'
  proof -
    have "List.map_filter (\<lambda>j. map_option (Pair j) (((map_of ds)(i \<mapsto> ?d)) j)) (index_keys ks e')
        = List.map_filter (\<lambda>j. map_option (Pair j) (map_of ds j)) (index_keys ks e')"
      by (rule map_filter_cong) (use i(2) [of e'] in auto)
    then show ?thesis using r by (simp add: represents_def)
  qed
  have "map_of (ks_comments (createCommentDraft i e v t bs ks)) = (map_of ds)(i \<mapsto> ?d)"
    using r by (simp add: createCommentDraft_def Let_def update_conv' represents_def)
  with r i look same show ?thesis
    by (auto simp: represents_def keys map_filter_append map_filter_simps drafts_for_def)
qed

lemma represents_write:
  assumes r: "represents used ks ds"
  shows "represents used (comment_step ks (WriteDraft i bs)) (draft_list_step ds (WriteDraft i bs))"
proof (cases "map_of ds i")
  case None
  then have "draft_list_step ds (WriteDraft i bs) = ds"
    by (force simp: map_of_eq_None_iff intro!: map_idI)
  with None r show ?thesis by (simp add: writeCommentDraft_def represents_def)
next
  case (Some c)
  let ?f = "\<lambda>(j, d). (j, if j = i then d\<lparr>cd_blocks := bs\<rparr> else d)"
  let ?c = "c\<lparr>cd_blocks := bs\<rparr>"
  have look: "map_of (map ?f ds) = (map_of ds)(i \<mapsto> ?c)"
  proof -
    have "map_of (map ?f ds) j = map_option (\<lambda>d. if j = i then d\<lparr>cd_blocks := bs\<rparr> else d) (map_of ds j)" for j
      by (induction ds) auto
    then show ?thesis using Some by (auto simp: fun_eq_iff option.map_ident)
  qed
  have step: "comment_step ks (WriteDraft i bs) = ks\<lparr>ks_comments := obj_set i ?c (ks_comments ks)\<rparr>"
    using Some r by (simp add: writeCommentDraft_def represents_def)
  have f: "map_option (Pair j) (((map_of ds)(i \<mapsto> ?c)) j) = map_option ?f (map_option (Pair j) (map_of ds j))" for j
    using Some by (auto simp: option.map_comp o_def option.map_ident)
  have mf: "List.map_filter (\<lambda>j. map_option ?f (g j)) xs = map ?f (List.map_filter g xs)" for g :: "string \<Rightarrow> (string \<times> comment_draft) option" and xs
    by (induction xs) (auto simp: map_filter_simps split: option.splits)
  have for': "drafts_for e (map ?f ds) = map ?f (drafts_for e ds)" for e
    by (induction ds) (simp_all add: drafts_for_def split: prod.splits)
  have fst: "map fst (map ?f ds) = map fst ds" by (auto simp: o_def case_prod_beta)
  then have "fst ` set (map ?f ds) = fst ` set ds" by (metis list.set_map)
  moreover have "List.map_filter (\<lambda>j. map_option (Pair j) (((map_of ds)(i \<mapsto> ?c)) j)) xs
      = map ?f (List.map_filter (\<lambda>j. map_option (Pair j) (map_of ds j)) xs)" for xs
    unfolding f mf ..
  moreover have "index_keys (comment_step ks (WriteDraft i bs)) e = index_keys ks e" for e
    unfolding step by (simp add: index_keys_def)
  moreover have "map_of (ks_comments (comment_step ks (WriteDraft i bs))) = map_of (map ?f ds)"
    using r unfolding step look by (simp add: update_conv' represents_def)
  ultimately show ?thesis
    using r unfolding represents_def draft_list_step.simps look fst by (simp only: for') simp
qed

lemma represents_remove:
  assumes r: "represents used ks ds"
  shows "represents used (comment_step ks (RemoveDraft i)) (draft_list_step ds (RemoveDraft i))"
proof (cases "map_of ds i")
  case None
  then have "draft_list_step ds (RemoveDraft i) = ds"
    by (force simp: map_of_eq_None_iff intro!: filter_True)
  with None r show ?thesis by (simp add: removeCommentDraft_def represents_def)
next
  case (Some c)
  let ?ds = "filter (\<lambda>(j, d). j \<noteq> i) ds"
  let ?ks = "comment_step ks (RemoveDraft i)"
  obtain ix where ix: "map_of (ks_index ks) (cd_targetDocEid c) = Some ix" "i \<in> set (map fst ix)"
    using represents_indexed [OF r Some]
    by (cases "map_of (ks_index ks) (cd_targetDocEid c)") (simp_all add: index_keys_def)
  have ks: "?ks = ks\<lparr>ks_comments := AList.delete i (ks_comments ks),
      ks_index := obj_set (cd_targetDocEid c) (obj_set i None ix) (ks_index ks)\<rparr>"
    using Some r ix by (simp add: removeCommentDraft_def represents_def Let_def)
  have "map fst (obj_set i None ix) = map fst ix" using ix(2) by (induction ix) auto
  then have keys: "index_keys ?ks e = index_keys ks e" for e
    unfolding ks index_keys_def using ix(1) by (auto simp: update_conv')
  have look: "map_of ?ds = (map_of ds)(i := None)"
    by (induction ds) (auto simp: fun_eq_iff)
  have mf: "List.map_filter (\<lambda>j. map_option (Pair j) (((map_of ds)(i := None)) j)) xs
      = filter (\<lambda>(j, d). j \<noteq> i) (List.map_filter (\<lambda>j. map_option (Pair j) (map_of ds j)) xs)" for xs
    by (induction xs) (auto simp: map_filter_simps split: option.splits)
  have for': "drafts_for e ?ds = filter (\<lambda>(j, d). j \<noteq> i) (drafts_for e ds)" for e
    by (simp add: drafts_for_def conj_commute case_prod_beta)
  have "distinct (map fst ?ds)" using r by (auto simp: represents_def distinct_map inj_on_def)
  moreover have "map_of (ks_comments ?ks) = map_of ?ds"
    using r unfolding ks look by (simp add: delete_conv' represents_def)
  moreover have "fst ` set ?ds \<subseteq> used" using r by (auto simp: represents_def)
  ultimately show ?thesis
    using r unfolding represents_def keys look draft_list_step.simps mf for' by simp
qed

lemma represents_run:
  "represents used ks ds \<Longrightarrow> distinct (List.map_filter created ops) \<Longrightarrow>
   set (List.map_filter created ops) \<inter> used = {} \<Longrightarrow>
   \<exists>used'. represents used' (foldl comment_step ks ops) (foldl draft_list_step ds ops)"
proof (induction ops arbitrary: used ks ds)
  case (Cons op ops)
  show ?case
  proof (cases op)
    case (CreateDraft i e v t bs)
    with Cons.prems have "represents (insert i used) (comment_step ks op) (draft_list_step ds op)"
      using represents_create [of used ks ds i e v t bs] by (simp add: map_filter_simps)
    with Cons.prems CreateDraft show ?thesis
      using Cons.IH [of "insert i used"] by (simp add: map_filter_simps)
  next
    case (WriteDraft i bs)
    with Cons.prems show ?thesis
      using Cons.IH [OF represents_write [OF Cons.prems(1), of i bs]] by (simp add: map_filter_simps)
  next
    case (RemoveDraft i)
    with Cons.prems show ?thesis
      using Cons.IH [OF represents_remove [OF Cons.prems(1), of i]] by (simp add: map_filter_simps)
  qed
qed auto

definition no_drafts :: comment_store where
  "no_drafts = \<lparr>ks_comments = [], ks_index = []\<rparr>"

lemma represents_empty: "represents {} no_drafts []"
  by (simp add: represents_def no_drafts_def index_keys_def drafts_for_def map_filter_simps)

section \<open>Properties\<close>

text \<open>
  After any creations (with fresh ids), writes and removals, the drafts listed for a document are
  exactly those created for it and not removed, in the order of their creation, with the blocks
  last written.
\<close>

theorem comment_drafts_listed:
  assumes "distinct (List.map_filter created ops)"
  shows "getCommentDrafts (foldl comment_step no_drafts ops) e = drafts_for e (foldl draft_list_step [] ops)"
  using represents_run [OF represents_empty assms] represents_listed by auto

theorem comment_drafts_listed_witness:
  "map fst (getCommentDrafts (foldl comment_step no_drafts
     [CreateDraft ''a'' ''x'' ''v'' None None, CreateDraft ''b'' ''x'' ''v'' None None,
      CreateDraft ''c'' ''y'' ''v'' None None, RemoveDraft ''a'', WriteDraft ''b'' []]) ''x'') = [''b'']"
proof -
  let ?ops = "[CreateDraft ''a'' ''x'' ''v'' None None, CreateDraft ''b'' ''x'' ''v'' None None,
      CreateDraft ''c'' ''y'' ''v'' None None, RemoveDraft ''a'', WriteDraft ''b'' []]"
  have "distinct (List.map_filter created ?ops)" by (simp add: map_filter_simps)
  from comment_drafts_listed [OF this, of "''x''"] show ?thesis by (simp add: drafts_for_def)
qed

end
