(* ===== verification/Navigation.thy ===== *)
theory Navigation
  imports Hm_Url Hm_Blocks
begin

text \<open>
  Routes and navigation of the app: \<^verbatim>\<open>frontend/packages/app/utils/routes.tsx\<close> (the
  routes), \<^verbatim>\<open>navigation.tsx\<close> (the history of a window and the resolution of a
  hypermedia id to a route). The history is refined to an abstract one: what is behind, what
  is shown, what is ahead.

  The daemon's lists of group content and its publications are parameters.
\<close>

section \<open>Routes\<close>

datatype accessory = Versions | Citations | Comments

record route_range =
  rr_start :: "nat option"
  rr_end :: "nat option"
  rr_expanded :: "bool option"

record base_publication_route =
  rp_documentId :: string
  rp_versionId :: "string option"
  rp_variants :: "publication_variant list option"
  rp_blockId :: "string option"
  rp_isBlockFocused :: "bool option"
  rp_blockRange :: "route_range option"
  rp_groupVariantCategory :: "string option"
  rp_showFirstPublicationMessage :: "bool option"
  rp_immediatelyPromptPush :: "bool option"
  rp_accessory :: "accessory option"

record base_group_route =
  rg_groupId :: string
  rg_version :: "string option"
  rg_blockId :: "string option"
  rg_isBlockFocused :: "bool option"
  rg_accessory :: "accessory option"

record base_account_route =
  ra_accountId :: string
  ra_blockId :: "string option"
  ra_isBlockFocused :: "bool option"
  ra_accessory :: "accessory option"

record base_draft_route =
  rd_draftId :: "string option"
  rd_variant :: "(string \<times> string option) option"
  rd_isProfileDocument :: "bool option"

datatype base_entity_route =
  BasePublication base_publication_route
| BaseGroup base_group_route
| BaseAccount base_account_route
| BaseDraft base_draft_route

record publication_route = base_publication_route +
  rp_context :: "base_entity_route list option"

record group_route = base_group_route +
  rg_context :: "base_entity_route list option"
  rg_tab :: "string option"

record account_route = base_account_route +
  ra_context :: "base_entity_route list option"
  ra_tab :: "string option"

datatype context_route =
  ContextPublication publication_route
| ContextGroup group_route
| ContextAccount account_route

record draft_route = base_draft_route +
  rd_contextRoute :: "context_route option"

datatype nav_route =
  Feed string
| Explore string
| Contacts
| Export
| Account account_route
| Group group_route
| Publication publication_route
| Draft draft_route
| DraftRebase string string string
| Comment "string option" "bool option"
| CommentDraft "string option" "bool option"
| Settings
| Favorites
| DeletedContent

definition defaultRoute :: nav_route where
  "defaultRoute = Feed ''trusted''"

definition publication_at :: "string \<Rightarrow> string option \<Rightarrow> string option \<Rightarrow> publication_variant list option \<Rightarrow> nav_route" where
  "publication_at docId version block variants = Publication
     \<lparr>rp_documentId = docId, rp_versionId = version, rp_variants = variants, rp_blockId = block,
      rp_isBlockFocused = None, rp_blockRange = None, rp_groupVariantCategory = None,
      rp_showFirstPublicationMessage = None, rp_immediatelyPromptPush = None, rp_accessory = None,
      rp_context = None\<rparr>"

definition group_at :: "string \<Rightarrow> nav_route" where
  "group_at i = Group \<lparr>rg_groupId = i, rg_version = None, rg_blockId = None, rg_isBlockFocused = None,
     rg_accessory = None, rg_context = None, rg_tab = None\<rparr>"

definition account_at :: "string \<Rightarrow> nav_route" where
  "account_at i = Account \<lparr>ra_accountId = i, ra_blockId = None, ra_isBlockFocused = None,
     ra_accessory = None, ra_context = None, ra_tab = None\<rparr>"

fun route_key :: "nav_route \<Rightarrow> string" where
  "route_key (Feed _) = ''feed''"
| "route_key (Explore _) = ''explore''"
| "route_key Contacts = ''contacts''"
| "route_key Export = ''export''"
| "route_key (Account _) = ''account''"
| "route_key (Group _) = ''group''"
| "route_key (Publication _) = ''publication''"
| "route_key (Draft _) = ''draft''"
| "route_key (DraftRebase _ _ _) = ''draft-rebase''"
| "route_key (Comment _ _) = ''comment''"
| "route_key (CommentDraft _ _) = ''comment-draft''"
| "route_key Settings = ''settings''"
| "route_key Favorites = ''favorites''"
| "route_key DeletedContent = ''deleted-content''"

definition getRouteKey :: "nav_route \<Rightarrow> string" where
  "getRouteKey route = (case route of
      Account a \<Rightarrow> ''account:'' @ ra_accountId a
    | Draft dr \<Rightarrow> ''draft:'' @ show_undef (rd_draftId dr)
    | Publication p \<Rightarrow> ''pub:'' @ rp_documentId p
    | _ \<Rightarrow> route_key route)"

definition getRecentsRouteEntityUrl :: "nav_route \<Rightarrow> string option" where
  "getRecentsRouteEntityUrl route = (case route of
      Account a \<Rightarrow> Some (createHmId_plain ''a'' (ra_accountId a))
    | Group g \<Rightarrow> Some (rg_groupId g)
    | Publication p \<Rightarrow> Some (rp_documentId p)
    | _ \<Rightarrow> None)"

section \<open>The history of a window\<close>

datatype nav_action =
  Push nav_route
| Replace nav_route
| Backplace nav_route
| CloseBack
| Pop
| Forward
| SidebarLocked bool

record nav_state =
  n_sidebarLocked :: "bool option"
  n_routes :: "nav_route list"
  n_routeIndex :: int
  n_lastAction :: string

text \<open>\<open>arr.slice(0, n)\<close>.\<close>

definition slice_to :: "int \<Rightarrow> 'a list \<Rightarrow> 'a list" where
  "slice_to n xs = take (nat (if n < 0 then int (length xs) + n else n)) xs"

definition navStateReducer :: "nav_state \<Rightarrow> nav_action \<Rightarrow> nav_state" where
  "navStateReducer state action = (case action of
      Push route \<Rightarrow> state\<lparr>n_routes := slice_to (n_routeIndex state + 1) (n_routes state) @ [route],
                         n_routeIndex := n_routeIndex state + 1, n_lastAction := ''push''\<rparr>
    | Replace route \<Rightarrow> state\<lparr>n_routes := slice_to (n_routeIndex state) (n_routes state) @ [route],
                            n_lastAction := ''replace''\<rparr>
    | Backplace route \<Rightarrow>
        if n_routeIndex state = 0
        then state\<lparr>n_routes := [route], n_routeIndex := 0, n_lastAction := ''backplace''\<rparr>
        else state\<lparr>n_routes := slice_to (int (length (n_routes state)) - 1) (n_routes state) @ [route],
                   n_lastAction := ''backplace''\<rparr>
    | CloseBack \<Rightarrow> if n_routeIndex state = 0 then state
        else state\<lparr>n_routeIndex := n_routeIndex state - 1, n_lastAction := ''closeBack''\<rparr>
    | Pop \<Rightarrow> if n_routeIndex state = 0 then state
        else state\<lparr>n_routeIndex := n_routeIndex state - 1, n_lastAction := ''pop''\<rparr>
    | Forward \<Rightarrow> state\<lparr>n_routeIndex := min (n_routeIndex state + 1) (int (length (n_routes state)) - 1),
                       n_lastAction := ''forward''\<rparr>
    | SidebarLocked v \<Rightarrow> state\<lparr>n_sidebarLocked := Some v\<rparr>)"

text \<open>The route on show: \<open>state.routes[state.routeIndex] || defaultRoute\<close>.\<close>

definition useNavRoute :: "nav_state \<Rightarrow> nav_route" where
  "useNavRoute state =
     (if n_routeIndex state < 0 then defaultRoute
      else (case nth_opt (n_routes state) (nat (n_routeIndex state)) of None \<Rightarrow> defaultRoute | Some r \<Rightarrow> r))"

section \<open>From ids to routes\<close>

text \<open>The entity id of an id that was unpacked can be undefined; it is printed into the URL as such.\<close>

definition eid_of :: "UnpackedHypermediaId \<Rightarrow> string" where
  "eid_of u = show_undef (u_eid u)"

definition appRouteOfId :: "UnpackedHypermediaId \<Rightarrow> nav_route option" where
  "appRouteOfId u =
     (if u_type u = ''d'' then Some (publication_at (createHmId_plain ''d'' (eid_of u))
          (truthy_str (u_version u)) (truthy_str (u_blockRef u)) (js_get (u_variants u)))
      else if u_type u = ''g'' then Some (group_at (createHmId_plain ''g'' (eid_of u)))
      else if u_type u = ''a'' then Some (account_at (eid_of u))
      else if u_type u = ''c'' then Some (Comment (Some (createHmId_plain ''c'' (eid_of u))) None)
      else None)"

definition isHttpUrl :: "string \<Rightarrow> bool" where
  "isHttpUrl url \<longleftrightarrow> starts_with url ''http://'' \<or> starts_with url ''https://''"

text \<open>\<open>unpackDocId\<close> of a value read off an object: undefined does not unpack.\<close>

definition unpackDocId_opt :: "string option \<Rightarrow> url_error + (UnpackedHypermediaId \<times> string) option" where
  "unpackDocId_opt url = (case url of None \<Rightarrow> Inr None | Some s \<Rightarrow> unpackDocId s)"

text \<open>
  \<open>listContent id version\<close> is the content of a group at a version (the empty one is the latest),
  \<open>getAuthor id\<close> the author of the latest publication of a document: \<open>None\<close> when the publication
  has no document. Both are the daemon's.
\<close>

definition resolve_document ::
  "(string \<Rightarrow> string option) \<Rightarrow> UnpackedHypermediaId \<Rightarrow> nav_route option" where
  "resolve_document getAuthor u =
     (let docId = createHmId_plain ''d'' (eid_of u)
      in case getAuthor docId of
           None \<Rightarrow> None
         | Some who \<Rightarrow> Some (publication_at docId
             (if js_get (u_latest u) = Some True then None else truthy_str (u_version u))
             (truthy_str (u_blockRef u))
             (Some (case js_get (u_variants u) of None \<Rightarrow> [AuthorVariant (Some who)] | Some vs \<Rightarrow> vs))))"

definition resolve_group_path ::
  "(string \<Rightarrow> string \<Rightarrow> string \<Rightarrow> string option) \<Rightarrow> UnpackedHypermediaId \<Rightarrow> string \<Rightarrow> string
     \<Rightarrow> url_error + nav_route option" where
  "resolve_group_path listContent u eid path =
     (let groupId = createHmId_plain ''g'' eid;
          contentPathName = (if path = ''-'' then ''/'' else path);
          version = truthy_str (u_version u);
          resolved = listContent groupId (case version of None \<Rightarrow> [] | Some v \<Rightarrow> v) contentPathName
      in case unpackDocId_opt resolved of
           Inl e \<Rightarrow> Inl e
         | Inr doc \<Rightarrow>
             (case (if version = None then Inr None else unpackDocId_opt (listContent groupId [] contentPathName)) of
                Inl e \<Rightarrow> Inl e
              | Inr latestDoc \<Rightarrow>
                  (let v = (\<lambda>x. case x of None \<Rightarrow> None | Some (dv, _) \<Rightarrow> truthy_str (u_version dv));
                       isVersionLatest = (v latestDoc \<noteq> None \<and> v doc = v latestDoc)
                   in case doc of
                        None \<Rightarrow> Inr None
                      | Some (du, _) \<Rightarrow>
                          if truthy resolved \<and> truthy (u_eid du)
                          then Inr (Some (publication_at (createHmId_plain ''d'' (eid_of du))
                                 (if isVersionLatest then None else truthy_str (u_version du)) None
                                 (Some [GroupVariant (createHmId_plain ''g'' eid) (Some contentPathName)])))
                          else Inr None)))"

definition resolveHmIdToAppRoute ::
  "(string \<Rightarrow> string \<Rightarrow> string \<Rightarrow> string option) \<Rightarrow> (string \<Rightarrow> string option) \<Rightarrow> string
     \<Rightarrow> url_error + (UnpackedHypermediaId \<times> nav_route) option" where
  "resolveHmIdToAppRoute listContent getAuthor url =
     (case unpackHmId url of
        None \<Rightarrow> Inr None
      | Some u \<Rightarrow>
          (case (if u_type u = ''g'' \<and> truthy (u_eid u) \<and> truthy_str (u_groupPathName u) \<noteq> None
                 then resolve_group_path listContent u (the (u_eid u)) (the (truthy_str (u_groupPathName u)))
                 else Inr None) of
             Inl e \<Rightarrow> Inl e
           | Inr (Some route) \<Rightarrow> Inr (Some (u, route))
           | Inr None \<Rightarrow> Inr (map_option (\<lambda>r. (u, r))
               (if u_type u = ''d'' then resolve_document getAuthor u else appRouteOfId u))))"

section \<open>The history, abstractly\<close>

text \<open>What is behind (the nearest last), what is on show, what is ahead (the nearest first).\<close>

type_synonym history = "nav_route list \<times> nav_route \<times> nav_route list"

definition nav_ok :: "nav_state \<Rightarrow> bool" where
  "nav_ok s \<longleftrightarrow> 0 \<le> n_routeIndex s \<and> n_routeIndex s < int (length (n_routes s))"

definition history_of :: "nav_state \<Rightarrow> history" where
  "history_of s = (let i = nat (n_routeIndex s)
     in (take i (n_routes s), n_routes s ! i, drop (Suc i) (n_routes s)))"

fun history_step :: "history \<Rightarrow> nav_action \<Rightarrow> history" where
  "history_step (b, c, a) (Push r) = (b @ [c], r, [])"
| "history_step (b, c, a) (Replace r) = (b, r, [])"
| "history_step (b, c, a) (Backplace r) =
     (if b = [] then ([], r, []) else if a = [] then (b, r, []) else (b, c, butlast a @ [r]))"
| "history_step (b, c, a) CloseBack = (if b = [] then (b, c, a) else (butlast b, last b, c # a))"
| "history_step (b, c, a) Pop = (if b = [] then (b, c, a) else (butlast b, last b, c # a))"
| "history_step (b, c, a) Forward = (case a of [] \<Rightarrow> (b, c, a) | r # rs \<Rightarrow> (b @ [c], r, rs))"
| "history_step h (SidebarLocked v) = h"

lemma nav_okE:
  assumes "nav_ok s"
  obtains i where "n_routeIndex s = int i" "i < length (n_routes s)"
  using assms that [of "nat (n_routeIndex s)"] by (auto simp: nav_ok_def)

lemma nav_step_ok: "nav_ok s \<Longrightarrow> nav_ok (navStateReducer s a)"
  by (cases a) (auto simp: nav_ok_def navStateReducer_def slice_to_def)

interpretation nav: machine navStateReducer nav_ok
  by unfold_locales (rule nav_step_ok)

lemma history_back:
  assumes "n_routeIndex s = int (Suc i)" "Suc i < length (n_routes s)"
  shows "take i (n_routes s) = butlast (take (Suc i) (n_routes s))" "n_routes s ! i = last (take (Suc i) (n_routes s))"
    "drop (Suc i) (n_routes s) = n_routes s ! Suc i # drop (Suc (Suc i)) (n_routes s)"
  using assms by (simp_all add: butlast_take take_Suc_conv_app_nth Cons_nth_drop_Suc)

lemma history_of_step:
  assumes "nav_ok s"
  shows "history_of (navStateReducer s a) = history_step (history_of s) a"
proof -
  from assms obtain i where i: "n_routeIndex s = int i" "i < length (n_routes s)" by (rule nav_okE)
  have shown: "take (Suc i) (n_routes s) = take i (n_routes s) @ [n_routes s ! i]"
    using i(2) by (rule take_Suc_conv_app_nth)
  have pop: "history_of (s\<lparr>n_routeIndex := n_routeIndex s - 1, n_lastAction := l\<rparr>)
     = (butlast (take i (n_routes s)), last (take i (n_routes s)), n_routes s ! i # drop (Suc i) (n_routes s))"
    if "i \<noteq> 0" for l
  proof -
    from that obtain j where "i = Suc j" by (cases i) auto
    with i history_back [of s j] show ?thesis by (simp add: history_of_def Let_def)
  qed
  show ?thesis
  proof (cases a)
    case (Push r)
    have n: "nat (1 + int i) = Suc i" by simp
    show ?thesis using i shown Push
      by (simp add: navStateReducer_def history_of_def slice_to_def Let_def n add.commute nth_append)
  next
    case (Replace r)
    with i show ?thesis
      by (simp add: navStateReducer_def history_of_def slice_to_def Let_def nth_append)
  next
    case (Backplace r)
    show ?thesis
    proof (cases "i = 0")
      case True
      with i Backplace show ?thesis by (simp add: navStateReducer_def history_of_def Let_def)
    next
      case False
      have len: "nat (int (length (n_routes s)) - 1) = length (n_routes s) - 1" by simp
      have ne: "take i (n_routes s) \<noteq> []" using False i by auto
      have routes: "n_routes (navStateReducer s (Backplace r)) = butlast (n_routes s) @ [r]"
        "n_routeIndex (navStateReducer s (Backplace r)) = int i"
        using Backplace i False by (auto simp: navStateReducer_def slice_to_def butlast_conv_take len)
      show ?thesis
      proof (cases "Suc i = length (n_routes s)")
        case True
        then have "take i (n_routes s) = butlast (n_routes s)" "length (butlast (n_routes s)) = i"
          by (auto simp: butlast_conv_take simp flip: True)
        with True ne show ?thesis
          by (simp add: history_of_def Let_def routes Backplace i nth_append)
      next
        case False
        then have lt: "Suc i < length (n_routes s)" using i by simp
        have "take i (butlast (n_routes s) @ [r]) = take i (n_routes s)"
          using lt by (simp add: butlast_conv_take)
        moreover have "(butlast (n_routes s) @ [r]) ! i = n_routes s ! i"
          using lt less_diff_conv [of i "length (n_routes s)" 1] by (simp add: nth_append nth_butlast)
        moreover have "drop (Suc i) (butlast (n_routes s) @ [r]) = butlast (drop (Suc i) (n_routes s)) @ [r]"
          using lt by (simp add: butlast_drop)
        ultimately show ?thesis using ne lt
          by (simp add: history_of_def Let_def routes Backplace i)
      qed
    qed
  next
    case CloseBack
    show ?thesis
    proof (cases "i = 0")
      case True
      with i CloseBack show ?thesis by (simp add: navStateReducer_def history_of_def Let_def)
    next
      case False
      then have "take i (n_routes s) \<noteq> []" using i by auto
      then show ?thesis using pop [OF False] i CloseBack False
        by (simp add: navStateReducer_def history_of_def [of s] Let_def)
    qed
  next
    case Pop
    show ?thesis
    proof (cases "i = 0")
      case True
      with i Pop show ?thesis by (simp add: navStateReducer_def history_of_def Let_def)
    next
      case False
      then have "take i (n_routes s) \<noteq> []" using i by auto
      then show ?thesis using pop [OF False] i Pop False
        by (simp add: navStateReducer_def history_of_def [of s] Let_def)
    qed
  next
    case Forward
    show ?thesis
    proof (cases "Suc i = length (n_routes s)")
      case True
      then have "nat (int (length (n_routes s)) - 1) = i" "min (int i + 1) (int (length (n_routes s)) - 1) = int i"
        by simp_all
      with i True Forward show ?thesis by (simp add: navStateReducer_def history_of_def Let_def)
    next
      case False
      then have lt: "Suc i < length (n_routes s)" using i by simp
      then have m: "min (int i + 1) (int (length (n_routes s)) - 1) = int (Suc i)" by simp
      have n: "nat (1 + int i) = Suc i" by simp
      have "drop (Suc i) (n_routes s) = n_routes s ! Suc i # drop (Suc (Suc i)) (n_routes s)"
        using lt by (simp add: Cons_nth_drop_Suc)
      with i m n shown Forward show ?thesis by (simp add: navStateReducer_def history_of_def Let_def)
    qed
  next
    case (SidebarLocked v)
    then show ?thesis by (simp add: navStateReducer_def history_of_def Let_def)
  qed
qed

lemma history_run: "nav_ok s \<Longrightarrow> history_of (foldl navStateReducer s as) = foldl history_step (history_of s) as"
  by (induction as arbitrary: s) (simp_all add: history_of_step nav_step_ok)

lemma shown_route: "nav_ok s \<Longrightarrow> useNavRoute s = fst (snd (history_of s))"
  by (auto simp: useNavRoute_def history_of_def Let_def nth_opt_nth nav_ok_def)

text \<open>
  C7. The history of a window: from a state whose index is in range, any sequence of actions
  keeps it in range and does what the abstract history does (what is behind, on show and ahead),
  and the route on show is always the one of the history, never the default route.
\<close>

theorem nav_refines_history:
  assumes "nav_ok s"
  shows "nav_ok (foldl navStateReducer s as) \<and>
    history_of (foldl navStateReducer s as) = foldl history_step (history_of s) as \<and>
    useNavRoute (foldl navStateReducer s as) = fst (snd (foldl history_step (history_of s) as))"
  using nav.run_inv [OF assms] history_run [OF assms] shown_route by metis

definition nav_init :: nav_state where
  "nav_init = \<lparr>n_sidebarLocked = Some True, n_routes = [defaultRoute], n_routeIndex = 0, n_lastAction = ''push''\<rparr>"

theorem nav_refines_history_witness:
  "useNavRoute (foldl navStateReducer nav_init [Push Contacts, Push Settings, Pop, Push Favorites, Pop, Forward]) = Favorites"
  using nav_refines_history [of nav_init "[Push Contacts, Push Settings, Pop, Push Favorites, Pop, Forward]"]
  by (simp add: nav_ok_def nav_init_def history_of_def)

text \<open>
  Replacing on the way back only works at the end of the history: with routes ahead, the
  action replaces the last of them, and the window goes on showing the same route.
\<close>

theorem backplace_not_shown:
  assumes "nav_ok s" "0 < n_routeIndex s" "n_routeIndex s + 1 < int (length (n_routes s))"
  shows "useNavRoute (navStateReducer s (Backplace r)) = useNavRoute s"
proof -
  obtain b c a where h: "history_of s = (b, c, a)" by (cases "history_of s")
  from assms(2,3) have "b \<noteq> []" "a \<noteq> []" using h by (auto simp: history_of_def Let_def)
  then show ?thesis using h history_of_step [OF assms(1), of "Backplace r"]
      shown_route [OF nav_step_ok [OF assms(1)]] shown_route [OF assms(1)] by simp
qed

theorem backplace_not_shown_witness:
  "useNavRoute (navStateReducer (foldl navStateReducer nav_init [Push Contacts, Push Settings, Pop]) (Backplace Favorites)) = Contacts"
  using backplace_not_shown [of "foldl navStateReducer nav_init [Push Contacts, Push Settings, Pop]" Favorites]
  by (simp add: nav_ok_def nav_init_def navStateReducer_def slice_to_def useNavRoute_def)

section \<open>Resolving ids\<close>

lemma truthy_str_given: "truthy_str (or_null v) = truthy_str v" by simp

text \<open>
  Opening the link of a document: the id of a document resolves to the route of that
  document, at the version of the id (none when the id asks for the latest), at its block, with
  its variants, or with the author of the publication when the id has none.
\<close>

theorem resolve_document_id:
  assumes "seg_ok e" "str_opt_ok seg_ok (o_groupPathName opts)" "opts_ok opts"
    and "getAuthor (createHmId_plain ''d'' e) = Some who"
  shows "\<exists>u. resolveHmIdToAppRoute listContent getAuthor (createHmId ''d'' e opts)
    = Inr (Some (u, publication_at (createHmId_plain ''d'' e)
        (if js_get (o_latest opts) = Some True then None else truthy_str (o_version opts))
        (truthy_str (o_blockRef opts))
        (Some (case js_get (given_variants (o_variants opts)) of None \<Rightarrow> [AuthorVariant (Some who)] | Some vs \<Rightarrow> vs))))"
proof -
  have t: "entity_type ''d''" by code_simp
  show ?thesis using unpack_created [OF t assms(1-3)] assms(4)
    by (simp add: resolveHmIdToAppRoute_def resolve_document_def unpacked_of_def eid_of_def show_undef_def Let_def)
qed

theorem resolve_document_id_witness:
  "\<exists>u. resolveHmIdToAppRoute (\<lambda>_ _ _. None) (\<lambda>_. Some ''bob'') (createHmId ''d'' ''abc'' (no_opts\<lparr>o_version := Val ''v1''\<rparr>))
    = Inr (Some (u, publication_at (createHmId_plain ''d'' ''abc'') (Some ''v1'') None (Some [AuthorVariant (Some ''bob'')])))"
proof -
  let ?o = "no_opts\<lparr>o_version := Val ''v1''\<rparr>"
  have "seg_ok ''abc''" "str_opt_ok seg_ok (o_groupPathName ?o)" "opts_ok ?o" by code_simp+
  from resolve_document_id [OF this, of "\<lambda>_. Some ''bob''"] show ?thesis
    by (simp add: no_opts_def given_variants_def)
qed

lemma unpackDocId_created:
  assumes "seg_ok e" "opts_ok opts" "truthy_str (o_groupPathName opts) = None"
  shows "\<exists>u. unpackDocId (createHmId ''d'' e opts) = Inr (Some (u, createHmId_plain ''d'' e))
    \<and> u_eid u = Some e \<and> truthy_str (u_version u) = truthy_str (o_version opts)"
proof -
  have t: "entity_type ''d''" by code_simp
  have g: "str_opt_ok seg_ok (o_groupPathName opts)" using assms(3) by (simp add: str_opt_ok_def)
  have "e \<noteq> []" using assms(1) seg_ok_parts by blast
  then show ?thesis using unpack_created [OF t assms(1) g assms(2)]
    by (simp add: unpackDocId_def unpacked_of_def)
qed

text \<open>
  Opening a path of a group: the link of a group with a path resolves to the document the
  group has under that path (under the root for a dash), in the variant of that group and
  path, and its version is left out exactly when the link has a version and the document there
  is also the latest one under that path.
\<close>

theorem resolve_group_id:
  assumes "seg_ok e" "o_groupPathName opts = Val path" "seg_ok path" "opts_ok opts"
    and "seg_ok e1" "qval_ok v1" "v1 \<noteq> []" "seg_ok e2" "qval_ok v2" "v2 \<noteq> []"
  defines "gid \<equiv> createHmId_plain ''g'' e" and "p \<equiv> (if path = ''-'' then ''/'' else path)"
  assumes "listContent gid (case truthy_str (o_version opts) of None \<Rightarrow> [] | Some v \<Rightarrow> v) p
      = Some (createHmId ''d'' e1 (no_opts\<lparr>o_version := Val v1\<rparr>))"
    and "listContent gid [] p = Some (createHmId ''d'' e2 (no_opts\<lparr>o_version := Val v2\<rparr>))"
  shows "\<exists>u. resolveHmIdToAppRoute listContent getAuthor (createHmId ''g'' e opts)
    = Inr (Some (u, publication_at (createHmId_plain ''d'' e1)
        (if truthy_str (o_version opts) \<noteq> None \<and> v1 = v2 then None else Some v1) None
        (Some [GroupVariant gid (Some p)])))"
proof -
  have t: "entity_type ''g''" by code_simp
  have path: "path \<noteq> []" "e \<noteq> []" using assms(1,3) seg_ok_parts by blast+
  have ok: "opts_ok (no_opts\<lparr>o_version := Val v\<rparr>)" if "qval_ok v" for v
    using that by (simp add: opts_ok_def str_opt_ok_def no_opts_def range_ok_def)
  have none: "truthy_str (o_groupPathName (no_opts\<lparr>o_version := Val v\<rparr>)) = None" for v by (simp add: no_opts_def)
  from unpackDocId_created [OF assms(5) ok [OF assms(6)] none] obtain u1 where
    u1: "unpackDocId (createHmId ''d'' e1 (no_opts\<lparr>o_version := Val v1\<rparr>)) = Inr (Some (u1, createHmId_plain ''d'' e1))"
      "u_eid u1 = Some e1" "truthy_str (u_version u1) = Some v1" using assms(7) by auto
  from unpackDocId_created [OF assms(8) ok [OF assms(9)] none] obtain u2 where
    u2: "unpackDocId (createHmId ''d'' e2 (no_opts\<lparr>o_version := Val v2\<rparr>)) = Inr (Some (u2, createHmId_plain ''d'' e2))"
      "u_eid u2 = Some e2" "truthy_str (u_version u2) = Some v2" using assms(10) by auto
  let ?u = "unpacked_of (createHmId ''g'' e opts) ''g'' e (or_null (o_groupPathName opts)) Null ''hm'' opts"
  have un: "unpackHmId (createHmId ''g'' e opts) = Some ?u"
    using unpack_created [OF t assms(1) _ assms(4)] assms(2,3) path by (simp add: str_opt_ok_def)
  have ne: "e1 \<noteq> []" using assms(5) seg_ok_parts by blast
  have docne: "createHmId ''d'' e1 (no_opts\<lparr>o_version := Val v1\<rparr>) \<noteq> []"
    using createHmId_ok [of e1 "no_opts\<lparr>o_version := Val v1\<rparr>" "''d''"] assms(5) by (simp add: str_opt_ok_def no_opts_def)
  have "resolve_group_path listContent ?u e path = Inr (Some (publication_at (createHmId_plain ''d'' e1)
        (if truthy_str (o_version opts) \<noteq> None \<and> v1 = v2 then None else Some v1) None
        (Some [GroupVariant gid (Some p)])))"
    using assms(13,14) u1 u2 ne docne
    by (cases "truthy_str (o_version opts)")
      (auto simp: resolve_group_path_def Let_def gid_def [symmetric] p_def [symmetric] unpackDocId_opt_def
        unpacked_of_def eid_of_def show_undef_def)
  then show ?thesis using un path assms(2)
    by (simp add: resolveHmIdToAppRoute_def unpacked_of_def)
qed

definition content_sample_group :: "string \<Rightarrow> string \<Rightarrow> string \<Rightarrow> string option" where
  "content_sample_group g v p = (if p = ''notes'' then Some (createHmId ''d'' ''abc'' (no_opts\<lparr>o_version := Val ''v1''\<rparr>)) else None)"

theorem resolve_group_id_witness:
  "\<exists>u. resolveHmIdToAppRoute content_sample_group (\<lambda>_. None)
      (createHmId ''g'' ''xyz'' (no_opts\<lparr>o_groupPathName := Val ''notes'', o_version := Val ''g1''\<rparr>))
    = Inr (Some (u, publication_at (createHmId_plain ''d'' ''abc'') None None
        (Some [GroupVariant (createHmId_plain ''g'' ''xyz'') (Some ''notes'')])))"
proof -
  let ?o = "no_opts\<lparr>o_groupPathName := Val ''notes'', o_version := Val ''g1''\<rparr>"
  have a: "seg_ok ''xyz''" "o_groupPathName ?o = Val ''notes''" "seg_ok ''notes''" "opts_ok ?o"
    "seg_ok ''abc''" "qval_ok ''v1''" "''v1'' \<noteq> []" "seg_ok ''abc''" "qval_ok ''v1''" "''v1'' \<noteq> []"
    by (code_simp, simp add: no_opts_def, code_simp+)
  show ?thesis
    using resolve_group_id [OF a, of content_sample_group "\<lambda>_. None"] by (simp add: content_sample_group_def no_opts_def)
qed

end
