(* ===== verification/App_Stores.thy ===== *)
theory App_Stores
  imports Navigation
begin

text \<open>
  What the desktop app keeps between runs (\<^verbatim>\<open>frontend/apps/desktop/src/app-*.ts\<close>): recent
  entities, favorites with the migration of the pins of older versions, gateway settings,
  experiments, the update preference, and whether the user has published.

  Each module holds its state in memory and writes it to the store of the app; at the start it
  reads the store. The invariant of the whole says that starting again gives the same state.
\<close>

section \<open>Recent entities\<close>

datatype recent_type = EntityEntry | DraftEntry

record recent_entry =
  re_type :: recent_type
  re_url :: string
  re_title :: string
  re_subtitle :: "string option"
  re_time :: nat
  re_variants :: "publication_variant list option"

text \<open>The variants of the documents are missing in the default state.\<close>

record recents_state =
  rs_recents :: "recent_entry list"
  rs_docVariants :: "(string \<times> publication_variant list) list option"

definition recents_default :: recents_state where
  "recents_default = \<lparr>rs_recents = [], rs_docVariants = None\<rparr>"

definition MAX_RECENTS :: nat where
  "MAX_RECENTS = 20"

text \<open>
  An updater says with the new state which of its two parts are new objects; those are
  the queries that are invalidated.
\<close>

definition updateRecents :: "(recents_state \<Rightarrow> recents_state \<times> bool \<times> bool) \<Rightarrow> recents_state \<Rightarrow> recents_state \<times> string list" where
  "updateRecents updater s = (case updater s of (s', newRecents, newDocVariants) \<Rightarrow>
     (s', (if newRecents then [''trpc.recents.getRecents''] else []) @
          (if newDocVariants then [''trpc.recents.getDocVariants''] else [])))"

text \<open>The names the daemon has: alias and id of an account, the title of a group and of a publication.\<close>

record names_env =
  ne_account :: "string \<Rightarrow> string option \<times> string"
  ne_group :: "string \<Rightarrow> string"
  ne_publication :: "string \<Rightarrow> publication_variant list option \<Rightarrow> string option \<Rightarrow> string option"

definition getRouteTitles :: "names_env \<Rightarrow> nav_route \<Rightarrow> string \<times> string option" where
  "getRouteTitles env route = (case route of
      Account a \<Rightarrow> (case ne_account env (ra_accountId a) of (al, i) \<Rightarrow>
        (if truthy al then the al else i, Some ''Account''))
    | Group g \<Rightarrow> (let t = ne_group env (rg_groupId g) in
        (if t = [] then rg_groupId g else t, Some ''Group''))
    | Publication p \<Rightarrow> (let t = ne_publication env (rp_documentId p) (rp_variants p) (rp_versionId p) in
        (if truthy t then the t else ''?'', Some ''Publication''))
    | _ \<Rightarrow> (''?'', None))"

definition recent_type_of :: "nav_route \<Rightarrow> recent_type" where
  "recent_type_of route = (case route of Draft _ \<Rightarrow> DraftEntry | _ \<Rightarrow> EntityEntry)"

definition entry_key :: "recent_entry \<Rightarrow> recent_type \<times> string" where
  "entry_key e = (re_type e, re_url e)"

definition visit_recents :: "names_env \<Rightarrow> nav_route \<Rightarrow> nat \<Rightarrow> recents_state \<Rightarrow> recents_state \<times> bool \<times> bool" where
  "visit_recents env route time s =
     (let variants = (case route of Publication p \<Rightarrow> rp_variants p | _ \<Rightarrow> None);
          docId = (case route of Publication p \<Rightarrow> rp_documentId p | _ \<Rightarrow> []);
          newVariants = (docId \<noteq> [] \<and> variants \<noteq> None);
          docVariants = (if newVariants
            then Some (obj_set docId (the variants) (case rs_docVariants s of None \<Rightarrow> [] | Some m \<Rightarrow> m))
            else rs_docVariants s);
          url = getRecentsRouteEntityUrl route;
          ty = recent_type_of route
      in case getRouteTitles env route of (title, subtitle) \<Rightarrow>
        if truthy url
        then (\<lparr>rs_recents = \<lparr>re_type = ty, re_url = the url, re_title = title, re_subtitle = subtitle,
                  re_time = time, re_variants = variants\<rparr> #
                take MAX_RECENTS (filter (\<lambda>item. re_url item \<noteq> the url \<or> re_type item \<noteq> ty) (rs_recents s)),
                rs_docVariants = docVariants\<rparr>, True, newVariants)
        else (\<lparr>rs_recents = rs_recents s, rs_docVariants = docVariants\<rparr>, False, newVariants))"

definition updateRecentRoute :: "names_env \<Rightarrow> nav_route \<Rightarrow> nat \<Rightarrow> recents_state \<Rightarrow> recents_state \<times> string list" where
  "updateRecentRoute env route time = updateRecents (visit_recents env route time)"

definition deleteRecent :: "string \<Rightarrow> recents_state \<Rightarrow> recents_state \<times> string list" where
  "deleteRecent url = updateRecents (\<lambda>s. (s\<lparr>rs_recents := filter (\<lambda>item. re_url item \<noteq> url) (rs_recents s)\<rparr>, True, False))"

section \<open>Favorites\<close>

record pinned_doc =
  pd_docId :: string
  pd_authors :: "string list"

record pinned_group =
  pg_groupId :: string
  pg_pathNames :: "string option list"

record pins_state =
  ps_accounts :: "string list"
  ps_documents :: "pinned_doc list"
  ps_groups :: "pinned_group list"

definition legacy_doc :: "pinned_doc \<Rightarrow> string list" where
  "legacy_doc doc = (case unpackHmId (pd_docId doc) of None \<Rightarrow> []
    | Some i \<Rightarrow> [createHmId ''d'' (show_undef (u_eid i))
        (no_opts\<lparr>o_variants := Val (map (\<lambda>a. AuthorVariant (Some a)) (pd_authors doc))\<rparr>)])"

definition legacy_group :: "pinned_group \<Rightarrow> string list" where
  "legacy_group grp = pg_groupId grp #
     (case unpackHmId (pg_groupId grp) of None \<Rightarrow> []
      | Some i \<Rightarrow> map (\<lambda>p. createHmId ''g'' (show_undef (u_eid i)) (no_opts\<lparr>o_groupPathName := Val p\<rparr>))
          (filter (\<lambda>p. p \<noteq> []) (List.map_filter (\<lambda>p. p) (pg_pathNames grp))))"

text \<open>The favorites at the start, and whether the migration writes them to the store.\<close>

definition getDefaultOrLegacyFavorites :: "pins_state option \<Rightarrow> string list \<times> bool" where
  "getDefaultOrLegacyFavorites pins = (case pins of None \<Rightarrow> ([], False)
    | Some p \<Rightarrow> (concat (map legacy_doc (ps_documents p)) @ concat (map legacy_group (ps_groups p)) @
        map (\<lambda>a. createHmId ''a'' a no_opts) (ps_accounts p), True))"

definition removeFavorite :: "string \<Rightarrow> string list \<Rightarrow> string list" where
  "removeFavorite url favorites = filter (\<lambda>f. f \<noteq> url) favorites"

definition addFavorite :: "string \<Rightarrow> string list \<Rightarrow> string list" where
  "addFavorite url favorites = filter (\<lambda>f. f \<noteq> url) favorites @ [url]"

definition setFavorite :: "string \<Rightarrow> bool \<Rightarrow> string list \<Rightarrow> string list" where
  "setFavorite url isFavorite favorites =
     (let newFavorites = filter (\<lambda>f. f \<noteq> url) favorites
      in if isFavorite then newFavorites @ [url] else newFavorites)"

section \<open>The store and the app\<close>

datatype depends = Always | Never | Ask

record app_store =
  st_recents :: "recents_state option"
  st_pins :: "pins_state option"
  st_favorites :: "string list option"
  st_gatewayUrl :: "string option"
  st_pushOnCopy :: "depends option"
  st_pushOnPublish :: "depends option"
  st_experiments :: "(string \<times> bool) list option"
  st_autoUpdate :: "bool option"
  st_hasPublished :: "bool option"
  st_isProbablyNewAccount :: "bool option"

record desktop =
  dk_store :: app_store
  dk_recents :: recents_state
  dk_favorites :: "string list"
  dk_gatewayUrl :: string
  dk_pushOnCopy :: depends
  dk_pushOnPublish :: depends
  dk_experiments :: "(string \<times> bool) list"
  dk_autoUpdate :: bool

definition or_default :: "'a \<Rightarrow> 'a option \<Rightarrow> 'a" where
  "or_default d v = (case v of None \<Rightarrow> d | Some x \<Rightarrow> x)"

text \<open>\<open>get(GATEWAY_URL_KEY) || DEFAULT_GATEWAY_URL\<close>; the default depends on the environment.\<close>

definition load_gatewayUrl :: "string \<Rightarrow> string option \<Rightarrow> string" where
  "load_gatewayUrl dflt v = (if truthy v then the v else dflt)"

definition start_desktop :: "string \<Rightarrow> app_store \<Rightarrow> desktop" where
  "start_desktop gw st =
     (case (case st_favorites st of Some f \<Rightarrow> (f, False) | None \<Rightarrow> getDefaultOrLegacyFavorites (st_pins st)) of
        (favorites, migrated) \<Rightarrow>
      \<lparr>dk_store = (if migrated then st\<lparr>st_favorites := Some favorites\<rparr> else st),
       dk_recents = or_default recents_default (st_recents st),
       dk_favorites = favorites,
       dk_gatewayUrl = load_gatewayUrl gw (st_gatewayUrl st),
       dk_pushOnCopy = or_default Ask (st_pushOnCopy st),
       dk_pushOnPublish = or_default Ask (st_pushOnPublish st),
       dk_experiments = or_default [] (st_experiments st),
       dk_autoUpdate = or_default True (st_autoUpdate st)\<rparr>)"

definition write_recents :: "recents_state \<Rightarrow> desktop \<Rightarrow> desktop" where
  "write_recents s d = d\<lparr>dk_recents := s, dk_store := (dk_store d)\<lparr>st_recents := Some s\<rparr>\<rparr>"

definition writeFavorites :: "string list \<Rightarrow> desktop \<Rightarrow> desktop" where
  "writeFavorites f d = d\<lparr>dk_favorites := f, dk_store := (dk_store d)\<lparr>st_favorites := Some f\<rparr>\<rparr>"

definition writeGatewayUrl :: "string \<Rightarrow> desktop \<Rightarrow> desktop" where
  "writeGatewayUrl u d = d\<lparr>dk_gatewayUrl := u, dk_store := (dk_store d)\<lparr>st_gatewayUrl := Some u\<rparr>\<rparr>"

definition writePushOnCopy :: "depends \<Rightarrow> desktop \<Rightarrow> desktop" where
  "writePushOnCopy v d = d\<lparr>dk_pushOnCopy := v, dk_store := (dk_store d)\<lparr>st_pushOnCopy := Some v\<rparr>\<rparr>"

definition writePushOnPublish :: "depends \<Rightarrow> desktop \<Rightarrow> desktop" where
  "writePushOnPublish v d = d\<lparr>dk_pushOnPublish := v, dk_store := (dk_store d)\<lparr>st_pushOnPublish := Some v\<rparr>\<rparr>"

definition write_experiments :: "(string \<times> bool) list \<Rightarrow> desktop \<Rightarrow> desktop" where
  "write_experiments input d =
     (let new = obj_spread (or_default [] (st_experiments (dk_store d))) input
      in d\<lparr>dk_experiments := new, dk_store := (dk_store d)\<lparr>st_experiments := Some new\<rparr>\<rparr>)"

definition writeAutoUpdateValue :: "bool \<Rightarrow> desktop \<Rightarrow> desktop" where
  "writeAutoUpdateValue v d = d\<lparr>dk_autoUpdate := v, dk_store := (dk_store d)\<lparr>st_autoUpdate := Some v\<rparr>\<rparr>"

text \<open>Returns whether this seems to be the first document the user publishes.\<close>

definition markDocPublish :: "desktop \<Rightarrow> desktop \<times> bool" where
  "markDocPublish d =
     (if st_hasPublished (dk_store d) = Some True then (d, False)
      else (d\<lparr>dk_store := (dk_store d)\<lparr>st_hasPublished := Some True\<rparr>\<rparr>,
            st_isProbablyNewAccount (dk_store d) = Some True))"

definition writeIsProbablyNewAccount :: "bool \<Rightarrow> desktop \<Rightarrow> desktop" where
  "writeIsProbablyNewAccount v d = d\<lparr>dk_store := (dk_store d)\<lparr>st_isProbablyNewAccount := Some v\<rparr>\<rparr>"

datatype desktop_op =
  VisitRoute nav_route nat
| DeleteRecent string
| SetFavorite string bool
| AddFavorite string
| RemoveFavorite string
| SetGatewayUrl string
| SetPushOnCopy depends
| SetPushOnPublish depends
| WriteExperiments "(string \<times> bool) list"
| SetAutoUpdate bool
| MarkDocPublish
| WriteIsProbablyNewAccount bool

fun desktop_step :: "names_env \<Rightarrow> desktop \<Rightarrow> desktop_op \<Rightarrow> desktop" where
  "desktop_step env d (VisitRoute r t) = write_recents (fst (updateRecentRoute env r t (dk_recents d))) d"
| "desktop_step env d (DeleteRecent u) = write_recents (fst (deleteRecent u (dk_recents d))) d"
| "desktop_step env d (SetFavorite u b) = writeFavorites (setFavorite u b (dk_favorites d)) d"
| "desktop_step env d (AddFavorite u) = writeFavorites (addFavorite u (dk_favorites d)) d"
| "desktop_step env d (RemoveFavorite u) = writeFavorites (removeFavorite u (dk_favorites d)) d"
| "desktop_step env d (SetGatewayUrl u) = writeGatewayUrl u d"
| "desktop_step env d (SetPushOnCopy v) = writePushOnCopy v d"
| "desktop_step env d (SetPushOnPublish v) = writePushOnPublish v d"
| "desktop_step env d (WriteExperiments i) = write_experiments i d"
| "desktop_step env d (SetAutoUpdate v) = writeAutoUpdateValue v d"
| "desktop_step env d MarkDocPublish = fst (markDocPublish d)"
| "desktop_step env d (WriteIsProbablyNewAccount v) = writeIsProbablyNewAccount v d"

section \<open>Starting again\<close>

definition desktop_inv :: "string \<Rightarrow> desktop \<Rightarrow> bool" where
  "desktop_inv gw d \<longleftrightarrow> (let st = dk_store d in
     dk_recents d = or_default recents_default (st_recents st) \<and>
     (st_favorites st = Some (dk_favorites d) \<or> st_favorites st = None \<and> st_pins st = None \<and> dk_favorites d = []) \<and>
     load_gatewayUrl gw (st_gatewayUrl st) = (if dk_gatewayUrl d = [] then gw else dk_gatewayUrl d) \<and>
     dk_pushOnCopy d = or_default Ask (st_pushOnCopy st) \<and>
     dk_pushOnPublish d = or_default Ask (st_pushOnPublish st) \<and>
     dk_experiments d = or_default [] (st_experiments st) \<and>
     dk_autoUpdate d = or_default True (st_autoUpdate st))"

lemma load_gatewayUrl_simps [simp]:
  "load_gatewayUrl gw (Some u) = (if u = [] then gw else u)" "load_gatewayUrl gw None = gw"
  by (auto simp: load_gatewayUrl_def truthy_def)

lemma load_gatewayUrl_Nil: "load_gatewayUrl gw v = [] \<Longrightarrow> gw = []"
  by (cases v) (auto split: if_splits)

lemmas write_defs = write_recents_def writeFavorites_def writeGatewayUrl_def writePushOnCopy_def
  writePushOnPublish_def write_experiments_def writeAutoUpdateValue_def markDocPublish_def
  writeIsProbablyNewAccount_def

lemma desktop_step_inv: "desktop_inv gw d \<Longrightarrow> desktop_inv gw (desktop_step env d op)"
  by (cases op) (simp_all add: desktop_inv_def write_defs or_default_def Let_def)

interpretation stores: machine "desktop_step env" "desktop_inv gw"
  by unfold_locales (rule desktop_step_inv)

section \<open>The recent entities of a run\<close>

definition visit_key :: "nav_route \<Rightarrow> (recent_type \<times> string) option" where
  "visit_key route = (let url = getRecentsRouteEntityUrl route
     in if truthy url then Some (recent_type_of route, the url) else None)"

text \<open>The elements of a list, each where it is first.\<close>

fun first_once :: "'a list \<Rightarrow> 'a list" where
  "first_once [] = []"
| "first_once (x # xs) = x # removeAll x (first_once xs)"

lemma distinct_first_once [simp]: "distinct (first_once xs)"
  by (induction xs) (auto simp: distinct_removeAll)

lemma set_first_once [simp]: "set (first_once xs) = set xs"
  by (induction xs) auto

lemma take_removeAll_take: "distinct xs \<Longrightarrow> take n (removeAll x (take (Suc n) xs)) = take n (removeAll x xs)"
proof (induction xs arbitrary: n)
  case (Cons y ys)
  show ?case
  proof (cases "x = y")
    case True
    with Cons.prems have "y \<notin> set (take n ys)" "y \<notin> set ys" by (auto dest: in_set_takeD)
    then show ?thesis using True by simp
  next
    case False
    with Cons show ?thesis by (cases n) auto
  qed
qed simp

lemma visit_recents_keys:
  "map entry_key (rs_recents (fst (visit_recents env route time s))) =
    (case visit_key route of None \<Rightarrow> map entry_key (rs_recents s)
     | Some k \<Rightarrow> k # take MAX_RECENTS (removeAll k (map entry_key (rs_recents s))))"
proof -
  have "map entry_key (filter (\<lambda>item. re_url item \<noteq> u \<or> re_type item \<noteq> ty) xs) = removeAll (ty, u) (map entry_key xs)" for u ty xs
    by (induction xs) (auto simp: entry_key_def)
  then show ?thesis
    by (auto simp: visit_recents_def visit_key_def Let_def entry_key_def take_map [symmetric] split: prod.splits)
qed

lemma updateRecents_fst: "fst (updateRecents f s) = fst (f s)"
  by (simp add: updateRecents_def split: prod.splits)

definition recents_ok :: "recents_state \<Rightarrow> bool" where
  "recents_ok s \<longleftrightarrow> distinct (map entry_key (rs_recents s)) \<and> length (rs_recents s) \<le> Suc MAX_RECENTS"

lemma recents_ok_visit: "recents_ok s \<Longrightarrow> recents_ok (fst (visit_recents env route time s))"
proof -
  assume ok: "recents_ok s"
  let ?ks = "map entry_key (rs_recents (fst (visit_recents env route time s)))"
  have "distinct ?ks \<and> length ?ks \<le> Suc MAX_RECENTS"
    using ok by (auto simp: visit_recents_keys recents_ok_def distinct_removeAll split: option.splits dest: in_set_takeD)
  then show ?thesis by (simp add: recents_ok_def)
qed

lemma recents_ok_delete: "recents_ok s \<Longrightarrow> recents_ok (fst (deleteRecent u s))"
  by (auto simp: recents_ok_def deleteRecent_def updateRecents_fst distinct_map
      intro: le_trans [OF length_filter_le] inj_on_subset)

lemma recents_step_ok: "recents_ok (dk_recents d) \<Longrightarrow> recents_ok (dk_recents (desktop_step env d op))"
  by (cases op) (simp_all add: write_defs updateRecentRoute_def updateRecents_fst recents_ok_visit recents_ok_delete Let_def)

interpretation recents: machine "desktop_step env" "\<lambda>d. recents_ok (dk_recents d)"
  by unfold_locales (rule recents_step_ok)

lemma visits_keys:
  "map entry_key (rs_recents (foldl (\<lambda>s (r, t). fst (updateRecentRoute env r t s)) recents_default visits))
    = take (Suc MAX_RECENTS) (first_once (rev (List.map_filter visit_key (map fst visits))))"
proof (induction visits rule: rev_induct)
  case Nil
  then show ?case by (simp add: recents_default_def map_filter_simps)
next
  case (snoc v visits)
  obtain r t where v: "v = (r, t)" by (cases v)
  from snoc.IH show ?case
    by (simp add: v updateRecentRoute_def updateRecents_fst visit_recents_keys map_filter_append map_filter_simps take_removeAll_take split: option.splits)
qed

section \<open>The favorites of a run\<close>

text \<open>What an operation says about a url, when it says anything.\<close>

fun op_favorite :: "string \<Rightarrow> desktop_op \<Rightarrow> bool option" where
  "op_favorite u (SetFavorite v b) = (if u = v then Some b else None)"
| "op_favorite u (AddFavorite v) = (if u = v then Some True else None)"
| "op_favorite u (RemoveFavorite v) = (if u = v then Some False else None)"
| "op_favorite u _ = None"

definition last_said :: "string \<Rightarrow> bool \<Rightarrow> desktop_op list \<Rightarrow> bool" where
  "last_said u b ops = foldl (\<lambda>b op. or_default b (op_favorite u op)) b ops"

lemma favorite_step:
  "u \<in> set (dk_favorites (desktop_step env d op)) \<longleftrightarrow> or_default (u \<in> set (dk_favorites d)) (op_favorite u op)"
  by (cases op) (auto simp: write_defs or_default_def setFavorite_def addFavorite_def removeFavorite_def Let_def)

lemma favorites_run:
  "u \<in> set (dk_favorites (foldl (desktop_step env) d ops)) \<longleftrightarrow> last_said u (u \<in> set (dk_favorites d)) ops"
  by (induction ops arbitrary: d) (simp_all add: last_said_def favorite_step)

section \<open>Properties\<close>

text \<open>
  The list of recent entities after any visits is made of the entities visited, the latest
  first, each once, cut off after the first 21: one more than the maximum in the code.
\<close>

theorem recents_latest:
  "map entry_key (rs_recents (foldl (\<lambda>s (r, t). fst (updateRecentRoute env r t s)) recents_default visits))
    = take (Suc MAX_RECENTS) (first_once (rev (List.map_filter visit_key (map fst visits))))"
  by (rule visits_keys)

text \<open>
  Whatever the user does, from a start with such a list: no entity is twice among the recent ones, and
  there are 21 at most.
\<close>

theorem recents_bounded:
  assumes "recents_ok (or_default recents_default (st_recents st))"
  shows "distinct (map entry_key (rs_recents (dk_recents (foldl (desktop_step env) (start_desktop gw st) ops)))) \<and>
    length (rs_recents (dk_recents (foldl (desktop_step env) (start_desktop gw st) ops))) \<le> 21"
proof -
  have "recents_ok (dk_recents (start_desktop gw st))"
    using assms by (simp add: start_desktop_def split: prod.splits)
  then have "recents_ok (dk_recents (foldl (desktop_step env) (start_desktop gw st) ops))"
    by (rule recents.run_inv)
  then show ?thesis by (simp add: recents_ok_def MAX_RECENTS_def)
qed

definition empty_store :: app_store where
  "empty_store = \<lparr>st_recents = None, st_pins = None, st_favorites = None, st_gatewayUrl = None,
     st_pushOnCopy = None, st_pushOnPublish = None, st_experiments = None, st_autoUpdate = None,
     st_hasPublished = None, st_isProbablyNewAccount = None\<rparr>"

definition names_sample :: names_env where
  "names_sample = \<lparr>ne_account = \<lambda>i. (None, i), ne_group = \<lambda>i. i, ne_publication = \<lambda>i v w. None\<rparr>"

theorem recents_bounded_witness:
  "length (rs_recents (dk_recents (foldl (desktop_step names_sample) (start_desktop ''https://hyper.media'' empty_store)
     [VisitRoute (group_at ''hm://g/a'') 1, VisitRoute (account_at ''b'') 2, DeleteRecent ''hm://g/a'']))) \<le> 21"
proof -
  have "recents_ok (or_default recents_default (st_recents empty_store))"
    by (simp add: empty_store_def or_default_def recents_ok_def recents_default_def)
  from recents_bounded [OF this] show ?thesis by blast
qed

text \<open>
  Quitting and starting again changes nothing: after any operations the state read from the
  store is the one in memory, apart from an empty gateway url, for which the default comes back.
\<close>

theorem desktop_restart:
  "let d = foldl (desktop_step env) (start_desktop gw st) ops
   in start_desktop gw (dk_store d) = d\<lparr>dk_gatewayUrl := (if dk_gatewayUrl d = [] then gw else dk_gatewayUrl d)\<rparr>"
proof -
  let ?d = "foldl (desktop_step env) (start_desktop gw st) ops"
  have "desktop_inv gw (start_desktop gw st)"
    by (cases "st_favorites st"; cases "st_pins st")
      (auto simp: desktop_inv_def start_desktop_def Let_def getDefaultOrLegacyFavorites_def dest: load_gatewayUrl_Nil)
  then have "desktop_inv gw ?d" by (rule stores.run_inv)
  then show ?thesis unfolding Let_def
    by (auto simp: desktop_inv_def start_desktop_def Let_def getDefaultOrLegacyFavorites_def)
qed

text \<open>
  A url is among the favorites exactly when the last operation that names it made it one, or, when none
  does, when it was one at the start.
\<close>

theorem favorites_last_said:
  "u \<in> set (dk_favorites (foldl (desktop_step env) d ops)) \<longleftrightarrow> last_said u (u \<in> set (dk_favorites d)) ops"
  by (rule favorites_run)

end
