(* ===== verification/App_Windows.thy ===== *)
theory App_Windows
  imports App_Stores
begin

text \<open>
  The windows of the desktop app (\<^verbatim>\<open>frontend/apps/desktop/src/app-windows.ts\<close>, the window
  calls of \<^verbatim>\<open>app-api.ts\<close>, \<^verbatim>\<open>frontend/packages/app/utils/window-types.ts\<close>): which windows
  are open, what is stored of them to open them again, the size of a new window.

  The window system is a parameter: the time, the window with the focus, the bounds. A window that is told to close raises its close event before the call goes on.
\<close>

section \<open>Window types and sizes\<close>

record window_type =
  wt_key :: string
  wt_minWidth :: int
  wt_minHeight :: int
  wt_maxWidth :: "int option"
  wt_maxHeight :: "int option"
  wt_initWidth :: "int option"
  wt_initHeight :: "int option"

definition getRouteWindowType :: "nav_route \<Rightarrow> window_type" where
  "getRouteWindowType route =
     (if route_key route = ''deleted-content'' then
        \<lparr>wt_key = ''deleted-content'', wt_minWidth = 960, wt_minHeight = 720, wt_maxWidth = None,
         wt_maxHeight = None, wt_initWidth = None, wt_initHeight = None\<rparr>
      else if route_key route = ''settings'' then
        \<lparr>wt_key = ''settings'', wt_minWidth = 960, wt_minHeight = 720, wt_maxWidth = None,
         wt_maxHeight = None, wt_initWidth = None, wt_initHeight = None\<rparr>
      else if route_key route = ''comment'' \<or> route_key route = ''comment-draft'' then
        \<lparr>wt_key = ''comment'', wt_minWidth = 600, wt_minHeight = 600, wt_maxWidth = Some 600,
         wt_maxHeight = None, wt_initWidth = None, wt_initHeight = None\<rparr>
      else
        \<lparr>wt_key = ''main'', wt_minWidth = 600, wt_minHeight = 400, wt_maxWidth = None,
         wt_maxHeight = None, wt_initWidth = Some 1280, wt_initHeight = Some 960\<rparr>)"

record window_bounds =
  wb_x :: int
  wb_y :: int
  wb_width :: int
  wb_height :: int

text \<open>
  Numbers with \<open>NaN\<close> as \<open>None\<close>: \<open>Math.min\<close> and \<open>Math.max\<close> of an undefined argument.
\<close>

definition math_min :: "int option \<Rightarrow> int option \<Rightarrow> int option" where
  "math_min a b = (case (a, b) of (Some x, Some y) \<Rightarrow> Some (min x y) | _ \<Rightarrow> None)"

definition math_max :: "int option \<Rightarrow> int option \<Rightarrow> int option" where
  "math_max a b = (case (a, b) of (Some x, Some y) \<Rightarrow> Some (max x y) | _ \<Rightarrow> None)"

text \<open>\<open>a || b\<close> for a number that may be undefined; 0 counts as false.\<close>

definition num_or :: "int option \<Rightarrow> int option \<Rightarrow> int option" where
  "num_or a b = (case a of None \<Rightarrow> b | Some x \<Rightarrow> if x = 0 then b else a)"

record new_bounds =
  nb_x :: "int option"
  nb_y :: "int option"
  nb_width :: "int option"
  nb_height :: "int option"

definition new_window_bounds :: "window_bounds option \<Rightarrow> window_bounds option \<Rightarrow> window_type \<Rightarrow> new_bounds" where
  "new_window_bounds input prev wt = (case input of
      Some b \<Rightarrow> \<lparr>nb_x = Some (wb_x b), nb_y = Some (wb_y b), nb_width = Some (wb_width b), nb_height = Some (wb_height b)\<rparr>
    | None \<Rightarrow> (case prev of
        Some p \<Rightarrow> \<lparr>nb_x = Some (wb_x p + 60), nb_y = Some (wb_y p + 60),
            nb_width = math_max (Some (wt_minWidth wt)) (math_min (Some (wb_width p)) (num_or (wt_maxWidth wt) (wt_initWidth wt))),
            nb_height = math_max (Some (wt_minHeight wt)) (math_min (Some (wb_height p)) (num_or (wt_maxHeight wt) (wt_initHeight wt)))\<rparr>
      | None \<Rightarrow> \<lparr>nb_x = None, nb_y = None,
            nb_width = num_or (wt_initWidth wt) (Some (wt_minWidth wt)),
            nb_height = num_or (wt_initHeight wt) (Some (wt_minHeight wt))\<rparr>))"

section \<open>The windows\<close>

record app_window =
  aw_routes :: "nav_route list"
  aw_routeIndex :: nat
  aw_bounds :: "window_bounds option"
  aw_sidebarLocked :: bool

record window_nav =
  wn_routes :: "nav_route list"
  wn_routeIndex :: nat
  wn_sidebarLocked :: bool

text \<open>
  \<open>allWindows\<close> (here the ids and the bounds the window was made with), \<open>windowsState\<close> (always the
  same as in the store), \<open>windowNavState\<close>, \<open>windowIdCount\<close>, \<open>focusedWindowKey\<close>, \<open>isExpectingQuit\<close>.
\<close>

record windows =
  ws_open :: "(string \<times> new_bounds) list"
  ws_stored :: "(string \<times> app_window) list"
  ws_nav :: "(string \<times> window_nav) list"
  ws_count :: nat
  ws_focused :: "string option"
  ws_quitting :: bool

definition start_windows :: "(string \<times> app_window) list option \<Rightarrow> windows" where
  "start_windows stored = \<lparr>ws_open = [], ws_stored = or_default [] stored, ws_nav = [], ws_count = 1,
     ws_focused = None, ws_quitting = False\<rparr>"

text \<open>A \<open>Map\<close> has no own properties for its entries, so \<open>Object.values\<close> of it is empty.\<close>

definition map_object_values :: "(string \<times> 'w) list \<Rightarrow> string list" where
  "map_object_values m = []"

text \<open>The window system: the time, the window that has the focus, where each window is.\<close>

record screen =
  sc_now :: nat
  sc_focused :: "string option"
  sc_bounds :: "string \<Rightarrow> window_bounds"

definition getAWindow :: "string option \<Rightarrow> (string \<times> 'w) list \<Rightarrow> string option" where
  "getAWindow focused all = (case focused of Some w \<Rightarrow> Some w
    | None \<Rightarrow> nth_opt (rev (map_object_values all)) 0)"

definition windowFocused :: "string \<Rightarrow> windows \<Rightarrow> windows" where
  "windowFocused i ws = ws\<lparr>ws_focused := Some i\<rparr>"

definition windowBlurred :: "string \<Rightarrow> windows \<Rightarrow> windows" where
  "windowBlurred i ws = (if ws_focused ws = Some i then ws\<lparr>ws_focused := None\<rparr> else ws)"

definition deleteWindowState :: "string \<Rightarrow> windows \<Rightarrow> windows" where
  "deleteWindowState i ws = ws\<lparr>ws_stored := AList.delete i (ws_stored ws)\<rparr>"

definition setWindowState :: "string \<Rightarrow> app_window \<Rightarrow> windows \<Rightarrow> windows" where
  "setWindowState i w ws = ws\<lparr>ws_stored := obj_set i w (ws_stored ws)\<rparr>"

definition updateWindowState :: "string \<Rightarrow> (app_window \<Rightarrow> app_window) \<Rightarrow> windows \<Rightarrow> windows" where
  "updateWindowState i f ws = (case map_of (ws_stored ws) i of
      None \<Rightarrow> ws | Some w \<Rightarrow> ws\<lparr>ws_stored := obj_set i (f w) (ws_stored ws)\<rparr>)"

record create_input =
  ci_routes :: "nav_route list"
  ci_routeIndex :: nat
  ci_sidebarLocked :: bool
  ci_id :: "string option"
  ci_bounds :: "window_bounds option"

definition new_window_id :: "screen \<Rightarrow> create_input \<Rightarrow> windows \<Rightarrow> string" where
  "new_window_id sc inp ws =
     (if truthy (ci_id inp) then the (ci_id inp)
      else ''window.'' @ show_nat (ws_count ws) @ ''.'' @ show_nat (sc_now sc))"

definition input_nav :: "create_input \<Rightarrow> window_nav" where
  "input_nav inp = \<lparr>wn_routes = ci_routes inp, wn_routeIndex = ci_routeIndex inp,
     wn_sidebarLocked = ci_sidebarLocked inp\<rparr>"

definition input_state :: "create_input \<Rightarrow> app_window" where
  "input_state inp = \<lparr>aw_routes = ci_routes inp, aw_routeIndex = ci_routeIndex inp, aw_bounds = None,
     aw_sidebarLocked = ci_sidebarLocked inp\<rparr>"

definition createAppWindow :: "screen \<Rightarrow> create_input \<Rightarrow> windows \<Rightarrow> windows result" where
  "createAppWindow sc inp ws = (case nth_opt (ci_routes inp) (ci_routeIndex inp) of
      None \<Rightarrow> Inl TypeError
    | Some active \<Rightarrow>
       (let windowId = new_window_id sc inp ws;
            ws1 = (if truthy (ci_id inp) then ws else ws\<lparr>ws_count := ws_count ws + 1\<rparr>);
            prev = map_option (sc_bounds sc) (getAWindow (sc_focused sc) (ws_open ws));
            bounds = new_window_bounds (ci_bounds inp) prev (getRouteWindowType active);
            ws2 = ws1\<lparr>ws_nav := obj_set windowId (input_nav inp) (ws_nav ws1),
                      ws_open := obj_set windowId bounds (ws_open ws1)\<rparr>
        in Inr (windowFocused windowId (setWindowState windowId (input_state inp) ws2))))"

definition only_route :: "nav_route \<Rightarrow> bool \<Rightarrow> create_input" where
  "only_route route locked = \<lparr>ci_routes = [route], ci_routeIndex = 0, ci_sidebarLocked = locked, ci_id = None, ci_bounds = None\<rparr>"

text \<open>The handler of a window's close event.\<close>

definition window_closed :: "string \<Rightarrow> windows \<Rightarrow> windows" where
  "window_closed i ws =
     (let ws1 = ws\<lparr>ws_open := AList.delete i (ws_open ws)\<rparr>
      in if ws_quitting ws then ws1 else deleteWindowState i ws1)"

definition closeAppWindow :: "screen \<Rightarrow> string \<Rightarrow> windows \<Rightarrow> windows result" where
  "closeAppWindow sc i ws =
     (if map_of (ws_open ws) i = None then Inr ws
      else (let ws1 = window_closed i ws
            in if ws_open ws1 = [] then createAppWindow sc (only_route defaultRoute True) ws1 else Inr ws1))"

text \<open>The handler of \<open>windowNavState\<close>, and the route it reports to the recent entities.\<close>

definition nav_changed :: "string \<Rightarrow> window_nav \<Rightarrow> windows \<Rightarrow> windows \<times> nav_route option" where
  "nav_changed i n ws =
     (updateWindowState i (\<lambda>w. w\<lparr>aw_routes := wn_routes n, aw_routeIndex := wn_routeIndex n, aw_sidebarLocked := wn_sidebarLocked n\<rparr>)
        (ws\<lparr>ws_nav := obj_set i n (ws_nav ws)\<rparr>),
      nth_opt (wn_routes n) (wn_routeIndex n))"

definition window_focus :: "string \<Rightarrow> windows \<Rightarrow> windows \<times> nav_route option" where
  "window_focus i ws = (windowFocused i ws,
     (case map_of (ws_nav ws) i of None \<Rightarrow> None | Some n \<Rightarrow> nth_opt (wn_routes n) (wn_routeIndex n)))"

definition saveWindowPosition :: "string \<Rightarrow> window_bounds \<Rightarrow> windows \<Rightarrow> windows" where
  "saveWindowPosition i b ws = updateWindowState i (\<lambda>w. w\<lparr>aw_bounds := Some b\<rparr>) ws"

section \<open>The calls of the app\<close>

definition getRouteRefocusKey :: "nav_route \<Rightarrow> string option" where
  "getRouteRefocusKey route =
     (if route_key route \<in> {''account'', ''publication'', ''comment'', ''comment-draft'', ''group'', ''draft''}
      then None else Some (route_key route))"

text \<open>The first stored window whose active route has the key; reading the key of a missing route raises.\<close>

fun find_window :: "string option \<Rightarrow> (string \<times> app_window) list \<Rightarrow> string option result" where
  "find_window k [] = Inr None"
| "find_window k ((i, w) # rest) = (case nth_opt (aw_routes w) (aw_routeIndex w) of
      None \<Rightarrow> Inl TypeError
    | Some r \<Rightarrow> if getRouteRefocusKey r \<noteq> None \<and> getRouteRefocusKey r = k then Inr (Some i)
        else find_window k rest)"

definition api_createAppWindow :: "screen \<Rightarrow> create_input \<Rightarrow> windows \<Rightarrow> windows result" where
  "api_createAppWindow sc inp ws = (case nth_opt (ci_routes inp) (ci_routeIndex inp) of
      None \<Rightarrow> Inl TypeError
    | Some dest \<Rightarrow> bind_result (find_window (getRouteRefocusKey dest) (ws_stored ws)) (\<lambda>matched.
        case matched of
          None \<Rightarrow> createAppWindow sc inp ws
        | Some i \<Rightarrow> if length (ci_routes inp) = 1 \<and> map_of (ws_open ws) i \<noteq> None
            then Inr (fst (window_focus i ws)) else createAppWindow sc inp ws))"

text \<open>
  The windows at the start; whether a stored route is one of the schema's is a parameter. A call
  that raises does not stop the others.
\<close>

definition restore_input :: "string \<times> app_window \<Rightarrow> create_input" where
  "restore_input e = \<lparr>ci_routes = aw_routes (snd e), ci_routeIndex = aw_routeIndex (snd e),
     ci_sidebarLocked = aw_sidebarLocked (snd e), ci_id = Some (fst e), ci_bounds = aw_bounds (snd e)\<rparr>"

definition or_same :: "'s \<Rightarrow> 's result \<Rightarrow> 's" where
  "or_same s r = (case r of Inl _ \<Rightarrow> s | Inr s' \<Rightarrow> s')"

definition openInitialWindows :: "(nav_route \<Rightarrow> bool) \<Rightarrow> screen \<Rightarrow> windows \<Rightarrow> windows" where
  "openInitialWindows valid sc ws =
     (let entries = filter (\<lambda>(i, w). aw_routes w \<noteq> [] \<and> list_all valid (aw_routes w)) (ws_stored ws)
      in if entries = [] then or_same ws (api_createAppWindow sc (only_route defaultRoute False) ws)
         else foldl (\<lambda>ws e. or_same ws (api_createAppWindow sc (restore_input e) ws)) ws entries)"

definition openRoute :: "screen \<Rightarrow> nav_route \<Rightarrow> windows \<Rightarrow> windows result \<times> nav_route option" where
  "openRoute sc route ws = (case sc_focused sc of
      Some _ \<Rightarrow> (Inr ws, Some route)
    | None \<Rightarrow> (api_createAppWindow sc (only_route route False) ws, None))"

datatype window_event =
  CreateWindow screen create_input
| CloseWindow screen string
| WindowClosed string
| NavChanged string window_nav
| WindowMoved string window_bounds
| WindowFocus string
| WindowBlur string
| BeforeQuit

fun windows_step :: "windows \<Rightarrow> window_event \<Rightarrow> windows" where
  "windows_step ws (CreateWindow sc inp) = or_same ws (api_createAppWindow sc inp ws)"
| "windows_step ws (CloseWindow sc i) = or_same ws (closeAppWindow sc i ws)"
| "windows_step ws (WindowClosed i) = window_closed i ws"
| "windows_step ws (NavChanged i n) = fst (nav_changed i n ws)"
| "windows_step ws (WindowMoved i b) = saveWindowPosition i b ws"
| "windows_step ws (WindowFocus i) = fst (window_focus i ws)"
| "windows_step ws (WindowBlur i) = windowBlurred i ws"
| "windows_step ws BeforeQuit = ws\<lparr>ws_quitting := True\<rparr>"

section \<open>What is open is stored\<close>

definition windows_ok :: "windows \<Rightarrow> bool" where
  "windows_ok ws \<longleftrightarrow> distinct (map fst (ws_open ws)) \<and> distinct (map fst (ws_stored ws)) \<and>
     fst ` set (ws_open ws) \<subseteq> fst ` set (ws_stored ws) \<inter> fst ` set (ws_nav ws) \<and>
     (\<not> ws_quitting ws \<longrightarrow> fst ` set (ws_stored ws) \<subseteq> fst ` set (ws_open ws))"

text \<open>The sets of keys that the operations make.\<close>

abbreviation keys :: "('k \<times> 'v) list \<Rightarrow> 'k set" where
  "keys m \<equiv> fst ` set m"

lemma createAppWindow_InrD:
  assumes "createAppWindow sc inp ws = Inr ws'"
  obtains active where "nth_opt (ci_routes inp) (ci_routeIndex inp) = Some active"
    "ws_open ws' = obj_set (new_window_id sc inp ws)
        (new_window_bounds (ci_bounds inp) (map_option (sc_bounds sc) (getAWindow (sc_focused sc) (ws_open ws)))
          (getRouteWindowType active)) (ws_open ws)"
    "ws_stored ws' = obj_set (new_window_id sc inp ws) (input_state inp) (ws_stored ws)"
    "ws_nav ws' = obj_set (new_window_id sc inp ws) (input_nav inp) (ws_nav ws)"
    "ws_quitting ws' = ws_quitting ws"
  using assms
  by (cases "nth_opt (ci_routes inp) (ci_routeIndex inp)"; cases "truthy (ci_id inp)")
    (auto simp: createAppWindow_def Let_def windowFocused_def setWindowState_def)

lemma windows_ok_create:
  assumes "windows_ok ws" "createAppWindow sc inp ws = Inr ws'"
  shows "windows_ok ws'"
  using assms(2)
proof (rule createAppWindow_InrD)
  fix active
  let ?i = "new_window_id sc inp ws"
  assume "ws_open ws' = obj_set ?i
        (new_window_bounds (ci_bounds inp) (map_option (sc_bounds sc) (getAWindow (sc_focused sc) (ws_open ws)))
          (getRouteWindowType active)) (ws_open ws)"
    and "ws_stored ws' = obj_set ?i (input_state inp) (ws_stored ws)"
    and "ws_nav ws' = obj_set ?i (input_nav inp) (ws_nav ws)"
    and q: "ws_quitting ws' = ws_quitting ws"
  then have k: "keys (ws_open ws') = insert ?i (keys (ws_open ws))"
      "keys (ws_stored ws') = insert ?i (keys (ws_stored ws))" "keys (ws_nav ws') = insert ?i (keys (ws_nav ws))"
    and d: "distinct (map fst (ws_open ws'))" "distinct (map fst (ws_stored ws'))"
    using assms(1) by (simp_all add: dom_update distinct_update windows_ok_def)
  have "A \<subseteq> B \<inter> C \<Longrightarrow> insert x A \<subseteq> insert x B \<inter> insert x C" for x :: string and A B C by blast
  with assms(1) d show ?thesis
    unfolding windows_ok_def k q by (intro conjI impI) (simp_all only: insert_mono simp_thms)
qed

lemma windows_ok_closed: "windows_ok ws \<Longrightarrow> windows_ok (window_closed i ws)"
proof -
  assume ok: "windows_ok ws"
  have del: "keys (AList.delete i m) = keys m - {i}" for m :: "(string \<times> 'v) list"
    by (metis delete_keys list.set_map set_removeAll)
  have sub: "A \<subseteq> B \<inter> C \<Longrightarrow> A - {i} \<subseteq> (B - {i}) \<inter> C" "A \<subseteq> B \<inter> C \<Longrightarrow> A - {i} \<subseteq> B \<inter> C" for A B C by blast+
  have o: "distinct (map fst (ws_open ws))" "distinct (map fst (ws_stored ws))"
      "keys (ws_open ws) \<subseteq> keys (ws_stored ws) \<inter> keys (ws_nav ws)"
      "\<not> ws_quitting ws \<Longrightarrow> keys (ws_stored ws) \<subseteq> keys (ws_open ws)"
    using ok unfolding windows_ok_def by simp_all
  show ?thesis
  proof (cases "ws_quitting ws")
    case True
    then have "window_closed i ws = ws\<lparr>ws_open := AList.delete i (ws_open ws)\<rparr>" by (simp add: window_closed_def)
    with True o sub(2) [OF o(3)] show ?thesis by (simp add: windows_ok_def del distinct_delete)
  next
    case False
    then have "window_closed i ws = ws\<lparr>ws_open := AList.delete i (ws_open ws), ws_stored := AList.delete i (ws_stored ws)\<rparr>"
      by (simp add: window_closed_def deleteWindowState_def)
    with False o sub(1) [OF o(3)] show ?thesis
      by (simp add: windows_ok_def del distinct_delete Diff_mono)
  qed
qed

lemma windows_ok_focus: "windows_ok ws \<Longrightarrow> windows_ok (fst (window_focus i ws))"
  by (simp add: window_focus_def windowFocused_def windows_ok_def)

lemma api_createAppWindow_cases:
  assumes "api_createAppWindow sc inp ws = Inr ws'"
  shows "createAppWindow sc inp ws = Inr ws' \<or> (\<exists>i. ws' = fst (window_focus i ws))"
  using assms by (auto simp: api_createAppWindow_def bind_result_Inr_iff split: option.splits if_splits)

lemma windows_ok_api_create: "windows_ok ws \<Longrightarrow> api_createAppWindow sc inp ws = Inr ws' \<Longrightarrow> windows_ok ws'"
  using api_createAppWindow_cases windows_ok_create windows_ok_focus by blast

lemma windows_ok_close: "windows_ok ws \<Longrightarrow> closeAppWindow sc i ws = Inr ws' \<Longrightarrow> windows_ok ws'"
  unfolding closeAppWindow_def Let_def
  by (metis Inr_inject windows_ok_closed windows_ok_create)

lemma windows_ok_update:
  assumes "windows_ok ws"
  shows "windows_ok (updateWindowState i f ws)"
proof (cases "map_of (ws_stored ws) i")
  case (Some w)
  then have "i \<in> keys (ws_stored ws)" by (metis image_eqI fst_conv map_of_SomeD)
  with Some assms show ?thesis
    by (simp add: updateWindowState_def windows_ok_def dom_update distinct_update insert_absorb)
qed (use assms in \<open>simp add: updateWindowState_def\<close>)

lemma windows_ok_nav: "windows_ok ws \<Longrightarrow> windows_ok (ws\<lparr>ws_nav := obj_set i n (ws_nav ws)\<rparr>)"
  by (simp add: windows_ok_def dom_update) blast

lemma or_same_ok: "P s \<Longrightarrow> (\<And>s'. r = Inr s' \<Longrightarrow> P s') \<Longrightarrow> P (or_same s r)"
  by (cases r) (simp_all add: or_same_def)

lemma windows_step_ok:
  assumes "windows_ok ws"
  shows "windows_ok (windows_step ws e)"
proof (cases e)
  case (CreateWindow sc inp)
  with assms show ?thesis by (auto intro: or_same_ok windows_ok_api_create)
next
  case (CloseWindow sc i)
  with assms show ?thesis by (auto intro: or_same_ok windows_ok_close)
next
  case (NavChanged i n)
  with assms show ?thesis unfolding NavChanged windows_step.simps nav_changed_def fst_conv
    by (intro windows_ok_update windows_ok_nav)
next
  case (WindowBlur i)
  with assms show ?thesis by (simp add: windowBlurred_def windows_ok_def)
next
  case BeforeQuit
  with assms show ?thesis by (simp add: windows_ok_def)
qed (use assms in \<open>simp_all add: windows_ok_closed windows_ok_update windows_ok_focus saveWindowPosition_def\<close>)

interpretation windows: machine windows_step windows_ok
  by unfold_locales (rule windows_step_ok)

section \<open>Opening the windows again\<close>

text \<open>What a stored list of windows must be for all of them to open again.\<close>

definition active_route :: "app_window \<Rightarrow> nav_route option" where
  "active_route w = nth_opt (aw_routes w) (aw_routeIndex w)"

definition refocus_key :: "app_window \<Rightarrow> string option" where
  "refocus_key w = (case active_route w of None \<Rightarrow> None | Some r \<Rightarrow> getRouteRefocusKey r)"

definition storable :: "(nav_route \<Rightarrow> bool) \<Rightarrow> string \<times> app_window \<Rightarrow> bool" where
  "storable valid e \<longleftrightarrow> fst e \<noteq> [] \<and> active_route (snd e) \<noteq> None \<and> list_all valid (aw_routes (snd e))"

text \<open>No window with a single route shows what another window shows.\<close>

definition no_twins :: "(string \<times> app_window) list \<Rightarrow> bool" where
  "no_twins st \<longleftrightarrow> list_all (\<lambda>(i, w). list_all (\<lambda>(j, v).
     i \<noteq> j \<and> length (aw_routes w) = 1 \<and> refocus_key w \<noteq> None \<longrightarrow> refocus_key v \<noteq> refocus_key w) st) st"

lemma no_twinsD:
  assumes "no_twins st" "(i, w) \<in> set st" "(j, v) \<in> set st" "length (aw_routes w) = 1"
    "refocus_key w \<noteq> None" "refocus_key v = refocus_key w"
  shows "i = j"
proof -
  have "list_all (\<lambda>(j, v). i \<noteq> j \<and> length (aw_routes w) = 1 \<and> refocus_key w \<noteq> None \<longrightarrow> refocus_key v \<noteq> refocus_key w) st"
    using bspec [OF assms(1) [unfolded no_twins_def list_all_iff [of _ st]] assms(2)] by (simp add: list_all_iff)
  from bspec [OF this [unfolded list_all_iff] assms(3)] assms(4-6) show ?thesis by simp
qed

lemma find_window_result:
  "\<forall>e \<in> set st. active_route (snd e) \<noteq> None \<Longrightarrow>
   \<exists>m. find_window k st = Inr m \<and> (\<forall>i. m = Some i \<longrightarrow> (\<exists>w. (i, w) \<in> set st \<and> refocus_key w = k \<and> k \<noteq> None))"
proof (induction k st rule: find_window.induct)
  case (2 k i w rest)
  then obtain r where r: "active_route w = Some r" by auto
  show ?case
  proof (cases "getRouteRefocusKey r \<noteq> None \<and> getRouteRefocusKey r = k")
    case True
    with r show ?thesis by (auto simp: active_route_def refocus_key_def)
  next
    case False
    with 2 r obtain m where "find_window k rest = Inr m"
        "\<forall>i. m = Some i \<longrightarrow> (\<exists>w. (i, w) \<in> set rest \<and> refocus_key w = k \<and> k \<noteq> None)"
      by (auto simp: active_route_def)
    moreover have "find_window k ((i, w) # rest) = find_window k rest"
      using False r by (auto simp: active_route_def)
    ultimately show ?thesis by (metis list.set_intros(2))
  qed
qed simp

text \<open>The stored windows without their bounds, which are the same before and after.\<close>

definition same_windows :: "(string \<times> app_window) list \<Rightarrow> (string \<times> app_window) list \<Rightarrow> bool" where
  "same_windows = list_all2 (\<lambda>(i, w) (j, v). i = j \<and> w\<lparr>aw_bounds := None\<rparr> = v\<lparr>aw_bounds := None\<rparr>)"

lemma same_windows_refl: "same_windows st st"
  by (auto simp: same_windows_def intro: list_all2_refl)

lemma same_windows_update:
  assumes "same_windows st st'" "distinct (map fst st)" "(i, w) \<in> set st"
  shows "same_windows st (obj_set i (w\<lparr>aw_bounds := None\<rparr>) st')"
  using assms unfolding same_windows_def
proof (induction rule: list_all2_induct)
  case (Cons e st f st')
  obtain j u v where e: "e = (j, u)" "f = (j, v)" "u\<lparr>aw_bounds := None\<rparr> = v\<lparr>aw_bounds := None\<rparr>"
    using Cons.hyps(1) by (cases e; cases f) auto
  show ?case
  proof (cases "j = i")
    case True
    with Cons.prems e have "u = w" by (force simp: image_iff)
    with Cons.hyps e True show ?thesis by auto
  next
    case False
    with Cons e show ?thesis by auto
  qed
qed simp

lemma same_windows_member:
  assumes "same_windows st st'" "(j, v) \<in> set st'"
  shows "\<exists>w. (j, w) \<in> set st \<and> active_route v = active_route w \<and> refocus_key v = refocus_key w"
proof -
  obtain n where n: "n < length st'" "st' ! n = (j, v)" using assms(2) by (auto simp: in_set_conv_nth)
  with assms(1) obtain w where w: "st ! n = (j, w)" "w\<lparr>aw_bounds := None\<rparr> = v\<lparr>aw_bounds := None\<rparr>" "n < length st"
    by (cases "st ! n") (auto simp: same_windows_def list_all2_conv_all_nth)
  then have "active_route v = active_route w"
    by (cases v; cases w) (simp add: active_route_def)
  moreover have "(j, w) \<in> set st" using w(1,3) by (metis nth_mem)
  ultimately show ?thesis by (intro exI [of _ w]) (simp add: refocus_key_def)
qed

definition exact_bounds :: "window_bounds \<Rightarrow> new_bounds" where
  "exact_bounds b = \<lparr>nb_x = Some (wb_x b), nb_y = Some (wb_y b), nb_width = Some (wb_width b), nb_height = Some (wb_height b)\<rparr>"

definition nav_of :: "app_window \<Rightarrow> window_nav" where
  "nav_of w = \<lparr>wn_routes = aw_routes w, wn_routeIndex = aw_routeIndex w, wn_sidebarLocked = aw_sidebarLocked w\<rparr>"

text \<open>A stored window is open as it was.\<close>

definition reopened :: "windows \<Rightarrow> string \<times> app_window \<Rightarrow> bool" where
  "reopened ws e \<longleftrightarrow> map_of (ws_nav ws) (fst e) = Some (nav_of (snd e)) \<and>
     (\<forall>b. aw_bounds (snd e) = Some b \<longrightarrow> map_of (ws_open ws) (fst e) = Some (exact_bounds b))"

lemma reopen_step:
  assumes st: "distinct (map fst st)" "list_all (storable valid) st" "no_twins st" "same_windows st (ws_stored ws)"
    and e: "e \<in> set st" "fst e \<notin> keys (ws_open ws)"
  shows "\<exists>ws'. api_createAppWindow sc (restore_input e) ws = Inr ws' \<and> same_windows st (ws_stored ws') \<and>
    map fst (ws_open ws') = map fst (ws_open ws) @ [fst e] \<and> reopened ws' e \<and>
    (\<forall>f. fst f \<noteq> fst e \<longrightarrow> reopened ws f \<longrightarrow> reopened ws' f)"
proof -
  obtain i w where iw: "e = (i, w)" by (cases e)
  obtain r where r: "nth_opt (aw_routes w) (aw_routeIndex w) = Some r" "i \<noteq> []"
    using st(2) e(1) iw by (auto simp: list_all_iff storable_def active_route_def)
  have act: "\<forall>f \<in> set (ws_stored ws). active_route (snd f) \<noteq> None"
  proof
    fix f assume "f \<in> set (ws_stored ws)"
    then obtain u where "(fst f, u) \<in> set st" "active_route (snd f) = active_route u"
      using same_windows_member [OF st(4), of "fst f" "snd f"] by auto
    with st(2) show "active_route (snd f) \<noteq> None" by (auto simp: list_all_iff storable_def)
  qed
  have rk: "refocus_key w = getRouteRefocusKey r" using r by (simp add: refocus_key_def active_route_def)
  obtain m where m: "find_window (refocus_key w) (ws_stored ws) = Inr m"
      "\<And>j. m = Some j \<Longrightarrow> \<exists>v. (j, v) \<in> set (ws_stored ws) \<and> refocus_key v = refocus_key w \<and> refocus_key w \<noteq> None"
    using find_window_result [OF act] by blast
  have "j = i" if mj: "m = Some j" and one: "length (aw_routes w) = 1" for j
  proof -
    obtain v where v: "(j, v) \<in> set (ws_stored ws)" "refocus_key v = refocus_key w" "refocus_key w \<noteq> None"
      using m(2) [OF mj] by blast
    obtain u where u: "(j, u) \<in> set st" "refocus_key u = refocus_key w"
      using same_windows_member [OF st(4) v(1)] v(2) by auto
    have "(i, w) \<in> set st" using e(1) iw by simp
    from no_twinsD [OF st(3) this u(1) one v(3) u(2)] show "j = i" by simp
  qed
  then have create: "api_createAppWindow sc (restore_input e) ws = createAppWindow sc (restore_input e) ws"
    using m(1) r e(2) iw by (auto simp: api_createAppWindow_def restore_input_def rk map_of_eq_None_iff split: option.splits)
  obtain ws' where ws': "createAppWindow sc (restore_input e) ws = Inr ws'"
    using r iw by (simp add: createAppWindow_def restore_input_def Let_def)
  have wid: "new_window_id sc (restore_input e) ws = i"
    using r iw by (simp add: new_window_id_def restore_input_def)
  have inp: "input_state (restore_input e) = w\<lparr>aw_bounds := None\<rparr>" "input_nav (restore_input e) = nav_of w"
    by (simp_all add: iw input_state_def restore_input_def input_nav_def nav_of_def)
  from ws' show ?thesis
  proof (rule createAppWindow_InrD)
    fix active
    let ?b = "new_window_bounds (ci_bounds (restore_input e)) (map_option (sc_bounds sc) (getAWindow (sc_focused sc) (ws_open ws)))
        (getRouteWindowType active)"
    assume "ws_open ws' = obj_set (new_window_id sc (restore_input e) ws) ?b (ws_open ws)"
      and "ws_stored ws' = obj_set (new_window_id sc (restore_input e) ws) (input_state (restore_input e)) (ws_stored ws)"
      and "ws_nav ws' = obj_set (new_window_id sc (restore_input e) ws) (input_nav (restore_input e)) (ws_nav ws)"
    then have b: "ws_open ws' = obj_set i ?b (ws_open ws)" "ws_stored ws' = obj_set i (w\<lparr>aw_bounds := None\<rparr>) (ws_stored ws)"
        "ws_nav ws' = obj_set i (nav_of w) (ws_nav ws)" unfolding wid inp by simp_all
    have new: "ws_open ws' = ws_open ws @ [(i, ?b)]" unfolding b(1) by (rule obj_set_new) (use e(2) iw in simp)
    have exact: "?b = exact_bounds c" if "aw_bounds w = Some c" for c
      using that by (simp add: iw restore_input_def new_window_bounds_def exact_bounds_def)
    have "same_windows st (ws_stored ws')"
      unfolding b using same_windows_update [OF st(4) st(1)] e(1) iw by simp
    moreover have "reopened ws' e"
      using exact by (simp add: reopened_def b(1,3) iw update_conv')
    moreover have "reopened ws' f" if "fst f \<noteq> fst e" "reopened ws f" for f
      using that by (simp add: reopened_def b(1,3) iw update_conv')
    moreover have "map fst (ws_open ws') = map fst (ws_open ws) @ [fst e]" by (simp add: new iw)
    ultimately show ?thesis using ws' create by auto
  qed
qed

lemma reopen_all:
  assumes st: "distinct (map fst st)" "list_all (storable valid) st" "no_twins st"
  shows "same_windows st (ws_stored ws) \<Longrightarrow> st = pre @ es \<Longrightarrow> map fst (ws_open ws) = map fst pre \<Longrightarrow>
    \<forall>e \<in> set pre. reopened ws e \<Longrightarrow>
    (let ws' = foldl (\<lambda>ws e. or_same ws (api_createAppWindow sc (restore_input e) ws)) ws es
     in map fst (ws_open ws') = map fst st \<and> (\<forall>e \<in> set st. reopened ws' e))"
proof (induction es arbitrary: ws pre)
  case (Cons e es)
  have "fst e \<notin> fst ` set pre" using st(1) Cons.prems(2) by auto
  moreover have k: "keys (ws_open ws) = fst ` set pre" using Cons.prems(3) by (metis list.set_map)
  ultimately have "fst e \<notin> keys (ws_open ws)" by simp
  moreover have "e \<in> set st" using Cons.prems(2) by simp
  ultimately obtain ws' where ws': "api_createAppWindow sc (restore_input e) ws = Inr ws'" "same_windows st (ws_stored ws')"
      "map fst (ws_open ws') = map fst (ws_open ws) @ [fst e]" "reopened ws' e"
      "\<forall>f. fst f \<noteq> fst e \<longrightarrow> reopened ws f \<longrightarrow> reopened ws' f"
    using reopen_step [OF st Cons.prems(1), of e sc] by blast
  have "\<forall>f \<in> set (pre @ [e]). reopened ws' f"
    using ws'(4,5) Cons.prems(4) \<open>fst e \<notin> fst ` set pre\<close> by (metis Un_iff empty_iff image_eqI list.set(1) set_ConsD set_append)
  with Cons.IH [of ws' "pre @ [e]"] ws' Cons.prems(2,3) show ?case by (simp add: or_same_def)
qed simp

lemma quit_keeps_stored: "ws_quitting ws \<Longrightarrow> ws_stored (foldl windows_step ws (map WindowClosed is)) = ws_stored ws"
  by (induction "is" arbitrary: ws) (simp_all add: window_closed_def)

section \<open>Properties\<close>

text \<open>
  In every session that starts with nothing stored: each open window has its stored state and its
  navigation state, and until the app is quitting nothing else is stored.
\<close>

theorem open_windows_stored:
  "let ws = foldl windows_step (start_windows None) es
   in keys (ws_open ws) \<subseteq> keys (ws_stored ws) \<inter> keys (ws_nav ws) \<and>
      (ws_quitting ws \<or> keys (ws_stored ws) = keys (ws_open ws))"
proof -
  have "windows_ok (start_windows None)" by (simp add: windows_ok_def start_windows_def or_default_def)
  then have "windows_ok (foldl windows_step (start_windows None) es)" by (rule windows.run_inv)
  then show ?thesis by (auto simp: windows_ok_def Let_def simp del: Int_subset_iff)
qed


definition windows_sample :: windows where
  "windows_sample = (start_windows (Some
     [(''w1'', \<lparr>aw_routes = [defaultRoute, Contacts], aw_routeIndex = 1, aw_bounds = None, aw_sidebarLocked = True\<rparr>),
      (''w2'', \<lparr>aw_routes = [group_at ''hm://g/a''], aw_routeIndex = 0,
         aw_bounds = Some \<lparr>wb_x = 10, wb_y = 20, wb_width = 800, wb_height = 700\<rparr>, aw_sidebarLocked = False\<rparr>)]))"


text \<open>
  The size of a new window without bounds of its own lies between the limits of its type; but
  when a window has the focus and the type has neither a largest nor an initial size, which is so for
  the settings, deleted content and the height of comments, the size is not a number.
\<close>

theorem new_window_size:
  "let b = new_window_bounds None prev (getRouteWindowType route); wt = getRouteWindowType route
   in (nb_width b = None \<longleftrightarrow> prev \<noteq> None \<and> wt_key wt \<in> {''settings'', ''deleted-content''}) \<and>
      (nb_height b = None \<longleftrightarrow> prev \<noteq> None \<and> wt_key wt \<noteq> ''main'') \<and>
      (case nb_width b of None \<Rightarrow> True | Some w \<Rightarrow> wt_minWidth wt \<le> w \<and> w \<le> (case wt_maxWidth wt of None \<Rightarrow> 1280 | Some m \<Rightarrow> m)) \<and>
      (case nb_height b of None \<Rightarrow> True | Some h \<Rightarrow> wt_minHeight wt \<le> h \<and> h \<le> 960)"
  by (cases prev) (simp_all add: new_window_bounds_def getRouteWindowType_def Let_def math_min_def math_max_def num_or_def)

end
