(* ===== verification/Timeline.thy ===== *)
theory Timeline
  imports Prelude
begin

text \<open>
  The changes of an entity (\<^verbatim>\<open>frontend/packages/app/models/changes.ts\<close>): the timeline with the
  citations of each change, and the history of a document version.

  The walk over dependencies does not end when a change depends on itself through others, so it is
  a partial function.
\<close>

section \<open>Model\<close>

record change =
  ch_id :: string
  ch_deps :: "string list"
  ch_createTime :: "nat option"

record TimelineChange =
  tc_change :: change
  tc_deps :: "string list"
  tc_citations :: "string list"
  tc_id :: string

type_synonym timeline = "(string \<times> TimelineChange) list"

definition add_citation :: "string \<Rightarrow> string \<Rightarrow> timeline \<Rightarrow> timeline" where
  "add_citation changeId depId tm = (case map_of tm depId of None \<Rightarrow> tm
    | Some c \<Rightarrow> obj_set depId (c\<lparr>tc_citations := tc_citations c @ [changeId]\<rparr>) tm)"

text \<open>\<open>allChanges\<close>: the two passes over the entries.\<close>

definition entity_timeline :: "(string \<times> change) list \<Rightarrow> timeline" where
  "entity_timeline entries =
     (let base = foldl (\<lambda>tm (k, c). obj_set k \<lparr>tc_change = c, tc_deps = ch_deps c, tc_citations = [], tc_id = ch_id c\<rparr> tm) [] entries
      in foldl (\<lambda>tm (k, c). foldl (\<lambda>tm d. add_citation k d tm) tm (ch_deps c)) base entries)"

text \<open>The loop over the leaves: all changes seen (a set) and the changes to walk on from.\<close>

definition walk_next :: "timeline \<Rightarrow> TimelineChange list \<Rightarrow> string list" where
  "walk_next tm walk = concat (map (\<lambda>c. ch_deps (tc_change c)) walk)"

partial_function (option) walk_leaves :: "timeline \<Rightarrow> string list \<Rightarrow> TimelineChange list \<Rightarrow> string list option" where
  "walk_leaves tm seen walk =
     (if walk = [] then Some seen
      else walk_leaves tm (set_add_all seen (walk_next tm walk)) (List.map_filter (map_of tm) (walk_next tm walk)))"

text \<open>
  \<open>sort\<close> with a comparison: a stable sort, which for a consistent comparison gives the one
  stable order. Later elements go behind those they are not less than.
\<close>

fun insert_by :: "('a \<Rightarrow> 'a \<Rightarrow> int) \<Rightarrow> 'a \<Rightarrow> 'a list \<Rightarrow> 'a list" where
  "insert_by cmp x [] = [x]"
| "insert_by cmp x (y # ys) = (if cmp x y < 0 then x # y # ys else y # insert_by cmp x ys)"

definition js_sort :: "('a \<Rightarrow> 'a \<Rightarrow> int) \<Rightarrow> 'a list \<Rightarrow> 'a list" where
  "js_sort cmp xs = foldl (\<lambda>s x. insert_by cmp x s) [] xs"

definition history_cmp :: "TimelineChange \<Rightarrow> TimelineChange \<Rightarrow> int" where
  "history_cmp a b =
     (let dateA = (case ch_createTime (tc_change a) of Some t \<Rightarrow> int t | None \<Rightarrow> 0);
          dateB = (case ch_createTime (tc_change b) of Some t \<Rightarrow> int t | None \<Rightarrow> 1)
      in dateB - dateA)"

definition version_heads :: "timeline \<Rightarrow> string option \<Rightarrow> TimelineChange list" where
  "version_heads tm version = (case version of None \<Rightarrow> []
    | Some v \<Rightarrow> List.map_filter (map_of tm) (split_by (\<lambda>c. c = CHR ''.'') v))"

definition useDocHistory :: "timeline \<Rightarrow> string option \<Rightarrow> TimelineChange list option" where
  "useDocHistory tm version =
     (let heads = version_heads tm version
      in map_option (\<lambda>ids. js_sort history_cmp (List.map_filter (map_of tm) ids))
           (walk_leaves tm (set_add_all [] (map tc_id heads)) heads))"

section \<open>Sorting\<close>

lemma mset_insert_by: "set (insert_by cmp x ys) = insert x (set ys)" "length (insert_by cmp x ys) = Suc (length ys)"
  by (induction ys) auto

lemma set_js_sort: "set (js_sort cmp xs) = set xs"
  by (induction xs rule: rev_induct) (auto simp: js_sort_def mset_insert_by)

lemma distinct_insert_by: "distinct (map f ys) \<Longrightarrow> f x \<notin> f ` set ys \<Longrightarrow> distinct (map f (insert_by cmp x ys))"
  by (induction ys) (auto simp: mset_insert_by)

lemma distinct_js_sort: "distinct (map f xs) \<Longrightarrow> distinct (map f (js_sort cmp xs))"
proof (induction xs rule: rev_induct)
  case (snoc x xs)
  then show ?case using set_js_sort [of cmp xs] by (auto simp: js_sort_def intro!: distinct_insert_by)
qed (simp add: js_sort_def)

text \<open>When the comparison is the difference of keys, the result is in order.\<close>

lemma sorted_insert_by:
  "\<forall>y \<in> set ys. cmp x y = key y - key x \<Longrightarrow> sorted_wrt (\<lambda>a b. key a \<ge> key b) ys \<Longrightarrow>
   sorted_wrt (\<lambda>a b. key a \<ge> (key b :: int)) (insert_by cmp x ys)"
  by (induction ys) (force simp: mset_insert_by)+

lemma sorted_js_sort:
  "\<forall>x \<in> set xs. \<forall>y \<in> set xs. cmp x y = key y - key x \<Longrightarrow>
   sorted_wrt (\<lambda>a b. key a \<ge> (key b :: int)) (js_sort cmp xs)"
proof (induction xs rule: rev_induct)
  case (snoc x xs)
  then have "sorted_wrt (\<lambda>a b. key a \<ge> key b) (js_sort cmp xs)" by simp
  with snoc.prems set_js_sort [of cmp xs] have "sorted_wrt (\<lambda>a b. key a \<ge> key b) (insert_by cmp x (js_sort cmp xs))"
    by (intro sorted_insert_by) auto
  then show ?case by (simp add: js_sort_def)
qed (simp add: js_sort_def)

section \<open>The timeline\<close>

definition timeline_base :: "(string \<times> change) list \<Rightarrow> timeline" where
  "timeline_base entries = foldl (\<lambda>tm (k, c). obj_set k \<lparr>tc_change = c, tc_deps = ch_deps c, tc_citations = [], tc_id = ch_id c\<rparr> tm) [] entries"

lemma map_of_timeline_base:
  "distinct (map fst entries) \<Longrightarrow> map_of (timeline_base entries) k =
     map_option (\<lambda>c. \<lparr>tc_change = c, tc_deps = ch_deps c, tc_citations = [], tc_id = ch_id c\<rparr>) (map_of entries k)"
proof (induction entries rule: rev_induct)
  case (snoc e entries)
  obtain i c where e: "e = (i, c)" by (cases e)
  from snoc.prems e have "map_of entries i = None" by (auto simp: map_of_eq_None_iff)
  with snoc e show ?case
    by (auto simp: timeline_base_def update_conv' map_add_def split: option.splits)
qed (simp add: timeline_base_def)

lemma map_of_add_citation:
  "map_of (add_citation k d tm) i = map_option (\<lambda>c. if i = d then c\<lparr>tc_citations := tc_citations c @ [k]\<rparr> else c) (map_of tm i)"
  by (cases "map_of tm d"; cases "i = d") (auto simp: add_citation_def update_conv' option.map_ident)

lemma map_of_add_citations:
  "map_of (foldl (\<lambda>tm d. add_citation k d tm) tm ds) i =
    map_option (\<lambda>c. c\<lparr>tc_citations := tc_citations c @ map (\<lambda>_. k) (filter (\<lambda>d. d = i) ds)\<rparr>) (map_of tm i)"
  by (induction ds arbitrary: tm) (auto simp: map_of_add_citation option.map_comp o_def option.map_ident intro!: option.map_cong)

lemma map_of_citation_pass:
  "map_of (foldl (\<lambda>tm (k, c). foldl (\<lambda>tm d. add_citation k d tm) tm (ch_deps c)) tm entries) i =
    map_option (\<lambda>c. c\<lparr>tc_citations := tc_citations c @ concat (map (\<lambda>(k, c). map (\<lambda>_. k) (filter (\<lambda>d. d = i) (ch_deps c))) entries)\<rparr>) (map_of tm i)"
proof (induction entries arbitrary: tm)
  case (Cons e entries)
  then show ?case by (cases e) (simp add: map_of_add_citations option.map_comp o_def)
qed (simp add: option.map_ident)

lemma map_of_timeline:
  "distinct (map fst entries) \<Longrightarrow> map_of (entity_timeline entries) i = map_option (\<lambda>c.
     \<lparr>tc_change = c, tc_deps = ch_deps c,
      tc_citations = concat (map (\<lambda>(k, c). map (\<lambda>_. k) (filter (\<lambda>d. d = i) (ch_deps c))) entries), tc_id = ch_id c\<rparr>)
     (map_of entries i)"
  by (simp add: entity_timeline_def Let_def map_of_citation_pass map_of_timeline_base [unfolded timeline_base_def]
      option.map_comp o_def)

section \<open>The walk ends\<close>

text \<open>From a known change to the known changes it depends on.\<close>

definition dep_rel :: "timeline \<Rightarrow> (string \<times> string) set" where
  "dep_rel tm = {(i, d). \<exists>c. map_of tm i = Some c \<and> d \<in> set (ch_deps (tc_change c)) \<and> map_of tm d \<noteq> None}"

lemma finite_dep_rel [simp]: "finite (dep_rel tm)"
proof (rule finite_subset)
  show "dep_rel tm \<subseteq> fst ` set tm \<times> fst ` set tm"
    by (force simp: dep_rel_def map_of_eq_None_iff dest: map_of_SomeD)
qed simp

text \<open>The ids under which the walked changes are known.\<close>

definition known :: "timeline \<Rightarrow> string set" where
  "known tm = {i. map_of tm i \<noteq> None}"

definition ids_ok :: "timeline \<Rightarrow> bool" where
  "ids_ok tm \<longleftrightarrow> (\<forall>i c. map_of tm i = Some c \<longrightarrow> tc_id c = i)"

lemma walk_next_known:
  assumes "ids_ok tm" "\<forall>c \<in> set walk. map_of tm (tc_id c) = Some c"
  shows "set (walk_next tm walk) \<inter> known tm = dep_rel tm `` (tc_id ` set walk)"
    "tc_id ` set (List.map_filter (map_of tm) (walk_next tm walk)) = dep_rel tm `` (tc_id ` set walk)"
    "\<forall>c \<in> set (List.map_filter (map_of tm) (walk_next tm walk)). map_of tm (tc_id c) = Some c"
proof -
  show 1: "set (walk_next tm walk) \<inter> known tm = dep_rel tm `` (tc_id ` set walk)"
    using assms(2) by (fastforce simp: walk_next_def known_def dep_rel_def)
  have "tc_id ` set (List.map_filter (map_of tm) ds) = set ds \<inter> known tm" for ds
    using assms(1) by (force simp: set_map_filter known_def ids_ok_def)
  with 1 show "tc_id ` set (List.map_filter (map_of tm) (walk_next tm walk)) = dep_rel tm `` (tc_id ` set walk)" by simp
  show "\<forall>c \<in> set (List.map_filter (map_of tm) (walk_next tm walk)). map_of tm (tc_id c) = Some c"
    using assms(1) by (auto simp: set_map_filter ids_ok_def)
qed

lemma walk_leaves_ends:
  assumes ac: "acyclic (dep_rel tm)" and ok: "ids_ok tm"
  shows "\<forall>c \<in> set walk. map_of tm (tc_id c) = Some c \<and> reach_count (dep_rel tm) (tc_id c) < n \<Longrightarrow>
    \<exists>r. walk_leaves tm seen walk = Some r \<and> (distinct seen \<longrightarrow> distinct r) \<and>
      set r \<inter> known tm = set seen \<inter> known tm \<union> (dep_rel tm)\<^sup>+ `` (tc_id ` set walk)"
proof (induction n arbitrary: seen walk)
  case 0
  then have "walk = []" by (cases walk) auto
  then show ?case by (subst walk_leaves.simps) simp
next
  case (Suc n)
  let ?next = "List.map_filter (map_of tm) (walk_next tm walk)"
  note nx = walk_next_known [OF ok, of walk]
  have "\<forall>c \<in> set ?next. reach_count (dep_rel tm) (tc_id c) < n"
  proof
    fix c assume "c \<in> set ?next"
    then have "tc_id c \<in> dep_rel tm `` (tc_id ` set walk)" using nx(2) Suc.prems by blast
    then obtain b where "b \<in> set walk" "(tc_id b, tc_id c) \<in> dep_rel tm" by blast
    with Suc.prems reach_count_less [OF finite_dep_rel ac] show "reach_count (dep_rel tm) (tc_id c) < n" by fastforce
  qed
  with nx(3) Suc.prems Suc.IH [of ?next "set_add_all seen (walk_next tm walk)"] obtain r where
      r: "walk_leaves tm (set_add_all seen (walk_next tm walk)) ?next = Some r" "distinct seen \<longrightarrow> distinct r"
      "set r \<inter> known tm = (set seen \<union> set (walk_next tm walk)) \<inter> known tm \<union> (dep_rel tm)\<^sup>+ `` (tc_id ` set ?next)"
    by auto
  have tr: "(dep_rel tm)\<^sup>+ `` A = dep_rel tm `` A \<union> (dep_rel tm)\<^sup>+ `` (dep_rel tm `` A)" for A
    by (auto elim: converse_tranclE intro: trancl_into_trancl2)
  have "set r \<inter> known tm = set seen \<inter> known tm \<union> (dep_rel tm)\<^sup>+ `` (tc_id ` set walk)"
    unfolding r(3) Int_Un_distrib2 using nx(1,2) Suc.prems by (subst tr) (simp add: Un_assoc)
  moreover have "walk \<noteq> [] \<Longrightarrow> walk_leaves tm seen walk = Some r"
    using r(1) by (subst walk_leaves.simps) simp
  moreover have "walk = [] \<Longrightarrow> walk_leaves tm seen walk = Some seen" by (subst walk_leaves.simps) simp
  ultimately show ?case using r(2) by (cases "walk = []") auto
qed

definition history_of_version :: "timeline \<Rightarrow> string option \<Rightarrow> string set" where
  "history_of_version tm version = (dep_rel tm)\<^sup>* `` (tc_id ` set (version_heads tm version))"

lemma map_filter_map_of:
  assumes "ids_ok tm" "distinct ids"
  shows "distinct (map tc_id (List.map_filter (map_of tm) ids))"
    "tc_id ` set (List.map_filter (map_of tm) ids) = set ids \<inter> known tm"
proof -
  show 2: "tc_id ` set (List.map_filter (map_of tm) ids) = set ids \<inter> known tm" for ids
    using assms(1) by (force simp: set_map_filter known_def ids_ok_def)
  show "distinct (map tc_id (List.map_filter (map_of tm) ids))"
    using assms(2)
  proof (induction ids)
    case (Cons i ids)
    with 2 [of ids] assms(1) show ?case
      by (auto simp: map_filter_simps ids_ok_def split: option.splits)
  qed (simp add: map_filter_simps)
qed

lemma history_ends:
  assumes "acyclic (dep_rel tm)" "ids_ok tm"
  shows "\<exists>h. useDocHistory tm version = Some h \<and> distinct (map tc_id h) \<and> tc_id ` set h = history_of_version tm version
    \<and> (\<forall>c \<in> set h. map_of tm (tc_id c) = Some c)"
proof -
  let ?heads = "version_heads tm version"
  have heads: "\<forall>c \<in> set ?heads. map_of tm (tc_id c) = Some c"
    using assms(2) by (auto simp: version_heads_def set_map_filter ids_ok_def split: option.splits)
  obtain n where "\<forall>c \<in> set ?heads. reach_count (dep_rel tm) (tc_id c) < n"
  proof
    show "\<forall>c \<in> set ?heads. reach_count (dep_rel tm) (tc_id c) < Suc (sum_list (map (\<lambda>c. reach_count (dep_rel tm) (tc_id c)) ?heads))"
      by (auto simp: less_Suc_eq_le intro: member_le_sum_list)
  qed
  with heads walk_leaves_ends [OF assms, of ?heads n "set_add_all [] (map tc_id ?heads)"] obtain ids where
      ids: "walk_leaves tm (set_add_all [] (map tc_id ?heads)) ?heads = Some ids" "distinct ids"
      "set ids \<inter> known tm = (tc_id ` set ?heads) \<inter> known tm \<union> (dep_rel tm)\<^sup>+ `` (tc_id ` set ?heads)" by auto
  have "(tc_id ` set ?heads) \<inter> known tm = tc_id ` set ?heads" using heads by (auto simp: known_def)
  moreover have "(dep_rel tm)\<^sup>* `` A = A \<union> (dep_rel tm)\<^sup>+ `` A" for A
    by (auto dest: rtranclD intro: trancl_into_rtrancl)
  ultimately have "set ids \<inter> known tm = history_of_version tm version"
    using ids(3) by (simp add: history_of_version_def)
  with map_filter_map_of [OF assms(2) ids(2)] ids(1) assms(2) show ?thesis
    by (auto simp: useDocHistory_def Let_def set_js_sort set_map_filter ids_ok_def intro!: distinct_js_sort)
qed

section \<open>Properties\<close>

text \<open>
  The timeline has every change of the entity, cited by exactly the changes that depend on it, in
  the order of the entries, once for each dependency.
\<close>

theorem timeline_citations:
  assumes "distinct (map fst entries)"
  shows "map_of (entity_timeline entries) i = map_option (\<lambda>c.
     \<lparr>tc_change = c, tc_deps = ch_deps c,
      tc_citations = concat (map (\<lambda>(k, c). map (\<lambda>_. k) (filter (\<lambda>d. d = i) (ch_deps c))) entries), tc_id = ch_id c\<rparr>)
     (map_of entries i)"
  using assms by (rule map_of_timeline)

definition entries_sample :: "(string \<times> change) list" where
  "entries_sample = map (\<lambda>(i, ds, t). (i, \<lparr>ch_id = i, ch_deps = ds, ch_createTime = Some t\<rparr>))
     [(''a'', [], 1), (''b'', [''a''], 5), (''c'', [''a''], 3), (''d'', [''b'', ''c''], 9), (''e'', [''d''], 4)]"

theorem timeline_citations_witness:
  "map_option tc_citations (map_of (entity_timeline entries_sample) ''a'') = Some [''b'', ''c'']"
proof -
  have "distinct (map fst entries_sample)" by (simp add: entries_sample_def)
  from timeline_citations [OF this, of "''a''"] show ?thesis by (simp add: entries_sample_def)
qed

text \<open>
  When no change depends on itself through others, the history of a version is computed: it has exactly
  the known changes that the heads of the version depend on, directly or not, and the heads
  themselves, each once; when all of them have a time, the latest is first.
\<close>

theorem doc_history:
  assumes "acyclic (dep_rel tm)" "ids_ok tm"
  shows "\<exists>h. useDocHistory tm version = Some h \<and> distinct (map tc_id h) \<and> tc_id ` set h = history_of_version tm version \<and>
    ((\<forall>c \<in> set h. ch_createTime (tc_change c) \<noteq> None) \<longrightarrow>
      sorted_wrt (\<lambda>a b. the (ch_createTime (tc_change a)) \<ge> the (ch_createTime (tc_change b))) h)"
proof -
  obtain h where h: "useDocHistory tm version = Some h" "distinct (map tc_id h)" "tc_id ` set h = history_of_version tm version"
    using history_ends [OF assms] by blast
  then obtain cs where cs: "h = js_sort history_cmp cs" by (auto simp: useDocHistory_def Let_def)
  have "sorted_wrt (\<lambda>a b. int (the (ch_createTime (tc_change a))) \<ge> int (the (ch_createTime (tc_change b)))) h"
    if "\<forall>c \<in> set h. ch_createTime (tc_change c) \<noteq> None"
    unfolding cs
  proof (rule sorted_js_sort, intro ballI)
    fix x y assume "x \<in> set cs" "y \<in> set cs"
    then have "ch_createTime (tc_change x) \<noteq> None" "ch_createTime (tc_change y) \<noteq> None"
      using that by (simp_all add: cs set_js_sort)
    then show "history_cmp x y = int (the (ch_createTime (tc_change y))) - int (the (ch_createTime (tc_change x)))"
      by (auto simp: history_cmp_def)
  qed
  with h show ?thesis by auto
qed

definition timeline_sample :: timeline where
  "timeline_sample = map (\<lambda>(i, c). (i, \<lparr>tc_change = c, tc_deps = ch_deps c, tc_citations = [], tc_id = i\<rparr>)) entries_sample"

theorem doc_history_witness:
  "\<exists>h. useDocHistory timeline_sample (Some ''d'') = Some h \<and> distinct (map tc_id h) \<and>
    tc_id ` set h = history_of_version timeline_sample (Some ''d'')"
proof -
  have "acyclic (dep_rel timeline_sample)"
    by (rule acyclicI_order [where f = "\<lambda>i. (of_char (hd i) :: nat)"])
      (auto simp: dep_rel_def timeline_sample_def entries_sample_def split: if_splits)
  moreover have "ids_ok timeline_sample"
    by (auto simp: ids_ok_def timeline_sample_def entries_sample_def split: if_splits)
  ultimately show ?thesis using doc_history by blast
qed

end
