(* ===== verification/Publications.thy ===== *)
theory Publications
  imports Hm_Url Hm_Blocks Timeline "HOL-Library.Multiset" "HOL-Library.List_Lexorder" "HOL-Library.Char_ord"
begin

text \<open>
  Reading publications: which version the variants of an id mean
  (\<^verbatim>\<open>frontend/packages/shared/src/variants.ts\<close>), and cutting content to a number of blocks
  (\<^verbatim>\<open>content.ts\<close>). The answers of the daemon are parameters.
\<close>

section \<open>Comparing variants\<close>

record GroupEntry =
  ge_groupId :: string
  ge_pathName :: "string option"

definition groupsVariantsMatch :: "GroupEntry list option \<Rightarrow> GroupEntry list option \<Rightarrow> bool" where
  "groupsVariantsMatch a b = (case (a, b) of
      (None, None) \<Rightarrow> True
    | (Some xs, Some ys) \<Rightarrow> length xs = length ys \<and>
        list_all (\<lambda>x. list_ex (\<lambda>y. ge_groupId x = ge_groupId y \<and> ge_pathName x = ge_pathName y) ys) xs
    | _ \<Rightarrow> False)"

definition stringArrayMatch :: "string list \<Rightarrow> string list \<Rightarrow> bool" where
  "stringArrayMatch a b =
     (let sortedB = sort b
      in length a = length b \<and> list_all (\<lambda>(index, val). nth_opt sortedB index = Some val) (enumerate 0 (sort a)))"

section \<open>The version of a variant\<close>

record doc_group_item =
  dg_groupId :: string
  dg_path :: string
  dg_changeTime :: "int option"
  dg_rawUrl :: "string option"

record author_version =
  av_author :: string
  av_version :: string

definition is_group_variant :: "publication_variant \<Rightarrow> bool" where
  "is_group_variant v = (case v of GroupVariant _ _ \<Rightarrow> True | AuthorVariant _ \<Rightarrow> False)"

text \<open>The order of group entries; a time of 0 counts as missing.\<close>

definition group_item_cmp :: "doc_group_item \<Rightarrow> doc_group_item \<Rightarrow> int" where
  "group_item_cmp a b = (case (dg_changeTime a, dg_changeTime b) of
      (Some s, Some t) \<Rightarrow> if s = 0 \<or> t = 0 then 0 else t - s | _ \<Rightarrow> 0)"

definition group_version :: "string \<Rightarrow> publication_variant \<Rightarrow> doc_group_item list \<Rightarrow> string option" where
  "group_version documentId v items =
     (let docGroupEntry = nth_opt (js_sort group_item_cmp
            (filter (\<lambda>d. dg_groupId d = groupId v \<and> Some (dg_path d) = pathName v) items)) 0;
          rawUrl = (case docGroupEntry of None \<Rightarrow> None | Some d \<Rightarrow> dg_rawUrl d)
      in case (case rawUrl of None \<Rightarrow> None | Some u \<Rightarrow> unpackHmId u) of
          None \<Rightarrow> None
        | Some i \<Rightarrow> if u_qid i = documentId then truthy_str (u_version i) else None)"

definition author_changes :: "publication_variant list \<Rightarrow> author_version list \<Rightarrow> string list" where
  "author_changes authors versions =
     set_add_all [] (concat (map (\<lambda>a. split_by (\<lambda>c. c = CHR ''.'') (av_version a))
       (filter (\<lambda>a. Some (av_author a) \<in> set (map author authors)) versions)))"

record resolved_variant =
  rv_variantVersion :: "string option"
  rv_requestedVersion :: "string option"
  rv_version :: string

text \<open>
  \<open>getPublicationVariant\<close>: the version it asks the daemon for. The daemon's lists of the groups of the
  document and of its authors' versions are only asked for where they are used.
\<close>

definition getPublicationVariant ::
  "doc_group_item list \<Rightarrow> author_version list \<Rightarrow> string \<Rightarrow> publication_variant list option \<Rightarrow> string option \<Rightarrow> bool
     \<Rightarrow> resolved_variant result" where
  "getPublicationVariant items versions documentId variants versionId latest =
     (let requested = (if latest then None else versionId);
          groups = filter is_group_variant (case variants of None \<Rightarrow> [] | Some vs \<Rightarrow> vs);
          authors = filter (\<lambda>v. \<not> is_group_variant v) (case variants of None \<Rightarrow> [] | Some vs \<Rightarrow> vs);
          done = (\<lambda>v. Inr \<lparr>rv_variantVersion = v, rv_requestedVersion = requested,
             rv_version = (if truthy requested then the requested else if truthy v then the v else [])\<rparr>)
      in if length groups > 1 then Inl (Error ''Only one group variant is currently allowed'')
         else if authors \<noteq> [] \<and> groups \<noteq> [] then Inl (Error ''Cannot currently specify multiple variant types'')
         else case groups of
            g # _ \<Rightarrow> done (group_version documentId g items)
          | [] \<Rightarrow> if authors \<noteq> []
              then (let changes = author_changes authors versions
                    in if changes = []
                       then Inl (Error (''Could not find active changes for authors '' @
                         join '', '' (map (\<lambda>a. case a of None \<Rightarrow> [] | Some s \<Rightarrow> s) (set_add_all [] (map author authors)))))
                       else done (Some (join ''.'' changes)))
              else done None)"

section \<open>Clipping content\<close>

text \<open>The blocks that remain after the nodes so far are the second result.\<close>

fun clip_nodes :: "int \<Rightarrow> block_node list \<Rightarrow> block_node list \<times> int" where
  "clip_nodes n [] = ([], n)"
| "clip_nodes n (BlockNode b None # rest) =
     (if n \<le> 0 then clip_nodes n rest
      else (let r = clip_nodes (n - 1) rest in (BlockNode b None # fst r, snd r)))"
| "clip_nodes n (BlockNode b (Some ns) # rest) =
     (if n \<le> 0 then clip_nodes n rest
      else (let below = clip_nodes (n - 1) ns; r = clip_nodes (snd below) rest
            in (BlockNode b (Some (fst below)) # fst r, snd r)))"

definition clipContentBlocks :: "block_node list option \<Rightarrow> int \<Rightarrow> block_node list option" where
  "clipContentBlocks content totalBlocks = map_option (\<lambda>ns. fst (clip_nodes totalBlocks ns)) content"

definition getDocumentTitle :: "string option option \<Rightarrow> string" where
  "getDocumentTitle document = (case document of
      Some (Some t) \<Rightarrow> if t = [] then ''Untitled Document'' else t | _ \<Rightarrow> ''Untitled Document'')"

section \<open>What is kept\<close>

text \<open>The blocks of a tree in the order they are read.\<close>

fun preorder :: "block_node \<Rightarrow> hm_block option list" where
  "preorder (BlockNode b cs) = b # (case cs of None \<Rightarrow> [] | Some ns \<Rightarrow> concat (map preorder ns))"

definition preorders :: "block_node list \<Rightarrow> hm_block option list" where
  "preorders ns = concat (map preorder ns)"

lemma preorders_simps [simp]:
  "preorders [] = []"
  "preorders (BlockNode b cs # rest) = b # (case cs of None \<Rightarrow> [] | Some ns \<Rightarrow> preorders ns) @ preorders rest"
  by (auto simp: preorders_def split: option.splits)

text \<open>A tree with nodes left out: a node only with everything below it.\<close>

fun part_of :: "block_node \<Rightarrow> block_node \<Rightarrow> bool" and parts_of :: "block_node list \<Rightarrow> block_node list \<Rightarrow> bool" where
  "part_of (BlockNode b cs) (BlockNode b' cs') \<longleftrightarrow> b = b' \<and>
     (case (cs, cs') of (None, None) \<Rightarrow> True | (Some ns, Some ns') \<Rightarrow> parts_of ns ns' | _ \<Rightarrow> False)"
| "parts_of [] ns \<longleftrightarrow> True"
| "parts_of (n # ns) [] \<longleftrightarrow> False"
| "parts_of (n # ns) (m # ms) \<longleftrightarrow> part_of n m \<and> parts_of ns ms"

lemma clip_nodes_none: "n \<le> 0 \<Longrightarrow> clip_nodes n ns = ([], n)"
  by (induction n ns rule: clip_nodes.induct) auto

lemma clip_nodes_spec:
  "0 \<le> n \<Longrightarrow> preorders (fst (clip_nodes n ns)) = take (nat n) (preorders ns) \<and>
    snd (clip_nodes n ns) = n - int (min (nat n) (length (preorders ns))) \<and> parts_of (fst (clip_nodes n ns)) ns"
proof (induction n ns rule: clip_nodes.induct)
  case (2 n b rest)
  show ?case
  proof (cases "n = 0")
    case False
    with 2(3) have n: "0 < n" by simp
    then have "nat n = Suc (nat (n - 1))" by linarith
    with n 2(2) show ?thesis by (auto simp: Let_def min_def)
  qed (simp add: clip_nodes_none)
next
  case (3 n b ns rest)
  show ?case
  proof (cases "n = 0")
    case False
    with 3(4) have n: "0 < n" by simp
    let ?m = "snd (clip_nodes (n - 1) ns)"
    have below: "preorders (fst (clip_nodes (n - 1) ns)) = take (nat (n - 1)) (preorders ns)"
        "?m = n - 1 - int (min (nat (n - 1)) (length (preorders ns)))" "parts_of (fst (clip_nodes (n - 1) ns)) ns"
      using 3(2) n by simp_all
    have "0 \<le> ?m" using below(2) n by simp
    with 3(3) n have rest: "preorders (fst (clip_nodes ?m rest)) = take (nat ?m) (preorders rest)"
        "snd (clip_nodes ?m rest) = ?m - int (min (nat ?m) (length (preorders rest)))" "parts_of (fst (clip_nodes ?m rest)) rest"
      by simp_all
    have nat': "nat n = Suc (nat (n - 1))" "nat ?m = nat (n - 1) - length (preorders ns)" using n below(2) by linarith+
    have "clip_nodes n (BlockNode b (Some ns) # rest)
        = (BlockNode b (Some (fst (clip_nodes (n - 1) ns))) # fst (clip_nodes ?m rest), snd (clip_nodes ?m rest))"
      using n by (simp add: Let_def)
    with below rest nat' n show ?thesis by (auto simp: min_def)
  qed (simp add: clip_nodes_none)
qed simp

section \<open>Sorted arrays\<close>

lemma list_all_enumerate_nth:
  "length xs = length ys \<Longrightarrow> list_all (\<lambda>(i, v). nth_opt ys i = Some v) (enumerate 0 xs) \<longleftrightarrow> xs = ys"
  by (auto simp: list_all_length nth_enumerate_eq nth_opt_nth list_eq_iff_nth_eq)

lemma stringArrayMatch_mset: "stringArrayMatch a b \<longleftrightarrow> mset a = mset b"
proof -
  have "sort a = sort b \<longleftrightarrow> mset a = mset b"
    by (metis mset_sort properties_for_sort sorted_sort)
  moreover have "stringArrayMatch a b \<longleftrightarrow> length a = length b \<and> sort a = sort b"
    using list_all_enumerate_nth [of "sort a" "sort b"] by (auto simp: stringArrayMatch_def Let_def)
  ultimately show ?thesis by (auto dest: mset_eq_length)
qed

lemma groupsVariantsMatch_set:
  assumes d: "distinct xs" "distinct ys"
  shows "groupsVariantsMatch (Some xs) (Some ys) \<longleftrightarrow> set xs = set ys"
proof -
  have "groupsVariantsMatch (Some xs) (Some ys) \<longleftrightarrow> length xs = length ys \<and> set xs \<subseteq> set ys"
    by (auto simp: groupsVariantsMatch_def list_all_iff list_ex_iff subset_iff intro: GroupEntry.equality)
       (metis GroupEntry.equality old.unit.exhaust)
  moreover have "length xs = length ys \<and> set xs \<subseteq> set ys \<longleftrightarrow> set xs = set ys"
    using d by (metis List.finite_set card_subset_eq distinct_card order_refl)
  ultimately show ?thesis by simp
qed

text \<open>The changes a version stands for.\<close>

definition changes_of :: "string \<Rightarrow> string list" where
  "changes_of v = split_by (\<lambda>c. c = CHR ''.'') v"

section \<open>Properties\<close>

text \<open>
  Two arrays of strings match exactly when they have the same strings, each as often; two lists of group
  entries without duplicates match exactly when they have the same entries, in any order.
\<close>

theorem variants_match:
  "(stringArrayMatch a b \<longleftrightarrow> mset a = mset b) \<and>
   (distinct xs \<and> distinct ys \<longrightarrow> (groupsVariantsMatch (Some xs) (Some ys) \<longleftrightarrow> set xs = set ys))"
  using stringArrayMatch_mset groupsVariantsMatch_set by blast

theorem variants_match_witness:
  "stringArrayMatch [''b'', ''a''] [''a'', ''b''] \<and>
   groupsVariantsMatch (Some [\<lparr>ge_groupId = ''g'', ge_pathName = None\<rparr>, \<lparr>ge_groupId = ''g'', ge_pathName = Some ''p''\<rparr>])
     (Some [\<lparr>ge_groupId = ''g'', ge_pathName = Some ''p''\<rparr>, \<lparr>ge_groupId = ''g'', ge_pathName = None\<rparr>])"
  using variants_match [of "[''b'', ''a'']" "[''a'', ''b'']"
      "[\<lparr>ge_groupId = ''g'', ge_pathName = None\<rparr>, \<lparr>ge_groupId = ''g'', ge_pathName = Some ''p''\<rparr>]"
      "[\<lparr>ge_groupId = ''g'', ge_pathName = Some ''p''\<rparr>, \<lparr>ge_groupId = ''g'', ge_pathName = None\<rparr>]"] by auto

text \<open>
  With author variants only, the version is that of all changes in the versions of these authors,
  each once, unless a version is requested and the latest is not; the call raises exactly when the
  document has no version of any of the authors.
\<close>

theorem author_variant_version:
  assumes "vs \<noteq> []" "\<forall>v \<in> set vs. \<not> is_group_variant v"
  shows "case getPublicationVariant items versions documentId (Some vs) versionId latest of
      Inl e \<Rightarrow> \<forall>a \<in> set versions. Some (av_author a) \<notin> author ` set vs
    | Inr r \<Rightarrow> \<exists>v. rv_variantVersion r = Some v \<and> distinct (changes_of v) \<and>
        set (changes_of v) = (\<Union>a \<in> {a \<in> set versions. Some (av_author a) \<in> author ` set vs}. set (changes_of (av_version a))) \<and>
        rv_version r = (if \<not> latest \<and> truthy versionId then the versionId else v)"
proof -
  have vs: "filter is_group_variant vs = []" "filter (\<lambda>v. \<not> is_group_variant v) vs = vs"
    using assms(2) by (auto intro: filter_True simp: filter_empty_conv)
  let ?cs = "author_changes vs versions"
  have cs: "set ?cs = (\<Union>a \<in> {a \<in> set versions. Some (av_author a) \<in> author ` set vs}. set (changes_of (av_version a)))" "distinct ?cs"
    by (auto simp: author_changes_def changes_of_def)
  show ?thesis
  proof (cases "?cs = []")
    case True
    then have "\<forall>a \<in> set versions. Some (av_author a) \<notin> author ` set vs" using cs(1) by (auto simp: changes_of_def)
    with True vs assms(1) show ?thesis by (simp add: getPublicationVariant_def Let_def)
  next
    case False
    have "changes_of (join ''.'' ?cs) = ?cs"
      unfolding changes_of_def by (rule split_by_join [OF False]) (auto simp: cs(1) changes_of_def dest: split_by_segments)
    with False vs assms(1) cs show ?thesis by (auto simp: getPublicationVariant_def Let_def)
  qed
qed

theorem author_variant_version_witness:
  "case getPublicationVariant [] [\<lparr>av_author = ''alice'', av_version = ''x.y''\<rparr>] ''hm://d/1'' (Some [AuthorVariant (Some ''alice'')]) None False of
      Inl e \<Rightarrow> False
    | Inr r \<Rightarrow> \<exists>v. rv_variantVersion r = Some v \<and> set (changes_of v) = {''x'', ''y''}"
proof -
  have "[AuthorVariant (Some ''alice'')] \<noteq> []" "\<forall>v \<in> set [AuthorVariant (Some ''alice'')]. \<not> is_group_variant v"
    by (simp_all add: is_group_variant_def)
  from author_variant_version [OF this, where items = "[]" and versions = "[\<lparr>av_author = ''alice'', av_version = ''x.y''\<rparr>]"
      and documentId = "''hm://d/1''" and versionId = None and latest = False]
  show ?thesis by (auto simp: changes_of_def split: sum.splits)
qed

text \<open>
  Clipping keeps exactly the first blocks in reading order, as many as asked for, each below the same
  parent as before.
\<close>

theorem clip_first_blocks:
  "clipContentBlocks (Some ns) n = Some (fst (clip_nodes n ns)) \<and>
   preorders (fst (clip_nodes n ns)) = take (nat n) (preorders ns) \<and> parts_of (fst (clip_nodes n ns)) ns"
  using clip_nodes_spec [of n ns] by (cases "0 \<le> n") (simp_all add: clipContentBlocks_def clip_nodes_none)

end
