(* ===== verification/Editor_Nodes.thy ===== *)
theory Editor_Nodes
  imports Hm_Blocks "HOL-Library.Multiset"
begin

text \<open>
  Between the blocks of the editor's interface and the nodes of its document
  (\<^verbatim>\<open>frontend/packages/editor/src/blocknote/core/api/nodeConversions/nodeConversions.ts\<close>
  with \<open>getBlockInfo\<close>): blocks become nodes when content is loaded or inserted, and nodes become blocks
  again whenever the app reads the editor.

  The document library is ProseMirror, which is not in the sources. Its nodes and marks are the
  datatypes below. What its schema does is an argument: the node types it knows, how it completes
  the attributes of a node or a mark, how it orders marks, how it stores a list of inline nodes.
  \<open>schema_laws\<close> states what its documentation says of these.

  The cache of blocks that \<open>nodeToBlock\<close> can be given is left out: nodes do not change, and the
  cached block is the one computed before for the same node. A partial block whose props or
  children are undefined has none.
\<close>

section \<open>Values, marks and nodes\<close>

text \<open>A value of JavaScript as an attribute holds it; \<open>JNum None\<close> is \<open>NaN\<close>.\<close>

datatype dyn = JUndef | JNull | JBool bool | JNum "int option" | JStr string

type_synonym attrs = "(string \<times> dyn) list"

definition get_attr :: "attrs \<Rightarrow> string \<Rightarrow> dyn" where
  "get_attr as k = (case map_of as k of None \<Rightarrow> JUndef | Some v \<Rightarrow> v)"

fun dyn_true :: "dyn \<Rightarrow> bool" where
  "dyn_true (JBool b) = b"
| "dyn_true (JNum n) = (n \<noteq> None \<and> n \<noteq> Some 0)"
| "dyn_true (JStr s) = (s \<noteq> [])"
| "dyn_true _ = False"

datatype pm_mark = Mark (mark_type: string) (mark_attrs: attrs)

datatype pm_node =
  PText (pm_text: string) (pm_marks: "pm_mark list")
| PNode (pm_type: string) (pm_attrs: attrs) (pm_content: "pm_node list") (pm_marks: "pm_mark list")

fun type_name :: "pm_node \<Rightarrow> string" where
  "type_name (PText t ms) = ''text''"
| "type_name (PNode n as cs ms) = n"

fun node_attrs :: "pm_node \<Rightarrow> attrs" where
  "node_attrs (PText t ms) = []"
| "node_attrs (PNode n as cs ms) = as"

fun child_nodes :: "pm_node \<Rightarrow> pm_node list" where
  "child_nodes (PText t ms) = []"
| "child_nodes (PNode n as cs ms) = cs"

text \<open>\<open>node.textContent\<close>: no node type of the sources has a text of its own.\<close>

fun text_content :: "pm_node \<Rightarrow> string" where
  "text_content (PText t ms) = t"
| "text_content (PNode n as cs ms) = concat (map text_content cs)"

record pm_schema =
  s_known :: "string \<Rightarrow> bool"
  s_attrs :: "string \<Rightarrow> attrs \<Rightarrow> attrs"
  s_mark_attrs :: "string \<Rightarrow> attrs \<Rightarrow> attrs"
  s_mark_set :: "pm_mark list \<Rightarrow> pm_mark list"
  s_fragment :: "pm_node list \<Rightarrow> pm_node list"

definition schema_mark :: "pm_schema \<Rightarrow> string \<Rightarrow> attrs \<Rightarrow> pm_mark" where
  "schema_mark S k as = Mark k (s_mark_attrs S k as)"

definition schema_text :: "pm_schema \<Rightarrow> string \<Rightarrow> pm_mark list \<Rightarrow> pm_node result" where
  "schema_text S t ms = (if t = [] then Inl (Error ''Empty text nodes are not allowed'')
     else Inr (PText t (s_mark_set S ms)))"

definition schema_create :: "pm_schema \<Rightarrow> string \<Rightarrow> attrs \<Rightarrow> pm_node list \<Rightarrow> pm_node result" where
  "schema_create S n as cs = (if s_known S n then Inr (PNode n (s_attrs S n as) (s_fragment S cs) [])
     else Inl TypeError)"

section \<open>Inline content\<close>

datatype text_run = Run (run_text: string) (run_styles: attrs)

datatype inline_content =
  CText text_run
| CLink dyn "text_run list"
| CEmbed dyn

datatype link_content = LString string | LRuns "text_run list"

text \<open>Content as it is given; \<open>PIOther\<close> is an element of a type that is none of the three.\<close>

datatype partial_inline =
  PIText text_run
| PILink dyn link_content
| PIEmbed dyn
| PIOther string

definition toggleStyles :: "string list" where
  "toggleStyles = [''bold'', ''italic'', ''underline'', ''strike'', ''code'']"

definition colorStyles :: "string list" where
  "colorStyles = [''textColor'', ''backgroundColor'']"

subsection \<open>Writing\<close>

definition style_marks :: "pm_schema \<Rightarrow> attrs \<Rightarrow> pm_mark list" where
  "style_marks S st = List.map_filter (\<lambda>(k, v).
     if k \<in> set toggleStyles then Some (schema_mark S k [])
     else if k \<in> set colorStyles then Some (schema_mark S k [(''color'', v)])
     else None) st"

text \<open>\<open>text.split(/(\n)/g)\<close>: the pieces and the line breaks between them.\<close>

fun split_breaks :: "string \<Rightarrow> string \<Rightarrow> string list" where
  "split_breaks cur [] = [cur]"
| "split_breaks cur (c # cs) =
     (if c = CHR 0x0A then cur # [CHR 0x0A] # split_breaks [] cs else split_breaks (cur @ [c]) cs)"

definition styledTextToNodes :: "pm_schema \<Rightarrow> text_run \<Rightarrow> pm_node list result" where
  "styledTextToNodes S r = traverse (\<lambda>t.
     if t = [CHR 0x0A] then schema_create S ''hardBreak'' [] []
     else schema_text S t (style_marks S (run_styles r)))
     (filter (\<lambda>t. t \<noteq> []) (split_breaks [] (run_text r)))"

definition styledTextArrayToNodes :: "pm_schema \<Rightarrow> link_content \<Rightarrow> pm_node list result" where
  "styledTextArrayToNodes S c = (case c of
     LString s \<Rightarrow> styledTextToNodes S (Run s [])
   | LRuns rs \<Rightarrow> map_result concat (traverse (styledTextToNodes S) rs))"

definition link_node :: "pm_mark \<Rightarrow> pm_node \<Rightarrow> pm_node result" where
  "link_node m n = (case n of
     PText t ms \<Rightarrow> Inr (PText t (ms @ [m]))
   | PNode k as cs ms \<Rightarrow> if k = ''hardBreak'' then Inr n else Inl (Error ''unexpected node type''))"

definition linkToNodes :: "pm_schema \<Rightarrow> dyn \<Rightarrow> link_content \<Rightarrow> pm_node list result" where
  "linkToNodes S href c =
     (let linkMark = schema_mark S ''link'' [(''href'', href)]
      in bind_result (styledTextArrayToNodes S c) (traverse (link_node linkMark)))"

definition inlineContentToNodes :: "pm_schema \<Rightarrow> partial_inline list \<Rightarrow> pm_node list result" where
  "inlineContentToNodes S c = map_result concat (traverse (\<lambda>x. case x of
     PILink href lc \<Rightarrow> linkToNodes S href lc
   | PIText r \<Rightarrow> styledTextArrayToNodes S (LRuns [r])
   | PIEmbed ref \<Rightarrow> map_result (\<lambda>n. [n]) (schema_create S ''inline-embed'' [(''ref'', ref)] [])
   | PIOther t \<Rightarrow> Inl (Error ''Unreachable case: [object Object]'')) c)"

subsection \<open>Reading\<close>

text \<open>The styles and the link of a node, from its marks; the last link mark counts.\<close>

fun mark_loop :: "pm_mark list \<Rightarrow> attrs \<Rightarrow> pm_mark option \<Rightarrow> (attrs \<times> pm_mark option) result" where
  "mark_loop [] st l = Inr (st, l)"
| "mark_loop (Mark k as # ms) st l =
     (if k = ''link'' then mark_loop ms st (Some (Mark k as))
      else if k \<in> set toggleStyles then mark_loop ms (obj_set k (JBool True) st) l
      else if k \<in> set colorStyles then mark_loop ms (obj_set k (get_attr as ''color'') st) l
      else Inl (Error (''Mark is of an unrecognized type: '' @ k)))"

text \<open>
  Two styles objects have the same \<open>JSON.stringify\<close> when they have the same entries in the
  same order, apart from what that function leaves out or prints as \<open>null\<close>.
\<close>

definition json_view :: "attrs \<Rightarrow> attrs" where
  "json_view st = map (\<lambda>(k, v). (k, if v = JNum None then JNull else v))
     (filter (\<lambda>(k, v). v \<noteq> JUndef) st)"

definition json_same :: "attrs \<Rightarrow> attrs \<Rightarrow> bool" where
  "json_same a b \<longleftrightarrow> json_view a = json_view b"

definition start_content :: "string \<Rightarrow> attrs \<Rightarrow> pm_mark option \<Rightarrow> inline_content" where
  "start_content t st l = (case l of
     None \<Rightarrow> CText (Run t st)
   | Some m \<Rightarrow> CLink (get_attr (mark_attrs m) ''href'') [Run t st])"

fun add_text :: "string \<Rightarrow> text_run \<Rightarrow> text_run" where
  "add_text t (Run u st) = Run (u @ t) st"

definition append_last :: "string \<Rightarrow> text_run list \<Rightarrow> text_run list" where
  "append_last t rs = butlast rs @ [add_text t (last rs)]"

type_synonym reading = "inline_content list \<times> inline_content option"

text \<open>A text node, with its styles and its link, after what was read so far.\<close>

definition read_text :: "string \<Rightarrow> attrs \<Rightarrow> pm_mark option \<Rightarrow> reading \<Rightarrow> reading result" where
  "read_text t st l s = (case s of (content, cur) \<Rightarrow> (case cur of
     None \<Rightarrow> Inr (content, Some (start_content t st l))
   | Some (CText r) \<Rightarrow>
       if l = None \<and> json_same (run_styles r) st then Inr (content, Some (CText (add_text t r)))
       else Inr (content @ [CText r], Some (start_content t st l))
   | Some (CLink h rs) \<Rightarrow> (case l of
       None \<Rightarrow> Inr (content @ [CLink h rs], Some (start_content t st l))
     | Some m \<Rightarrow>
         if h = get_attr (mark_attrs m) ''href''
         then (if rs = [] then Inl TypeError
               else if json_same (run_styles (last rs)) st then Inr (content, Some (CLink h (append_last t rs)))
               else Inr (content, Some (CLink h (rs @ [Run t st]))))
         else Inr (content @ [CLink h rs], Some (start_content t st l)))
   | Some (CEmbed r) \<Rightarrow> Inr s))"

definition read_break :: "reading \<Rightarrow> reading result" where
  "read_break s = (case s of (content, cur) \<Rightarrow> (case cur of
     None \<Rightarrow> Inr (content, Some (CText (Run [CHR 0x0A] [])))
   | Some (CText r) \<Rightarrow> Inr (content, Some (CText (add_text [CHR 0x0A] r)))
   | Some (CLink h rs) \<Rightarrow>
       if rs = [] then Inl TypeError else Inr (content, Some (CLink h (append_last [CHR 0x0A] rs)))
   | Some (CEmbed r) \<Rightarrow> Inr s))"

definition push_current :: "reading \<Rightarrow> inline_content list" where
  "push_current s = (case s of (content, cur) \<Rightarrow> content @ (case cur of None \<Rightarrow> [] | Some c \<Rightarrow> [c]))"

definition read_node :: "pm_node \<Rightarrow> reading \<Rightarrow> reading result" where
  "read_node n s =
     (if type_name n = ''hardBreak'' then read_break s
      else
        (let s' = (if type_name n = ''inline-embed''
                   then (push_current s @ [CEmbed (get_attr (node_attrs n) ''ref'')], None) else s)
         in bind_result (mark_loop (pm_marks n) [] None)
              (\<lambda>(st, l). read_text (text_content n) st l s')))"

fun read_loop :: "pm_node list \<Rightarrow> reading \<Rightarrow> reading result" where
  "read_loop [] s = Inr s"
| "read_loop (n # ns) s = bind_result (read_node n s) (read_loop ns)"

definition contentNodeToInlineContent :: "pm_node \<Rightarrow> inline_content list result" where
  "contentNodeToInlineContent n = map_result push_current (read_loop (child_nodes n) ([], None))"

section \<open>What is on show\<close>

text \<open>
  The abstract view of inline content and of nodes: one cell for each character, with its link
  and its styles, one for each line break, one for each embed. A break shows no style.
\<close>

datatype cell = Cell char "dyn option" "string \<Rightarrow> dyn option" | Break | EmbedCell dyn

definition style_key :: "string \<Rightarrow> bool" where
  "style_key k \<longleftrightarrow> k \<in> set toggleStyles \<or> k \<in> set colorStyles"

definition style_view :: "attrs \<Rightarrow> string \<Rightarrow> dyn option" where
  "style_view st k = (if style_key k then map_of (json_view st) k else None)"

definition text_cells :: "dyn option \<Rightarrow> attrs \<Rightarrow> string \<Rightarrow> cell list" where
  "text_cells l st t = map (\<lambda>c. if c = CHR 0x0A then Break else Cell c l (style_view st)) t"

definition run_cells :: "dyn option \<Rightarrow> text_run \<Rightarrow> cell list" where
  "run_cells l r = text_cells l (run_styles r) (run_text r)"

fun inline_cells :: "inline_content \<Rightarrow> cell list" where
  "inline_cells (CText r) = run_cells None r"
| "inline_cells (CLink h rs) = concat (map (run_cells (Some h)) rs)"
| "inline_cells (CEmbed ref) = [EmbedCell ref]"

definition content_cells :: "inline_content list \<Rightarrow> cell list" where
  "content_cells c = concat (map inline_cells c)"

definition node_cells :: "pm_node \<Rightarrow> cell list" where
  "node_cells n =
     (if type_name n = ''hardBreak'' then [Break]
      else (if type_name n = ''inline-embed'' then [EmbedCell (get_attr (node_attrs n) ''ref'')] else []) @
        (case mark_loop (pm_marks n) [] None of
           Inl e \<Rightarrow> []
         | Inr (st, l) \<Rightarrow> text_cells (map_option (\<lambda>m. get_attr (mark_attrs m) ''href'') l) st (text_content n)))"

definition nodes_cells :: "pm_node list \<Rightarrow> cell list" where
  "nodes_cells ns = concat (map node_cells ns)"

definition known_mark :: "string \<Rightarrow> bool" where
  "known_mark k \<longleftrightarrow> k = ''link'' \<or> k \<in> set toggleStyles \<or> k \<in> set colorStyles"

definition readable :: "pm_node \<Rightarrow> bool" where
  "readable n \<longleftrightarrow> type_name n = ''hardBreak'' \<or> list_all (\<lambda>m. known_mark (mark_type m)) (pm_marks n)"

lemma text_cells_simps [simp]:
  "text_cells l st [] = []" "text_cells l st (t @ u) = text_cells l st t @ text_cells l st u"
  "text_cells l st (c # t) = (if c = CHR 0x0A then Break else Cell c l (style_view st)) # text_cells l st t"
  by (simp_all add: text_cells_def)

lemma cells_simps [simp]:
  "content_cells [] = []" "content_cells (x # c) = inline_cells x @ content_cells c"
  "content_cells (c @ d) = content_cells c @ content_cells d"
  "nodes_cells [] = []" "nodes_cells (n # ns) = node_cells n @ nodes_cells ns"
  "nodes_cells (ns @ ms) = nodes_cells ns @ nodes_cells ms"
  by (simp_all add: content_cells_def nodes_cells_def)

lemma run_cells_add_text:
  "run_cells l (add_text t r) = run_cells l r @ text_cells l (run_styles r) t"
  by (cases r) (simp add: run_cells_def)

lemma run_styles_add_text [simp]: "run_styles (add_text t r) = run_styles r"
  by (cases r) simp

lemma style_view_same: "json_same a b \<Longrightarrow> style_view a = style_view b"
  by (simp add: json_same_def style_view_def fun_eq_iff)

lemma text_cells_same: "json_same a b \<Longrightarrow> text_cells l a t = text_cells l b t"
  by (simp add: text_cells_def style_view_same)

lemma text_cells_break: "text_cells l st [CHR 0x0A] = [Break]"
  by simp

lemma concat_append_last:
  "rs \<noteq> [] \<Longrightarrow> concat (map (run_cells l) (append_last t rs)) =
     concat (map (run_cells l) rs) @ text_cells l (run_styles (last rs)) t"
proof -
  assume "rs \<noteq> []"
  then obtain us r where "rs = us @ [r]" by (meson rev_exhaust)
  then show ?thesis by (simp add: append_last_def run_cells_add_text)
qed

lemma append_last_ne [simp]: "append_last t rs \<noteq> []"
  by (simp add: append_last_def)

section \<open>Reading keeps what is on show\<close>

fun good_current :: "inline_content option \<Rightarrow> bool" where
  "good_current (Some (CLink h rs)) \<longleftrightarrow> rs \<noteq> []"
| "good_current (Some (CEmbed r)) \<longleftrightarrow> False"
| "good_current _ \<longleftrightarrow> True"

lemma inline_cells_start_content:
  "inline_cells (start_content t st l) = text_cells (map_option (\<lambda>m. get_attr (mark_attrs m) ''href'') l) st t"
  by (cases l) (simp_all add: start_content_def run_cells_def)

lemma good_start_content [simp]: "good_current (Some (start_content t st l))"
  by (cases l) (simp_all add: start_content_def)

lemma push_current_simps [simp]:
  "push_current (c, None) = c" "push_current (c, Some x) = c @ [x]"
  by (simp_all add: push_current_def)

lemma read_text_cells:
  assumes "good_current (snd s)"
  obtains s' where "read_text t st l s = Inr s'" "good_current (snd s')"
    "content_cells (push_current s') = content_cells (push_current s) @
       text_cells (map_option (\<lambda>m. get_attr (mark_attrs m) ''href'') l) st t"
proof -
  obtain c cur where s: "s = (c, cur)" by (cases s)
  have "\<exists>s'. read_text t st l s = Inr s' \<and> good_current (snd s') \<and>
    content_cells (push_current s') = content_cells (push_current s) @
       text_cells (map_option (\<lambda>m. get_attr (mark_attrs m) ''href'') l) st t"
    using assms unfolding s
    by (cases "cur" rule: good_current.cases; cases l)
       (auto simp: read_text_def inline_cells_start_content run_cells_add_text concat_append_last
          run_cells_def [of _ "Run _ _"] intro: text_cells_same)
  then show thesis using that by blast
qed

lemma read_break_cells:
  assumes "good_current (snd s)"
  obtains s' where "read_break s = Inr s'" "good_current (snd s')"
    "content_cells (push_current s') = content_cells (push_current s) @ [Break]"
proof -
  obtain c cur where s: "s = (c, cur)" by (cases s)
  have "\<exists>s'. read_break s = Inr s' \<and> good_current (snd s') \<and>
    content_cells (push_current s') = content_cells (push_current s) @ [Break]"
    using assms unfolding s
    by (cases "cur" rule: good_current.cases)
       (auto simp: read_break_def run_cells_add_text concat_append_last run_cells_def [of _ "Run _ _"])
  then show thesis using that by blast
qed

lemma mark_loop_known:
  "list_all (\<lambda>m. known_mark (mark_type m)) ms \<Longrightarrow> \<exists>r. mark_loop ms st l = Inr r"
  by (induction ms st l rule: mark_loop.induct) (auto simp: known_mark_def)

lemma read_node_cells:
  assumes "good_current (snd s)" and "readable n"
  obtains s' where "read_node n s = Inr s'" "good_current (snd s')"
    "content_cells (push_current s') = content_cells (push_current s) @ node_cells n"
proof (cases "type_name n = ''hardBreak''")
  case True
  show thesis
    using assms(1) by (rule read_break_cells) (rule that, use True in \<open>simp_all add: read_node_def node_cells_def\<close>)
next
  case False
  with assms(2) obtain st l where m: "mark_loop (pm_marks n) [] None = Inr (st, l)"
    using mark_loop_known by (fastforce simp: readable_def)
  define s0 where "s0 = (if type_name n = ''inline-embed''
    then (push_current s @ [CEmbed (get_attr (node_attrs n) ''ref'')], None) else s)"
  have good: "good_current (snd s0)" using assms(1) by (simp add: s0_def)
  have c0: "content_cells (push_current s0) = content_cells (push_current s) @
      (if type_name n = ''inline-embed'' then [EmbedCell (get_attr (node_attrs n) ''ref'')] else [])"
    by (simp add: s0_def)
  show thesis
    using good by (rule read_text_cells [of s0 "text_content n" st l])
      (rule that, use False m c0 in \<open>simp_all add: read_node_def node_cells_def s0_def\<close>)
qed

lemma read_loop_cells:
  assumes "good_current (snd s)" and "list_all readable ns"
  shows "\<exists>s'. read_loop ns s = Inr s' \<and>
    content_cells (push_current s') = content_cells (push_current s) @ nodes_cells ns"
  using assms
proof (induction ns arbitrary: s)
  case (Cons n ns)
  from Cons.prems obtain s1 where s1: "read_node n s = Inr s1" "good_current (snd s1)"
    "content_cells (push_current s1) = content_cells (push_current s) @ node_cells n"
    by (elim read_node_cells [of s n]) auto
  from Cons.IH [OF s1(2)] Cons.prems(2) s1 show ?case by auto
qed simp

lemma reading_keeps_cells_core:
  assumes "list_all readable (child_nodes n)"
  shows "\<exists>c. contentNodeToInlineContent n = Inr c \<and> content_cells c = nodes_cells (child_nodes n)"
  using read_loop_cells [of "([], None)" "child_nodes n"] assms
  by (auto simp: contentNodeToInlineContent_def)

section \<open>Reading merges what belongs together\<close>

definition runs_merge :: "text_run \<Rightarrow> text_run \<Rightarrow> bool" where
  "runs_merge a b \<longleftrightarrow> json_same (run_styles a) (run_styles b)"

fun inlines_merge :: "inline_content \<Rightarrow> inline_content \<Rightarrow> bool" where
  "inlines_merge (CText a) (CText b) \<longleftrightarrow> runs_merge a b"
| "inlines_merge (CLink h rs) (CLink h' rs') \<longleftrightarrow> h = h'"
| "inlines_merge _ _ \<longleftrightarrow> False"

fun merged_inline :: "inline_content \<Rightarrow> bool" where
  "merged_inline (CLink h rs) \<longleftrightarrow> rs \<noteq> [] \<and> successively (\<lambda>a b. \<not> runs_merge a b) rs"
| "merged_inline _ \<longleftrightarrow> True"

definition merged :: "inline_content list \<Rightarrow> bool" where
  "merged c \<longleftrightarrow> list_all merged_inline c \<and> successively (\<lambda>a b. \<not> inlines_merge a b) c"

lemma runs_merge_add_text [simp]: "runs_merge a (add_text t b) = runs_merge a b"
  by (simp add: runs_merge_def)

lemma inlines_merge_change [simp]:
  "inlines_merge x (CText (add_text t r)) = inlines_merge x (CText r)"
  "inlines_merge x (CLink h (append_last t rs)) = inlines_merge x (CLink h rs)"
  "inlines_merge x (CLink h (rs @ [r])) = inlines_merge x (CLink h rs)"
  by (cases x; simp)+

lemma successively_append_last:
  "rs \<noteq> [] \<Longrightarrow> successively (\<lambda>a b. \<not> runs_merge a b) rs \<Longrightarrow>
     successively (\<lambda>a b. \<not> runs_merge a b) (append_last t rs)"
  by (cases rs rule: rev_cases) (auto simp: append_last_def successively_append_iff)

lemma merged_snoc:
  "merged (c @ [x]) \<longleftrightarrow> merged c \<and> merged_inline x \<and> (c = [] \<or> \<not> inlines_merge (last c) x)"
  by (auto simp: merged_def successively_append_iff)

lemma merged_single [simp]: "merged []" "merged [x] \<longleftrightarrow> merged_inline x"
  by (simp_all add: merged_def)

lemma merged_push [simp]:
  "merged (c @ [x, y]) \<longleftrightarrow> merged (c @ [x]) \<and> merged_inline y \<and> \<not> inlines_merge x y"
  "merged [x, y] \<longleftrightarrow> merged_inline x \<and> merged_inline y \<and> \<not> inlines_merge x y"
  using merged_snoc [of "c @ [x]" y] merged_snoc [of "[x]" y] by (simp_all del: merged_snoc)

fun good_reading :: "reading \<Rightarrow> bool" where
  "good_reading (c, None) \<longleftrightarrow> merged c \<and> (c = [] \<or> (\<exists>r. last c = CEmbed r))"
| "good_reading (c, Some x) \<longleftrightarrow> merged (c @ [x]) \<and> (\<nexists>r. x = CEmbed r)"

lemma good_reading_push: "good_reading s \<Longrightarrow> merged (push_current s)"
  by (cases s rule: good_reading.cases) auto

lemma merged_start [simp]: "merged_inline (start_content t st l)" "start_content t st l \<noteq> CEmbed r"
  by (cases l; simp add: start_content_def)+

lemma read_text_merged:
  assumes "good_reading s" and "read_text t st l s = Inr s'"
  shows "good_reading s'"
proof -
  obtain c cur where s: "s = (c, cur)" by (cases s)
  show ?thesis
  proof (cases cur)
    case None
    then show ?thesis using assms by (auto simp: s read_text_def merged_snoc)
  next
    case (Some x)
    show ?thesis
    proof (cases x)
      case (CText r)
      then show ?thesis using assms Some
        by (cases l) (auto simp: s read_text_def merged_snoc start_content_def runs_merge_def split: if_splits)
    next
      case (CLink h rs)
      then show ?thesis using assms Some
        by (cases l) (auto simp: s read_text_def merged_snoc start_content_def runs_merge_def
            successively_append_iff successively_append_last [unfolded runs_merge_def] split: if_splits)
    next
      case (CEmbed r)
      then show ?thesis using assms Some by (auto simp: s)
    qed
  qed
qed

lemma read_break_merged:
  assumes "good_reading s" and "read_break s = Inr s'"
  shows "good_reading s'"
proof -
  obtain c cur where s: "s = (c, cur)" by (cases s)
  show ?thesis
    using assms unfolding s
    by (cases "cur" rule: good_current.cases)
       (auto simp: read_break_def merged_snoc successively_append_last)
qed

lemma read_node_merged:
  assumes "good_reading s" and "read_node n s = Inr s'"
  shows "good_reading s'"
proof (cases "type_name n = ''hardBreak''")
  case True
  with assms show ?thesis by (auto simp: read_node_def intro: read_break_merged)
next
  case False
  have embed: "good_reading (push_current s @ [CEmbed r], None)" for r
    using good_reading_push [OF assms(1)] by (cases "push_current s = []") (auto simp: merged_snoc)
  from False assms(2) show ?thesis
    by (auto simp: read_node_def Let_def bind_result_Inr_iff split: if_splits
        dest: read_text_merged [OF assms(1)] read_text_merged [OF embed])
qed

lemma read_loop_merged:
  "good_reading s \<Longrightarrow> read_loop ns s = Inr s' \<Longrightarrow> good_reading s'"
  by (induction ns arbitrary: s) (auto simp: bind_result_Inr_iff dest: read_node_merged)

lemma reading_merges_core:
  "contentNodeToInlineContent n = Inr c \<Longrightarrow> merged c"
  using read_loop_merged [of "([], None)" "child_nodes n"] good_reading_push
  by (auto simp: contentNodeToInlineContent_def map_result_Inr_iff merged_def)

section \<open>Writing\<close>

text \<open>What the documentation of ProseMirror says of a schema, for the types used here.\<close>

inductive joins :: "pm_node list \<Rightarrow> pm_node list \<Rightarrow> bool" where
  joins_refl: "joins ns ns"
| joins_step: "joins (ns @ PText (t @ u) ms # ns') ns'' \<Longrightarrow> joins (ns @ PText t ms # PText u ms # ns') ns''"

definition schema_laws :: "pm_schema \<Rightarrow> bool" where
  "schema_laws S \<longleftrightarrow>
     s_known S ''hardBreak'' \<and> s_known S ''inline-embed'' \<and> s_known S ''blockGroup'' \<and>
     s_known S ''blockContainer'' \<and>
     (\<forall>ms. mset (s_mark_set S ms) = mset ms) \<and>
     (\<forall>ns. joins ns (s_fragment S ns)) \<and>
     (\<forall>v. get_attr (s_mark_attrs S ''link'' [(''href'', v)]) ''href'' = v) \<and>
     (\<forall>k v. k \<in> set colorStyles \<longrightarrow> get_attr (s_mark_attrs S k [(''color'', v)]) ''color'' = v) \<and>
     (\<forall>v. get_attr (s_attrs S ''inline-embed'' [(''ref'', v)]) ''ref'' = v)"

text \<open>Styles as the types of the sources have them.\<close>

definition typed_styles :: "attrs \<Rightarrow> bool" where
  "typed_styles st \<longleftrightarrow> distinct (map fst st) \<and>
     (\<forall>(k, v) \<in> set st. k \<in> set toggleStyles \<longrightarrow> v = JBool True)"

fun link_runs :: "link_content \<Rightarrow> text_run list" where
  "link_runs (LString s) = [Run s []]"
| "link_runs (LRuns rs) = rs"

fun whole_inline :: "partial_inline \<Rightarrow> inline_content" where
  "whole_inline (PIText r) = CText r"
| "whole_inline (PILink h c) = CLink h (link_runs c)"
| "whole_inline (PIEmbed r) = CEmbed r"
| "whole_inline (PIOther t) = CText (Run [] [])"

fun typed_inline :: "partial_inline \<Rightarrow> bool" where
  "typed_inline (PIText r) \<longleftrightarrow> typed_styles (run_styles r)"
| "typed_inline (PILink h c) \<longleftrightarrow> list_all (\<lambda>r. typed_styles (run_styles r)) (link_runs c)"
| "typed_inline (PIEmbed r) \<longleftrightarrow> True"
| "typed_inline (PIOther t) \<longleftrightarrow> False"

fun json_value :: "dyn \<Rightarrow> dyn option" where
  "json_value JUndef = None"
| "json_value (JNum None) = Some JNull"
| "json_value v = Some v"

lemma map_of_json_view:
  "distinct (map fst st) \<Longrightarrow>
     map_of (json_view st) k = (case map_of st k of None \<Rightarrow> None | Some v \<Rightarrow> json_value v)"
proof (induction st)
  case (Cons p st)
  obtain j v where p: "p = (j, v)" by (cases p)
  have none: "map_of st k = None" if "j = k" using Cons.prems p that by (force simp: map_of_eq_None_iff)
  show ?case using Cons none by (cases v rule: json_value.cases) (auto simp: p json_view_def)
qed (simp add: json_view_def)

definition mark_value :: "pm_mark \<Rightarrow> dyn" where
  "mark_value m = (if mark_type m \<in> set toggleStyles then JBool True else get_attr (mark_attrs m) ''color'')"

lemma link_no_style: "''link'' \<notin> set toggleStyles" "''link'' \<notin> set colorStyles"
  by (simp_all add: toggleStyles_def colorStyles_def)

lemma mark_loop_styles:
  assumes "list_all (\<lambda>m. mark_type m \<noteq> ''link'' \<and> known_mark (mark_type m)) ms"
    and "distinct (map mark_type ms)" and "distinct (map fst st)"
    and "mark_type ` set ms \<inter> fst ` set st = {}"
  shows "mark_loop (ms @ ms') st l =
     mark_loop ms' (st @ map (\<lambda>m. (mark_type m, mark_value m)) ms) l"
  using assms
proof (induction ms arbitrary: st)
  case (Cons m ms)
  obtain k as where m: "m = Mark k as" by (cases m)
  have new: "k \<notin> fst ` set st" using Cons.prems by (auto simp: m)
  have "mark_loop (m # ms @ ms') st l = mark_loop (ms @ ms') (st @ [(k, mark_value m)]) l"
    using Cons.prems(1) new by (auto simp: m known_mark_def mark_value_def obj_set_new)
  moreover have "\<dots> = mark_loop ms' ((st @ [(k, mark_value m)]) @ map (\<lambda>m. (mark_type m, mark_value m)) ms) l"
    using Cons.prems new by (intro Cons.IH) (auto simp: m)
  ultimately show ?case by (simp add: m)
qed simp

lemma schema_lawsD:
  assumes "schema_laws S"
  shows "s_known S ''hardBreak''" "s_known S ''inline-embed''" "s_known S ''blockGroup''"
    "s_known S ''blockContainer''" "mset (s_mark_set S ms) = mset ms" "joins ns (s_fragment S ns)"
    "get_attr (s_mark_attrs S ''link'' [(''href'', v)]) ''href'' = v"
    "k \<in> set colorStyles \<Longrightarrow> get_attr (s_mark_attrs S k [(''color'', v)]) ''color'' = v"
    "get_attr (s_attrs S ''inline-embed'' [(''ref'', v)]) ''ref'' = v"
  using assms by (auto simp: schema_laws_def)

lemma set_mark_set: "schema_laws S \<Longrightarrow> set (s_mark_set S ms) = set ms"
  by (metis schema_lawsD(5) set_mset_mset)

abbreviation mark_entries :: "pm_mark list \<Rightarrow> attrs" where
  "mark_entries ms \<equiv> map (\<lambda>m. (mark_type m, mark_value m)) ms"

lemma mark_entries_style_marks:
  assumes "schema_laws S" and "\<forall>(k, v) \<in> set st. k \<in> set toggleStyles \<longrightarrow> v = JBool True"
  shows "mark_entries (style_marks S st) = filter (\<lambda>p. style_key (fst p)) st"
  using assms(2)
proof (induction st)
  case (Cons p st)
  obtain k v where p: "p = (k, v)" by (cases p)
  have IH: "mark_entries (style_marks S st) = filter (\<lambda>p. style_key (fst p)) st"
    using Cons by simp
  consider "k \<in> set toggleStyles" | "k \<notin> set toggleStyles" "k \<in> set colorStyles" | "\<not> style_key k"
    unfolding style_key_def by blast
  then show ?case
    using IH Cons.prems
    by cases (auto simp: p style_marks_def map_filter_simps schema_mark_def mark_value_def style_key_def
        schema_lawsD [OF assms(1)])
qed (simp add: style_marks_def map_filter_simps)

lemma style_marks_known: "m \<in> set (style_marks S st) \<Longrightarrow> mark_type m \<noteq> ''link'' \<and> known_mark (mark_type m)"
  using link_no_style
  by (auto simp: style_marks_def set_map_filter schema_mark_def known_mark_def split: if_splits)

lemma written_styles:
  assumes S: "schema_laws S" and st: "typed_styles st"
  defines "ms \<equiv> s_mark_set S (style_marks S st)"
  shows "mark_loop (ms @ ls) [] None = mark_loop ls (mark_entries ms) None"
    and "style_view (mark_entries ms) = style_view st"
proof -
  let ?m0 = "style_marks S st"
  have ent: "mark_entries ?m0 = filter (\<lambda>p. style_key (fst p)) st"
    using mark_entries_style_marks [OF S] st unfolding typed_styles_def by blast
  have d0: "distinct (map fst (mark_entries ?m0))"
    using st distinct_filter_fst unfolding ent typed_styles_def by blast
  have perm: "mset ms = mset ?m0" unfolding ms_def by (rule schema_lawsD(5) [OF S])
  then have sets: "set ms = set ?m0" by (metis set_mset_mset)
  have "mset (map fst (mark_entries ms)) = mset (map fst (mark_entries ?m0))"
    using perm by (simp add: o_def)
  with d0 have d: "distinct (map fst (mark_entries ms))" using mset_eq_imp_distinct_iff by blast
  then have dt: "distinct (map mark_type ms)" by (simp add: o_def)
  show "mark_loop (ms @ ls) [] None = mark_loop ls (mark_entries ms) None"
    using mark_loop_styles [of ms "[]" ls None] dt sets style_marks_known
    by (auto simp: list_all_iff)
  have eq: "map_of (mark_entries ms) = map_of (mark_entries ?m0)"
    using d d0 sets by (simp only: map_of_inject_set) (simp add: image_set [symmetric] sets)
  have ds: "distinct (map fst st)" using st by (simp add: typed_styles_def)
  have "style_view (mark_entries ms) k = style_view st k" for k
    using d ds by (simp add: style_view_def map_of_json_view eq del: map_map)
      (simp add: ent map_of_filter_key)
  then show "style_view (mark_entries ms) = style_view st" by blast
qed

text \<open>One piece of text as a node, with further marks.\<close>

definition piece_node :: "pm_schema \<Rightarrow> attrs \<Rightarrow> pm_mark list \<Rightarrow> string \<Rightarrow> pm_node" where
  "piece_node S st ls t = (if t = [CHR 0x0A]
     then PNode ''hardBreak'' (s_attrs S ''hardBreak'' []) (s_fragment S []) []
     else PText t (s_mark_set S (style_marks S st) @ ls))"

abbreviation pieces :: "string \<Rightarrow> string list" where
  "pieces t \<equiv> filter (\<lambda>u. u \<noteq> []) (split_breaks [] t)"

lemma concat_split_breaks: "concat (split_breaks cur t) = cur @ t"
  by (induction cur t rule: split_breaks.induct) auto

lemma split_breaks_piece:
  "u \<in> set (split_breaks cur t) \<Longrightarrow> CHR 0x0A \<notin> set cur \<Longrightarrow> u = [CHR 0x0A] \<or> CHR 0x0A \<notin> set u"
  by (induction cur t rule: split_breaks.induct) (auto split: if_splits)

lemma concat_filter_ne: "concat (filter (\<lambda>u. u \<noteq> []) us) = concat us"
  by (induction us) auto

lemma concat_pieces: "concat (pieces t) = t"
  using concat_split_breaks [of "[]" t] concat_filter_ne [of "split_breaks [] t"] by simp

lemma traverse_all: "(\<And>x. x \<in> set xs \<Longrightarrow> f x = Inr (g x)) \<Longrightarrow> traverse f xs = Inr (map g xs)"
  by (induction xs) auto

lemma styledTextToNodes_pieces:
  assumes "schema_laws S"
  shows "styledTextToNodes S r = Inr (map (piece_node S (run_styles r) []) (pieces (run_text r)))"
  unfolding styledTextToNodes_def
  by (rule traverse_all)
     (auto simp: piece_node_def schema_create_def schema_text_def schema_lawsD [OF assms])

lemma traverse_link_node:
  "traverse (link_node m) (map (piece_node S st []) ps) = Inr (map (piece_node S st [m]) ps)"
  by (induction ps) (auto simp: link_node_def piece_node_def)

fun link_href :: "pm_mark list \<Rightarrow> dyn option" where
  "link_href [] = None"
| "link_href (m # ms) = Some (get_attr (mark_attrs m) ''href'')"

lemma text_cells_view:
  "style_view a = style_view b \<Longrightarrow> text_cells l a t = text_cells l b t"
  by (simp add: text_cells_def)

lemma piece_node_cells:
  assumes S: "schema_laws S" and st: "typed_styles st"
    and ls: "ls = [] \<or> (\<exists>as. ls = [Mark ''link'' as])" and u: "u = [CHR 0x0A] \<or> CHR 0x0A \<notin> set u"
  shows "node_cells (piece_node S st ls u) = text_cells (link_href ls) st u"
proof (cases "u = [CHR 0x0A]")
  case False
  let ?ms = "s_mark_set S (style_marks S st)"
  have "mark_loop (?ms @ ls) [] None =
      Inr (mark_entries ?ms, case ls of [] \<Rightarrow> None | m # _ \<Rightarrow> Some m)"
    using written_styles(1) [OF S st, of ls] ls by auto
  moreover have "map_option (\<lambda>m. get_attr (mark_attrs m) ''href'') (case ls of [] \<Rightarrow> None | m # _ \<Rightarrow> Some m) = link_href ls"
    by (cases ls) auto
  ultimately show ?thesis
    using False text_cells_view [OF written_styles(2) [OF S st], of "link_href ls" u]
    by (simp add: piece_node_def node_cells_def)
qed (simp add: piece_node_def node_cells_def)

lemma piece_node_readable:
  assumes S: "schema_laws S" and ls: "ls = [] \<or> (\<exists>as. ls = [Mark ''link'' as])"
  shows "readable (piece_node S st ls u)"
proof -
  have "list_all (\<lambda>m. known_mark (mark_type m)) (s_mark_set S (style_marks S st) @ ls)"
    using ls style_marks_known [of _ S st]
    by (auto simp: list_all_iff set_mark_set [OF S] known_mark_def)
  then show ?thesis by (simp add: readable_def piece_node_def)
qed

lemma text_cells_concat: "text_cells l st (concat us) = concat (map (text_cells l st) us)"
  by (induction us) auto

lemma pieces_cells:
  assumes S: "schema_laws S" and st: "typed_styles st"
    and ls: "ls = [] \<or> (\<exists>as. ls = [Mark ''link'' as])"
  shows "nodes_cells (map (piece_node S st ls) (pieces t)) = text_cells (link_href ls) st t"
proof -
  have "node_cells (piece_node S st ls u) = text_cells (link_href ls) st u" if "u \<in> set (pieces t)" for u
    using that split_breaks_piece [of u "[]" t] by (intro piece_node_cells [OF S st ls]) auto
  then have "map (node_cells \<circ> piece_node S st ls) (pieces t) = map (text_cells (link_href ls) st) (pieces t)"
    by (intro map_cong) (simp_all only: o_apply)
  then have "nodes_cells (map (piece_node S st ls) (pieces t)) = concat (map (text_cells (link_href ls) st) (pieces t))"
    by (simp only: nodes_cells_def map_map)
  also have "\<dots> = text_cells (link_href ls) st t"
    by (simp only: text_cells_concat [symmetric] concat_pieces)
  finally show ?thesis .
qed

text \<open>The nodes of one inline, in closed form.\<close>

definition run_nodes :: "pm_schema \<Rightarrow> pm_mark list \<Rightarrow> text_run \<Rightarrow> pm_node list" where
  "run_nodes S ls r = map (piece_node S (run_styles r) ls) (pieces (run_text r))"

fun inline_nodes :: "pm_schema \<Rightarrow> partial_inline \<Rightarrow> pm_node list" where
  "inline_nodes S (PIText r) = run_nodes S [] r"
| "inline_nodes S (PILink h c) =
     concat (map (run_nodes S [schema_mark S ''link'' [(''href'', h)]]) (link_runs c))"
| "inline_nodes S (PIEmbed ref) =
     [PNode ''inline-embed'' (s_attrs S ''inline-embed'' [(''ref'', ref)]) (s_fragment S []) []]"
| "inline_nodes S (PIOther t) = []"

lemma traverse_append:
  "traverse f xs = Inr ys \<Longrightarrow> traverse f xs' = Inr ys' \<Longrightarrow> traverse f (xs @ xs') = Inr (ys @ ys')"
  by (induction xs arbitrary: ys) (auto simp: bind_result_Inr_iff map_result_Inr_iff)

lemma styledTextArrayToNodes_runs:
  assumes "schema_laws S"
  shows "styledTextArrayToNodes S c = Inr (concat (map (run_nodes S []) (link_runs c)))"
proof -
  have "styledTextToNodes S r = Inr (run_nodes S [] r)" for r
    using styledTextToNodes_pieces [OF assms] by (simp add: run_nodes_def)
  then have "traverse (styledTextToNodes S) rs = Inr (map (run_nodes S []) rs)" for rs
    by (intro traverse_all) auto
  then show ?thesis
    using styledTextToNodes_pieces [OF assms] by (cases c) (simp_all add: styledTextArrayToNodes_def run_nodes_def)
qed

lemma traverse_link_runs:
  "traverse (link_node m) (concat (map (run_nodes S []) rs)) = Inr (concat (map (run_nodes S [m]) rs))"
  by (induction rs) (auto simp: run_nodes_def intro!: traverse_append traverse_link_node)

lemma inlineContentToNodes_eq:
  assumes S: "schema_laws S" and c: "list_all typed_inline c"
  shows "inlineContentToNodes S c = Inr (concat (map (inline_nodes S) c))"
proof -
  let ?f = "\<lambda>x. case x of
     PILink href lc \<Rightarrow> linkToNodes S href lc
   | PIText r \<Rightarrow> styledTextArrayToNodes S (LRuns [r])
   | PIEmbed ref \<Rightarrow> map_result (\<lambda>n. [n]) (schema_create S ''inline-embed'' [(''ref'', ref)] [])
   | PIOther t \<Rightarrow> Inl (Error ''Unreachable case: [object Object]'')"
  have "?f x = Inr (inline_nodes S x)" if "typed_inline x" for x
    using that by (cases x) (simp_all add: linkToNodes_def Let_def styledTextArrayToNodes_runs [OF S]
        traverse_link_runs schema_create_def schema_lawsD [OF S])
  then have "traverse ?f c = Inr (map (inline_nodes S) c)" using c by (intro traverse_all) (auto simp: list_all_iff)
  then show ?thesis by (simp add: inlineContentToNodes_def)
qed

lemma run_nodes_cells:
  assumes "schema_laws S" "typed_styles (run_styles r)" "ls = [] \<or> (\<exists>as. ls = [Mark ''link'' as])"
  shows "nodes_cells (run_nodes S ls r) = run_cells (link_href ls) r"
  using pieces_cells [OF assms] by (simp add: run_nodes_def run_cells_def)

lemma nodes_cells_concat: "nodes_cells (concat nss) = concat (map nodes_cells nss)"
  by (induction nss) auto

lemma fragment_nil:
  assumes "schema_laws S"
  shows "s_fragment S [] = []"
proof -
  have "joins ns ns' \<Longrightarrow> ns = [] \<Longrightarrow> ns' = []" for ns ns'
    by (induction rule: joins.induct) auto
  then show ?thesis using schema_lawsD(6) [OF assms] by blast
qed

lemma inline_nodes_cells:
  assumes S: "schema_laws S" and x: "typed_inline x"
  shows "nodes_cells (inline_nodes S x) = inline_cells (whole_inline x)"
proof (cases x)
  case (PIText r)
  then show ?thesis using run_nodes_cells [OF S, of r "[]"] x by simp
next
  case (PILink h c)
  let ?m = "schema_mark S ''link'' [(''href'', h)]"
  have "nodes_cells (run_nodes S [?m] r) = run_cells (Some h) r" if "r \<in> set (link_runs c)" for r
    using run_nodes_cells [OF S, of r "[?m]"] x that PILink
    by (auto simp: schema_mark_def list_all_iff schema_lawsD [OF S])
  then show ?thesis by (simp add: PILink nodes_cells_concat o_def cong: map_cong)
next
  case (PIEmbed ref)
  then show ?thesis by (simp add: node_cells_def schema_lawsD [OF S] fragment_nil [OF S])
next
  case (PIOther t)
  then show ?thesis using x by simp
qed

lemma run_nodes_readable:
  "schema_laws S \<Longrightarrow> ls = [] \<or> (\<exists>as. ls = [Mark ''link'' as]) \<Longrightarrow> n \<in> set (run_nodes S ls r) \<Longrightarrow> readable n"
  unfolding run_nodes_def set_map by (erule imageE) (simp only: piece_node_readable)

lemma inline_nodes_readable:
  assumes "schema_laws S" and "n \<in> set (inline_nodes S x)"
  shows "readable n"
proof (cases x)
  case (PIText r)
  then show ?thesis using assms run_nodes_readable [of S "[]" n r] by simp
next
  case (PILink h c)
  then show ?thesis using assms run_nodes_readable [of S "[schema_mark S ''link'' [(''href'', h)]]" n]
    by (auto simp: schema_mark_def)
next
  case (PIEmbed ref)
  then show ?thesis using assms by (simp add: readable_def)
next
  case (PIOther t)
  then show ?thesis using assms by simp
qed

lemma node_cells_text_append:
  "node_cells (PText (t @ u) ms) = node_cells (PText t ms) @ node_cells (PText u ms)"
  by (cases "mark_loop ms [] None") (simp_all add: node_cells_def split: prod.splits)

lemma joins_cells: "joins ns ns' \<Longrightarrow> nodes_cells ns' = nodes_cells ns"
  by (induction rule: joins.induct) (simp_all add: node_cells_text_append)

lemma joins_readable: "joins ns ns' \<Longrightarrow> list_all readable ns \<Longrightarrow> list_all readable ns'"
  by (induction rule: joins.induct) (simp_all add: readable_def)

lemma joins_no_text: "joins ns ns' \<Longrightarrow> \<forall>n \<in> set ns. \<not> is_PText n \<Longrightarrow> ns' = ns"
  by (induction rule: joins.induct) simp_all

lemma inline_round_trip_core:
  assumes S: "schema_laws S" and c: "list_all typed_inline c"
    and n: "child_nodes n = s_fragment S (concat (map (inline_nodes S) c))"
  shows "\<exists>c'. contentNodeToInlineContent n = Inr c' \<and>
    content_cells c' = content_cells (map whole_inline c)"
proof -
  let ?ns = "concat (map (inline_nodes S) c)"
  have "list_all readable ?ns" using inline_nodes_readable [OF S] by (auto simp: list_all_iff)
  then have "list_all readable (child_nodes n)"
    unfolding n using joins_readable schema_lawsD(6) [OF S] by blast
  moreover have "nodes_cells (child_nodes n) = nodes_cells ?ns"
    unfolding n using joins_cells schema_lawsD(6) [OF S] by blast
  moreover have "nodes_cells ?ns = content_cells (map whole_inline c)"
    using c inline_nodes_cells [OF S]
    by (auto simp: nodes_cells_concat content_cells_def list_all_iff intro!: arg_cong [of _ _ concat])
  ultimately show ?thesis using reading_keeps_cells_core [of n] by auto
qed

section \<open>Properties\<close>

text \<open>
  C9. Reading a content node whose marks are known never fails. It gives inline content that shows
  exactly what the nodes show, each character with its link and its styles, and in which no two
  neighbours could have been one: text with the same styles, links to the same target, runs of a link
  with the same styles.
\<close>

theorem reading_keeps_content:
  assumes "list_all readable (child_nodes n)"
  shows "\<exists>c. contentNodeToInlineContent n = Inr c \<and> content_cells c = nodes_cells (child_nodes n) \<and> merged c"
  using reading_keeps_cells_core [OF assms] reading_merges_core by blast

definition sample_content :: pm_node where
  "sample_content = PNode ''paragraph'' []
     [PText ''ab'' [Mark ''bold'' []], PNode ''hardBreak'' [] [] [], PText ''c'' [Mark ''bold'' []],
      PText ''de'' [Mark ''link'' [(''href'', JStr ''hm://d/1'')]],
      PNode ''inline-embed'' [(''ref'', JStr ''hm://a/2'')] [] []] []"

theorem reading_keeps_content_witness:
  "\<exists>c. contentNodeToInlineContent sample_content = Inr c \<and>
     content_cells c = nodes_cells (child_nodes sample_content) \<and> merged c"
  by (rule reading_keeps_content) (simp add: sample_content_def readable_def known_mark_def toggleStyles_def)

text \<open>The sample read: the break joins the runs, and the embed leaves an empty text behind.\<close>

lemma sample_content_read: "contentNodeToInlineContent sample_content =
    Inr [CText (Run (''ab'' @ [CHR 0x0A] @ ''c'') [(''bold'', JBool True)]),
         CLink (JStr ''hm://d/1'') [Run ''de'' []], CEmbed (JStr ''hm://a/2''), CText (Run [] [])]"
  by (simp add: contentNodeToInlineContent_def sample_content_def read_node_def read_break_def read_text_def
      start_content_def json_same_def json_view_def toggleStyles_def colorStyles_def get_attr_def)

end
