(* ===== verification/Editor_Blocks.thy ===== *)
theory Editor_Blocks
  imports Editor_Nodes
begin

text \<open>
  Whole blocks to nodes and back (\<open>blockToNode\<close>, \<open>nodeToBlock\<close> of
  \<^verbatim>\<open>nodeConversions.ts\<close>, \<open>getBlockInfo\<close>), and the types of lists that the app sets on the
  groups once the content is loaded (\<open>setGroupTypes\<close> of \<^verbatim>\<open>app/models/editor-utils.ts\<close>).

  Random ids come from a generator that is an argument; the number of ids taken so far is passed
  along.
\<close>

datatype partial_content = NoContent | StringContent string | InlineContent "partial_inline list"

datatype partial_block =
  PartialBlock (pb_id: "string option") (pb_type: "string option") (pb_props: attrs)
    (pb_content: partial_content) (pb_children: "partial_block list")

datatype whole_block =
  WholeBlock (wb_id: dyn) (wb_type: string) (wb_props: attrs) (wb_content: "inline_content list")
    (wb_children: "whole_block list")

text \<open>A list mapped by a function that may raise and takes ids.\<close>

fun map_ids :: "('a \<Rightarrow> nat \<Rightarrow> ('b \<times> nat) result) \<Rightarrow> 'a list \<Rightarrow> nat \<Rightarrow> ('b list \<times> nat) result" where
  "map_ids f [] k = Inr ([], k)"
| "map_ids f (x # xs) k = bind_result (f x k) (\<lambda>(y, k1).
     map_result (\<lambda>(ys, k2). (y # ys, k2)) (map_ids f xs k1))"

lemma map_ids_cong [fundef_cong]:
  "xs = ys \<Longrightarrow> k = k' \<Longrightarrow> (\<And>x j. x \<in> set ys \<Longrightarrow> f x j = g x j) \<Longrightarrow> map_ids f xs k = map_ids g ys k'"
  by (induction ys arbitrary: xs k k') (auto intro!: bind_result_cong)

section \<open>From blocks to nodes\<close>

definition content_node :: "pm_schema \<Rightarrow> string option \<Rightarrow> string \<Rightarrow> attrs \<Rightarrow> partial_content \<Rightarrow> pm_node result" where
  "content_node S block_type type props c = (case c of
     NoContent \<Rightarrow> schema_create S type props []
   | StringContent s \<Rightarrow>
       if s = [] then schema_create S type props []
       else bind_result (schema_text S s []) (\<lambda>t. schema_create S type props [t])
   | InlineContent c \<Rightarrow>
       if block_type = Some ''codeBlock'' \<and> c \<noteq> []
       then bind_result (schema_text S (case hd c of PIText r \<Rightarrow> run_text r | _ \<Rightarrow> []) [])
              (\<lambda>t. schema_create S type props [t])
       else bind_result (inlineContentToNodes S c) (schema_create S type props))"

fun blockToNode :: "pm_schema \<Rightarrow> (nat \<Rightarrow> string) \<Rightarrow> partial_block \<Rightarrow> nat \<Rightarrow> (pm_node \<times> nat) result" where
  "blockToNode S gen (PartialBlock bid btype props c children) k =
     (let (id, k1) = (case bid of None \<Rightarrow> (gen k, Suc k) | Some i \<Rightarrow> (i, k));
          type = (case btype of None \<Rightarrow> ''paragraph'' | Some t \<Rightarrow> t)
      in bind_result (content_node S btype type props c) (\<lambda>contentNode.
         bind_result (map_ids (blockToNode S gen) children k1) (\<lambda>(kids, k2).
         bind_result (schema_create S ''blockGroup'' [] kids) (\<lambda>groupNode.
         map_result (\<lambda>n. (n, k2))
           (schema_create S ''blockContainer'' (obj_spread [(''id'', JStr id)] props)
              (if kids \<noteq> [] then [contentNode, groupNode] else [contentNode]))))))"

section \<open>From nodes to blocks\<close>

record block_info =
  bi_id :: dyn
  bi_contentNode :: pm_node
  bi_numChildBlocks :: nat

definition getBlockInfo :: "pm_node \<Rightarrow> block_info result" where
  "getBlockInfo n = (case child_nodes n of
     [] \<Rightarrow> Inl TypeError
   | contentNode # rest \<Rightarrow> Inr \<lparr>bi_id = get_attr (node_attrs n) ''id'', bi_contentNode = contentNode,
       bi_numChildBlocks = (if length (child_nodes n) = 2 then length (child_nodes (last (child_nodes n))) else 0)\<rparr>)"

text \<open>The loop over the attributes; \<open>spec\<close> is the entry of the block schema, the names of its props.\<close>

fun read_props :: "string \<Rightarrow> string list option \<Rightarrow> attrs \<Rightarrow> attrs \<Rightarrow> attrs result" where
  "read_props type spec [] props = Inr props"
| "read_props type spec ((a, v) # as) props = (case spec of
     None \<Rightarrow> if type = ''codeBlock'' then Inr props
             else Inl (Error (''Block is of an unrecognized type: '' @ type))
   | Some keys \<Rightarrow> read_props type spec as (if a \<in> set keys then obj_set a v props else props))"

text \<open>The type of the list that the children form.\<close>

definition read_list :: "attrs \<Rightarrow> attrs \<Rightarrow> attrs" where
  "read_list as props = (if dyn_true (get_attr as ''listType'')
     then obj_set ''start'' (get_attr as ''start'')
            (obj_set ''listLevel'' (get_attr as ''listLevel'')
              (obj_set ''childrenType'' (get_attr as ''listType'') props))
     else props)"

lemma size_grandchild:
  assumes "getBlockInfo n = Inr info" and "x \<in> set (take i (child_nodes (last (child_nodes n))))"
  shows "size x < size n"
proof -
  obtain k as cs ms where n: "n = PNode k as cs ms" and "cs \<noteq> []"
    using assms(1) by (cases n) (auto simp: getBlockInfo_def split: list.splits)
  then obtain ds d where ds: "cs = ds @ [d]" by (meson rev_exhaust)
  have le: "x \<in> set xs \<Longrightarrow> size x \<le> size_list size xs" for xs :: "pm_node list"
    by (rule size_list_estimation') auto
  have "x \<in> set (child_nodes d)" using assms(2) by (auto simp: n ds dest: in_set_takeD)
  then have "size x < size d" by (cases d) (auto dest: le)
  then show ?thesis by (simp add: n ds)
qed

function (sequential) nodeToBlock ::
  "(string \<Rightarrow> string list option) \<Rightarrow> (nat \<Rightarrow> string) \<Rightarrow> pm_node \<Rightarrow> nat \<Rightarrow> (whole_block \<times> nat) result" where
  "nodeToBlock schema gen n k =
     (if type_name n \<noteq> ''blockContainer''
      then Inl (Error (''Node must be of type blockContainer, but is of type'' @ type_name n @ ''.''))
      else bind_result (getBlockInfo n) (\<lambda>info.
        let (id, k1) = (if bi_id info = JNull then (JStr (gen k), Suc k) else (bi_id info, k));
            contentNode = bi_contentNode info;
            type = type_name contentNode
        in bind_result (read_props type (schema type) (obj_spread (node_attrs n) (node_attrs contentNode)) []) (\<lambda>props.
           bind_result (contentNodeToInlineContent contentNode) (\<lambda>content.
           map_result (\<lambda>(children, k2).
               (WholeBlock id type (read_list (node_attrs (last (child_nodes n))) props) content children, k2))
             (map_ids (nodeToBlock schema gen)
               (take (bi_numChildBlocks info) (child_nodes (last (child_nodes n)))) k1)))))"
  by pat_completeness auto
termination
  by (relation "measure (\<lambda>(schema, gen, n, k). size n)") (auto dest: size_grandchild)

declare nodeToBlock.simps [simp del]

section \<open>Round trip\<close>

text \<open>
  What the node types of the editor add to \<open>schema_laws\<close>: a node type has an attribute for
  each prop of its block type, containers have an \<open>id\<close>, and no attribute is listed twice.
\<close>

definition block_laws :: "pm_schema \<Rightarrow> (string \<Rightarrow> string list option) \<Rightarrow> bool" where
  "block_laws S schema \<longleftrightarrow> schema_laws S \<and>
     (\<forall>n as. distinct (map fst (s_attrs S n as))) \<and>
     (\<forall>as v. map_of as ''id'' = Some v \<longrightarrow> map_of (s_attrs S ''blockContainer'' as) ''id'' = Some v) \<and>
     (\<forall>type keys a as v. schema type = Some keys \<and> a \<in> set keys \<and> map_of as a = Some v \<longrightarrow>
        map_of (s_attrs S type as) a = Some v)"

definition pb_typename :: "partial_block \<Rightarrow> string" where
  "pb_typename b = (case pb_type b of None \<Rightarrow> ''paragraph'' | Some t \<Rightarrow> t)"

fun partial_cells :: "partial_content \<Rightarrow> cell list" where
  "partial_cells NoContent = []"
| "partial_cells (StringContent s) = text_cells None [] s"
| "partial_cells (InlineContent c) = content_cells (map whole_inline c)"

fun typed_content :: "partial_content \<Rightarrow> bool" where
  "typed_content (InlineContent c) \<longleftrightarrow> list_all typed_inline c"
| "typed_content _ \<longleftrightarrow> True"

text \<open>A block of a known type, other than code, as the app makes them.\<close>

fun good_block :: "pm_schema \<Rightarrow> (string \<Rightarrow> string list option) \<Rightarrow> partial_block \<Rightarrow> bool" where
  "good_block S schema (PartialBlock i t p c cs) \<longleftrightarrow>
     (let type = pb_typename (PartialBlock i t p c cs)
      in s_known S type \<and> schema type \<noteq> None \<and> t \<noteq> Some ''codeBlock'' \<and>
         ''id'' \<notin> fst ` set p \<and> distinct (map fst p) \<and> typed_content c \<and>
         \<not> dyn_true (get_attr (s_attrs S type p) ''listType'') \<and>
         list_all (good_block S schema) cs)"

definition list_props :: "string set" where
  "list_props = {''childrenType'', ''listLevel'', ''start''}"

declare list.rel_cong [fundef_cong]

fun same_block :: "(string \<Rightarrow> string list option) \<Rightarrow> (nat \<Rightarrow> string) \<Rightarrow> partial_block \<Rightarrow> whole_block \<Rightarrow> bool" where
  "same_block schema gen (PartialBlock i t p c cs) (WholeBlock i' t' p' c' cs') \<longleftrightarrow>
     (case i of Some s \<Rightarrow> i' = JStr s | None \<Rightarrow> (\<exists>j. i' = JStr (gen j))) \<and>
     t' = pb_typename (PartialBlock i t p c cs) \<and> content_cells c' = partial_cells c \<and>
     (\<forall>keys a v. schema t' = Some keys \<longrightarrow> a \<in> set keys \<longrightarrow> a \<notin> list_props \<or> cs = [] \<longrightarrow>
        map_of p a = Some v \<longrightarrow> map_of p' a = Some v) \<and>
     list_all2 (same_block schema gen) cs cs'"

lemma map_ids_all2:
  assumes "\<And>x j. x \<in> set xs \<Longrightarrow> \<exists>y j'. f x j = Inr (y, j') \<and> R x y"
  shows "\<exists>ys k'. map_ids f xs k = Inr (ys, k') \<and> list_all2 R xs ys"
  using assms
proof (induction xs arbitrary: k)
  case (Cons x xs)
  obtain y k1 where y: "f x k = Inr (y, k1)" "R x y" using Cons.prems [of x k] by auto
  obtain ys k2 where "map_ids f xs k1 = Inr (ys, k2)" "list_all2 R xs ys"
    using Cons.IH [of k1] Cons.prems by auto
  with y show ?case by auto
qed simp

lemma map_ids_reads:
  assumes "list_all2 (\<lambda>x y. P y \<and> (\<forall>j. \<exists>z. f y j = Inr (z, j) \<and> R x z)) xs ys"
  shows "\<exists>zs. map_ids f ys j = Inr (zs, j) \<and> list_all2 R xs zs"
  using assms
proof (induction xs ys rule: list_all2_induct)
  case (Cons x xs y ys)
  obtain z zs where "f y j = Inr (z, j)" "R x z" "map_ids f ys j = Inr (zs, j)" "list_all2 R xs zs"
    using Cons by blast
  then show ?case by auto
qed simp

lemma read_props_eq:
  "read_props type (Some keys) as ps = Inr (obj_spread ps (filter (\<lambda>p. fst p \<in> set keys) as))"
  by (induction as arbitrary: ps) auto

lemma distinct_obj_spread: "distinct (map fst a) \<Longrightarrow> distinct (map fst (obj_spread a b))"
  by (induction b arbitrary: a) (auto simp: distinct_update)

lemma read_props_value:
  assumes "distinct (map fst a)" "distinct (map fst b)" "map_of b x = Some v" "x \<in> set keys"
  shows "\<exists>ps. read_props type (Some keys) (obj_spread a b) [] = Inr ps \<and> map_of ps x = Some v"
proof -
  have d: "distinct (map fst (filter (\<lambda>p. fst p \<in> set keys) (obj_spread a b)))"
    using distinct_obj_spread [OF assms(1)] distinct_filter_fst by blast
  have "map_of (obj_spread [] (filter (\<lambda>p. fst p \<in> set keys) (obj_spread a b))) x = Some v"
    using assms(3, 4) map_of_filter_key [of "\<lambda>k. k \<in> set keys" "obj_spread a b" x]
    by (simp add: map_of_obj_spread_distinct [OF d] map_of_obj_spread_distinct [OF assms(2)] map_add_Some_iff)
  then show ?thesis by (simp add: read_props_eq)
qed

lemma content_node_reads:
  assumes L: "block_laws S schema" and known: "s_known S type" and t: "t \<noteq> Some ''codeBlock''"
    and c: "typed_content c"
  obtains cs content where "content_node S t type p c = Inr (PNode type (s_attrs S type p) cs [])"
    "contentNodeToInlineContent (PNode type (s_attrs S type p) cs []) = Inr content"
    "content_cells content = partial_cells c"
proof -
  have S: "schema_laws S" using L by (simp add: block_laws_def)
  let ?n = "\<lambda>ns. PNode type (s_attrs S type p) (s_fragment S ns) []"
  have reads: "\<exists>content. contentNodeToInlineContent (?n ns) = Inr content \<and> content_cells content = nodes_cells ns"
    if "list_all readable ns" for ns
    using reading_keeps_cells_core [of "?n ns"] joins_readable [OF schema_lawsD(6) [OF S]]
      joins_cells [OF schema_lawsD(6) [OF S]] that by simp
  have plain: "s_mark_set S [] = []" using schema_lawsD(5) [OF S, of "[]"] by simp
  show thesis
  proof (cases c)
    case NoContent
    with reads [of "[]"] known that show thesis by (auto simp: content_node_def schema_create_def)
  next
    case (StringContent s)
    let ?ns = "if s = [] then [] else [PText s []]"
    have "list_all readable ?ns" by (simp add: readable_def)
    moreover have "nodes_cells ?ns = partial_cells c"
      by (simp add: StringContent node_cells_def)
    moreover have "content_node S t type p c = Inr (?n ?ns)"
      using known by (simp add: StringContent content_node_def schema_create_def schema_text_def plain)
    ultimately show thesis using reads [of ?ns] that by auto
  next
    case (InlineContent x)
    with c have typedx: "list_all typed_inline x" by simp
    have "content_node S t type p c = Inr (?n (concat (map (inline_nodes S) x)))"
      using known t by (simp add: InlineContent content_node_def schema_create_def inlineContentToNodes_eq [OF S] typedx)
    then show thesis
      using inline_round_trip_core [OF S, of x "?n (concat (map (inline_nodes S) x))"] c that
      by (auto simp: InlineContent)
  qed
qed

lemma no_text_fragment:
  assumes "schema_laws S" and "\<forall>n \<in> set ns. \<not> is_PText n"
  shows "s_fragment S ns = ns"
  using joins_no_text [OF schema_lawsD(6) [OF assms(1)] assms(2)] by blast

lemma read_list_other:
  "a \<notin> list_props \<Longrightarrow> map_of (read_list as ps) a = map_of ps a"
  by (auto simp: read_list_def list_props_def update_conv')

text \<open>The container made of a content node and child containers.\<close>

definition container_node :: "pm_schema \<Rightarrow> string \<Rightarrow> attrs \<Rightarrow> pm_node \<Rightarrow> pm_node list \<Rightarrow> pm_node" where
  "container_node S bid p cn kids = PNode ''blockContainer''
     (s_attrs S ''blockContainer'' (obj_spread [(''id'', JStr bid)] p))
     (cn # (if kids = [] then [] else [PNode ''blockGroup'' (s_attrs S ''blockGroup'' []) kids []])) []"

definition block_id :: "(nat \<Rightarrow> string) \<Rightarrow> string option \<Rightarrow> nat \<Rightarrow> string" where
  "block_id gen i k = (case i of None \<Rightarrow> gen k | Some s \<Rightarrow> s)"

lemma blockToNode_container:
  assumes S: "schema_laws S"
    and cn: "content_node S t (pb_typename (PartialBlock i t p c cs)) p c = Inr cn" "\<not> is_PText cn"
    and kids: "map_ids (blockToNode S gen) cs (case i of None \<Rightarrow> Suc k | Some s \<Rightarrow> k) = Inr (kids, k2)"
      "\<forall>n \<in> set kids. \<not> is_PText n"
  shows "blockToNode S gen (PartialBlock i t p c cs) k = Inr (container_node S (block_id gen i k) p cn kids, k2)"
proof -
  let ?gn = "PNode ''blockGroup'' (s_attrs S ''blockGroup'' []) kids []"
  have "s_fragment S kids = kids" "s_fragment S [cn, ?gn] = [cn, ?gn]" "s_fragment S [cn] = [cn]"
    using cn(2) kids(2) by (auto intro!: no_text_fragment [OF S])
  moreover have "content_node S t (case t of None \<Rightarrow> ''paragraph'' | Some t \<Rightarrow> t) p c = Inr cn"
    using cn(1) by (simp add: pb_typename_def)
  ultimately show ?thesis
    using kids(1) by (cases i) (simp_all add: container_node_def block_id_def schema_create_def schema_lawsD [OF S])
qed

lemma container_id:
  assumes "block_laws S schema" "''id'' \<notin> fst ` set p" "distinct (map fst p)"
  shows "get_attr (node_attrs (container_node S bid p cn kids)) ''id'' = JStr bid"
proof -
  have "map_of (obj_spread [(''id'', JStr bid)] p) ''id'' = Some (JStr bid)"
    using assms(2,3) by (simp add: map_of_obj_spread_distinct map_add_Some_iff map_of_eq_None_iff)
  then show ?thesis using assms(1) by (simp add: block_laws_def container_node_def get_attr_def)
qed

lemma container_reads:
  assumes L: "block_laws S schema" and p: "''id'' \<notin> fst ` set p" "distinct (map fst p)"
    and cn: "cn = PNode type as ns ms" "schema type = Some keys" "distinct (map fst as)"
    and content: "contentNodeToInlineContent cn = Inr content"
    and kids: "map_ids (nodeToBlock schema gen) kids j = Inr (ws, j')"
  obtains props where "nodeToBlock schema gen (container_node S bid p cn kids) j =
      Inr (WholeBlock (JStr bid) type props content ws, j')"
    and "\<And>a v. a \<in> set keys \<Longrightarrow> map_of as a = Some v \<Longrightarrow>
      a \<notin> list_props \<or> kids = [] \<and> \<not> dyn_true (get_attr as ''listType'') \<Longrightarrow> map_of props a = Some v"
proof -
  let ?n = "container_node S bid p cn kids"
  let ?info = "\<lparr>bi_id = JStr bid, bi_contentNode = cn, bi_numChildBlocks = length kids\<rparr>"
  let ?last = "if kids = [] then cn else PNode ''blockGroup'' (s_attrs S ''blockGroup'' []) kids []"
  let ?cattrs = "node_attrs ?n"
  have info: "getBlockInfo ?n = Inr ?info"
    using container_id [OF L p] by (simp add: getBlockInfo_def container_node_def)
  have last: "last (child_nodes ?n) = ?last" by (simp add: container_node_def)
  have d: "distinct (map fst ?cattrs)" using L by (simp add: block_laws_def container_node_def)
  let ?ps = "obj_spread [] (filter (\<lambda>p. fst p \<in> set keys) (obj_spread ?cattrs as))"
  have ps: "read_props type (schema type) (obj_spread ?cattrs as) [] = Inr ?ps"
    by (simp add: cn(2) read_props_eq)
  have psv: "map_of ?ps a = Some v" if "a \<in> set keys" "map_of as a = Some v" for a v
    using read_props_value [OF d cn(3) that(2,1), of type] ps cn(2) by auto
  have name: "type_name ?n = ''blockContainer''" and tyc: "type_name cn = type" and as: "node_attrs cn = as"
    by (simp_all add: container_node_def cn(1))
  have tk: "take (length kids) (child_nodes ?last) = kids" by simp
  have r: "nodeToBlock schema gen ?n j = Inr (WholeBlock (JStr bid) type (read_list (node_attrs ?last) ?ps) content ws, j')"
    using ps content kids tk
    by (subst nodeToBlock.simps) (simp add: name info last tyc as Let_def)
  show thesis
  proof (rule that [OF r])
    fix a v
    assume a: "a \<in> set keys" "map_of as a = Some v"
      and free: "a \<notin> list_props \<or> kids = [] \<and> \<not> dyn_true (get_attr as ''listType'')"
    have "map_of (read_list (node_attrs ?last) ?ps) a = map_of ?ps a"
      using free by (elim disjE) (simp add: read_list_other, simp add: as read_list_def)
    then show "map_of (read_list (node_attrs ?last) ?ps) a = Some v" using psv [OF a] by simp
  qed
qed

lemma block_round_trip_core:
  assumes L: "block_laws S schema" and b: "good_block S schema b"
  shows "\<exists>n k'. blockToNode S gen b k = Inr (n, k') \<and> \<not> is_PText n \<and>
     (\<forall>j. \<exists>w. nodeToBlock schema gen n j = Inr (w, j) \<and> same_block schema gen b w)"
  using b
proof (induction b arbitrary: k)
  case (PartialBlock i t p c cs)
  have S: "schema_laws S" using L by (simp add: block_laws_def)
  define type where "type = pb_typename (PartialBlock i t p c cs)"
  from PartialBlock.prems obtain keys where prems: "s_known S type" "schema type = Some keys" "t \<noteq> Some ''codeBlock''"
    "''id'' \<notin> fst ` set p" "distinct (map fst p)" "typed_content c"
    "\<not> dyn_true (get_attr (s_attrs S type p) ''listType'')" "list_all (good_block S schema) cs"
    by (auto simp: Let_def type_def)
  obtain ns content where cn: "content_node S t type p c = Inr (PNode type (s_attrs S type p) ns [])"
      "contentNodeToInlineContent (PNode type (s_attrs S type p) ns []) = Inr content"
      "content_cells content = partial_cells c"
    using content_node_reads [OF L prems(1,3,6), of p] by blast
  let ?reads = "\<lambda>b n. \<not> is_PText n \<and> (\<forall>j. \<exists>w. nodeToBlock schema gen n j = Inr (w, j) \<and> same_block schema gen b w)"
  have IH: "\<exists>n k'. blockToNode S gen b j = Inr (n, k') \<and> ?reads b n" if "b \<in> set cs" for b j
    using that prems(8) by (intro PartialBlock.IH) (simp_all add: list_all_iff)
  obtain kids k2 where kids: "map_ids (blockToNode S gen) cs (case i of None \<Rightarrow> Suc k | Some s \<Rightarrow> k) = Inr (kids, k2)"
      "list_all2 ?reads cs kids"
    using map_ids_all2 [of cs "blockToNode S gen" ?reads, OF IH] by blast
  have notext: "\<forall>n \<in> set kids. \<not> is_PText n"
    using kids(2) by (auto simp: list_all2_conv_all_nth in_set_conv_nth)
  have made: "blockToNode S gen (PartialBlock i t p c cs) k =
      Inr (container_node S (block_id gen i k) p (PNode type (s_attrs S type p) ns []) kids, k2)"
    using blockToNode_container [OF S _ _ kids(1) notext] cn(1) by (simp add: type_def)
  have kidsreads: "\<exists>ws. map_ids (nodeToBlock schema gen) kids j = Inr (ws, j) \<and> list_all2 (same_block schema gen) cs ws" for j
    by (rule map_ids_reads [OF kids(2)])
  have d: "distinct (map fst (s_attrs S type p))" using L by (simp add: block_laws_def)
  have carried: "map_of (s_attrs S type p) a = Some v" if "a \<in> set keys" "map_of p a = Some v" for a v
    using L prems(2) that unfolding block_laws_def by blast
  have "\<exists>w. nodeToBlock schema gen (container_node S (block_id gen i k) p (PNode type (s_attrs S type p) ns []) kids) j =
      Inr (w, j) \<and> same_block schema gen (PartialBlock i t p c cs) w" for j
  proof -
    obtain ws where ws: "map_ids (nodeToBlock schema gen) kids j = Inr (ws, j)" "list_all2 (same_block schema gen) cs ws"
      using kidsreads by blast
    have kn: "kids = [] \<longleftrightarrow> cs = []" using kids(2) by auto
    obtain props where w: "nodeToBlock schema gen (container_node S (block_id gen i k) p (PNode type (s_attrs S type p) ns []) kids) j =
        Inr (WholeBlock (JStr (block_id gen i k)) type props content ws, j)"
      and v: "\<And>a v. a \<in> set keys \<Longrightarrow> map_of (s_attrs S type p) a = Some v \<Longrightarrow>
        a \<notin> list_props \<or> kids = [] \<and> \<not> dyn_true (get_attr (s_attrs S type p) ''listType'') \<Longrightarrow> map_of props a = Some v"
      using container_reads [OF L prems(4,5) refl prems(2) d cn(2) ws(1)] by blast
    have "same_block schema gen (PartialBlock i t p c cs) (WholeBlock (JStr (block_id gen i k)) type props content ws)"
      using prems(2,7) cn(3) ws(2) kn v carried
      by (auto simp: type_def block_id_def split: option.splits)
    with w show ?thesis by blast
  qed
  then show ?case
    using made by (intro exI [of _ "container_node S _ _ _ _"] exI [of _ k2] conjI allI)
      (assumption, simp add: container_node_def, blast)
qed

section \<open>Properties\<close>


text \<open>
  A schema to apply the results to: groups as \<^verbatim>\<open>BlockGroup.ts\<close> declares them, ids on
  containers only, attributes stored as given, marks kept in order, no two texts joined.
\<close>

definition blockGroup_attributes :: "attrs \<Rightarrow> attrs" where
  "blockGroup_attributes as =
     [(''listLevel'', if get_attr as ''listLevel'' = JUndef then JStr ''1'' else get_attr as ''listLevel''),
      (''listType'', if get_attr as ''listType'' = JUndef then JStr ''div'' else get_attr as ''listType''),
      (''start'', get_attr as ''start'')]"

definition sample_attrs :: "string \<Rightarrow> attrs \<Rightarrow> attrs" where
  "sample_attrs n as = (if n = ''blockGroup'' then blockGroup_attributes as
     else if n = ''blockContainer'' then AList.clearjunk as
     else filter (\<lambda>p. fst p \<noteq> ''id'') (AList.clearjunk as))"

definition sample_schema :: pm_schema where
  "sample_schema = \<lparr>s_known = (\<lambda>n. True), s_attrs = sample_attrs, s_mark_attrs = (\<lambda>k as. as),
     s_mark_set = (\<lambda>ms. ms), s_fragment = (\<lambda>ns. ns)\<rparr>"

definition sample_specs :: "string \<Rightarrow> string list option" where
  "sample_specs t = (if t = ''paragraph'' then Some [''textAlignment'', ''childrenType'', ''listLevel'', ''type'']
     else if t = ''heading'' then Some [''textAlignment'', ''childrenType'', ''listLevel'', ''level''] else None)"

lemma sample_schema_sel [simp]:
  "s_known sample_schema n" "s_attrs sample_schema = sample_attrs" "s_mark_attrs sample_schema k as = as"
  "s_mark_set sample_schema ms = ms" "s_fragment sample_schema ns = ns"
  by (simp_all add: sample_schema_def)

lemma map_of_not_id: "k \<noteq> ''id'' \<Longrightarrow> map_of (filter (\<lambda>p. fst p \<noteq> ''id'') as) k = map_of as k"
  by (induction as) auto

lemma sample_attrs_other:
  "n \<noteq> ''blockGroup'' \<Longrightarrow> k \<noteq> ''id'' \<Longrightarrow> map_of (sample_attrs n as) k = map_of as k"
  by (auto simp: sample_attrs_def map_of_not_id map_of_clearjunk)

lemma sample_schema_laws: "schema_laws sample_schema"
  unfolding schema_laws_def
  by (auto simp: sample_attrs_other get_attr_def intro: joins_refl)

lemma sample_block_laws: "block_laws sample_schema sample_specs"
proof -
  have "distinct (map fst (sample_attrs n as))" for n as
    unfolding sample_attrs_def
    by (cases "n = ''blockGroup''"; cases "n = ''blockContainer''")
      (simp_all only: if_True if_False distinct_clearjunk distinct_filter_fst blockGroup_attributes_def, simp_all)
  moreover have "map_of as ''id'' = Some v \<Longrightarrow> map_of (sample_attrs ''blockContainer'' as) ''id'' = Some v" for as v
    by (simp add: sample_attrs_def map_of_clearjunk)
  moreover have "sample_specs type = Some keys \<Longrightarrow> a \<in> set keys \<Longrightarrow> map_of as a = Some v \<Longrightarrow>
      map_of (sample_attrs type as) a = Some v" for type keys a as v
    by (subst sample_attrs_other) (auto simp: sample_specs_def split: if_splits)
  ultimately show ?thesis
    unfolding block_laws_def using sample_schema_laws by simp
qed

definition sample_block :: partial_block where
  "sample_block = PartialBlock (Some ''b1'') (Some ''heading'') [(''level'', JStr ''2'')]
     (InlineContent [PIText (Run ''Title'' [(''bold'', JBool True)]),
        PILink (JStr ''hm://d/1'') (LString ''link'')])
     [PartialBlock None None [] (StringContent ''child'') []]"


text \<open>A code block keeps the text of its first element; the elements after it are not loaded.\<close>

lemma code_block_first_run:
  assumes "s_known S ''codeBlock''" and "t \<noteq> []" and "s_mark_set S [] = []" and "s_fragment S [PText t []] = [PText t []]"
  shows "\<exists>n. content_node S (Some ''codeBlock'') ''codeBlock'' p (InlineContent (PIText (Run t st) # rest)) = Inr n \<and>
    contentNodeToInlineContent n = Inr [CText (Run t [])]"
  using assms
  by (simp add: content_node_def schema_text_def schema_create_def contentNodeToInlineContent_def read_node_def
      read_text_def start_content_def)

end
