(* ===== verification/Editor_Groups.thy ===== *)
theory Editor_Groups
  imports Editor_Blocks
begin

text \<open>
  The types of lists in the editor's document (\<^verbatim>\<open>frontend/packages/app/models/editor-utils.ts\<close>):
  \<open>getBlockGroup\<close> reads the group of a block, \<open>setGroupTypes\<close> gives each group the type that the
  loaded block says, since a node made from a block has a group of the default type.

  A position counts tokens of the document, as ProseMirror does: a character or a node without
  content is one token, any other node has one token before its content and one after. Which
  node types have no content is an argument, and so is \<open>setNodeMarkup\<close>, the call that gives the node
  at a position other attributes. The timeouts of \<open>setGroupTypes\<close> run after it, in the order they were
  set, with no edit in between.
\<close>

section \<open>Positions\<close>

fun node_size :: "(string \<Rightarrow> bool) \<Rightarrow> pm_node \<Rightarrow> nat" where
  "node_size leaf (PText t ms) = length t"
| "node_size leaf (PNode k as cs ms) = (if leaf k then 1 else sum_list (map (node_size leaf) cs) + 2)"

lemma size_child_nodes: "size_list size (child_nodes n) \<le> size n"
  by (cases n) auto

lemma size_child_nodes_less [termination_simp]: "size_list size (child_nodes n) < Suc (size n + m)"
  using size_child_nodes [of n] by simp

text \<open>\<open>descendants\<close>: the nodes below, each before its own content, with their positions.\<close>

fun nodes_at :: "(string \<Rightarrow> bool) \<Rightarrow> pm_node list \<Rightarrow> nat \<Rightarrow> (pm_node \<times> nat) list" where
  "nodes_at leaf [] p = []"
| "nodes_at leaf (n # ns) p =
     (n, p) # nodes_at leaf (child_nodes n) (Suc p) @ nodes_at leaf ns (p + node_size leaf n)"

text \<open>The same, not going into groups; only the groups are kept.\<close>

fun groups_at :: "(string \<Rightarrow> bool) \<Rightarrow> pm_node list \<Rightarrow> nat \<Rightarrow> nat list" where
  "groups_at leaf [] p = []"
| "groups_at leaf (n # ns) p =
     (if type_name n = ''blockGroup'' then [p] else groups_at leaf (child_nodes n) (Suc p)) @
       groups_at leaf ns (p + node_size leaf n)"

text \<open>
  \<open>setNodeMarkup(pos, null, attrs)\<close> on the content of the document: the node that starts at the
  position keeps its type and content, with the attributes its type makes of the given ones.
\<close>

fun give_attrs :: "(string \<Rightarrow> attrs \<Rightarrow> attrs) \<Rightarrow> attrs \<Rightarrow> pm_node \<Rightarrow> pm_node" where
  "give_attrs mk as (PText t ms) = PText t ms"
| "give_attrs mk as (PNode k as' cs ms) = PNode k (mk k as) cs ms"

fun with_children :: "pm_node \<Rightarrow> pm_node list \<Rightarrow> pm_node" where
  "with_children (PText t ms) cs' = PText t ms"
| "with_children (PNode k as cs ms) cs' = PNode k as cs' ms"

fun mark_at :: "(string \<Rightarrow> bool) \<Rightarrow> (string \<Rightarrow> attrs \<Rightarrow> attrs) \<Rightarrow> nat set \<Rightarrow> attrs \<Rightarrow> pm_node list \<Rightarrow> nat \<Rightarrow> pm_node list" where
  "mark_at leaf mk A as [] p = []"
| "mark_at leaf mk A as (n # ns) p =
     (let n' = with_children n (mark_at leaf mk A as (child_nodes n) (Suc p))
      in if p \<in> A then give_attrs mk as n' else n') # mark_at leaf mk A as ns (p + node_size leaf n)"

definition markup_law ::
  "(string \<Rightarrow> bool) \<Rightarrow> (string \<Rightarrow> attrs \<Rightarrow> attrs) \<Rightarrow> (pm_node \<Rightarrow> nat \<Rightarrow> attrs \<Rightarrow> pm_node) \<Rightarrow> bool" where
  "markup_law leaf mk setNodeMarkup \<longleftrightarrow>
     (\<forall>as i. get_attr (mk ''blockGroup'' as) ''id'' \<noteq> JStr i) \<and>
     (\<forall>d p as. p \<in> snd ` set (nodes_at leaf (child_nodes d) 0) \<longrightarrow>
        setNodeMarkup d p as = with_children d (mark_at leaf mk {p} as (child_nodes d) 0))"

section \<open>Reading the group of a block\<close>

record group_info =
  gi_type :: dyn
  gi_start :: dyn
  gi_listLevel :: dyn

fun scan_groups :: "pm_node list \<Rightarrow> group_info option \<Rightarrow> group_info option" where
  "scan_groups [] g = g"
| "scan_groups (n # ns) g =
     (if dyn_true (get_attr (node_attrs n) ''listType'') \<and> type_name n = ''blockGroup''
      then scan_groups ns (Some \<lparr>gi_type = get_attr (node_attrs n) ''listType'',
             gi_start = get_attr (node_attrs n) ''start'', gi_listLevel = get_attr (node_attrs n) ''listLevel''\<rparr>)
      else scan_groups ns (scan_groups (child_nodes n) g))"

fun scan_block :: "string \<Rightarrow> pm_node list \<Rightarrow> group_info option \<Rightarrow> group_info option" where
  "scan_block i [] g = g"
| "scan_block i (n # ns) g =
     scan_block i ns
       (if g \<noteq> None then g
        else if get_attr (node_attrs n) ''id'' \<noteq> JStr i then scan_block i (child_nodes n) g
        else scan_block i (child_nodes n) (scan_groups (child_nodes n) g))"

text \<open>\<open>None\<close> as document: there is no editor yet.\<close>

definition getBlockGroup :: "pm_node option \<Rightarrow> string \<Rightarrow> group_info option result" where
  "getBlockGroup editor i = (case editor of None \<Rightarrow> Inr None | Some doc \<Rightarrow> (case child_nodes doc of
     [] \<Rightarrow> Inl TypeError
   | root # _ \<Rightarrow> Inr (scan_block i (child_nodes root) None)))"

section \<open>Setting the types\<close>

text \<open>\<open>parseInt(s)\<close> without a radix: blanks, a sign, then decimal digits, or hexadecimal ones after \<open>0x\<close>.\<close>

definition is_blank :: "char \<Rightarrow> bool" where
  "is_blank c \<longleftrightarrow> c \<in> {CHR 0x09, CHR 0x0A, CHR 0x0B, CHR 0x0C, CHR 0x0D, CHR '' '', CHR 0xA0}"

definition hex_val :: "char \<Rightarrow> nat option" where
  "hex_val c = (if is_digit c then Some (digit_val c)
     else map_of (zip ''abcdefABCDEF'' [10, 11, 12, 13, 14, 15, 10, 11, 12, 13, 14, 15]) c)"

definition parse_digits :: "string \<Rightarrow> int option" where
  "parse_digits s =
     (if starts_with s ''0x'' \<or> starts_with s ''0X''
      then (let ds = takeWhile (\<lambda>c. hex_val c \<noteq> None) (drop 2 s)
            in if ds = [] then None else Some (int (foldl (\<lambda>n c. 16 * n + the (hex_val c)) 0 ds)))
      else (let ds = takeWhile is_digit s in if ds = [] then None else Some (int (parse_nat ds))))"

definition parseInt :: "string \<Rightarrow> int option" where
  "parseInt s = (case dropWhile is_blank s of
     c # rest \<Rightarrow> if c = CHR ''-'' then map_option uminus (parse_digits rest)
       else if c = CHR ''+'' then parse_digits rest else parse_digits (c # rest)
   | [] \<Rightarrow> None)"

definition opt_dyn :: "string option \<Rightarrow> dyn" where
  "opt_dyn v = (case v of None \<Rightarrow> JUndef | Some s \<Rightarrow> JStr s)"

definition group_attrs :: "block_props \<Rightarrow> attrs" where
  "group_attrs p =
     [(''listType'', opt_dyn (p_childrenType p)), (''listLevel'', opt_dyn (p_listLevel p))] @
     (if truthy (p_start p) then [(''start'', JNum (parseInt (the (p_start p))))] else [])"

text \<open>The timeouts that one call sets for one block, and then for its children.\<close>

definition block_jobs :: "(string \<Rightarrow> bool) \<Rightarrow> pm_node \<Rightarrow> string \<Rightarrow> block_props \<Rightarrow> (nat \<times> attrs) list" where
  "block_jobs leaf doc i p = concat (map (\<lambda>(n, pos).
     if get_attr (node_attrs n) ''id'' = JStr i \<and> truthy (p_childrenType p)
     then map (\<lambda>childPos. (pos + childPos + 1, group_attrs p)) (groups_at leaf (child_nodes n) 0)
     else []) (nodes_at leaf (child_nodes doc) 0))"

fun group_jobs :: "(string \<Rightarrow> bool) \<Rightarrow> pm_node \<Rightarrow> editor_block list \<Rightarrow> (nat \<times> attrs) list" where
  "group_jobs leaf doc [] = []"
| "group_jobs leaf doc (EditorBlock i t p c cs # bs) =
     block_jobs leaf doc i p @ group_jobs leaf doc cs @ group_jobs leaf doc bs"

definition setGroupTypes ::
  "(string \<Rightarrow> bool) \<Rightarrow> (pm_node \<Rightarrow> nat \<Rightarrow> attrs \<Rightarrow> pm_node) \<Rightarrow> pm_node \<Rightarrow> editor_block list \<Rightarrow> pm_node" where
  "setGroupTypes leaf setNodeMarkup doc blocks =
     foldl (\<lambda>d (p, as). setNodeMarkup d p as) doc (group_jobs leaf doc blocks)"

section \<open>The effect on the tree\<close>

text \<open>
  The specification, on the tree and without positions: inside a node with the id, the first groups
  on each way down get the attributes.
\<close>

definition has_id :: "string \<Rightarrow> pm_node \<Rightarrow> bool" where
  "has_id i n \<longleftrightarrow> type_name n \<noteq> ''blockGroup'' \<and> get_attr (node_attrs n) ''id'' = JStr i"

definition below :: "string \<Rightarrow> bool \<Rightarrow> pm_node \<Rightarrow> bool" where
  "below i inside n \<longleftrightarrow> has_id i n \<or> inside \<and> type_name n \<noteq> ''blockGroup''"

fun retype :: "(string \<Rightarrow> attrs \<Rightarrow> attrs) \<Rightarrow> string \<Rightarrow> attrs \<Rightarrow> bool \<Rightarrow> pm_node list \<Rightarrow> pm_node list" where
  "retype mk i as inside [] = []"
| "retype mk i as inside (n # ns) =
     (let n' = with_children n (retype mk i as (below i inside n) (child_nodes n))
      in if inside \<and> type_name n = ''blockGroup'' then give_attrs mk as n' else n') # retype mk i as inside ns"

text \<open>Documents as ProseMirror has them: no empty text, no content in a node of a type without content; groups have no id.\<close>

fun sound_node :: "(string \<Rightarrow> bool) \<Rightarrow> pm_node \<Rightarrow> bool" where
  "sound_node leaf (PText t ms) \<longleftrightarrow> t \<noteq> []"
| "sound_node leaf (PNode k as cs ms) \<longleftrightarrow>
     (leaf k \<longrightarrow> cs = []) \<and> (k = ''blockGroup'' \<longrightarrow> (\<forall>i. get_attr as ''id'' \<noteq> JStr i)) \<and> list_all (sound_node leaf) cs"

abbreviation "total_size leaf ns \<equiv> sum_list (map (node_size leaf) ns)"

lemma sound_children: "sound_node leaf n \<Longrightarrow> list_all (sound_node leaf) (child_nodes n)"
  by (cases n) auto

lemma size_children: "sound_node leaf n \<Longrightarrow> total_size leaf (child_nodes n) + 1 \<le> node_size leaf n"
  by (cases n) (auto simp: Suc_le_eq)

lemma node_basics [simp]:
  "type_name (with_children n cs) = type_name n" "type_name (give_attrs mk as n) = type_name n"
  "node_attrs (with_children n cs) = node_attrs n"
  "child_nodes (give_attrs mk as n) = child_nodes n"
  "node_size leaf (give_attrs mk as n) = node_size leaf n"
  "with_children (give_attrs mk as n) cs = give_attrs mk as (with_children n cs)"
  "with_children (with_children n cs') cs = with_children n cs"
  "give_attrs mk as (give_attrs mk as' n) = give_attrs mk as n"
  by (cases n; simp)+

lemma child_with_children: "child_nodes (with_children n cs) = (if is_PText n then [] else cs)"
  by (cases n) auto

lemma with_children_self [simp]: "with_children n (child_nodes n) = n"
  by (cases n) auto

lemma size_with_children: "total_size leaf cs = total_size leaf (child_nodes n) \<Longrightarrow> node_size leaf (with_children n cs) = node_size leaf n"
  by (cases n) auto

lemma mark_at_sizes [simp]: "map (node_size leaf) (mark_at leaf mk A as ns p) = map (node_size leaf) ns"
  by (induction leaf mk A as ns p rule: mark_at.induct) (auto simp: Let_def size_with_children)

lemma text_no_children: "is_PText n \<Longrightarrow> child_nodes n = []"
  by (cases n) auto

lemma with_children_text [simp]: "is_PText n \<Longrightarrow> with_children n cs = n"
  by (cases n) auto

lemma size_marked [simp]: "node_size leaf (with_children n (mark_at leaf mk A as (child_nodes n) q)) = node_size leaf n"
  by (simp add: size_with_children)

lemma mark_at_twice: "mark_at leaf mk A as (mark_at leaf mk B as ns p) p = mark_at leaf mk (A \<union> B) as ns p"
proof (induction leaf mk B as ns p rule: mark_at.induct)
  case (2 leaf mk B as n ns p)
  show ?case
    using 2 by (cases "is_PText n") (auto simp: Let_def child_with_children)
qed simp

text \<open>Only positions within the nodes matter.\<close>

lemma mark_at_cong:
  "list_all (sound_node leaf) ns \<Longrightarrow> (\<And>q. p \<le> q \<Longrightarrow> q < p + total_size leaf ns \<Longrightarrow> q \<in> A \<longleftrightarrow> q \<in> B) \<Longrightarrow>
     mark_at leaf mk A as ns p = mark_at leaf mk B as ns p"
proof (induction leaf mk A as ns p rule: mark_at.induct)
  case (2 leaf mk A as n ns p)
  have n: "sound_node leaf n" using 2(3) by simp
  have pos: "total_size leaf (child_nodes n) + 1 \<le> node_size leaf n" using n by (rule size_children)
  have c: "mark_at leaf mk A as (child_nodes n) (Suc p) = mark_at leaf mk B as (child_nodes n) (Suc p)"
    using pos by (intro 2(1) sound_children n 2(4)) auto
  have r: "mark_at leaf mk A as ns (p + node_size leaf n) = mark_at leaf mk B as ns (p + node_size leaf n)"
    using 2(3) by (intro 2(2) 2(4)) auto
  have "p \<in> A \<longleftrightarrow> p \<in> B" using pos by (intro 2(4)) auto
  then show ?case by (simp add: c r Let_def)
qed simp

lemma mark_at_empty: "mark_at leaf mk {} as ns p = ns"
  by (induction leaf mk "{} :: nat set" as ns p rule: mark_at.induct) auto

text \<open>The positions that \<open>retype\<close> changes, and those for which \<open>setGroupTypes\<close> sets a timeout.\<close>

fun targets :: "(string \<Rightarrow> bool) \<Rightarrow> string \<Rightarrow> bool \<Rightarrow> pm_node list \<Rightarrow> nat \<Rightarrow> nat set" where
  "targets leaf i inside [] p = {}"
| "targets leaf i inside (n # ns) p =
     (if inside \<and> type_name n = ''blockGroup'' then {p} else {}) \<union>
     targets leaf i (below i inside n) (child_nodes n) (Suc p) \<union>
     targets leaf i inside ns (p + node_size leaf n)"

lemma targets_range:
  "list_all (sound_node leaf) ns \<Longrightarrow> q \<in> targets leaf i inside ns p \<Longrightarrow> p \<le> q \<and> q < p + total_size leaf ns"
proof (induction leaf i inside ns p rule: targets.induct)
  case (2 leaf i inside n ns p)
  then have n: "sound_node leaf n" and ns: "list_all (sound_node leaf) ns" by simp_all
  have pos: "total_size leaf (child_nodes n) + 1 \<le> node_size leaf n" using n by (rule size_children)
  from 2(4) consider "q = p" | "q \<in> targets leaf i (below i inside n) (child_nodes n) (Suc p)"
    | "q \<in> targets leaf i inside ns (p + node_size leaf n)"
    by (auto split: if_splits)
  then show ?case
    using pos 2(1) [OF sound_children [OF n]] 2(2) [OF ns] by cases simp_all
qed simp

lemma mark_targets:
  "list_all (sound_node leaf) ns \<Longrightarrow> mark_at leaf mk (targets leaf i inside ns p) as ns p = retype mk i as inside ns"
proof (induction leaf i inside ns p rule: targets.induct)
  case (2 leaf i inside n ns p)
  then have n: "sound_node leaf n" and ns: "list_all (sound_node leaf) ns" by simp_all
  have pos: "total_size leaf (child_nodes n) + 1 \<le> node_size leaf n" using n by (rule size_children)
  define C where "C = targets leaf i (below i inside n) (child_nodes n) (Suc p)"
  define R where "R = targets leaf i inside ns (p + node_size leaf n)"
  define H where "H = (if inside \<and> type_name n = ''blockGroup'' then {p} else {})"
  have C: "Suc p \<le> q \<and> q < p + node_size leaf n" if "q \<in> C" for q
    using targets_range [OF sound_children [OF n]] that pos by (fastforce simp: C_def)
  have R: "p + node_size leaf n \<le> q" if "q \<in> R" for q
    using targets_range [OF ns] that by (fastforce simp: R_def)
  have H: "q \<in> H \<Longrightarrow> q = p" for q by (simp add: H_def split: if_splits)
  have c: "mark_at leaf mk (H \<union> C \<union> R) as (child_nodes n) (Suc p) = mark_at leaf mk C as (child_nodes n) (Suc p)"
  proof (intro mark_at_cong sound_children n)
    fix q assume "Suc p \<le> q" "q < Suc p + total_size leaf (child_nodes n)"
    then have "q \<notin> H" "q \<notin> R" using pos H [of q] R [of q] by auto
    then show "q \<in> H \<union> C \<union> R \<longleftrightarrow> q \<in> C" by blast
  qed
  have r: "mark_at leaf mk (H \<union> C \<union> R) as ns (p + node_size leaf n) = mark_at leaf mk R as ns (p + node_size leaf n)"
  proof (intro mark_at_cong ns)
    fix q assume "p + node_size leaf n \<le> q" "q < p + node_size leaf n + total_size leaf ns"
    then have "q \<notin> H" "q \<notin> C" using pos H [of q] C [of q] by auto
    then show "q \<in> H \<union> C \<union> R \<longleftrightarrow> q \<in> R" by blast
  qed
  have "p \<notin> C" "p \<notin> R" using C [of p] R [of p] pos by auto
  then have h: "p \<in> H \<union> C \<union> R \<longleftrightarrow> inside \<and> type_name n = ''blockGroup''" by (simp add: H_def)
  have t: "targets leaf i inside (n # ns) p = H \<union> C \<union> R" by (simp add: H_def C_def R_def)
  have "mark_at leaf mk C as (child_nodes n) (Suc p) = retype mk i as (below i inside n) (child_nodes n)"
    unfolding C_def by (intro 2(1) sound_children n)
  moreover have "mark_at leaf mk R as ns (p + node_size leaf n) = retype mk i as inside ns"
    unfolding R_def by (intro 2(2) ns)
  ultimately show ?case unfolding t mark_at.simps retype.simps c r h by simp
qed simp

text \<open>Shifting the start shifts the positions.\<close>

lemma groups_at_shift: "groups_at leaf ns (p + q) = map (\<lambda>r. p + r) (groups_at leaf ns q)"
proof (induction leaf ns q rule: groups_at.induct)
  case (2 leaf n ns q)
  then show ?case by (cases "type_name n = ''blockGroup''") (simp_all add: add.assoc)
qed simp

lemma targets_groups:
  "list_all (sound_node leaf) ns \<Longrightarrow>
   targets leaf i inside ns p =
     (if inside then set (groups_at leaf ns p) else {}) \<union>
     (\<Union>(n, q) \<in> set (nodes_at leaf ns p). if get_attr (node_attrs n) ''id'' = JStr i then set (groups_at leaf (child_nodes n) (Suc q)) else {})"
proof (induction leaf i inside ns p rule: targets.induct)
  case (2 leaf i inside n ns p)
  then have n: "sound_node leaf n" and ns: "list_all (sound_node leaf) ns" by simp_all
  have id: "has_id i n \<longleftrightarrow> get_attr (node_attrs n) ''id'' = JStr i"
    using n by (cases n) (auto simp: has_id_def)
  have nogroup: "has_id i n \<Longrightarrow> type_name n \<noteq> ''blockGroup''" by (simp add: has_id_def)
  define J where "J = (\<lambda>(n, q). if get_attr (node_attrs n) ''id'' = JStr i then set (groups_at leaf (child_nodes n) (Suc q)) else {})"
  have J: "J (n, p) = (if has_id i n then set (groups_at leaf (child_nodes n) (Suc p)) else {})"
    by (simp add: J_def id)
  have IH: "targets leaf i (below i inside n) (child_nodes n) (Suc p) =
      (if below i inside n then set (groups_at leaf (child_nodes n) (Suc p)) else {}) \<union> (\<Union>x \<in> set (nodes_at leaf (child_nodes n) (Suc p)). J x)"
    unfolding J_def by (intro 2(1) sound_children n)
  have IH': "targets leaf i inside ns (p + node_size leaf n) =
      (if inside then set (groups_at leaf ns (p + node_size leaf n)) else {}) \<union> (\<Union>x \<in> set (nodes_at leaf ns (p + node_size leaf n)). J x)"
    unfolding J_def by (intro 2(2) ns)
  have "targets leaf i inside (n # ns) p =
      (if inside then set (groups_at leaf (n # ns) p) else {}) \<union> (\<Union>x \<in> set (nodes_at leaf (n # ns) p). J x)"
    unfolding targets.simps IH IH' groups_at.simps nodes_at.simps set_append list.set UN_insert UN_Un J
    using nogroup by (cases "has_id i n"; cases inside; cases "type_name n = ''blockGroup''") (auto simp only: below_def simp_thms if_True if_False list.set Un_iff empty_iff insert_iff)
  then show ?case unfolding J_def .
qed simp

text \<open>The timeouts of one block, run.\<close>

abbreviation places :: "(string \<Rightarrow> bool) \<Rightarrow> pm_node list \<Rightarrow> nat \<Rightarrow> nat set" where
  "places leaf ns p \<equiv> snd ` set (nodes_at leaf ns p)"

lemma places_mark_at: "places leaf (mark_at leaf mk A as ns p) p = places leaf ns p"
proof (induction leaf mk A as ns p rule: mark_at.induct)
  case (2 leaf mk A as n ns p)
  then show ?case by (cases "is_PText n") (simp_all add: Let_def child_with_children image_Un)
qed simp

lemma targets_places: "targets leaf i inside ns p \<subseteq> places leaf ns p"
proof (induction leaf i inside ns p rule: targets.induct)
  case (2 leaf i inside n ns p)
  then show ?case
    by (cases "inside \<and> type_name n = ''blockGroup''") (simp_all add: image_Un, blast+)
qed simp

lemma run_jobs:
  assumes law: "markup_law leaf mk f"
    and "fst ` set js \<subseteq> places leaf (child_nodes d) 0" and "snd ` set js \<subseteq> {as}"
  shows "foldl (\<lambda>d (q, a). f d q a) d js = with_children d (mark_at leaf mk (fst ` set js) as (child_nodes d) 0)"
  using assms(2,3)
proof (induction js arbitrary: d)
  case Nil
  then show ?case by (simp add: mark_at_empty)
next
  case (Cons j js)
  obtain q where j: "j = (q, as)" using Cons.prems(2) by (cases j) auto
  let ?ns = "mark_at leaf mk {q} as (child_nodes d) 0"
  have fd: "f d q as = with_children d ?ns"
    using Cons.prems(1) law by (simp add: markup_law_def j)
  have "child_nodes d \<noteq> []" using Cons.prems(1) by auto
  then have kids: "child_nodes (with_children d ?ns) = ?ns"
    using text_no_children by (auto simp: child_with_children)
  have "foldl (\<lambda>d (q, a). f d q a) (with_children d ?ns) js =
      with_children (with_children d ?ns) (mark_at leaf mk (fst ` set js) as ?ns 0)"
    using Cons.prems kids by (subst Cons.IH) (simp_all add: places_mark_at)
  then show ?case by (simp add: j fd mark_at_twice Un_commute)
qed

lemma block_jobs_places:
  assumes "list_all (sound_node leaf) (child_nodes doc)"
  shows "fst ` set (block_jobs leaf doc i p) =
    (if truthy (p_childrenType p) then targets leaf i False (child_nodes doc) 0 else {})"
proof (cases "truthy (p_childrenType p)")
  case True
  have shift: "(\<lambda>c. Suc (q + c)) ` set (groups_at leaf cs 0) = set (groups_at leaf cs (Suc q))" for cs q
    using groups_at_shift [of leaf cs "Suc q" 0] by (simp add: image_def)
  have "fst ` set (block_jobs leaf doc i p) = (\<Union>(n, q) \<in> set (nodes_at leaf (child_nodes doc) 0).
      if get_attr (node_attrs n) ''id'' = JStr i then (\<lambda>c. Suc (q + c)) ` set (groups_at leaf (child_nodes n) 0) else {})"
    using True by (auto simp: block_jobs_def image_UN image_image split: if_splits)
  then show ?thesis using True by (simp add: shift targets_groups [OF assms] cong: if_cong)
next
  case False
  then show ?thesis by (auto simp: block_jobs_def split: prod.splits)
qed

lemma block_jobs_attrs: "snd ` set (block_jobs leaf doc i p) \<subseteq> {group_attrs p}"
  by (auto simp: block_jobs_def split: if_splits)

text \<open>Giving groups other attributes changes no id, no size and no place.\<close>

lemma retype_length [simp]: "map (node_size leaf) (retype mk i as inside ns) = map (node_size leaf) ns"
  by (induction mk i as inside ns rule: retype.induct) (auto simp: Let_def size_with_children)

lemma retype_node_size [simp]:
  "node_size leaf (with_children n (retype mk i as inside (child_nodes n))) = node_size leaf n"
  by (simp add: size_with_children)

lemma has_id_kept [simp]:
  "has_id j (with_children n cs) = has_id j n"
  "type_name n = ''blockGroup'' \<Longrightarrow> has_id j (give_attrs mk as n) = has_id j n"
  by (auto simp: has_id_def)

lemma below_kept [simp]:
  "below j inside (with_children n cs) = below j inside n"
  "type_name n = ''blockGroup'' \<Longrightarrow> below j inside (give_attrs mk as n) = below j inside n"
  by (auto simp: below_def)

lemma targets_retype:
  "targets leaf j here (retype mk i as inside ns) p = targets leaf j here ns p"
proof (induction mk i as inside ns arbitrary: here p rule: retype.induct)
  case (2 mk i as inside n ns)
  then show ?case
    by (cases "is_PText n"; cases inside; cases "type_name n = ''blockGroup''")
       (simp_all add: Let_def child_with_children)
qed simp

lemma places_retype:
  "places leaf (retype mk i as inside ns) p = places leaf ns p"
proof (induction mk i as inside ns arbitrary: p rule: retype.induct)
  case (2 mk i as inside n ns)
  then show ?case
    by (cases "is_PText n"; cases inside; cases "type_name n = ''blockGroup''")
       (simp_all add: Let_def child_with_children image_Un)
qed simp

lemma retype_Nil_iff [simp]: "retype mk i as inside ns = [] \<longleftrightarrow> ns = []"
  by (cases ns) (simp_all add: Let_def)

lemma sound_retype:
  "\<forall>as i. get_attr (mk ''blockGroup'' as) ''id'' \<noteq> JStr i \<Longrightarrow> list_all (sound_node leaf) ns \<Longrightarrow>
     list_all (sound_node leaf) (retype mk i as inside ns)"
proof (induction mk i as inside ns rule: retype.induct)
  case (2 mk i as inside n ns)
  then show ?case
    by (cases n; cases inside; cases "type_name n = ''blockGroup''") (simp_all add: Let_def)
qed simp

text \<open>All blocks of the tree, each before its children.\<close>

fun all_blocks :: "editor_block list \<Rightarrow> (string \<times> block_props) list" where
  "all_blocks [] = []"
| "all_blocks (EditorBlock i t p c cs # bs) = (i, p) # all_blocks cs @ all_blocks bs"

definition retype_block :: "(string \<Rightarrow> attrs \<Rightarrow> attrs) \<Rightarrow> pm_node list \<Rightarrow> string \<times> block_props \<Rightarrow> pm_node list" where
  "retype_block mk ns b = (case b of (i, p) \<Rightarrow>
     if truthy (p_childrenType p) then retype mk i (group_attrs p) False ns else ns)"

lemma group_jobs_blocks: "group_jobs leaf doc bs = concat (map (\<lambda>(i, p). block_jobs leaf doc i p) (all_blocks bs))"
  by (induction bs rule: all_blocks.induct) auto

lemma set_types_core:
  assumes law: "markup_law leaf mk f"
    and sound: "list_all (sound_node leaf) (child_nodes doc)"
  shows "setGroupTypes leaf f doc bs = with_children doc (foldl (retype_block mk) (child_nodes doc) (all_blocks bs))"
proof (cases "is_PText doc")
  case True
  then have none: "child_nodes doc = []" by (rule text_no_children)
  have "block_jobs leaf doc i p = []" for i p by (simp add: block_jobs_def none)
  then have "group_jobs leaf doc bs = []" by (auto simp: group_jobs_blocks)
  then show ?thesis by (simp add: True setGroupTypes_def)
next
  case False
  have "foldl (\<lambda>d (q, a). f d q a) (with_children doc ns) (concat (map (\<lambda>(i, p). block_jobs leaf doc i p) xs)) =
      with_children doc (foldl (retype_block mk) ns xs)"
    if "list_all (sound_node leaf) ns" "places leaf ns 0 = places leaf (child_nodes doc) 0"
      "\<And>i. targets leaf i False ns 0 = targets leaf i False (child_nodes doc) 0" for ns xs
    using that
  proof (induction xs arbitrary: ns)
    case (Cons x xs)
    obtain i p where x: "x = (i, p)" by (cases x)
    let ?d = "with_children doc ns"
    have kids: "child_nodes ?d = ns" using False by (simp add: child_with_children)
    let ?A = "fst ` set (block_jobs leaf doc i p)"
    have A: "?A = (if truthy (p_childrenType p) then targets leaf i False ns 0 else {})"
      by (simp add: block_jobs_places [OF sound] Cons.prems(3))
    have "?A \<subseteq> places leaf (child_nodes ?d) 0"
      unfolding kids A using targets_places [of leaf i False ns 0] by simp
    then have "foldl (\<lambda>d (q, a). f d q a) ?d (block_jobs leaf doc i p) =
        with_children ?d (mark_at leaf mk ?A (group_attrs p) (child_nodes ?d) 0)"
      by (rule run_jobs [OF law _ block_jobs_attrs])
    also have "mark_at leaf mk ?A (group_attrs p) (child_nodes ?d) 0 = retype_block mk ns (i, p)"
      unfolding kids A by (simp add: retype_block_def mark_targets [OF Cons.prems(1)] mark_at_empty)
    finally have step: "foldl (\<lambda>d (q, a). f d q a) ?d (block_jobs leaf doc i p) = with_children doc (retype_block mk ns (i, p))"
      by simp
    have "foldl (\<lambda>d (q, a). f d q a) (with_children doc (retype_block mk ns (i, p)))
        (concat (map (\<lambda>(i, p). block_jobs leaf doc i p) xs)) =
        with_children doc (foldl (retype_block mk) (retype_block mk ns (i, p)) xs)"
    proof (rule Cons.IH)
      show "list_all (sound_node leaf) (retype_block mk ns (i, p))"
        using Cons.prems(1) law sound_retype by (simp add: retype_block_def markup_law_def)
    qed (use Cons.prems in \<open>simp_all add: retype_block_def places_retype targets_retype\<close>)
    with step show ?case by (simp add: x)
  qed simp
  from this [OF sound] show ?thesis by (simp add: setGroupTypes_def group_jobs_blocks)
qed

section \<open>Properties\<close>

text \<open>
  C13. The timeouts that \<open>setGroupTypes\<close> sets, which name nodes by position, change the document as the
  specification on the tree says: block after block, parents first, each block that has a list type
  gives its attributes to the groups directly inside the nodes with its id, and nothing else changes.
\<close>

theorem setGroupTypes_retypes:
  assumes "markup_law leaf mk setNodeMarkup" and "list_all (sound_node leaf) (child_nodes doc)"
  shows "setGroupTypes leaf setNodeMarkup doc bs =
    with_children doc (foldl (retype_block mk) (child_nodes doc) (all_blocks bs))"
  by (rule set_types_core [OF assms])

definition tree_markup ::
  "(string \<Rightarrow> bool) \<Rightarrow> (string \<Rightarrow> attrs \<Rightarrow> attrs) \<Rightarrow> pm_node \<Rightarrow> nat \<Rightarrow> attrs \<Rightarrow> pm_node" where
  "tree_markup leaf mk d p as = with_children d (mark_at leaf mk {p} as (child_nodes d) 0)"

definition sample_leaf :: "string \<Rightarrow> bool" where
  "sample_leaf k \<longleftrightarrow> k \<in> {''hardBreak'', ''inline-embed''}"

lemma tree_markup_law: "markup_law leaf sample_attrs (tree_markup leaf sample_attrs)"
  by (simp add: markup_law_def tree_markup_def sample_attrs_def blockGroup_attributes_def get_attr_def)

definition sample_doc :: pm_node where
  "sample_doc = PNode ''doc'' [] [PNode ''blockGroup'' [(''listType'', JStr ''div'')]
     [PNode ''blockContainer'' [(''id'', JStr ''a'')]
        [PNode ''paragraph'' [] [PText ''xy'' []] [],
         PNode ''blockGroup'' [(''listType'', JStr ''div'')]
           [PNode ''blockContainer'' [(''id'', JStr ''b'')] [PNode ''paragraph'' [] [] []] []] []] []] []] []"

definition sample_blocks :: "editor_block list" where
  "sample_blocks = [EditorBlock ''a'' ''paragraph'' (no_props\<lparr>p_childrenType := Some ''ol'', p_start := Some ''3''\<rparr>)
     [InlText ''xy'' []] [EditorBlock ''b'' ''paragraph'' no_props [] []]]"

theorem setGroupTypes_retypes_witness:
  "setGroupTypes sample_leaf (tree_markup sample_leaf sample_attrs) sample_doc sample_blocks =
     with_children sample_doc (foldl (retype_block sample_attrs) (child_nodes sample_doc) (all_blocks sample_blocks))"
  by (rule setGroupTypes_retypes [OF tree_markup_law])
    (simp add: sample_doc_def sample_leaf_def get_attr_def)

end
