(* ===== verification/Editor_Load.thy ===== *)
theory Editor_Load
  imports Editor_Groups
begin

text \<open>
  Loading blocks into the editor: \<open>blockToNode\<close> on each block and the document that holds the nodes
  (\<open>onBeforeCreate\<close> of \<^verbatim>\<open>frontend/packages/editor/src/blocknote/core/BlockNoteEditor.ts\<close>),
  then \<open>setGroupTypes\<close>. \<open>populateEditor\<close> of \<^verbatim>\<open>frontend/packages/app/models/documents.ts\<close> comes
  to the same document by replacing all blocks, where ProseMirror deletes the old ones.
  The lemmas show what \<open>getBlockGroup\<close> reads from the loaded document.
\<close>

section \<open>Blocks of the app as partial blocks\<close>

definition prop_entries :: "block_props \<Rightarrow> attrs" where
  "prop_entries p = List.map_filter (\<lambda>(k, v). map_option (\<lambda>s. (k, JStr s)) v)
     [(''childrenType'', p_childrenType p), (''listLevel'', p_listLevel p), (''start'', p_start p),
      (''textAlignment'', p_textAlignment p), (''level'', p_level p), (''url'', p_url p),
      (''name'', p_name p), (''width'', p_width p), (''size'', p_size p), (''language'', p_language p),
      (''view'', p_view p), (''text'', p_text p)]"

definition style_entries :: "styles \<Rightarrow> attrs" where
  "style_entries st = map (\<lambda>(k, b). (k, JBool b)) st"

fun inline_run :: "inline \<Rightarrow> text_run" where
  "inline_run (InlText t st) = Run t (style_entries st)"
| "inline_run _ = Run [] []"

fun as_inline :: "inline \<Rightarrow> partial_inline" where
  "as_inline (InlText t st) = PIText (Run t (style_entries st))"
| "as_inline (InlLink ty h c) = (if ty = ''link'' then PILink (JStr h) (LRuns (map inline_run c)) else PIOther ty)"
| "as_inline (InlEmbed r) = PIEmbed (JStr r)"

fun as_partial :: "editor_block \<Rightarrow> partial_block" where
  "as_partial (EditorBlock i t p c cs) =
     PartialBlock (Some i) (Some t) (prop_entries p) (InlineContent (map as_inline c)) (map as_partial cs)"

definition load_document :: "pm_schema \<Rightarrow> (nat \<Rightarrow> string) \<Rightarrow> editor_block list \<Rightarrow> pm_node result" where
  "load_document S gen bs = map_result (\<lambda>(kids, k).
     PNode ''doc'' (s_attrs S ''doc'' []) [PNode ''blockGroup'' (s_attrs S ''blockGroup'' []) kids []] [])
     (map_ids (blockToNode S gen) (map as_partial bs) 0)"

section \<open>Documents made of containers\<close>

text \<open>Nodes with no group and no id below: content of blocks.\<close>

fun inert :: "pm_node \<Rightarrow> bool" where
  "inert (PText t ms) \<longleftrightarrow> True"
| "inert (PNode k as cs ms) \<longleftrightarrow> k \<noteq> ''blockGroup'' \<and> (\<forall>i. get_attr as ''id'' \<noteq> JStr i) \<and> list_all inert cs"

text \<open>Containers: an id, a content node, and a group of containers when there are any.\<close>

inductive containers :: "pm_node list \<Rightarrow> bool" where
  none: "containers []"
| plain: "inert cn \<Longrightarrow> get_attr as ''id'' = JStr i \<Longrightarrow> containers ns \<Longrightarrow>
    containers (PNode ''blockContainer'' as [cn] ms # ns)"
| nested: "inert cn \<Longrightarrow> get_attr as ''id'' = JStr i \<Longrightarrow> (\<And>j. get_attr gas ''id'' \<noteq> JStr j) \<Longrightarrow>
    dyn_true (get_attr gas ''listType'') \<Longrightarrow> containers kids \<Longrightarrow> containers ns \<Longrightarrow>
    containers (PNode ''blockContainer'' as [cn, PNode ''blockGroup'' gas kids gms] ms # ns)"

text \<open>Each container's id with the attributes of its group, parents before children.\<close>

definition group_kids :: "pm_node \<Rightarrow> pm_node list" where
  "group_kids n = (case child_nodes n of [cn, g] \<Rightarrow> child_nodes g | _ \<Rightarrow> [])"

definition group_attrs_of :: "pm_node \<Rightarrow> attrs option" where
  "group_attrs_of n = (case child_nodes n of [cn, g] \<Rightarrow> Some (node_attrs g) | _ \<Rightarrow> None)"

lemma size_group_kids [termination_simp]: "size_list size (group_kids n) < Suc (size n + m)"
proof -
  have "size_list size (group_kids n) \<le> size n"
  proof (cases "\<exists>cn g. child_nodes n = [cn, g]")
    case True
    then obtain cn g where g: "child_nodes n = [cn, g]" by blast
    then show ?thesis
      using size_child_nodes [of n] size_child_nodes [of g] by (simp add: group_kids_def)
  qed (auto simp: group_kids_def split: list.splits)
  then show ?thesis by simp
qed

fun groups_of :: "pm_node list \<Rightarrow> (dyn \<times> attrs option) list" where
  "groups_of [] = []"
| "groups_of (n # ns) = (get_attr (node_attrs n) ''id'', group_attrs_of n) # groups_of (group_kids n) @ groups_of ns"

lemma group_parts [simp]:
  "group_kids (PNode k as [cn] ms) = []" "group_kids (PNode k as [cn, g] ms) = child_nodes g"
  "group_attrs_of (PNode k as [cn] ms) = None" "group_attrs_of (PNode k as [cn, g] ms) = Some (node_attrs g)"
  by (simp_all add: group_kids_def group_attrs_of_def)

definition attrs_info :: "attrs \<Rightarrow> group_info" where
  "attrs_info as = \<lparr>gi_type = get_attr as ''listType'', gi_start = get_attr as ''start'',
     gi_listLevel = get_attr as ''listLevel''\<rparr>"

lemma scan_groups_append: "scan_groups (ns @ ns') g = scan_groups ns' (scan_groups ns g)"
  by (induction ns g rule: scan_groups.induct) auto

lemma scan_block_append: "scan_block i (ns @ ns') g = scan_block i ns' (scan_block i ns g)"
  by (induction i ns g rule: scan_block.induct) auto

lemma inert_scan:
  "list_all inert ns \<Longrightarrow> scan_groups ns g = g"
  "list_all inert ns \<Longrightarrow> scan_block i ns g = g"
proof -
  show "list_all inert ns \<Longrightarrow> scan_groups ns g = g"
  proof (induction ns g rule: scan_groups.induct)
    case (2 n ns g)
    then show ?case by (cases n) auto
  qed simp
  show "list_all inert ns \<Longrightarrow> scan_block i ns g = g"
  proof (induction i ns g rule: scan_block.induct)
    case (2 i n ns g)
    then show ?case by (cases n) auto
  qed simp
qed

lemma inert_retype: "list_all inert ns \<Longrightarrow> retype mk i as inside ns = ns"
proof (induction mk i as inside ns rule: retype.induct)
  case (2 mk i as inside n ns)
  then show ?case by (cases n) (auto simp: Let_def)
qed simp

lemma scan_block_Some: "scan_block i ns (Some g) = Some g"
  by (induction ns) auto

lemma inert_first [simp]:
  assumes "inert n"
  shows "scan_groups (n # ns) g = scan_groups ns g" "scan_block i (n # ns) g = scan_block i ns g"
    "retype mk i as inside (n # ns) = n # retype mk i as inside ns"
proof -
  show "scan_groups (n # ns) g = scan_groups ns g"
    using assms inert_scan(1) [of "[n]" g] scan_groups_append [of "[n]" ns g] by (simp del: scan_groups.simps)
  show "scan_block i (n # ns) g = scan_block i ns g"
    using assms inert_scan(2) [of "[n]" i g] scan_block_append [of i "[n]" ns g] by (simp del: scan_block.simps)
  show "retype mk i as inside (n # ns) = n # retype mk i as inside ns"
    using assms inert_retype [of "[n]" mk i as inside] by (simp add: Let_def)
qed

lemma scan_plain:
  "inert cn \<Longrightarrow> scan_block i (PNode k as [cn] ms # ns) g = scan_block i ns g"
  by (subst scan_block.simps) (simp del: scan_block.simps(2) scan_groups.simps(2))

lemma scan_nested:
  assumes "inert cn" "\<And>j. get_attr gas ''id'' \<noteq> JStr j" "dyn_true (get_attr gas ''listType'')"
  shows "scan_block i (PNode k as [cn, PNode ''blockGroup'' gas kids gms] ms # ns) None =
     scan_block i ns (if get_attr as ''id'' = JStr i then Some (attrs_info gas) else scan_block i kids None)"
proof -
  let ?gn = "PNode ''blockGroup'' gas kids gms"
  have "scan_block i [cn, ?gn] None = scan_block i kids None"
    using assms(1,2) by (simp only: inert_first) simp
  moreover have "scan_groups [cn, ?gn] None = Some (attrs_info gas)"
    using assms(1,3) by (simp only: inert_first) (simp add: attrs_info_def)
  ultimately show ?thesis
    by (subst scan_block.simps) (simp del: scan_block.simps(2) scan_groups.simps(2) add: scan_block_Some)
qed

lemma scan_containers:
  "containers ns \<Longrightarrow> distinct (map fst (groups_of ns)) \<Longrightarrow>
     scan_block i ns None = map_option attrs_info (Option.bind (map_of (groups_of ns) (JStr i)) id)"
proof (induction rule: containers.induct)
  case (plain cn as j ns ms)
  have "map_of (groups_of ns) (JStr j) = None"
    using plain by (auto simp: map_of_eq_None_iff)
  then show ?case using plain by (auto simp: scan_plain simp del: scan_block.simps(2))
next
  case (nested cn as j gas kids ns gms ms)
  have d: "distinct (map fst (groups_of kids))" "distinct (map fst (groups_of ns))"
    using nested.prems by simp_all
  note scan = scan_nested [OF nested(1,3,4)] nested(2)
  show ?case
  proof (cases "i = j")
    case True
    then show ?thesis by (simp add: scan scan_block_Some del: scan_block.simps(2))
  next
    case False
    have disj: "JStr i \<in> fst ` set (groups_of kids) \<Longrightarrow> JStr i \<notin> fst ` set (groups_of ns)"
      using nested.prems by auto
    show ?thesis
    proof (cases "map_of (groups_of kids) (JStr i)")
      case None
      then show ?thesis using False nested d by (simp add: scan map_add_def del: scan_block.simps(2))
    next
      case (Some g)
      with disj have "map_of (groups_of ns) (JStr i) = None"
        by (metis domI dom_map_of_conv_image_fst map_of_eq_None_iff)
      with Some show ?thesis
        using False nested d by (cases g) (simp_all add: scan map_add_def scan_block_Some del: scan_block.simps(2))
    qed
  qed
qed simp

section \<open>Setting the types of containers\<close>

definition set_group :: "(string \<Rightarrow> attrs \<Rightarrow> attrs) \<Rightarrow> string \<Rightarrow> attrs \<Rightarrow> dyn \<times> attrs option \<Rightarrow> dyn \<times> attrs option" where
  "set_group mk i as g = (fst g, if fst g = JStr i then map_option (\<lambda>_. mk ''blockGroup'' as) (snd g) else snd g)"

lemma fst_set_group [simp]: "fst (set_group mk i as g) = fst g"
  by (simp add: set_group_def)

lemma retype_plain:
  assumes "inert cn"
  shows "retype mk i as inside (PNode ''blockContainer'' cas [cn] ms # ns) = PNode ''blockContainer'' cas [cn] ms # retype mk i as inside ns"
  using assms by (subst retype.simps) (simp del: retype.simps(2) add: Let_def)

lemma retype_nested:
  assumes "inert cn" and "\<And>j. get_attr gas ''id'' \<noteq> JStr j"
  shows "retype mk i as False (PNode ''blockContainer'' cas [cn, PNode ''blockGroup'' gas kids gms] ms # ns) =
     PNode ''blockContainer'' cas [cn, PNode ''blockGroup''
       (if get_attr cas ''id'' = JStr i then mk ''blockGroup'' as else gas) (retype mk i as False kids) gms] ms # retype mk i as False ns"
proof -
  have "retype mk i as inside [cn, PNode ''blockGroup'' gas kids gms] =
      [cn, PNode ''blockGroup'' (if inside then mk ''blockGroup'' as else gas) (retype mk i as False kids) gms]" for inside
    using assms by (simp only: inert_first) (simp add: Let_def below_def has_id_def)
  then show ?thesis
    by (subst retype.simps) (simp del: retype.simps(2) add: Let_def below_def has_id_def)
qed

text \<open>A group keeps a list type that counts as one, whatever attributes it gets, as long as they say no empty type.\<close>

definition group_law :: "(string \<Rightarrow> attrs \<Rightarrow> attrs) \<Rightarrow> bool" where
  "group_law mk \<longleftrightarrow>
     (\<forall>as i. get_attr (mk ''blockGroup'' as) ''id'' \<noteq> JStr i) \<and>
     (\<forall>as k v. k \<in> {''listType'', ''listLevel'', ''start''} \<longrightarrow> map_of as k = Some v \<longrightarrow> v \<noteq> JUndef \<longrightarrow>
        get_attr (mk ''blockGroup'' as) k = v) \<and>
     (\<forall>as. get_attr as ''listType'' = JUndef \<longrightarrow> dyn_true (get_attr (mk ''blockGroup'' as) ''listType''))"

lemma group_attrs_type:
  assumes "group_law mk" and "truthy (p_childrenType p)"
  shows "get_attr (mk ''blockGroup'' (group_attrs p)) ''listType'' = JStr (the (p_childrenType p))"
    "dyn_true (get_attr (mk ''blockGroup'' (group_attrs p)) ''listType'')"
proof -
  obtain t where t: "p_childrenType p = Some t" "t \<noteq> []" using assms(2) by (auto simp: truthy_def)
  then have "map_of (group_attrs p) ''listType'' = Some (JStr t)"
    by (simp add: group_attrs_def opt_dyn_def)
  then have "get_attr (mk ''blockGroup'' (group_attrs p)) ''listType'' = JStr t"
    using assms(1) unfolding group_law_def by blast
  then show "get_attr (mk ''blockGroup'' (group_attrs p)) ''listType'' = JStr (the (p_childrenType p))"
    "dyn_true (get_attr (mk ''blockGroup'' (group_attrs p)) ''listType'')"
    using t by simp_all
qed

lemma retype_containers:
  assumes "group_law mk" and "dyn_true (get_attr (mk ''blockGroup'' as) ''listType'')"
  shows "containers ns \<Longrightarrow> containers (retype mk i as False ns) \<and>
    groups_of (retype mk i as False ns) = map (set_group mk i as) (groups_of ns)"
proof (induction rule: containers.induct)
  case (plain cn cas j ns ms)
  then show ?case
    by (simp add: retype_plain set_group_def del: retype.simps(2)) (blast intro: containers.plain)
next
  case (nested cn cas j gas kids ns gms ms)
  let ?gas = "if get_attr cas ''id'' = JStr i then mk ''blockGroup'' as else gas"
  have "\<And>k. get_attr ?gas ''id'' \<noteq> JStr k" "dyn_true (get_attr ?gas ''listType'')"
    using assms nested(3,4) by (auto simp: group_law_def)
  then have "containers (PNode ''blockContainer'' cas [cn, PNode ''blockGroup'' ?gas (retype mk i as False kids) gms] ms # retype mk i as False ns)"
    using nested by (intro containers.nested) auto
  then show ?case
    using nested by (simp add: retype_nested set_group_def del: retype.simps(2))
qed (simp add: containers.none)

text \<open>All blocks in turn: the last one with the id and a type decides.\<close>

definition final_attrs :: "(string \<Rightarrow> attrs \<Rightarrow> attrs) \<Rightarrow> (string \<times> block_props) list \<Rightarrow> dyn \<times> attrs option \<Rightarrow> dyn \<times> attrs option" where
  "final_attrs mk xs g = foldl (\<lambda>g (i, p). if truthy (p_childrenType p) then set_group mk i (group_attrs p) g else g) g xs"

lemma retype_all_containers:
  assumes "group_law mk"
  shows "containers ns \<Longrightarrow> containers (foldl (retype_block mk) ns xs) \<and>
    groups_of (foldl (retype_block mk) ns xs) = map (final_attrs mk xs) (groups_of ns)"
proof (induction xs arbitrary: ns)
  case Nil
  then show ?case by (simp add: final_attrs_def)
next
  case (Cons x xs)
  obtain i p where x: "x = (i, p)" by (cases x)
  have "containers (retype_block mk ns x) \<and> groups_of (retype_block mk ns x) =
      map (\<lambda>g. if truthy (p_childrenType p) then set_group mk i (group_attrs p) g else g) (groups_of ns)"
    using retype_containers [OF assms group_attrs_type(2) [OF assms], of p ns i] Cons.prems
    by (simp add: retype_block_def x)
  with Cons.IH [of "retype_block mk ns x"] show ?case
    by (simp add: final_attrs_def x o_def)
qed

lemma fst_final_attrs [simp]: "fst (final_attrs mk xs g) = fst g"
  by (induction xs arbitrary: g) (auto simp: final_attrs_def)

lemma final_attrs_none:
  "(\<And>i. fst g = JStr i \<Longrightarrow> i \<notin> fst ` set xs) \<Longrightarrow> final_attrs mk xs g = g"
  by (induction xs arbitrary: g) (auto simp: final_attrs_def set_group_def)

lemma final_attrs_one:
  assumes "distinct (map fst xs)" "(i, p) \<in> set xs" "truthy (p_childrenType p)"
  shows "final_attrs mk xs (JStr i, Some as) = (JStr i, Some (mk ''blockGroup'' (group_attrs p)))"
  using assms
proof (induction xs arbitrary: as)
  case (Cons x xs)
  obtain j q where x: "x = (j, q)" by (cases x)
  show ?case
  proof (cases "j = i")
    case True
    with Cons.prems x have q: "q = p" and new: "i \<notin> fst ` set xs" by force+
    have "final_attrs mk xs (JStr i, Some (mk ''blockGroup'' (group_attrs p))) = (JStr i, Some (mk ''blockGroup'' (group_attrs p)))"
      using new by (intro final_attrs_none) auto
    then show ?thesis using True q Cons.prems(3) by (simp add: final_attrs_def x set_group_def)
  next
    case False
    have "final_attrs mk (x # xs) (JStr i, Some as) = final_attrs mk xs (JStr i, Some as)"
      using False by (simp add: final_attrs_def x set_group_def)
    then show ?thesis using Cons False x by auto
  qed
qed simp

section \<open>Loading makes containers\<close>

text \<open>What loading needs of the node types: which have no content, and that only containers have an id.\<close>

definition load_laws :: "pm_schema \<Rightarrow> (string \<Rightarrow> bool) \<Rightarrow> (string \<Rightarrow> string list option) \<Rightarrow> bool" where
  "load_laws S leaf schema \<longleftrightarrow> block_laws S schema \<and> group_law (s_attrs S) \<and>
     (\<forall>n as i. n \<noteq> ''blockContainer'' \<longrightarrow> get_attr (s_attrs S n as) ''id'' \<noteq> JStr i) \<and>
     \<not> leaf ''blockContainer'' \<and> \<not> leaf ''blockGroup'' \<and> \<not> leaf ''doc''"

fun loadable :: "pm_schema \<Rightarrow> (string \<Rightarrow> bool) \<Rightarrow> editor_block \<Rightarrow> bool" where
  "loadable S leaf (EditorBlock i t p c cs) \<longleftrightarrow>
     s_known S t \<and> t \<notin> {''codeBlock'', ''blockGroup'', ''blockContainer''} \<and> (leaf t \<longrightarrow> c = []) \<and>
     list_all typed_inline (map as_inline c) \<and> list_all (loadable S leaf) cs"

text \<open>Every block of the tree, parents first.\<close>

fun sub_blocks :: "editor_block list \<Rightarrow> editor_block list" where
  "sub_blocks [] = []"
| "sub_blocks (EditorBlock i t p c cs # bs) = EditorBlock i t p c cs # sub_blocks cs @ sub_blocks bs"

lemma all_blocks_sub: "all_blocks bs = map (\<lambda>b. (e_id b, e_props b)) (sub_blocks bs)"
  by (induction bs rule: sub_blocks.induct) auto

lemma containers_append: "containers ns \<Longrightarrow> containers ns' \<Longrightarrow> containers (ns @ ns')"
  by (induction rule: containers.induct) (simp, auto intro: containers.intros)

lemma groups_of_append [simp]: "groups_of (ns @ ns') = groups_of ns @ groups_of ns'"
  by (induction ns) auto

lemma map_filter_keys:
  "map fst (List.map_filter (\<lambda>(k, v). map_option (\<lambda>s. (k, f s)) v) xs) = map fst (filter (\<lambda>(k, v). v \<noteq> None) xs)"
  by (induction xs) (auto simp: map_filter_simps split: option.splits)

lemma filter_keys_subset: "set (map fst (filter P xs)) \<subseteq> set (map fst xs)"
  by auto

lemma prop_entries_keys: "''id'' \<notin> fst ` set (prop_entries p)" "distinct (map fst (prop_entries p))"
proof -
  define xs where "xs = [(''childrenType'', p_childrenType p), (''listLevel'', p_listLevel p), (''start'', p_start p),
      (''textAlignment'', p_textAlignment p), (''level'', p_level p), (''url'', p_url p),
      (''name'', p_name p), (''width'', p_width p), (''size'', p_size p), (''language'', p_language p),
      (''view'', p_view p), (''text'', p_text p)]"
  have keys: "map fst (prop_entries p) = map fst (filter (\<lambda>(k, v). v \<noteq> None) xs)"
    unfolding prop_entries_def xs_def by (rule map_filter_keys)
  have xs: "map fst xs = [''childrenType'', ''listLevel'', ''start'', ''textAlignment'', ''level'', ''url'',
      ''name'', ''width'', ''size'', ''language'', ''view'', ''text'']"
    by (simp add: xs_def)
  have d: "distinct (map fst xs)" unfolding xs by simp
  have n: "''id'' \<notin> set (map fst xs)" unfolding xs by simp
  show "distinct (map fst (prop_entries p))"
    unfolding keys by (rule distinct_filter_fst [OF d])
  have "''id'' \<notin> set (map fst (prop_entries p))"
    unfolding keys using n filter_keys_subset by (rule contra_subsetD [rotated])
  then show "''id'' \<notin> fst ` set (prop_entries p)" by (simp only: set_map not_False_eq_True)
qed

lemma joins_inert: "joins ns ns' \<Longrightarrow> list_all inert ns \<Longrightarrow> list_all inert ns'"
  by (induction rule: joins.induct) simp_all

lemma joins_sound: "joins ns ns' \<Longrightarrow> list_all (sound_node leaf) ns \<Longrightarrow> list_all (sound_node leaf) ns'"
  by (induction rule: joins.induct) simp_all

lemma run_nodes_plain:
  assumes "load_laws S leaf schema" "n \<in> set (run_nodes S ls r)"
  shows "inert n \<and> sound_node leaf n"
proof -
  have S: "schema_laws S" and noid: "\<And>as i. get_attr (s_attrs S ''hardBreak'' as) ''id'' \<noteq> JStr i"
    using assms(1) by (simp_all add: load_laws_def block_laws_def)
  obtain u where u: "u \<in> set (pieces (run_text r))" "n = piece_node S (run_styles r) ls u"
    using assms(2) unfolding run_nodes_def by auto
  then show ?thesis using noid by (simp add: piece_node_def fragment_nil [OF S])
qed

lemma inline_nodes_plain:
  assumes "load_laws S leaf schema" "n \<in> set (inline_nodes S x)"
  shows "inert n \<and> sound_node leaf n"
proof -
  have S: "schema_laws S" and noid: "\<And>as i. get_attr (s_attrs S ''inline-embed'' as) ''id'' \<noteq> JStr i"
    using assms(1) by (simp_all add: load_laws_def block_laws_def)
  show ?thesis
    using assms(2) run_nodes_plain [OF assms(1)] noid by (cases x) (auto simp: fragment_nil [OF S])
qed

definition fresh_group :: "pm_schema \<Rightarrow> editor_block \<Rightarrow> dyn \<times> attrs option" where
  "fresh_group S b = (JStr (e_id b), if e_children b = [] then None else Some (s_attrs S ''blockGroup'' []))"

lemma sub_blocks_Cons: "sub_blocks (b # bs) = sub_blocks [b] @ sub_blocks bs"
  by (cases b) simp

definition block_node :: "pm_schema \<Rightarrow> (string \<Rightarrow> bool) \<Rightarrow> editor_block \<Rightarrow> pm_node \<Rightarrow> bool" where
  "block_node S leaf b n \<longleftrightarrow> \<not> is_PText n \<and> sound_node leaf n \<and> containers [n] \<and>
     groups_of [n] = map (fresh_group S) (sub_blocks [b])"

lemma block_nodes_all:
  "list_all2 (block_node S leaf) bs ns \<Longrightarrow>
     list_all (sound_node leaf) ns \<and> containers ns \<and> groups_of ns = map (fresh_group S) (sub_blocks bs) \<and>
     (\<forall>n \<in> set ns. \<not> is_PText n)"
proof (induction rule: list_all2_induct)
  case (Cons b bs n ns)
  then have "containers ([n] @ ns)" by (intro containers_append) (simp_all add: block_node_def)
  with Cons show ?case by (simp add: block_node_def sub_blocks_Cons [of b bs])
qed (simp add: containers.none)

lemma map_ids_all2_map:
  assumes "\<And>x j. x \<in> set xs \<Longrightarrow> \<exists>y j'. f (h x) j = Inr (y, j') \<and> R x y"
  shows "\<exists>ys k'. map_ids f (map h xs) k = Inr (ys, k') \<and> list_all2 R xs ys"
  using assms
proof (induction xs arbitrary: k)
  case (Cons x xs)
  obtain y k1 where y: "f (h x) k = Inr (y, k1)" "R x y" using Cons.prems [of x k] by auto
  obtain ys k2 where "map_ids f (map h xs) k1 = Inr (ys, k2)" "list_all2 R xs ys"
    using Cons.IH [of k1] Cons.prems by auto
  with y show ?case by auto
qed simp

lemma content_node_plain:
  assumes L: "load_laws S leaf schema" and b: "loadable S leaf (EditorBlock i t p c cs)"
  obtains ns where
    "content_node S (Some t) t (prop_entries p) (InlineContent (map as_inline c)) = Inr (PNode t (s_attrs S t (prop_entries p)) ns [])"
    "inert (PNode t (s_attrs S t (prop_entries p)) ns [])" "sound_node leaf (PNode t (s_attrs S t (prop_entries p)) ns [])"
proof -
  have S: "schema_laws S" using L by (simp add: load_laws_def block_laws_def)
  let ?ns = "concat (map (inline_nodes S) (map as_inline c))"
  have plain: "list_all inert ?ns" "list_all (sound_node leaf) ?ns"
    using inline_nodes_plain [OF L] by (auto simp: list_all_iff)
  have frag: "list_all inert (s_fragment S ?ns)" "list_all (sound_node leaf) (s_fragment S ?ns)"
    using plain joins_inert joins_sound schema_lawsD(6) [OF S] by blast+
  have typed: "list_all typed_inline (map as_inline c)" and t: "s_known S t" "t \<noteq> ''codeBlock''"
    and tb: "t \<noteq> ''blockGroup''" "t \<noteq> ''blockContainer''" and lf: "leaf t \<Longrightarrow> c = []"
    using b by auto
  have noid: "get_attr (s_attrs S t as) ''id'' \<noteq> JStr j" for as j
    using L tb(2) by (simp add: load_laws_def)
  have "content_node S (Some t) t (prop_entries p) (InlineContent (map as_inline c)) =
      Inr (PNode t (s_attrs S t (prop_entries p)) (s_fragment S ?ns) [])"
    using t by (simp add: content_node_def inlineContentToNodes_eq [OF S typed] schema_create_def)
  moreover have "leaf t \<longrightarrow> s_fragment S ?ns = []" using lf by (auto simp: fragment_nil [OF S])
  ultimately show thesis
    using that [of "s_fragment S ?ns"] frag tb noid by simp
qed

lemma blockToNode_containers:
  assumes L: "load_laws S leaf schema"
  shows "loadable S leaf b \<Longrightarrow> \<exists>n k'. blockToNode S gen (as_partial b) k = Inr (n, k') \<and> block_node S leaf b n"
proof (induction b arbitrary: k)
  case (EditorBlock i t p c cs)
  have B: "block_laws S schema" using L by (simp add: load_laws_def)
  then have S: "schema_laws S" by (simp add: block_laws_def)
  have G: "group_law (s_attrs S)" using L by (simp add: load_laws_def)
  obtain ns where cn: "content_node S (Some t) t (prop_entries p) (InlineContent (map as_inline c)) = Inr (PNode t (s_attrs S t (prop_entries p)) ns [])"
    "inert (PNode t (s_attrs S t (prop_entries p)) ns [])" "sound_node leaf (PNode t (s_attrs S t (prop_entries p)) ns [])"
    using content_node_plain [OF L EditorBlock.prems] by blast
  let ?cn = "PNode t (s_attrs S t (prop_entries p)) ns []"
  have IH': "\<exists>n k'. blockToNode S gen (as_partial e) j = Inr (n, k') \<and> block_node S leaf e n" if "e \<in> set cs" for e j
    using that EditorBlock by (simp add: list_all_iff)
  obtain kids k2 where kids: "map_ids (blockToNode S gen) (map as_partial cs) k = Inr (kids, k2)"
    "list_all2 (block_node S leaf) cs kids"
    using map_ids_all2_map [of cs "blockToNode S gen" as_partial "block_node S leaf" k] IH' by blast
  note all = block_nodes_all [OF kids(2)]
  define n where "n = container_node S i (prop_entries p) ?cn kids"
  have made: "blockToNode S gen (as_partial (EditorBlock i t p c cs)) k = Inr (n, k2)"
    using blockToNode_container [OF S, of "Some t" "Some i" "prop_entries p" "InlineContent (map as_inline c)" "map as_partial cs" ?cn gen k kids k2]
      cn(1) kids(1) all by (simp add: pb_typename_def block_id_def n_def)
  have nid: "get_attr (node_attrs n) ''id'' = JStr i"
    unfolding n_def by (rule container_id [OF B prop_entries_keys])
  have kn: "kids = [] \<longleftrightarrow> cs = []" using kids(2) by auto
  have g: "\<And>j. get_attr (s_attrs S ''blockGroup'' []) ''id'' \<noteq> JStr j" "dyn_true (get_attr (s_attrs S ''blockGroup'' []) ''listType'')"
    using G by (simp_all add: group_law_def get_attr_def)
  have "containers [n]"
    using nid cn(2) all g unfolding n_def container_node_def
    by (cases "kids = []") (auto intro: containers.intros simp del: inert.simps)
  moreover have "sound_node leaf n"
    using cn(3) all L g unfolding n_def container_node_def by (auto simp: load_laws_def)
  moreover have "groups_of [n] = map (fresh_group S) (sub_blocks [EditorBlock i t p c cs])"
    using nid all kn unfolding n_def container_node_def
    by (cases "kids = []") (auto simp: fresh_group_def)
  ultimately have "block_node S leaf (EditorBlock i t p c cs) n"
    by (simp add: block_node_def n_def container_node_def)
  with made show ?case by blast
qed

section \<open>What the loaded document says\<close>

lemma load_document_containers:
  assumes L: "load_laws S leaf schema" and bs: "list_all (loadable S leaf) bs"
  obtains kids where "load_document S gen bs =
      Inr (PNode ''doc'' (s_attrs S ''doc'' []) [PNode ''blockGroup'' (s_attrs S ''blockGroup'' []) kids []] [])"
    "list_all (sound_node leaf) kids" "containers kids" "groups_of kids = map (fresh_group S) (sub_blocks bs)"
proof -
  have "\<exists>n k'. blockToNode S gen (as_partial b) j = Inr (n, k') \<and> block_node S leaf b n" if "b \<in> set bs" for b j
    using blockToNode_containers [OF L] bs that by (simp add: list_all_iff)
  then obtain kids k where "map_ids (blockToNode S gen) (map as_partial bs) 0 = Inr (kids, k)"
      "list_all2 (block_node S leaf) bs kids"
    using map_ids_all2_map [of bs "blockToNode S gen" as_partial "block_node S leaf" 0] by blast
  with block_nodes_all [of S leaf bs kids] that show thesis by (simp add: load_document_def)
qed

lemma retype_root:
  assumes "\<And>j. get_attr gas ''id'' \<noteq> JStr j"
  shows "foldl (retype_block mk) [PNode ''blockGroup'' gas kids ms] xs = [PNode ''blockGroup'' gas (foldl (retype_block mk) kids xs) ms]"
  using assms
proof (induction xs arbitrary: kids)
  case (Cons x xs)
  have "retype_block mk [PNode ''blockGroup'' gas kids ms] x = [PNode ''blockGroup'' gas (retype_block mk kids x) ms]"
    by (auto simp: retype_block_def below_def has_id_def Let_def split: prod.splits)
  then show ?case using Cons by simp
qed simp

lemma map_of_final_attrs:
  assumes d: "distinct (map e_id bs)" and b: "b \<in> set bs" and F: "\<And>g. fst (F g) = fst g"
  shows "map_of (map (F \<circ> fresh_group S) bs) (JStr (e_id b)) = Some (snd (F (fresh_group S b)))"
  using d b
proof (induction bs)
  case (Cons a bs)
  have fst: "fst (F (fresh_group S x)) = JStr (e_id x)" for x by (simp add: F fresh_group_def)
  show ?case
  proof (cases "a = b")
    case True
    then show ?thesis using fst [of b] by (cases "F (fresh_group S b)") auto
  next
    case False
    then have "e_id a \<noteq> e_id b" using Cons.prems by force
    then show ?thesis using Cons False fst [of a] by (cases "F (fresh_group S a)") auto
  qed
qed simp

lemma loaded_groups_core:
  assumes L: "load_laws S leaf schema" and law: "markup_law leaf (s_attrs S) f"
    and bs: "list_all (loadable S leaf) bs" and d: "distinct (map e_id (sub_blocks bs))"
    and b: "b \<in> set (sub_blocks bs)" and kids: "e_children b \<noteq> []"
  shows "\<exists>doc. load_document S gen bs = Inr doc \<and>
     getBlockGroup (Some doc) (e_id b) = Inr (Some (attrs_info (s_attrs S ''blockGroup'' []))) \<and>
     (truthy (p_childrenType (e_props b)) \<longrightarrow>
        getBlockGroup (Some (setGroupTypes leaf f doc bs)) (e_id b) =
          Inr (Some (attrs_info (s_attrs S ''blockGroup'' (group_attrs (e_props b))))))"
proof -
  have G: "group_law (s_attrs S)" using L by (simp add: load_laws_def)
  let ?gas = "s_attrs S ''blockGroup'' []"
  have noid: "\<And>j. get_attr ?gas ''id'' \<noteq> JStr j" using G by (simp add: group_law_def)
  obtain ns where ns: "load_document S gen bs = Inr (PNode ''doc'' (s_attrs S ''doc'' []) [PNode ''blockGroup'' ?gas ns []] [])"
    "list_all (sound_node leaf) ns" "containers ns" "groups_of ns = map (fresh_group S) (sub_blocks bs)"
    using load_document_containers [OF L bs] by blast
  let ?doc = "PNode ''doc'' (s_attrs S ''doc'' []) [PNode ''blockGroup'' ?gas ns []] []"
  have dg: "distinct (map fst (groups_of ns))"
    using d by (simp add: ns(4) o_def fresh_group_def distinct_map inj_on_def)
  have fresh: "snd (fresh_group S b) = Some ?gas" using kids by (simp add: fresh_group_def)
  have before: "getBlockGroup (Some ?doc) (e_id b) = Inr (Some (attrs_info ?gas))"
    using scan_containers [OF ns(3) dg, of "e_id b"] map_of_final_attrs [OF d b, of "\<lambda>g. g" S] fresh
    by (simp add: getBlockGroup_def ns(4) o_def)
  let ?ns = "foldl (retype_block (s_attrs S)) ns (all_blocks bs)"
  have sound: "list_all (sound_node leaf) (child_nodes ?doc)"
    using ns(2) noid L by (simp add: load_laws_def)
  have after: "setGroupTypes leaf f ?doc bs = PNode ''doc'' (s_attrs S ''doc'' []) [PNode ''blockGroup'' ?gas ?ns []] []"
    using set_types_core [OF law sound, of bs] retype_root [OF noid, of "s_attrs S" ns "[]" "all_blocks bs"] by simp
  have cont: "containers ?ns" "groups_of ?ns = map (final_attrs (s_attrs S) (all_blocks bs)) (groups_of ns)"
    using retype_all_containers [OF G ns(3)] by blast+
  have dn: "distinct (map fst (groups_of ?ns))" using dg by (simp add: cont(2) o_def)
  have "getBlockGroup (Some (setGroupTypes leaf f ?doc bs)) (e_id b) =
      Inr (Some (attrs_info (s_attrs S ''blockGroup'' (group_attrs (e_props b)))))"
    if t: "truthy (p_childrenType (e_props b))"
  proof -
    have "distinct (map fst (all_blocks bs))" "(e_id b, e_props b) \<in> set (all_blocks bs)"
      using d b by (auto simp: all_blocks_sub o_def)
    then have "final_attrs (s_attrs S) (all_blocks bs) (fresh_group S b) =
        (JStr (e_id b), Some (s_attrs S ''blockGroup'' (group_attrs (e_props b))))"
      using final_attrs_one [of "all_blocks bs" "e_id b" "e_props b" "s_attrs S" ?gas] t kids by (simp add: fresh_group_def)
    then show ?thesis
      using scan_containers [OF cont(1) dn, of "e_id b"]
        map_of_final_attrs [OF d b, of "final_attrs (s_attrs S) (all_blocks bs)" S]
      by (simp add: getBlockGroup_def after cont(2) ns(4))
  qed
  with ns(1) before show ?thesis by blast
qed

section \<open>Properties\<close>

text \<open>
  C12. Loading blocks with distinct ids succeeds. Before the types are set, the group of every block with
  children has the default type; afterwards, a block with children and a list type has the group it
  says, with its level and its start. So what a save reads from the groups is what was loaded.
\<close>

theorem loaded_groups:
  assumes "load_laws S leaf schema" and "markup_law leaf (s_attrs S) setNodeMarkup"
    and "list_all (loadable S leaf) bs" and "distinct (map e_id (sub_blocks bs))"
    and "b \<in> set (sub_blocks bs)" and "e_children b \<noteq> []"
  shows "\<exists>doc. load_document S gen bs = Inr doc \<and>
     getBlockGroup (Some doc) (e_id b) = Inr (Some (attrs_info (s_attrs S ''blockGroup'' []))) \<and>
     (truthy (p_childrenType (e_props b)) \<longrightarrow>
        getBlockGroup (Some (setGroupTypes leaf setNodeMarkup doc bs)) (e_id b) =
          Inr (Some (attrs_info (s_attrs S ''blockGroup'' (group_attrs (e_props b))))))"
  by (rule loaded_groups_core [OF assms])

lemma sample_load_laws: "load_laws sample_schema sample_leaf sample_specs"
proof -
  have "get_attr (sample_attrs n as) ''id'' \<noteq> JStr i" if "n \<noteq> ''blockContainer''" for n as i
  proof (cases "n = ''blockGroup''")
    case False
    have "map_of (filter (\<lambda>p. fst p \<noteq> ''id'') (AList.clearjunk as)) ''id'' = None"
      by (auto simp: map_of_eq_None_iff)
    then show ?thesis using False that by (simp add: sample_attrs_def get_attr_def)
  qed (simp add: sample_attrs_def blockGroup_attributes_def get_attr_def)
  moreover have "group_law sample_attrs"
    unfolding group_law_def
    by (auto simp: sample_attrs_def blockGroup_attributes_def get_attr_def)
  ultimately show ?thesis
    by (simp add: load_laws_def sample_block_laws sample_leaf_def)
qed

theorem loaded_groups_witness:
  "\<exists>doc. load_document sample_schema (\<lambda>i. ''new'') sample_blocks = Inr doc \<and>
     getBlockGroup (Some doc) ''a'' = Inr (Some \<lparr>gi_type = JStr ''div'', gi_start = JUndef, gi_listLevel = JStr ''1''\<rparr>) \<and>
     getBlockGroup (Some (setGroupTypes sample_leaf (tree_markup sample_leaf sample_attrs) doc sample_blocks)) ''a'' =
       Inr (Some \<lparr>gi_type = JStr ''ol'', gi_start = JNum (Some 3), gi_listLevel = JStr ''1''\<rparr>)"
proof -
  let ?p = "no_props\<lparr>p_childrenType := Some ''ol'', p_start := Some ''3''\<rparr>"
  let ?b = "EditorBlock ''a'' ''paragraph'' ?p [InlText ''xy'' []] [EditorBlock ''b'' ''paragraph'' no_props [] []]"
  have start: "parseInt ''3'' = Some 3"
    by (simp add: parseInt_def parse_digits_def is_blank_def starts_with_def is_digit_def parse_nat_def digit_val_def)
  have load: "list_all (loadable sample_schema sample_leaf) sample_blocks"
    by (simp add: sample_blocks_def sample_leaf_def typed_styles_def style_entries_def)
  have mem: "?b \<in> set (sub_blocks sample_blocks)" "distinct (map e_id (sub_blocks sample_blocks))"
    by (simp_all add: sample_blocks_def)
  have info: "attrs_info (sample_attrs ''blockGroup'' (group_attrs ?p)) =
      \<lparr>gi_type = JStr ''ol'', gi_start = JNum (Some 3), gi_listLevel = JStr ''1''\<rparr>"
    "attrs_info (sample_attrs ''blockGroup'' []) = \<lparr>gi_type = JStr ''div'', gi_start = JUndef, gi_listLevel = JStr ''1''\<rparr>"
    by (simp_all add: attrs_info_def sample_attrs_def blockGroup_attributes_def group_attrs_def opt_dyn_def
        get_attr_def no_props_def start)
  show ?thesis
    using loaded_groups [OF sample_load_laws _ load mem(2,1), of "tree_markup sample_leaf sample_attrs" "\<lambda>i. ''new''"]
    by (simp add: tree_markup_law info)
qed

end
