(* ===== verification/Editor_Positions.thy ===== *)
theory Editor_Positions
  imports Editor_Load
begin

text \<open>
  Positions in the editor's document and the blocks around them
  (\<^verbatim>\<open>getBlockInfoFromPos.ts\<close>, \<^verbatim>\<open>getGroupInfoFromPos.ts\<close> and the helpers at the start of
  \<^verbatim>\<open>BlockContainer.ts\<close>, all in
  \<^verbatim>\<open>frontend/packages/editor/src/blocknote/core/extensions/Blocks\<close>).

  \<open>doc.resolve\<close> is a call of ProseMirror, and an argument. Its law: a position resolves to the nodes
  that it lies strictly inside of, from the document on inwards, each with the position at which its
  content starts; a position behind the end of the document raises. Positions are natural numbers.
\<close>

section \<open>Resolving\<close>

type_synonym resolved = "(pm_node \<times> nat) list"

fun path_at :: "(string \<Rightarrow> bool) \<Rightarrow> pm_node list \<Rightarrow> nat \<Rightarrow> nat \<Rightarrow> resolved" where
  "path_at leaf [] p q = []"
| "path_at leaf (n # ns) p q =
     (if p < q \<and> q < p + node_size leaf n \<and> \<not> is_PText n then (n, Suc p) # path_at leaf (child_nodes n) (Suc p) q
      else path_at leaf ns (p + node_size leaf n) q)"

definition resolve_law :: "(string \<Rightarrow> bool) \<Rightarrow> (pm_node \<Rightarrow> nat \<Rightarrow> resolved result) \<Rightarrow> bool" where
  "resolve_law leaf resolve \<longleftrightarrow> (\<forall>doc q.
     (q \<le> total_size leaf (child_nodes doc) \<longrightarrow> resolve doc q = Inr ((doc, 0) # path_at leaf (child_nodes doc) 0 q)) \<and>
     (total_size leaf (child_nodes doc) < q \<longrightarrow> (\<exists>e. resolve doc q = Inl e)))"

text \<open>\<open>$pos.parent\<close>, \<open>$pos.node(d)\<close>, \<open>$pos.start(d)\<close> and \<open>$pos.end(d)\<close> for a depth that is there.\<close>

definition pos_parent :: "resolved \<Rightarrow> pm_node" where
  "pos_parent path = fst (last path)"

definition pos_node :: "resolved \<Rightarrow> nat \<Rightarrow> pm_node" where
  "pos_node path d = fst (path ! d)"

definition pos_start :: "resolved \<Rightarrow> nat \<Rightarrow> nat" where
  "pos_start path d = snd (path ! d)"

definition pos_end :: "(string \<Rightarrow> bool) \<Rightarrow> resolved \<Rightarrow> nat \<Rightarrow> nat" where
  "pos_end leaf path d = pos_start path d + total_size leaf (child_nodes (pos_node path d))"

definition pos_depth :: "resolved \<Rightarrow> nat" where
  "pos_depth path = length path - 1"

section \<open>The block at a position\<close>

record block_pos_info = block_info +
  bp_node :: pm_node
  bp_startPos :: nat
  bp_endPos :: nat
  bp_depth :: nat

function seek_up :: "(pm_node \<Rightarrow> nat \<Rightarrow> resolved result) \<Rightarrow> pm_node \<Rightarrow> nat \<Rightarrow> nat \<Rightarrow> nat result" where
  "seek_up resolve doc end pos = (case resolve doc pos of Inl e \<Rightarrow> Inl e | Inr path \<Rightarrow>
     if type_name (pos_parent path) \<noteq> ''blockContainer'' \<and> pos < end then seek_up resolve doc end (pos + 1) else Inr pos)"
  by pat_completeness auto
termination
  by (relation "measure (\<lambda>(resolve, doc, end, pos). end - pos)") auto

fun seek_down :: "(pm_node \<Rightarrow> nat \<Rightarrow> resolved result) \<Rightarrow> pm_node \<Rightarrow> nat \<Rightarrow> nat result" where
  "seek_down resolve doc pos = (case resolve doc pos of Inl e \<Rightarrow> Inl e | Inr path \<Rightarrow>
     if type_name (pos_parent path) \<noteq> ''blockContainer'' \<and> 1 < pos then seek_down resolve doc (pos - 1) else Inr pos)"

declare seek_up.simps [simp del] seek_down.simps [simp del]

definition no_container :: js_error where
  "no_container = Error ''Could not find blockContainer node. This can only happen if the underlying BlockNote schema has been edited.''"

fun climb :: "resolved \<Rightarrow> nat \<Rightarrow> nat result" where
  "climb path depth =
     (if type_name (pos_node path depth) = ''blockContainer'' then Inr depth
      else case depth of 0 \<Rightarrow> Inl no_container | Suc d \<Rightarrow> climb path d)"

declare climb.simps [simp del]

definition getBlockInfoFromPos ::
  "(string \<Rightarrow> bool) \<Rightarrow> (pm_node \<Rightarrow> nat \<Rightarrow> resolved result) \<Rightarrow> pm_node \<Rightarrow> nat \<Rightarrow> block_pos_info result" where
  "getBlockInfoFromPos leaf resolve doc pos =
     (let outerBlockGroupEndPos = node_size leaf doc - 2 in
      bind_result (if pos \<le> 1 then seek_up resolve doc outerBlockGroupEndPos 2
                   else if outerBlockGroupEndPos \<le> pos then seek_down resolve doc (outerBlockGroupEndPos - 1)
                   else Inr pos) (\<lambda>pos.
      bind_result (resolve doc pos) (\<lambda>at.
      bind_result (resolve doc (if type_name (pos_parent at) = ''blockGroup'' then pos + 1 else pos)) (\<lambda>path.
      bind_result (climb path (pos_depth path)) (\<lambda>depth.
      map_result (\<lambda>info. \<lparr>bi_id = bi_id info, bi_contentNode = bi_contentNode info, bi_numChildBlocks = bi_numChildBlocks info,
          bp_node = pos_node path depth, bp_startPos = pos_start path depth, bp_endPos = pos_end leaf path depth,
          bp_depth = depth\<rparr>) (getBlockInfo (pos_node path depth)))))))"

section \<open>The group at a position\<close>

text \<open>
  \<open>$pos.node(-1)\<close> counts from the innermost node, so a search that ends without a group gives the
  node around the innermost one.
\<close>

record group_pos_info =
  gp_group :: "pm_node option"
  gp_container :: "pm_node option"
  gp_depth :: int
  gp_level :: nat

definition before_last :: "resolved \<Rightarrow> pm_node option" where
  "before_last path = (if pos_depth path = 0 then None else Some (pos_node path (pos_depth path - 1)))"

fun group_climb :: "resolved \<Rightarrow> nat \<Rightarrow> pm_node option \<Rightarrow> pm_node option \<times> pm_node option \<times> int" where
  "group_climb path depth container =
     (let n = pos_node path depth in
      if type_name n = ''blockGroup'' then (Some n, container, int depth)
      else let container' = (if type_name n = ''blockContainer'' then Some n else container)
      in case depth of 0 \<Rightarrow> (before_last path, container', -1) | Suc d \<Rightarrow> group_climb path d container')"

declare group_climb.simps [simp del]

definition getGroupInfoFromPos :: "(pm_node \<Rightarrow> nat \<Rightarrow> resolved result) \<Rightarrow> nat \<Rightarrow> pm_node \<Rightarrow> group_pos_info result" where
  "getGroupInfoFromPos resolve pos doc = map_result (\<lambda>path.
     case group_climb path (pos_depth path) None of (g, c, d) \<Rightarrow>
       \<lparr>gp_group = g, gp_container = c, gp_depth = d, gp_level = pos_depth path div 2\<rparr>) (resolve doc pos)"

text \<open>The parent of the block around a position in its content.\<close>

record parent_info =
  pi_parentGroup :: pm_node
  pi_parentBlock :: "pm_node option"
  pi_parentPos :: nat
  pi_depth :: nat

definition getParentBlockFromPos :: "(pm_node \<Rightarrow> nat \<Rightarrow> resolved result) \<Rightarrow> pm_node \<Rightarrow> nat \<Rightarrow> parent_info option result" where
  "getParentBlockFromPos resolve doc pos = map_result (\<lambda>path. let depth = pos_depth path in
     if 3 < depth then Some \<lparr>pi_parentGroup = pos_node path (depth - 2),
         pi_parentBlock = nth_opt (child_nodes (pos_node path (depth - 3))) 0,
         pi_parentPos = pos_start path (depth - 3), pi_depth = depth\<rparr>
     else None) (resolve doc pos)"

text \<open>
  The nearest heading around a position: without one the search ends at depth -1, which again names the
  node around the innermost one, and what comes back is not a heading.
\<close>

record heading_info =
  hi_depth :: int
  hi_groupStartPos :: nat
  hi_heading :: "pm_node option"
  hi_group :: pm_node

definition is_heading :: "pm_node option \<Rightarrow> bool" where
  "is_heading h \<longleftrightarrow> (\<exists>n. h = Some n \<and> type_name n = ''heading'')"

lemma is_heading_simps [simp]: "is_heading None \<longleftrightarrow> False" "is_heading (Some n) \<longleftrightarrow> type_name n = ''heading''"
  by (simp_all add: is_heading_def)

fun heading_climb :: "resolved \<Rightarrow> nat \<Rightarrow> nat option" where
  "heading_climb path depth =
     (let group = pos_node path depth in
      if type_name group = ''blockContainer'' \<and> is_heading (nth_opt (child_nodes group) 0) then Some depth
      else case depth of 0 \<Rightarrow> None | Suc d \<Rightarrow> heading_climb path d)"

declare heading_climb.simps [simp del]

definition getNearestHeadingFromPos :: "(pm_node \<Rightarrow> nat \<Rightarrow> resolved result) \<Rightarrow> pm_node \<Rightarrow> nat \<Rightarrow> heading_info option result" where
  "getNearestHeadingFromPos resolve doc pos = map_result (\<lambda>path.
     if 3 < pos_depth path
     then (let found = heading_climb path (pos_depth path);
               d = (case found of None \<Rightarrow> pos_depth path - 1 | Some d \<Rightarrow> d)
           in Some \<lparr>hi_depth = (case found of None \<Rightarrow> -1 | Some d \<Rightarrow> int d), hi_groupStartPos = pos_start path d,
                hi_heading = nth_opt (child_nodes (pos_node path d)) 0, hi_group = pos_node path d\<rparr>)
     else None) (resolve doc pos)"

section \<open>Documents as trees of blocks\<close>

text \<open>
  The document that the schema of the editor asks for: one group of containers, each with a content node and,
  when it has children, a group of them. The attributes of a group that is not there do not matter.
\<close>

datatype btree = TBlock (t_attrs: attrs) (t_content: pm_node) (t_group: attrs) (t_kids: "btree list")

fun to_pm :: "btree \<Rightarrow> pm_node" where
  "to_pm (TBlock as c g ts) = PNode ''blockContainer'' as
     (c # (if ts = [] then [] else [PNode ''blockGroup'' g (map to_pm ts) []])) []"

definition tree_doc :: "attrs \<Rightarrow> attrs \<Rightarrow> btree list \<Rightarrow> pm_node" where
  "tree_doc da ga ts = PNode ''doc'' da [PNode ''blockGroup'' ga (map to_pm ts) []] []"

fun plain :: "pm_node \<Rightarrow> bool" where
  "plain (PText t ms) \<longleftrightarrow> True"
| "plain (PNode k as cs ms) \<longleftrightarrow> k \<noteq> ''blockContainer'' \<and> k \<noteq> ''blockGroup'' \<and> list_all plain cs"

fun tree_ok :: "btree \<Rightarrow> bool" where
  "tree_ok (TBlock as c g ts) \<longleftrightarrow> plain c \<and> \<not> is_PText c \<and> list_all tree_ok ts"

definition inner_types :: "(string \<Rightarrow> bool) \<Rightarrow> bool" where
  "inner_types leaf \<longleftrightarrow> \<not> leaf ''doc'' \<and> \<not> leaf ''blockGroup'' \<and> \<not> leaf ''blockContainer''"

abbreviation tsize :: "(string \<Rightarrow> bool) \<Rightarrow> btree list \<Rightarrow> nat" where
  "tsize leaf ts \<equiv> total_size leaf (map to_pm ts)"

lemma node_size_pos: "\<not> is_PText n \<Longrightarrow> 0 < node_size leaf n"
  by (cases n) auto

lemma block_size:
  "inner_types leaf \<Longrightarrow> node_size leaf (to_pm (TBlock as c g ts)) =
     node_size leaf c + 2 + (if ts = [] then 0 else tsize leaf ts + 2)"
  by (simp add: inner_types_def)

lemma to_pm_basics [simp]:
  "type_name (to_pm t) = ''blockContainer''" "\<not> is_PText (to_pm t)" "node_attrs (to_pm t) = t_attrs t"
  "child_nodes (to_pm t) = t_content t # (if t_kids t = [] then [] else [PNode ''blockGroup'' (t_group t) (map to_pm (t_kids t)) []])"
  by (cases t; simp)+

declare to_pm.simps [simp del]

lemma doc_size: "inner_types leaf \<Longrightarrow> node_size leaf (tree_doc da ga ts) - 2 = tsize leaf ts + 2"
  "inner_types leaf \<Longrightarrow> total_size leaf (child_nodes (tree_doc da ga ts)) = tsize leaf ts + 2"
  by (simp_all add: tree_doc_def inner_types_def)

text \<open>The innermost block around a position, with the start of its content and its depth.\<close>

fun around :: "(string \<Rightarrow> bool) \<Rightarrow> btree list \<Rightarrow> nat \<Rightarrow> nat \<Rightarrow> nat \<Rightarrow> (btree \<times> nat \<times> nat) option" where
  "around leaf [] p q d = None"
| "around leaf (TBlock as c g ks # ts) p q d =
     (if p < q \<and> q < p + node_size leaf (to_pm (TBlock as c g ks))
      then (case around leaf ks (p + node_size leaf c + 2) q (d + 2) of
          Some r \<Rightarrow> Some r | None \<Rightarrow> Some (TBlock as c g ks, Suc p, d))
      else around leaf ts (p + node_size leaf (to_pm (TBlock as c g ks))) q d)"

text \<open>Whether a position lies between the blocks of some group, or at an end of one.\<close>

fun between :: "(string \<Rightarrow> bool) \<Rightarrow> btree list \<Rightarrow> nat \<Rightarrow> nat \<Rightarrow> bool" where
  "between leaf [] p q \<longleftrightarrow> q = p"
| "between leaf (TBlock as c g ks # ts) p q \<longleftrightarrow> q = p \<or>
     (if p < q \<and> q < p + node_size leaf (to_pm (TBlock as c g ks))
      then ks \<noteq> [] \<and> between leaf ks (p + node_size leaf c + 2) q
      else between leaf ts (p + node_size leaf (to_pm (TBlock as c g ks))) q)"

section \<open>Paths through a tree\<close>

lemma path_out: "q \<le> p \<or> p + total_size leaf ns \<le> q \<Longrightarrow> path_at leaf ns p q = []"
  by (induction leaf ns p q rule: path_at.induct) auto

lemma path_skip: "\<not> (p < q \<and> q < p + node_size leaf n) \<Longrightarrow> path_at leaf (n # ns) p q = path_at leaf ns (p + node_size leaf n) q"
  by auto

lemma path_append:
  "path_at leaf (xs @ ys) p q = (if q \<le> p + total_size leaf xs then path_at leaf xs p q
     else path_at leaf ys (p + total_size leaf xs) q)"
proof (induction xs arbitrary: p)
  case Nil
  then show ?case by (simp add: path_out)
next
  case (Cons x xs)
  then show ?case by (auto simp: path_out add.assoc)
qed

lemma path_plain: "list_all plain ns \<Longrightarrow> (n, s) \<in> set (path_at leaf ns p q) \<Longrightarrow> plain n"
proof (induction leaf ns p q rule: path_at.induct)
  case (2 leaf m ns p q)
  have "list_all plain (child_nodes m)" using 2(3) by (cases m) auto
  with 2 show ?case by (auto split: if_splits)
qed simp

lemma plain_type: "plain n \<Longrightarrow> type_name n \<noteq> ''blockContainer'' \<and> type_name n \<noteq> ''blockGroup''"
  by (cases n) auto

text \<open>Inside a block the path goes into the content, or into the group, or stays in the container.\<close>

lemma path_block:
  assumes "inner_types leaf" "p < q" "q < p + node_size leaf (to_pm (TBlock as c g ks))"
  shows "path_at leaf (to_pm (TBlock as c g ks) # ns) p q = (to_pm (TBlock as c g ks), Suc p) #
    (if q \<le> Suc p + node_size leaf c then path_at leaf [c] (Suc p) q
     else if ks = [] \<or> Suc p + node_size leaf c + tsize leaf ks + 2 \<le> q then []
     else (PNode ''blockGroup'' g (map to_pm ks) [], p + node_size leaf c + 2) # path_at leaf (map to_pm ks) (p + node_size leaf c + 2) q)"
  using assms path_append [of leaf "[c]" "if ks = [] then [] else [PNode ''blockGroup'' g (map to_pm ks) []]" "Suc p" q]
  by (simp add: inner_types_def path_out)

lemma around_out: "q \<le> p \<or> p + tsize leaf ts \<le> q \<Longrightarrow> around leaf ts p q d = None"
  by (induction leaf ts p q d rule: around.induct) auto

lemma around_none: "inner_types leaf \<Longrightarrow> around leaf ts p q d = None \<longleftrightarrow> path_at leaf (map to_pm ts) p q = []"
  by (induction leaf ts p q d rule: around.induct) (auto split: option.splits)

definition holds_last :: "resolved \<Rightarrow> nat \<Rightarrow> pm_node \<Rightarrow> nat \<Rightarrow> bool" where
  "holds_last path k n s \<longleftrightarrow> k < length path \<and> path ! k = (n, s) \<and>
     (\<forall>j. k < j \<and> j < length path \<longrightarrow> type_name (fst (path ! j)) \<noteq> ''blockContainer'')"

lemma holds_last_append:
  assumes "\<forall>(x, s) \<in> set ys. type_name x \<noteq> ''blockContainer''" "length pre = k"
  shows "holds_last (pre @ (n, s) # ys) k n s"
proof -
  have "type_name (fst ((pre @ (n, s) # ys) ! j)) \<noteq> ''blockContainer''" if "k < j" "j < length (pre @ (n, s) # ys)" for j
  proof -
    have "(pre @ (n, s) # ys) ! j = ys ! (j - Suc k)" using that(1) assms(2) by (simp add: nth_append nth_Cons')
    moreover have "j - Suc k < length ys" using that assms(2) by simp
    ultimately have "(pre @ (n, s) # ys) ! j \<in> set ys" by simp
    then show ?thesis using assms(1) by fastforce
  qed
  then show ?thesis using assms(2) by (simp add: holds_last_def nth_append)
qed

lemma around_path:
  "inner_types leaf \<Longrightarrow> list_all tree_ok ts \<Longrightarrow> around leaf ts p q d = Some (b, s, k) \<Longrightarrow> length pre = d \<Longrightarrow>
     holds_last (pre @ path_at leaf (map to_pm ts) p q) k (to_pm b) s"
proof (induction leaf ts p q d arbitrary: pre rule: around.induct)
  case (2 leaf as c g ks ts p q d)
  let ?b = "TBlock as c g ks"
  show ?case
  proof (cases "p < q \<and> q < p + node_size leaf (to_pm ?b)")
    case False
    then have "path_at leaf (map to_pm (?b # ts)) p q = path_at leaf (map to_pm ts) (p + node_size leaf (to_pm ?b)) q"
      by (metis list.map(2) path_skip)
    moreover have "list_all tree_ok ts" using 2(4) by simp
    moreover have "around leaf ts (p + node_size leaf (to_pm ?b)) q d = Some (b, s, k)" using False 2(5) by (simp only: around.simps if_False)
    ultimately show ?thesis using 2(2) [OF False 2(3) _ _ 2(6)] by presburger
  next
    case True
    note path = path_block [OF 2(3), of p q as c g ks "map to_pm ts", OF conjunct1 [OF True] conjunct2 [OF True],
        folded list.map(2) [of to_pm "?b" ts]]
    show ?thesis
    proof (cases "around leaf ks (p + node_size leaf c + 2) q (d + 2)")
      case None
      then have kids: "path_at leaf (map to_pm ks) (p + node_size leaf c + 2) q = []" using around_none [OF 2(3)] by blast
      have b: "b = ?b" "s = Suc p" "k = d" using True None 2(5) by simp_all
      have c: "list_all plain [c]" using 2(4) by simp
      have "\<forall>(x, s) \<in> set (path_at leaf [c] (Suc p) q). type_name x \<noteq> ''blockContainer''"
        using path_plain [OF c] plain_type by fast
      then show ?thesis
        unfolding path b kids using 2(6) by (intro holds_last_append) (simp_all split: if_split)
    next
      case (Some r)
      then have r: "r = (b, s, k)" using True 2(5) by simp
      with Some have ne: "path_at leaf (map to_pm ks) (p + node_size leaf c + 2) q \<noteq> []" using around_none [OF 2(3)] by (metis option.distinct(1))
      then have out: "p + node_size leaf c + 2 < q" "q < p + node_size leaf c + 2 + tsize leaf ks" "ks \<noteq> []"
        using path_out by (metis not_le_imp_less, metis not_le_imp_less, fastforce)
      have "holds_last ((pre @ [(to_pm ?b, Suc p), (PNode ''blockGroup'' g (map to_pm ks) [], p + node_size leaf c + 2)])
          @ path_at leaf (map to_pm ks) (p + node_size leaf c + 2) q) k (to_pm b) s"
        using 2(4,6) Some r by (intro 2(1) [OF True 2(3)]) auto
      moreover have "\<not> q \<le> Suc p + node_size leaf c" "\<not> (ks = [] \<or> Suc p + node_size leaf c + tsize leaf ks + 2 \<le> q)"
        using out by simp_all
      ultimately show ?thesis unfolding path by (simp only: if_False append.simps append_assoc)
    qed
  qed
qed simp

lemma climb_found: "holds_last path k n s \<Longrightarrow> type_name n = ''blockContainer'' \<Longrightarrow> k \<le> m \<Longrightarrow> m < length path \<Longrightarrow> climb path m = Inr k"
proof (induction m)
  case 0
  then show ?case by (subst climb.simps) (simp add: holds_last_def pos_node_def)
next
  case (Suc m)
  then show ?case by (subst climb.simps) (cases "k = Suc m"; simp add: holds_last_def pos_node_def)
qed

lemma climb_none: "\<forall>x \<in> set path. type_name (fst x) \<noteq> ''blockContainer'' \<Longrightarrow> m < length path \<Longrightarrow> climb path m = Inl no_container"
proof (induction m)
  case 0
  then have "path ! 0 \<in> set path" by simp
  with 0 show ?case by (subst climb.simps) (simp add: pos_node_def)
next
  case (Suc m)
  then have "path ! Suc m \<in> set path" by (metis nth_mem)
  with Suc show ?case by (subst climb.simps) (simp add: pos_node_def)
qed

section \<open>Positions between blocks\<close>

lemma between_low: "q < p \<Longrightarrow> \<not> between leaf ts p q"
  by (induction leaf ts p q rule: between.induct) auto

lemma between_high: "p + tsize leaf ts < q \<Longrightarrow> \<not> between leaf ts p q"
  by (induction leaf ts p q rule: between.induct) auto

lemma block_big: "inner_types leaf \<Longrightarrow> plain c \<Longrightarrow> \<not> is_PText c \<Longrightarrow> 3 \<le> node_size leaf (to_pm (TBlock as c g ks))"
  using node_size_pos [of c leaf] by (simp add: block_size)

lemma between_path:
  "inner_types leaf \<Longrightarrow> list_all tree_ok ts \<Longrightarrow> p \<le> q \<Longrightarrow> q \<le> p + tsize leaf ts \<Longrightarrow> type_name grp = ''blockGroup'' \<Longrightarrow>
     type_name (fst (last ((grp, s) # path_at leaf (map to_pm ts) p q))) = ''blockGroup'' \<longleftrightarrow> between leaf ts p q"
proof (induction leaf ts p q arbitrary: grp s rule: between.induct)
  case (2 leaf as c g ks ts p q)
  let ?b = "TBlock as c g ks" and ?kp = "p + node_size leaf c + 2"
  have size: "node_size leaf (to_pm ?b) = node_size leaf c + 2 + (if ks = [] then 0 else tsize leaf ks + 2)"
    by (rule block_size [OF 2(3)])
  show ?case
  proof (cases "p < q \<and> q < p + node_size leaf (to_pm ?b)")
    case False
    then have skip: "path_at leaf (map to_pm (?b # ts)) p q = path_at leaf (map to_pm ts) (p + node_size leaf (to_pm ?b)) q"
      by (metis list.map(2) path_skip)
    show ?thesis
    proof (cases "q = p")
      case True
      then show ?thesis using 2(7) by (simp add: path_out)
    next
      case ne: False
      then have "p + node_size leaf (to_pm ?b) \<le> q" using False 2(5) by simp
      moreover have "q \<le> p + node_size leaf (to_pm ?b) + tsize leaf ts" using 2(6) by simp
      ultimately show ?thesis
        unfolding skip using 2(2) [OF False 2(3) _ _ _ 2(7)] 2(4) False ne by simp
    qed
  next
    case True
    then have bt: "between leaf (?b # ts) p q \<longleftrightarrow> ks \<noteq> [] \<and> between leaf ks ?kp q" by simp
    note path = path_block [OF 2(3), of p q as c g ks "map to_pm ts", OF conjunct1 [OF True] conjunct2 [OF True],
        folded list.map(2) [of to_pm "?b" ts]]
    consider (content) "q \<le> Suc p + node_size leaf c" | (group) "\<not> q \<le> Suc p + node_size leaf c"
        "\<not> (ks = [] \<or> Suc p + node_size leaf c + tsize leaf ks + 2 \<le> q)"
      | (behind) "\<not> q \<le> Suc p + node_size leaf c" "ks = [] \<or> Suc p + node_size leaf c + tsize leaf ks + 2 \<le> q" by blast
    then show ?thesis
    proof cases
      case content
      have "\<not> between leaf ks ?kp q" using content by (intro between_low) simp
      moreover have "type_name x \<noteq> ''blockGroup''" if "(x, i) \<in> set (path_at leaf [c] (Suc p) q)" for x i
        using path_plain [OF _ that] plain_type 2(4) by simp
      then have "type_name (fst (last ((to_pm ?b, Suc p) # path_at leaf [c] (Suc p) q))) \<noteq> ''blockGroup''"
        by (cases "path_at leaf [c] (Suc p) q = []") (simp, metis last_ConsR last_in_set prod.collapse)
      ultimately show ?thesis unfolding bt path using content by simp
    next
      case group
      have "between leaf ks ?kp q \<longleftrightarrow>
          type_name (fst (last ((PNode ''blockGroup'' g (map to_pm ks) [], ?kp) # path_at leaf (map to_pm ks) ?kp q))) = ''blockGroup''"
        using group 2(4) by (intro 2(1) [OF True 2(3), symmetric]) auto
      then show ?thesis unfolding bt path using group by simp
    next
      case behind
      have "ks = [] \<or> \<not> between leaf ks ?kp q" using behind by (cases "ks = []") (auto intro!: between_high)
      then show ?thesis unfolding bt path using behind by simp
    qed
  qed
qed simp

text \<open>Stepping into the next block, or out of a group into its block.\<close>

lemma around_inside: "p < q \<Longrightarrow> q < p + node_size leaf (to_pm b) \<Longrightarrow> around leaf (b # ts) p q d \<noteq> None"
  by (cases b) (simp split: option.split)

lemma around_skip:
  "\<not> (p < q \<and> q < p + node_size leaf (to_pm b)) \<Longrightarrow> around leaf (b # ts) p q d = around leaf ts (p + node_size leaf (to_pm b)) q d"
  by (cases b) (simp only: around.simps if_False)

lemma step_in:
  "inner_types leaf \<Longrightarrow> list_all tree_ok ts \<Longrightarrow> between leaf ts p q \<Longrightarrow> q < p + tsize leaf ts \<Longrightarrow> around leaf ts p (Suc q) d \<noteq> None"
proof (induction leaf ts p q rule: between.induct)
  case (2 leaf as c g ks ts p q)
  let ?b = "TBlock as c g ks"
  have size: "3 \<le> node_size leaf (to_pm ?b)" using 2(4) by (intro block_big [OF 2(3)]) simp_all
  consider (at) "q = p" | (inside) "p < q \<and> q < p + node_size leaf (to_pm ?b)"
    | (behind) "q \<noteq> p" "\<not> (p < q \<and> q < p + node_size leaf (to_pm ?b))" by blast
  then show ?case
  proof cases
    case at
    then show ?thesis using size by (intro around_inside) simp_all
  next
    case inside
    then have "ks \<noteq> []" "between leaf ks (p + node_size leaf c + 2) q" using 2(5) by simp_all
    then have "q \<le> p + node_size leaf c + 2 + tsize leaf ks" using between_high not_le_imp_less by blast
    then show ?thesis using inside block_size [OF 2(3), of as c g ks] \<open>ks \<noteq> []\<close> by (intro around_inside) simp_all
  next
    case behind
    then have rest: "between leaf ts (p + node_size leaf (to_pm ?b)) q" using 2(5) unfolding between.simps by presburger
    then have "p + node_size leaf (to_pm ?b) \<le> q" using between_low not_le_imp_less by blast
    then have skip: "\<not> (p < Suc q \<and> Suc q < p + node_size leaf (to_pm ?b))" by simp
    have "around leaf ts (p + node_size leaf (to_pm ?b)) (Suc q) d \<noteq> None"
      using 2(4,6) rest by (intro 2(2) [OF behind(2) 2(3)]) simp_all
    then show ?thesis unfolding around_skip [OF skip] .
  qed
qed simp

lemma block_end_path:
  assumes "inner_types leaf" "tree_ok b"
  shows "path_at leaf [to_pm b] p (p + node_size leaf (to_pm b) - 1) = [(to_pm b, Suc p)]"
proof -
  obtain as c g ks where b: "b = TBlock as c g ks" by (cases b)
  let ?q = "p + node_size leaf (to_pm b) - 1"
  have size: "3 \<le> node_size leaf (to_pm b)" using assms(2) unfolding b by (intro block_big [OF assms(1)]) simp_all
  have "path_at leaf [c] (Suc p) ?q = []" using size block_size [OF assms(1), of as c g ks] by (intro path_out) (simp add: b)
  moreover have "ks = [] \<or> Suc p + node_size leaf c + tsize leaf ks + 2 \<le> ?q"
    using block_size [OF assms(1), of as c g ks] by (simp add: b)
  moreover have "p < ?q" "?q < p + node_size leaf (to_pm b)" using size by simp_all
  ultimately show ?thesis unfolding b using path_block [OF assms(1), of p _ as c g ks "[]"] by presburger
qed

lemma last_block_path:
  assumes "inner_types leaf" "list_all tree_ok ts" "ts \<noteq> []"
  shows "\<exists>s. path_at leaf (map to_pm ts) p (p + tsize leaf ts - 1) = [(to_pm (last ts), s)]"
proof -
  obtain xs b where ts: "ts = xs @ [b]" using assms(3) by (meson rev_exhaust)
  let ?p = "p + tsize leaf xs" and ?s = "node_size leaf (to_pm b)"
  obtain as c g ks where b: "b = TBlock as c g ks" by (cases b)
  have size: "3 \<le> ?s" using assms(2) unfolding b ts by (intro block_big [OF assms(1)]) simp_all
  have "path_at leaf (map to_pm xs @ [to_pm b]) p (?p + ?s - 1) = path_at leaf [to_pm b] ?p (?p + ?s - 1)"
  proof (subst path_append, rule if_not_P)
    show "\<not> ?p + ?s - 1 \<le> ?p" using size by arith
  qed
  moreover have "p + tsize leaf ts - 1 = ?p + ?s - 1" "map to_pm ts = map to_pm xs @ [to_pm b]" by (simp_all add: ts)
  ultimately have "path_at leaf (map to_pm ts) p (p + tsize leaf ts - 1) = path_at leaf [to_pm b] ?p (?p + ?s - 1)" by metis
  also have "\<dots> = [(to_pm b, Suc ?p)]" using assms(2) by (intro block_end_path [OF assms(1)]) (simp add: ts)
  finally show ?thesis by (simp add: ts)
qed

lemma first_block_path:
  assumes "inner_types leaf" "list_all tree_ok ts" "ts \<noteq> []"
  shows "path_at leaf (map to_pm ts) p (Suc p) = [(to_pm (hd ts), Suc p)]"
proof -
  obtain as c g ks xs where ts: "ts = TBlock as c g ks # xs" using assms(3) by (metis btree.exhaust list.exhaust)
  have "3 \<le> node_size leaf (to_pm (TBlock as c g ks))" using assms(2) unfolding ts by (intro block_big [OF assms(1)]) simp_all
  then show ?thesis
    unfolding ts list.map using path_block [OF assms(1), of p "Suc p" as c g ks "map to_pm xs"] by (simp add: path_out)
qed

section \<open>The block that is found\<close>

definition info_of :: "(string \<Rightarrow> bool) \<Rightarrow> btree \<times> nat \<times> nat \<Rightarrow> block_pos_info" where
  "info_of leaf r = (case r of (b, s, k) \<Rightarrow>
     \<lparr>bi_id = get_attr (t_attrs b) ''id'', bi_contentNode = t_content b, bi_numChildBlocks = length (t_kids b),
      bp_node = to_pm b, bp_startPos = s, bp_endPos = s + (node_size leaf (to_pm b) - 2), bp_depth = k\<rparr>)"

text \<open>The position that is looked at: clamped to the outer group, then moved into a block from between two.\<close>

definition near_pos :: "(string \<Rightarrow> bool) \<Rightarrow> btree list \<Rightarrow> nat \<Rightarrow> nat" where
  "near_pos leaf ts pos = (if pos \<le> 1 then 2 else if tsize leaf ts + 2 \<le> pos then tsize leaf ts
     else if between leaf ts 1 pos then pos + 1 else pos)"

lemma resolve_lawD:
  "resolve_law leaf resolve \<Longrightarrow> q \<le> total_size leaf (child_nodes doc) \<Longrightarrow>
     resolve doc q = Inr ((doc, 0) # path_at leaf (child_nodes doc) 0 q)"
  by (simp only: resolve_law_def)

lemma tree_resolve:
  assumes "resolve_law leaf resolve" "inner_types leaf" "q \<le> tsize leaf ts + 2"
  shows "resolve (tree_doc da ga ts) q = Inr ((tree_doc da ga ts, 0) #
     (if 0 < q \<and> q < tsize leaf ts + 2 then (PNode ''blockGroup'' ga (map to_pm ts) [], 1) # path_at leaf (map to_pm ts) 1 q else []))"
proof -
  let ?g = "PNode ''blockGroup'' ga (map to_pm ts) []"
  have "resolve (tree_doc da ga ts) q = Inr ((tree_doc da ga ts, 0) # path_at leaf (child_nodes (tree_doc da ga ts)) 0 q)"
    using assms(3) by (intro resolve_lawD [OF assms(1)]) (simp only: doc_size(2) [OF assms(2)])
  moreover have size: "node_size leaf ?g = tsize leaf ts + 2" using assms(2) by (simp add: inner_types_def)
  moreover have "path_at leaf [?g] 0 q = (if 0 < q \<and> q < 0 + node_size leaf ?g \<and> \<not> is_PText ?g
      then (?g, Suc 0) # path_at leaf (child_nodes ?g) (Suc 0) q else path_at leaf [] (0 + node_size leaf ?g) q)"
    by (rule path_at.simps(2))
  moreover have "child_nodes (tree_doc da ga ts) = [?g]" "child_nodes ?g = map to_pm ts" "\<not> is_PText ?g" by (simp_all add: tree_doc_def)
  ultimately show ?thesis by (simp only: path_at.simps(1) add_0 One_nat_def simp_thms)
qed

lemma info_of_node:
  assumes "inner_types leaf"
  shows "getBlockInfo (to_pm b) = Inr \<lparr>bi_id = get_attr (t_attrs b) ''id'', bi_contentNode = t_content b, bi_numChildBlocks = length (t_kids b)\<rparr>"
    "total_size leaf (child_nodes (to_pm b)) = node_size leaf (to_pm b) - 2"
proof -
  show "getBlockInfo (to_pm b) = Inr \<lparr>bi_id = get_attr (t_attrs b) ''id'', bi_contentNode = t_content b, bi_numChildBlocks = length (t_kids b)\<rparr>"
    by (cases "t_kids b = []") (simp_all add: getBlockInfo_def)
  show "total_size leaf (child_nodes (to_pm b)) = node_size leaf (to_pm b) - 2"
    using assms by (cases b) (simp add: to_pm.simps inner_types_def)
qed

text \<open>The end of the computation, once the position is inside the outer group.\<close>

lemma block_found:
  assumes law: "resolve_law leaf resolve" and leaf: "inner_types leaf" and ok: "list_all tree_ok ts" and q: "q \<le> tsize leaf ts + 2" "0 < q"
  shows "bind_result (resolve (tree_doc da ga ts) q) (\<lambda>path. bind_result (climb path (pos_depth path)) (\<lambda>depth.
      map_result (\<lambda>info. \<lparr>bi_id = bi_id info, bi_contentNode = bi_contentNode info, bi_numChildBlocks = bi_numChildBlocks info,
          bp_node = pos_node path depth, bp_startPos = pos_start path depth, bp_endPos = pos_end leaf path depth,
          bp_depth = depth\<rparr>) (getBlockInfo (pos_node path depth))))
    = (case around leaf ts 1 q 2 of None \<Rightarrow> Inl no_container | Some r \<Rightarrow> Inr (info_of leaf r))"
proof -
  let ?d = "tree_doc da ga ts" and ?g = "PNode ''blockGroup'' ga (map to_pm ts) []"
  define path where "path = (?d, 0 :: nat) # (if 0 < q \<and> q < tsize leaf ts + 2 then (?g, 1) # path_at leaf (map to_pm ts) 1 q else [])"
  have resolved: "resolve ?d q = Inr path" unfolding path_def by (rule tree_resolve [OF law leaf q(1)])
  show ?thesis
  proof (cases "around leaf ts 1 q 2")
    case None
    then have "path_at leaf (map to_pm ts) 1 q = []" using around_none [OF leaf] by blast
    then have "climb path (pos_depth path) = Inl no_container"
      by (intro climb_none) (auto simp: path_def pos_depth_def tree_doc_def)
    with None resolved show ?thesis by simp
  next
    case (Some r)
    obtain b s k where r: "r = (b, s, k)" by (cases r)
    have "q < tsize leaf ts + 2" using Some around_out [of q 1 leaf ts 2] q(2)
      by (metis One_nat_def add.commute add_Suc_right add_le_cancel_left not_le_imp_less option.distinct(1) plus_1_eq_Suc le_Suc_eq nat_le_linear numeral_2_eq_2 le_SucI)
    then have path: "path = [(?d, 0), (?g, 1)] @ path_at leaf (map to_pm ts) 1 q" using q(2) by (simp add: path_def)
    have last: "holds_last path k (to_pm b) s"
      unfolding path by (rule around_path [OF leaf ok Some [unfolded r]]) simp
    then have "climb path (pos_depth path) = Inr k"
      by (intro climb_found) (auto simp: holds_last_def pos_depth_def)
    moreover have "pos_node path k = to_pm b" "pos_start path k = s" using last by (simp_all add: holds_last_def pos_node_def pos_start_def)
    ultimately show ?thesis
      unfolding resolved Some r info_of_def pos_end_def by (simp add: info_of_node [OF leaf] del: to_pm_basics(4))
  qed
qed

lemma root_parent:
  assumes "resolve_law leaf resolve" "inner_types leaf" "list_all tree_ok ts" "0 < q" "q < tsize leaf ts + 2"
  shows "\<exists>path. resolve (tree_doc da ga ts) q = Inr path \<and> (type_name (pos_parent path) = ''blockGroup'' \<longleftrightarrow> between leaf ts 1 q)"
proof -
  let ?g = "PNode ''blockGroup'' ga (map to_pm ts) []"
  have "resolve (tree_doc da ga ts) q = Inr ((tree_doc da ga ts, 0) # (?g, 1) # path_at leaf (map to_pm ts) 1 q)"
    using tree_resolve [OF assms(1,2), of q ts da ga] assms(4,5) by simp
  moreover have "type_name (fst (last ((?g, 1) # path_at leaf (map to_pm ts) 1 q))) = ''blockGroup'' \<longleftrightarrow> between leaf ts 1 q"
    using assms(4,5) by (intro between_path [OF assms(2,3)]) simp_all
  ultimately show ?thesis by (simp add: pos_parent_def)
qed

lemma parent_of_path:
  assumes "resolve_law leaf resolve" "inner_types leaf" "0 < q" "q < tsize leaf ts + 2"
    and "path_at leaf (map to_pm ts) 1 q = [(to_pm b, s)]"
  shows "\<exists>path. resolve (tree_doc da ga ts) q = Inr path \<and> type_name (pos_parent path) = ''blockContainer''"
  using tree_resolve [OF assms(1,2), of q ts da ga] assms(3,4,5) by (simp add: pos_parent_def)

text \<open>Both searches end at once, or one step further.\<close>

lemma clamped:
  assumes law: "resolve_law leaf resolve" "inner_types leaf" "list_all tree_ok ts" "ts \<noteq> []"
  shows "seek_up resolve (tree_doc da ga ts) e 2 = Inr 2"
    "seek_down resolve (tree_doc da ga ts) (tsize leaf ts + 1) = Inr (tsize leaf ts)"
    "3 \<le> tsize leaf ts" "\<not> between leaf ts 1 2" "\<not> between leaf ts 1 (tsize leaf ts)"
proof -
  obtain b bs where ts: "ts = b # bs" using law(4) by (meson list.exhaust)
  obtain as c g ks where b: "b = TBlock as c g ks" by (cases b)
  have "3 \<le> node_size leaf (to_pm b)" using law(3) unfolding ts b by (intro block_big [OF law(2)]) simp_all
  then show size: "3 \<le> tsize leaf ts" by (simp add: ts)
  have "path_at leaf (map to_pm ts) 1 2 = [(to_pm (hd ts), Suc 1)]"
    using first_block_path [OF law(2-4), of 1] by (simp only: numeral_2_eq_2 One_nat_def)
  then obtain p1 where p1: "resolve (tree_doc da ga ts) 2 = Inr p1" "type_name (pos_parent p1) = ''blockContainer''"
    using parent_of_path [OF law(1,2), of 2 ts "hd ts" "Suc 1" da ga] size by fastforce
  then show "seek_up resolve (tree_doc da ga ts) e 2 = Inr 2" by (subst seek_up.simps) simp
  show "\<not> between leaf ts 1 2" using root_parent [OF law(1-3), of 2 da ga] p1 size by auto
  obtain s where "path_at leaf (map to_pm ts) 1 (1 + tsize leaf ts - 1) = [(to_pm (last ts), s)]"
    using last_block_path [OF law(2-4)] by blast
  then have "path_at leaf (map to_pm ts) 1 (tsize leaf ts) = [(to_pm (last ts), s)]" by simp
  moreover have ends: "0 < tsize leaf ts" "tsize leaf ts < tsize leaf ts + 2" using size by simp_all
  ultimately obtain p2 where p2: "resolve (tree_doc da ga ts) (tsize leaf ts) = Inr p2" "type_name (pos_parent p2) = ''blockContainer''"
    using parent_of_path [OF law(1,2) ends] by blast
  then show "\<not> between leaf ts 1 (tsize leaf ts)" using root_parent [OF law(1-3), of "tsize leaf ts" da ga] size by auto
  have end_between: "between leaf us p (p + tsize leaf us)" for us p
  proof (induction us arbitrary: p)
    case (Cons u us)
    then show ?case using Cons [of "p + node_size leaf (to_pm u)"] by (cases u) (simp add: add.assoc)
  qed simp
  obtain p3 where p3: "resolve (tree_doc da ga ts) (tsize leaf ts + 1) = Inr p3" "type_name (pos_parent p3) = ''blockGroup''"
    using root_parent [OF law(1-3), of "tsize leaf ts + 1" da ga] end_between [of ts 1] by auto
  have "seek_down resolve (tree_doc da ga ts) (tsize leaf ts) = Inr (tsize leaf ts)" using p2 by (subst seek_down.simps) simp
  then show "seek_down resolve (tree_doc da ga ts) (tsize leaf ts + 1) = Inr (tsize leaf ts)"
    using p3 size by (subst seek_down.simps) simp
qed

lemma block_at_core:
  assumes law: "resolve_law leaf resolve" "inner_types leaf" "list_all tree_ok ts" "ts \<noteq> []"
  shows "getBlockInfoFromPos leaf resolve (tree_doc da ga ts) pos =
    (case around leaf ts 1 (near_pos leaf ts pos) 2 of None \<Rightarrow> Inl no_container | Some r \<Rightarrow> Inr (info_of leaf r))"
proof -
  let ?d = "tree_doc da ga ts" and ?E = "tsize leaf ts + 2"
  define q where "q = (if pos \<le> 1 then 2 else if ?E \<le> pos then tsize leaf ts else pos)"
  have q: "0 < q" "q < ?E" using clamped(3) [OF law] by (auto simp: q_def)
  have clamp: "(if pos \<le> 1 then seek_up resolve ?d (node_size leaf ?d - 2) 2
      else if node_size leaf ?d - 2 \<le> pos then seek_down resolve ?d (node_size leaf ?d - 2 - 1) else Inr pos) = Inr q"
    using clamped(1,2) [OF law, of da ga] unfolding doc_size(1) [OF law(2)] by (simp add: q_def)
  obtain at where at: "resolve ?d q = Inr at" "type_name (pos_parent at) = ''blockGroup'' \<longleftrightarrow> between leaf ts 1 q"
    using root_parent [OF law(1-3) q] by blast
  have near: "near_pos leaf ts pos = (if between leaf ts 1 q then q + 1 else q)"
    using clamped(4,5) [OF law] by (auto simp: near_pos_def q_def)
  have "near_pos leaf ts pos \<le> ?E" "0 < near_pos leaf ts pos" using q unfolding near by auto
  note found = block_found [OF law(1-3) this, of da ga]
  show ?thesis
    unfolding getBlockInfoFromPos_def Let_def clamp bind_result.simps at(1) at(2) near [symmetric] using found .
qed

lemma no_block_iff:
  assumes law: "inner_types leaf" "list_all tree_ok ts" "3 \<le> tsize leaf ts" "\<not> between leaf ts 1 2" "\<not> between leaf ts 1 (tsize leaf ts)"
  shows "around leaf ts 1 (near_pos leaf ts pos) 2 = None \<longleftrightarrow> pos = tsize leaf ts + 1"
proof -
  let ?grp = "PNode ''blockGroup'' [] [] []"
  have nb: "around leaf ts 1 q 2 \<noteq> None" if "\<not> between leaf ts 1 q" "1 \<le> q" "q \<le> 1 + tsize leaf ts" for q
  proof
    assume "around leaf ts 1 q 2 = None"
    then have "path_at leaf (map to_pm ts) 1 q = []" using around_none [OF law(1)] by blast
    then show False using between_path [OF law(1,2) that(2,3), of ?grp 0] that(1) by simp
  qed
  have up: "between leaf ts 1 (tsize leaf ts + 1)"
  proof (rule ccontr)
    assume "\<not> between leaf ts 1 (tsize leaf ts + 1)"
    from nb [OF this] show False using around_out [of "tsize leaf ts + 1" 1 leaf ts 2] by simp
  qed
  consider "pos \<le> 1" | "tsize leaf ts + 2 \<le> pos" | "1 < pos" "pos < tsize leaf ts + 1" | "pos = tsize leaf ts + 1" by linarith
  then show ?thesis
  proof cases
    case 3
    then show ?thesis
      using nb [of pos] step_in [OF law(1,2), of 1 pos 2] by (cases "between leaf ts 1 pos") (simp_all add: near_pos_def)
  next
    case 4
    then have near: "near_pos leaf ts pos = tsize leaf ts + 2" using up law(3) unfolding near_pos_def by auto
    show ?thesis unfolding near using 4 around_out [of "tsize leaf ts + 2" 1 leaf ts 2] by simp
  qed (use nb [of 2] nb [of "tsize leaf ts"] law(3-5) in \<open>simp_all add: near_pos_def\<close>)
qed

section \<open>The group and the parent of a block\<close>

lemma around_ok: "list_all tree_ok ts \<Longrightarrow> around leaf ts p q d = Some (b, s, k) \<Longrightarrow> tree_ok b"
  by (induction leaf ts p q d rule: around.induct) (auto split: option.splits if_splits)

text \<open>The parent of the innermost block around a position, with its start, and the blocks of its group.\<close>

fun home :: "(string \<Rightarrow> bool) \<Rightarrow> (btree \<times> nat) option \<Rightarrow> btree list \<Rightarrow> btree list \<Rightarrow> nat \<Rightarrow> nat \<Rightarrow>
    ((btree \<times> nat) option \<times> btree list) option" where
  "home leaf par sib [] p q = None"
| "home leaf par sib (TBlock as c g ks # ts) p q =
     (if p < q \<and> q < p + node_size leaf (to_pm (TBlock as c g ks))
      then (case home leaf (Some (TBlock as c g ks, Suc p)) ks ks (p + node_size leaf c + 2) q of
          Some r \<Rightarrow> Some r | None \<Rightarrow> Some (par, sib))
      else home leaf par sib ts (p + node_size leaf (to_pm (TBlock as c g ks))) q)"

text \<open>The nodes above the block: its group, and above that its parent.\<close>

definition nested_in :: "resolved \<Rightarrow> attrs \<Rightarrow> (btree \<times> nat) option \<times> btree list \<Rightarrow> bool" where
  "nested_in over ga h \<longleftrightarrow> (case h of
     (None, sib) \<Rightarrow> length over = 2 \<and> (\<exists>i. last over = (PNode ''blockGroup'' ga (map to_pm sib) [], i))
   | (Some (a, s), sib) \<Rightarrow> \<exists>xs i. over = xs @ [(to_pm a, s), (PNode ''blockGroup'' (t_group a) (map to_pm sib) [], i)] \<and> 2 \<le> length xs)"

lemma path_home:
  "inner_types leaf \<Longrightarrow> list_all tree_ok ts \<Longrightarrow> around leaf ts p q (length pre) = Some (b, s, k) \<Longrightarrow> nested_in pre ga (par, sib) \<Longrightarrow>
   \<exists>over rest h. home leaf par sib ts p q = Some h \<and> pre @ path_at leaf (map to_pm ts) p q = over @ (to_pm b, s) # rest \<and>
     length over = k \<and> nested_in over ga h \<and> (q \<le> s + node_size leaf (t_content b) \<longrightarrow> rest = path_at leaf [t_content b] s q)"
proof (induction leaf par sib ts p q arbitrary: pre rule: home.induct)
  case (2 leaf par sib as c g ks ts p q)
  let ?b = "TBlock as c g ks" and ?kp = "p + node_size leaf c + 2"
  show ?case
  proof (cases "p < q \<and> q < p + node_size leaf (to_pm ?b)")
    case False
    then have "path_at leaf (map to_pm (?b # ts)) p q = path_at leaf (map to_pm ts) (p + node_size leaf (to_pm ?b)) q"
      "home leaf par sib (?b # ts) p q = home leaf par sib ts (p + node_size leaf (to_pm ?b)) q"
      by (metis list.map(2) path_skip) (simp only: home.simps False if_False)
    moreover have "around leaf ts (p + node_size leaf (to_pm ?b)) q (length pre) = Some (b, s, k)"
      using 2(5) unfolding around_skip [OF False] .
    ultimately show ?thesis using 2(2) [OF False 2(3) _ _ 2(6)] 2(4) by simp
  next
    case True
    note path = path_block [OF 2(3), of p q as c g ks "map to_pm ts", OF conjunct1 [OF True] conjunct2 [OF True],
        folded list.map(2) [of to_pm "?b" ts]]
    show ?thesis
    proof (cases "around leaf ks ?kp q (length pre + 2)")
      case None
      then have b: "b = ?b" "s = Suc p" "k = length pre" using True 2(5) by simp_all
      have "home leaf (Some (?b, Suc p)) ks ks ?kp q = None"
      proof -
        have "home leaf par' sib' us p' q = None" if "around leaf us p' q d = None" for par' sib' us p' d
          using that by (induction leaf par' sib' us p' q arbitrary: d rule: home.induct) (auto split: option.splits if_splits)
        then show ?thesis using None by blast
      qed
      then have home: "home leaf par sib (?b # ts) p q = Some (par, sib)" using True by simp
      obtain rest where rest: "path_at leaf (map to_pm (?b # ts)) p q = (to_pm ?b, Suc p) # rest"
        "q \<le> Suc p + node_size leaf c \<longrightarrow> rest = path_at leaf [c] (Suc p) q"
        using path by simp
      show ?thesis unfolding b rest(1)
        by (rule exI [of _ pre], rule exI [of _ rest], rule exI [of _ "(par, sib)"]) (use home rest(2) 2(6) in simp)
    next
      case (Some r)
      then have r: "r = (b, s, k)" using True 2(5) by simp
      with Some have "path_at leaf (map to_pm ks) ?kp q \<noteq> []" using around_none [OF 2(3)] by (metis option.distinct(1))
      then have out: "?kp < q" "q < ?kp + tsize leaf ks" "ks \<noteq> []"
        using path_out by (metis not_le_imp_less, metis not_le_imp_less, fastforce)
      let ?pre = "pre @ [(to_pm ?b, Suc p), (PNode ''blockGroup'' g (map to_pm ks) [], ?kp)]"
      have "2 \<le> length pre" using 2(6) by (auto simp: nested_in_def split: option.splits prod.splits)
      then have "nested_in ?pre ga (Some (?b, Suc p), ks)" by (simp add: nested_in_def)
      moreover have "around leaf ks ?kp q (length ?pre) = Some (b, s, k)" using Some r by simp
      moreover have kids_ok: "list_all tree_ok ks" using 2(4) by simp
      ultimately obtain over rest h where h: "home leaf (Some (?b, Suc p)) ks ks ?kp q = Some h"
        "?pre @ path_at leaf (map to_pm ks) ?kp q = over @ (to_pm b, s) # rest" "length over = k" "nested_in over ga h"
        "q \<le> s + node_size leaf (t_content b) \<longrightarrow> rest = path_at leaf [t_content b] s q"
        using 2(1) [OF True 2(3) kids_ok] by blast
      have "\<not> q \<le> Suc p + node_size leaf c" "\<not> (ks = [] \<or> Suc p + node_size leaf c + tsize leaf ks + 2 \<le> q)"
        using out by simp_all
      then have "pre @ path_at leaf (map to_pm (?b # ts)) p q = over @ (to_pm b, s) # rest"
        unfolding h(2) [symmetric] path by (simp only: if_False append.simps append_assoc)
      moreover have "home leaf par sib (?b # ts) p q = Some h" using True h(1) by simp
      ultimately show ?thesis using h(3-5) by blast
    qed
  qed
qed simp

section \<open>Properties\<close>

text \<open>
  C15. In a document of blocks every position gives a block: the innermost one around it with its range of
  positions and its depth. Positions outside are first moved to the first or the last block, and one between
  two blocks into the next block, or into the block whose children end there. Only the position behind the last
  block of the outer group has none, and raises.
\<close>

theorem block_at_position:
  assumes "resolve_law leaf resolve" and "inner_types leaf" and "list_all tree_ok ts" and "ts \<noteq> []"
  shows "getBlockInfoFromPos leaf resolve (tree_doc da ga ts) pos =
      (if pos = tsize leaf ts + 1 then Inl no_container
       else Inr (info_of leaf (the (around leaf ts 1 (near_pos leaf ts pos) 2)))) \<and>
    (pos \<noteq> tsize leaf ts + 1 \<longrightarrow> around leaf ts 1 (near_pos leaf ts pos) 2 \<noteq> None)"
  using block_at_core [OF assms, of da ga pos] no_block_iff [OF assms(2,3) clamped(3-5) [OF assms], of pos]
  by (cases "around leaf ts 1 (near_pos leaf ts pos) 2") auto

definition path_resolve :: "(string \<Rightarrow> bool) \<Rightarrow> pm_node \<Rightarrow> nat \<Rightarrow> resolved result" where
  "path_resolve leaf doc q = (if q \<le> total_size leaf (child_nodes doc) then Inr ((doc, 0) # path_at leaf (child_nodes doc) 0 q)
     else Inl (Error ''Position out of range''))"

lemma path_resolve_law: "resolve_law leaf (path_resolve leaf)"
  by (simp add: resolve_law_def path_resolve_def)

definition sample_trees :: "btree list" where
  "sample_trees = [TBlock [(''id'', JStr ''a'')] (PNode ''paragraph'' [] [PText ''xy'' []] [])
     [(''listType'', JStr ''div'')] [TBlock [(''id'', JStr ''b'')] (PNode ''paragraph'' [] [] []) [] []]]"

lemma sample_tree_facts:
  "inner_types sample_leaf" "list_all tree_ok sample_trees" "sample_trees \<noteq> []" "sample_doc = tree_doc [] [(''listType'', JStr ''div'')] sample_trees"
  "tsize sample_leaf sample_trees = 12"
  by (simp_all add: inner_types_def sample_leaf_def sample_trees_def sample_doc_def tree_doc_def to_pm.simps)

theorem block_at_position_witness:
  "map_result bi_id (getBlockInfoFromPos sample_leaf (path_resolve sample_leaf) sample_doc 7) = Inr (JStr ''b'') \<and>
   map_result bi_id (getBlockInfoFromPos sample_leaf (path_resolve sample_leaf) sample_doc 11) = Inr (JStr ''a'') \<and>
   getBlockInfoFromPos sample_leaf (path_resolve sample_leaf) sample_doc 13 = Inl no_container"
  unfolding sample_tree_facts(4)
    block_at_position [OF path_resolve_law sample_tree_facts(1-3), THEN conjunct1] sample_tree_facts(5)
  by (simp add: near_pos_def sample_tree_facts(5)) (simp add: sample_trees_def info_of_def to_pm.simps sample_leaf_def get_attr_def)

text \<open>
  For a position in the content of a block, the group that is found is the one with the block and its
  siblings, at its depth and with the level of nesting, and the parent is the block whose children these
  are; a block of the outer group has no parent.
\<close>

theorem group_and_parent:
  assumes "resolve_law leaf resolve" and "inner_types leaf" and "list_all tree_ok ts"
    and "around leaf ts 1 q 2 = Some (b, s, k)" and "s < q" and "q < s + node_size leaf (t_content b)"
    and "\<forall>n \<in> set (child_nodes (t_content b)). is_PText n \<or> node_size leaf n = 1"
  shows "\<exists>par sib g. home leaf None ts ts 1 q = Some (par, sib) \<and>
    getGroupInfoFromPos resolve q (tree_doc da ga ts) =
      Inr \<lparr>gp_group = Some (PNode ''blockGroup'' g (map to_pm sib) []), gp_container = Some (to_pm b), gp_depth = int k - 1, gp_level = (k + 1) div 2\<rparr> \<and>
    getParentBlockFromPos resolve (tree_doc da ga ts) q =
      Inr (map_option (\<lambda>(a, i). \<lparr>pi_parentGroup = PNode ''blockGroup'' g (map to_pm sib) [],
        pi_parentBlock = Some (t_content a), pi_parentPos = i, pi_depth = k + 1\<rparr>) par)"
proof -
  let ?d = "tree_doc da ga ts" and ?G = "PNode ''blockGroup'' ga (map to_pm ts) []" and ?c = "t_content b"
  let ?pre = "[(?d, 0 :: nat), (?G, 1)]"
  have "1 < q" "q < 1 + tsize leaf ts" using assms(4) around_out [of q 1 leaf ts 2] by (metis not_le option.distinct(1))+
  then have res: "resolve ?d q = Inr (?pre @ path_at leaf (map to_pm ts) 1 q)"
    using tree_resolve [OF assms(1,2), of q ts da ga] by simp
  have "around leaf ts 1 q (length ?pre) = Some (b, s, k)" "nested_in ?pre ga (None, ts)" using assms(4) by (simp_all add: nested_in_def numeral_2_eq_2)
  from path_home [OF assms(2,3) this] obtain over rest h where h: "home leaf None ts ts 1 q = Some h"
    "?pre @ path_at leaf (map to_pm ts) 1 q = over @ (to_pm b, s) # rest" "length over = k" "nested_in over ga h"
    "q \<le> s + node_size leaf ?c \<longrightarrow> rest = path_at leaf [?c] s q" by blast
  obtain par sib where hp: "h = (par, sib)" by (cases h)
  have flat: "path_at leaf ns p q = []" if "\<forall>n \<in> set ns. is_PText n \<or> node_size leaf n = 1" for ns p
    using that by (induction ns arbitrary: p) auto
  have ok: "plain ?c" "\<not> is_PText ?c"
  proof -
    have "tree_ok b" using around_ok [OF assms(3,4)] .
    then show "plain ?c" "\<not> is_PText ?c" by (cases b; simp)+
  qed
  then have "rest = [(?c, Suc s)]" using h(5) assms(5,6) flat [OF assms(7)] by simp
  with res h(2) have path: "resolve ?d q = Inr (over @ [(to_pm b, s), (?c, Suc s)])" by simp
  have ends: "k \<noteq> 0 \<and> (\<exists>g i. over ! (k - 1) = (PNode ''blockGroup'' g (map to_pm sib) [], i) \<and>
     (case par of None \<Rightarrow> k = 2 | Some (a, j) \<Rightarrow> 4 \<le> k \<and> over ! (k - 2) = (to_pm a, j)))"
    using h(3,4) unfolding hp nested_in_def by (cases "over = []") (auto simp: nth_append last_conv_nth split: option.splits)
  then obtain g i where g: "over ! (k - 1) = (PNode ''blockGroup'' g (map to_pm sib) [], i)"
    "case par of None \<Rightarrow> k = 2 | Some (a, j) \<Rightarrow> 4 \<le> k \<and> over ! (k - 2) = (to_pm a, j)" "k \<noteq> 0" by blast
  let ?path = "over @ [(to_pm b, s), (?c, Suc s)]"
  have nodes: "pos_depth ?path = Suc k" "pos_node ?path (Suc k) = ?c" "pos_node ?path k = to_pm b"
    "pos_node ?path (k - Suc 0) = PNode ''blockGroup'' g (map to_pm sib) []"
    using h(3) g(1,3) by (simp_all add: pos_depth_def pos_node_def nth_append)
  have "group_climb ?path (Suc k) None = (Some (PNode ''blockGroup'' g (map to_pm sib) []), Some (to_pm b), int (k - 1))"
  proof -
    have "group_climb ?path (Suc k) None = group_climb ?path k None"
      using plain_type [OF ok(1)] by (subst group_climb.simps) (simp add: nodes)
    also have "\<dots> = group_climb ?path (k - 1) (Some (to_pm b))"
      using g(3) nodes by (subst group_climb.simps) (cases k, simp_all add: Let_def)
    also have "\<dots> = (Some (PNode ''blockGroup'' g (map to_pm sib) []), Some (to_pm b), int (k - 1))"
      using nodes(4) by (subst group_climb.simps) (simp add: Let_def)
    finally show ?thesis .
  qed
  then have "getGroupInfoFromPos resolve q ?d = Inr \<lparr>gp_group = Some (PNode ''blockGroup'' g (map to_pm sib) []),
      gp_container = Some (to_pm b), gp_depth = int k - 1, gp_level = (k + 1) div 2\<rparr>"
    using g(3) by (simp add: getGroupInfoFromPos_def path nodes)
  moreover have "getParentBlockFromPos resolve ?d q = Inr (map_option (\<lambda>(a, i).
      \<lparr>pi_parentGroup = PNode ''blockGroup'' g (map to_pm sib) [], pi_parentBlock = Some (t_content a), pi_parentPos = i, pi_depth = k + 1\<rparr>) par)"
  proof (cases par)
    case None
    then show ?thesis using g(2) by (simp add: getParentBlockFromPos_def path nodes)
  next
    case (Some aj)
    obtain a j where aj: "aj = (a, j)" by (cases aj)
    have k: "4 \<le> k" "over ! (k - 2) = (to_pm a, j)" using g(2) by (simp_all add: Some aj)
    then have "pos_node ?path (k - 2) = to_pm a" "pos_start ?path (k - 2) = j" "Suc k - 3 = k - 2" "Suc k - 2 = k - 1"
      using h(3) by (simp_all add: pos_node_def pos_start_def nth_append)
    then show ?thesis using k(1) by (simp add: getParentBlockFromPos_def path nodes Some aj Let_def)
  qed
  ultimately show ?thesis using h(1) hp by blast
qed

theorem group_and_parent_witness:
  "home sample_leaf None sample_trees sample_trees 1 9 \<noteq> None \<and>
   map_result (map_option pi_depth) (getParentBlockFromPos (path_resolve sample_leaf) (tree_doc [] [] sample_trees) 9) = Inr (Some 5)"
proof -
  let ?b = "TBlock [(''id'', JStr ''b'')] (PNode ''paragraph'' [] [] []) [] []"
  have a: "around sample_leaf sample_trees 1 9 2 = Some (?b, 8, 4)"
    by (simp add: sample_trees_def to_pm.simps sample_leaf_def)
  have h: "home sample_leaf None sample_trees sample_trees 1 9 = Some (Some (hd sample_trees, 2), [?b])"
    by (simp add: sample_trees_def to_pm.simps sample_leaf_def)
  obtain g where "getParentBlockFromPos (path_resolve sample_leaf) (tree_doc [] [] sample_trees) 9 =
      Inr (Some \<lparr>pi_parentGroup = PNode ''blockGroup'' g (map to_pm [?b]) [], pi_parentBlock = Some (t_content (hd sample_trees)),
        pi_parentPos = 2, pi_depth = 5\<rparr>)"
    using group_and_parent [OF path_resolve_law sample_tree_facts(1,2) a, of "[]" "[]"] unfolding h by (auto simp: sample_leaf_def)
  with h show ?thesis by simp
qed

end
