(* ===== verification/Editor_Manipulation.thy ===== *)
theory Editor_Manipulation
  imports Editor_Positions
begin

text \<open>
  Changing blocks of the editor's document
  (\<^verbatim>\<open>blocknote/core/api/blockManipulation/blockManipulation.ts\<close>, \<^verbatim>\<open>api/util/nodeUtil.ts\<close>, and the
  commands \<^verbatim>\<open>BNDeleteBlock\<close> and \<^verbatim>\<open>BNUpdateBlock\<close> of \<^verbatim>\<open>BlockContainer.ts\<close>, in
  \<^verbatim>\<open>frontend/packages/editor/src\<close>): blocks are found by id and inserted, updated, removed or
  replaced, and each operation computes the positions that the calls of ProseMirror want.

  These calls are arguments, collected in \<open>transforms\<close>. \<open>transform_laws\<close> says what they do, and only where both
  the document and the result are ones the schema allows; what they do elsewhere is left open.
\<close>

section \<open>The calls of ProseMirror\<close>

record transforms =
  tr_resolve :: "pm_node \<Rightarrow> nat \<Rightarrow> resolved result"
  tr_insert :: "pm_node \<Rightarrow> nat \<Rightarrow> pm_node list \<Rightarrow> pm_node result"
  tr_replace :: "pm_node \<Rightarrow> nat \<Rightarrow> nat \<Rightarrow> pm_node list \<Rightarrow> pm_node result"
  tr_deleteRange :: "pm_node \<Rightarrow> nat \<Rightarrow> nat \<Rightarrow> pm_node result"
  tr_setNodeMarkup :: "pm_node \<Rightarrow> nat \<Rightarrow> string option \<Rightarrow> attrs \<Rightarrow> pm_node result"

text \<open>
  A change at a position between nodes: \<open>g\<close> gets the siblings from there on. \<open>rebuild\<close> says what becomes of the
  nodes around it. There is no result when the position is inside a text.
\<close>

fun edit_at :: "(string \<Rightarrow> bool) \<Rightarrow> (pm_node \<Rightarrow> pm_node list \<Rightarrow> pm_node list) \<Rightarrow> nat \<Rightarrow>
    (pm_node list \<Rightarrow> pm_node list option) \<Rightarrow> pm_node list \<Rightarrow> nat \<Rightarrow> pm_node list option" where
  "edit_at leaf rebuild a g [] p = (if p = a then g [] else None)"
| "edit_at leaf rebuild a g (n # ns) p =
     (if p = a then g (n # ns)
      else if a < p + node_size leaf n
      then (if is_PText n then None else map_option (\<lambda>cs. rebuild n cs @ ns) (edit_at leaf rebuild a g (child_nodes n) (Suc p)))
      else map_option (Cons n) (edit_at leaf rebuild a g ns (p + node_size leaf n)))"

definition keep :: "pm_node \<Rightarrow> pm_node list \<Rightarrow> pm_node list" where
  "keep n cs = [with_children n cs]"

text \<open>A node all of whose content went goes too.\<close>

definition shrink :: "pm_node \<Rightarrow> pm_node list \<Rightarrow> pm_node list" where
  "shrink n cs = (if cs = [] then [] else [with_children n cs])"

definition edited :: "(string \<Rightarrow> bool) \<Rightarrow> (pm_node \<Rightarrow> pm_node list \<Rightarrow> pm_node list) \<Rightarrow> nat \<Rightarrow>
    (pm_node list \<Rightarrow> pm_node list option) \<Rightarrow> pm_node \<Rightarrow> pm_node option" where
  "edited leaf rebuild a g doc = map_option (with_children doc) (edit_at leaf rebuild a g (child_nodes doc) 0)"

fun drop_to :: "(string \<Rightarrow> bool) \<Rightarrow> nat \<Rightarrow> pm_node list \<Rightarrow> nat \<Rightarrow> pm_node list option" where
  "drop_to leaf b [] p = (if p = b then Some [] else None)"
| "drop_to leaf b (n # ns) p = (if p = b then Some (n # ns) else drop_to leaf b ns (p + node_size leaf n))"

definition put_nodes :: "pm_node list \<Rightarrow> pm_node list \<Rightarrow> pm_node list option" where
  "put_nodes new ns = Some (new @ ns)"

definition replace_nodes :: "(string \<Rightarrow> bool) \<Rightarrow> nat \<Rightarrow> nat \<Rightarrow> pm_node list \<Rightarrow> pm_node list \<Rightarrow> pm_node list option" where
  "replace_nodes leaf a b new ns = map_option ((@) new) (drop_to leaf b ns a)"

definition cut_container :: "(string \<Rightarrow> bool) \<Rightarrow> nat \<Rightarrow> pm_node list \<Rightarrow> pm_node list option" where
  "cut_container leaf m ns = (case ns of [] \<Rightarrow> None
     | n # rest \<Rightarrow> if type_name n = ''blockContainer'' \<and> node_size leaf n = m then Some rest else None)"

definition mark_node :: "pm_schema \<Rightarrow> string option \<Rightarrow> attrs \<Rightarrow> pm_node list \<Rightarrow> pm_node list option" where
  "mark_node S type as ns = (case ns of
     PNode k as' cs ms # rest \<Rightarrow> (let k' = (case type of None \<Rightarrow> k | Some t \<Rightarrow> t) in Some (PNode k' (s_attrs S k' as) cs ms # rest))
   | _ \<Rightarrow> None)"

text \<open>The documents of the schema: blocks whose content it allows.\<close>

fun tree_in :: "(pm_node \<Rightarrow> bool) \<Rightarrow> btree \<Rightarrow> bool" where
  "tree_in okc (TBlock as c g ts) \<longleftrightarrow> okc c \<and> plain c \<and> \<not> is_PText c \<and> list_all (tree_in okc) ts"

definition valid_doc :: "(pm_node \<Rightarrow> bool) \<Rightarrow> pm_node \<Rightarrow> bool" where
  "valid_doc okc doc \<longleftrightarrow> (\<exists>da ga ts. doc = tree_doc da ga ts \<and> ts \<noteq> [] \<and> list_all (tree_in okc) ts)"

definition transform_laws :: "(string \<Rightarrow> bool) \<Rightarrow> pm_schema \<Rightarrow> (pm_node \<Rightarrow> bool) \<Rightarrow> transforms \<Rightarrow> bool" where
  "transform_laws leaf S okc T \<longleftrightarrow> inner_types leaf \<and> resolve_law leaf (tr_resolve T) \<and>
     (\<forall>doc doc'. valid_doc okc doc \<and> valid_doc okc doc' \<longrightarrow>
       (\<forall>a new. edited leaf keep a (put_nodes new) doc = Some doc' \<longrightarrow> tr_insert T doc a new = Inr doc') \<and>
       (\<forall>a b new. edited leaf keep a (replace_nodes leaf a b new) doc = Some doc' \<longrightarrow> tr_replace T doc a b new = Inr doc') \<and>
       (\<forall>a m. edited leaf shrink a (cut_container leaf m) doc = Some doc' \<longrightarrow> tr_deleteRange T doc (a + 1) (a + m - 1) = Inr doc') \<and>
       (\<forall>a type as. edited leaf keep a (mark_node S type as) doc = Some doc' \<longrightarrow> tr_setNodeMarkup T doc a type as = Inr doc'))"

section \<open>Finding a block\<close>

definition getNodeById :: "(string \<Rightarrow> bool) \<Rightarrow> string \<Rightarrow> pm_node \<Rightarrow> (pm_node \<times> nat) result" where
  "getNodeById leaf i doc = (case child_nodes doc of
     [] \<Rightarrow> Inl TypeError
   | root # _ \<Rightarrow> (case find (\<lambda>(n, p). type_name n = ''blockContainer'' \<and> get_attr (node_attrs n) ''id'' = JStr i)
         (nodes_at leaf (child_nodes root) 0) of
       None \<Rightarrow> Inl (Error ''Could not find block in the editor with matching ID.'')
     | Some (n, p) \<Rightarrow> Inr (n, p + 1)))"

section \<open>The operations\<close>

datatype placement = Before | After | Nested

definition insertBlocks :: "(string \<Rightarrow> bool) \<Rightarrow> pm_schema \<Rightarrow> (nat \<Rightarrow> string) \<Rightarrow> transforms \<Rightarrow>
    partial_block list \<Rightarrow> string \<Rightarrow> placement \<Rightarrow> pm_node \<Rightarrow> pm_node result" where
  "insertBlocks leaf S gen T blocksToInsert i placement doc =
     bind_result (map_ids (blockToNode S gen) blocksToInsert 0) (\<lambda>(nodesToInsert, k).
     bind_result (getNodeById leaf i doc) (\<lambda>(node, posBeforeNode). case placement of
       Before \<Rightarrow> tr_insert T doc posBeforeNode nodesToInsert
     | After \<Rightarrow> tr_insert T doc (posBeforeNode + node_size leaf node) nodesToInsert
     | Nested \<Rightarrow> (case child_nodes node of [] \<Rightarrow> Inl TypeError | first # _ \<Rightarrow>
         if length (child_nodes node) < 2
         then bind_result (schema_create S ''blockGroup'' [] nodesToInsert) (\<lambda>blockGroupNode.
             tr_insert T doc (posBeforeNode + node_size leaf first + 1) [blockGroupNode])
         else tr_insert T doc (posBeforeNode + node_size leaf first + 2) nodesToInsert)))"

definition BNDeleteBlock :: "(string \<Rightarrow> bool) \<Rightarrow> transforms \<Rightarrow> nat \<Rightarrow> pm_node \<Rightarrow> pm_node result" where
  "BNDeleteBlock leaf T posInBlock doc = bind_result (getBlockInfoFromPos leaf (tr_resolve T) doc posInBlock) (\<lambda>blockInfo.
     tr_deleteRange T doc (bp_startPos blockInfo) (bp_endPos blockInfo))"

text \<open>
  The walk of \<open>removeBlocks\<close> over the document as it was, with the ids still to be found, the size of what
  went and the document as it is. An error stops it and leaves what was removed before.
\<close>

record removal =
  rm_ids :: "string list"
  rm_size :: int
  rm_doc :: pm_node
  rm_error :: "js_error option"

definition remove_one :: "(string \<Rightarrow> bool) \<Rightarrow> transforms \<Rightarrow> string \<Rightarrow> nat \<Rightarrow> removal \<Rightarrow> removal" where
  "remove_one leaf T i pos st =
     (let st = st\<lparr>rm_ids := removeAll i (rm_ids st)\<rparr> in
      case BNDeleteBlock leaf T (nat (int pos - rm_size st + 1)) (rm_doc st) of
        Inl e \<Rightarrow> st\<lparr>rm_error := Some e\<rparr>
      | Inr doc \<Rightarrow> st\<lparr>rm_doc := doc, rm_size := rm_size st + (int (node_size leaf (rm_doc st)) - int (node_size leaf doc))\<rparr>)"

definition wanted :: "removal \<Rightarrow> pm_node \<Rightarrow> string option" where
  "wanted st n = (if type_name n \<noteq> ''blockContainer'' then None
     else (case get_attr (node_attrs n) ''id'' of JStr i \<Rightarrow> if i \<in> set (rm_ids st) then Some i else None | _ \<Rightarrow> None))"

fun remove_walk :: "(string \<Rightarrow> bool) \<Rightarrow> transforms \<Rightarrow> pm_node list \<Rightarrow> nat \<Rightarrow> removal \<Rightarrow> removal" where
  "remove_walk leaf T [] p st = st"
| "remove_walk leaf T (n # ns) p st =
     (if rm_error st \<noteq> None then st
      else remove_walk leaf T ns (p + node_size leaf n)
        (if rm_ids st = [] then st
         else case wanted st n of
           None \<Rightarrow> remove_walk leaf T (child_nodes n) (Suc p) st
         | Some i \<Rightarrow> remove_one leaf T i p st))"

definition removeBlocks :: "(string \<Rightarrow> bool) \<Rightarrow> transforms \<Rightarrow> string list \<Rightarrow> pm_node \<Rightarrow> pm_node \<times> js_error option" where
  "removeBlocks leaf T blocksToRemove doc =
     (let st = remove_walk leaf T (child_nodes doc) 0
          \<lparr>rm_ids = set_add_all [] blocksToRemove, rm_size = 0, rm_doc = doc, rm_error = None\<rparr>
      in (rm_doc st, if rm_error st \<noteq> None then rm_error st
          else if rm_ids st \<noteq> [] then Some (Error (''Blocks with the following IDs could not be found in the editor: '' @
            join [CHR 0x0A] (rm_ids st)))
          else None))"

definition replaceBlocks :: "(string \<Rightarrow> bool) \<Rightarrow> pm_schema \<Rightarrow> (nat \<Rightarrow> string) \<Rightarrow> transforms \<Rightarrow>
    string list \<Rightarrow> partial_block list \<Rightarrow> pm_node \<Rightarrow> pm_node \<times> js_error option" where
  "replaceBlocks leaf S gen T blocksToRemove blocksToInsert doc = (case blocksToRemove of
     [] \<Rightarrow> (doc, Some TypeError)
   | first # _ \<Rightarrow> (case insertBlocks leaf S gen T blocksToInsert first Before doc of
       Inl e \<Rightarrow> (doc, Some e)
     | Inr doc' \<Rightarrow> removeBlocks leaf T blocksToRemove doc'))"

text \<open>
  \<open>BNUpdateBlock\<close>: children are replaced when some are given, then the content, and then the attributes of the
  content and of the container. A type that the schema does not have is no type.
\<close>

definition update_children :: "(string \<Rightarrow> bool) \<Rightarrow> pm_schema \<Rightarrow> (nat \<Rightarrow> string) \<Rightarrow> transforms \<Rightarrow> block_pos_info \<Rightarrow>
    partial_block list \<Rightarrow> pm_node \<Rightarrow> pm_node result" where
  "update_children leaf S gen T info children doc =
     (if children = [] then Inr doc
      else bind_result (map_ids (blockToNode S gen) children 0) (\<lambda>(childNodes, k).
        if length (child_nodes (bp_node info)) = 2
        then tr_replace T doc (bp_startPos info + node_size leaf (bi_contentNode info) + 1) (bp_endPos info - 1) (s_fragment S childNodes)
        else bind_result (schema_create S ''blockGroup'' [] childNodes) (\<lambda>g.
          tr_insert T doc (bp_startPos info + node_size leaf (bi_contentNode info)) [g])))"

definition given_content :: "pm_schema \<Rightarrow> partial_content \<Rightarrow> pm_node list option result" where
  "given_content S c = (case c of
     NoContent \<Rightarrow> Inr None
   | StringContent s \<Rightarrow> map_result (\<lambda>t. Some [t]) (schema_text S s [])
   | InlineContent cs \<Rightarrow> map_result Some (inlineContentToNodes S cs))"

definition update_content :: "(string \<Rightarrow> bool) \<Rightarrow> pm_schema \<Rightarrow> transforms \<Rightarrow> block_pos_info \<Rightarrow> partial_content \<Rightarrow> pm_node \<Rightarrow> pm_node result" where
  "update_content leaf S T info c doc = bind_result (given_content S c) (\<lambda>content. case content of
     None \<Rightarrow> Inr doc
   | Some ns \<Rightarrow> tr_replace T doc (bp_startPos info + 1) (bp_startPos info + node_size leaf (bi_contentNode info) - 1) (s_fragment S ns))"

definition known_type :: "pm_schema \<Rightarrow> string option \<Rightarrow> string option" where
  "known_type S type = (case type of None \<Rightarrow> None | Some t \<Rightarrow> if s_known S t then Some t else None)"

definition BNUpdateBlock :: "(string \<Rightarrow> bool) \<Rightarrow> pm_schema \<Rightarrow> (nat \<Rightarrow> string) \<Rightarrow> transforms \<Rightarrow> nat \<Rightarrow> partial_block \<Rightarrow> pm_node \<Rightarrow> pm_node result" where
  "BNUpdateBlock leaf S gen T posInBlock block doc =
     bind_result (getBlockInfoFromPos leaf (tr_resolve T) doc posInBlock) (\<lambda>info.
     bind_result (update_children leaf S gen T info (pb_children block) doc) (\<lambda>doc.
     bind_result (update_content leaf S T info (pb_content block) doc) (\<lambda>doc.
     bind_result (tr_setNodeMarkup T doc (bp_startPos info) (known_type S (pb_type block))
         (obj_spread (node_attrs (bi_contentNode info)) (pb_props block))) (\<lambda>doc.
     tr_setNodeMarkup T doc (bp_startPos info - 1) None (obj_spread (node_attrs (bp_node info)) (pb_props block))))))"

definition updateBlock :: "(string \<Rightarrow> bool) \<Rightarrow> pm_schema \<Rightarrow> (nat \<Rightarrow> string) \<Rightarrow> transforms \<Rightarrow> string \<Rightarrow> partial_block \<Rightarrow> pm_node \<Rightarrow> pm_node result" where
  "updateBlock leaf S gen T i update doc = bind_result (getNodeById leaf i doc) (\<lambda>(node, posBeforeNode).
     BNUpdateBlock leaf S gen T (posBeforeNode + 1) update doc)"

section \<open>Places in a tree\<close>

text \<open>
  A frame is a block with one of its children taken out: what the block has, and the children before and after.
  The innermost frame comes first.
\<close>

type_synonym frame = "attrs \<times> pm_node \<times> attrs \<times> btree list \<times> btree list"

fun fill :: "frame list \<Rightarrow> btree list \<Rightarrow> btree list" where
  "fill [] us = us"
| "fill ((as, c, g, ls, rs) # ctx) us = fill ctx (ls @ TBlock as c g us # rs)"

text \<open>The position at which the blocks that fill the place begin.\<close>

fun hole :: "(string \<Rightarrow> bool) \<Rightarrow> frame list \<Rightarrow> nat" where
  "hole leaf [] = 1"
| "hole leaf ((as, c, g, ls, rs) # ctx) = hole leaf ctx + tsize leaf ls + node_size leaf c + 2"

lemma fill_ne: "us \<noteq> [] \<Longrightarrow> fill ctx us \<noteq> []"
  by (induction ctx us rule: fill.induct) auto

lemma fill_ok: "list_all P (fill ctx us) \<Longrightarrow> (\<And>as c g ts. P (TBlock as c g ts) \<Longrightarrow> list_all P ts) \<Longrightarrow> list_all P us"
  by (induction ctx us rule: fill.induct) (simp_all, blast)

text \<open>The blocks with the positions before them, parents first.\<close>

fun bpos :: "(string \<Rightarrow> bool) \<Rightarrow> btree list \<Rightarrow> nat \<Rightarrow> (btree \<times> nat) list" where
  "bpos leaf [] p = []"
| "bpos leaf (TBlock as c g ks # ts) p = (TBlock as c g ks, p) # bpos leaf ks (p + node_size leaf c + 2) @
     bpos leaf ts (p + node_size leaf (to_pm (TBlock as c g ks)))"

lemma bpos_append: "bpos leaf (xs @ ys) p = bpos leaf xs p @ bpos leaf ys (p + tsize leaf xs)"
  by (induction leaf xs p rule: bpos.induct) (simp_all add: add.assoc)

lemma bpos_fill: "(b, q) \<in> set (bpos leaf us (hole leaf ctx)) \<Longrightarrow> (b, q) \<in> set (bpos leaf (fill ctx us) 1)"
  by (induction ctx us rule: fill.induct) (auto simp: bpos_append)

text \<open>Where a block begins, it is the block around.\<close>

lemma bpos_range:
  "inner_types leaf \<Longrightarrow> (b, q) \<in> set (bpos leaf ts p) \<Longrightarrow> p \<le> q \<and> q + node_size leaf (to_pm b) \<le> p + tsize leaf ts"
proof (induction leaf ts p rule: bpos.induct)
  case (2 leaf as c g ks ts p)
  then show ?case using block_size [OF 2(3), of as c g ks] by (auto split: if_splits)
qed simp

lemma bpos_start:
  "inner_types leaf \<Longrightarrow> list_all tree_ok ts \<Longrightarrow> (b, q) \<in> set (bpos leaf ts p) \<Longrightarrow>
     (\<exists>k. around leaf ts p (Suc q) d = Some (b, Suc q, k)) \<and> \<not> between leaf ts p (Suc q)"
proof (induction leaf ts p arbitrary: d rule: bpos.induct)
  case (2 leaf as c g ks ts p)
  let ?b = "TBlock as c g ks" and ?kp = "p + node_size leaf c + 2"
  have size: "3 \<le> node_size leaf (to_pm ?b)" using 2(4) by (intro block_big [OF 2(3)]) simp_all
  consider (here) "b = ?b" "q = p" | (kids) "(b, q) \<in> set (bpos leaf ks ?kp)"
    | (rest) "(b, q) \<in> set (bpos leaf ts (p + node_size leaf (to_pm ?b)))" using 2(5) by auto
  then show ?case
  proof cases
    case here
    have "around leaf ks ?kp (Suc p) (d + 2) = None" "\<not> between leaf ks ?kp (Suc p)" by (simp_all add: around_out between_low)
    then show ?thesis using here size by simp
  next
    case kids
    have "?kp \<le> q" "q + node_size leaf (to_pm b) \<le> ?kp + tsize leaf ks" "0 < node_size leaf (to_pm b)"
      using bpos_range [OF 2(3) kids] node_size_pos by simp_all
    moreover from this have "ks \<noteq> []" by auto
    ultimately have q: "p < Suc q \<and> Suc q < p + node_size leaf (to_pm ?b)" "Suc q \<noteq> p"
      using block_size [OF 2(3), of as c g ks] by simp_all
    show ?thesis using 2(1) [OF 2(3) _ kids, of "d + 2"] 2(4) q by auto
  next
    case rest
    then have "p + node_size leaf (to_pm ?b) \<le> q" using bpos_range [OF 2(3)] by blast
    then have q: "\<not> (p < Suc q \<and> Suc q < p + node_size leaf (to_pm ?b))" "Suc q \<noteq> p" by simp_all
    show ?thesis using 2(2) [OF 2(3) _ rest, of d] 2(4) q
      unfolding around_skip [OF q(1)] between.simps if_not_P [OF q(1)] by simp
  qed
qed simp

lemma block_start_info:
  assumes laws: "resolve_law leaf resolve" "inner_types leaf" and ts: "list_all tree_ok ts" "(b, q) \<in> set (bpos leaf ts 1)"
  shows "\<exists>k. getBlockInfoFromPos leaf resolve (tree_doc da ga ts) (Suc q) = Inr (info_of leaf (b, Suc q, k))"
proof -
  have ne: "ts \<noteq> []" using ts(2) by auto
  have "1 \<le> q" "q + node_size leaf (to_pm b) \<le> 1 + tsize leaf ts" "0 < node_size leaf (to_pm b)"
    using bpos_range [OF laws(2) ts(2)] node_size_pos by simp_all
  then have "near_pos leaf ts (Suc q) = Suc q"
    using bpos_start [OF laws(2) ts, of 2] by (simp add: near_pos_def)
  then show ?thesis using block_at_core [OF laws ts(1) ne, of da ga "Suc q"] bpos_start [OF laws(2) ts, of 2] by auto
qed

section \<open>Changes at a place\<close>

definition rebuilds :: "(pm_node \<Rightarrow> pm_node list \<Rightarrow> pm_node list) \<Rightarrow> bool" where
  "rebuilds r \<longleftrightarrow> (\<forall>n cs. cs \<noteq> [] \<longrightarrow> r n cs = [with_children n cs])"

lemma rebuilds_calls [simp]: "rebuilds keep" "rebuilds shrink"
  by (simp_all add: rebuilds_def keep_def shrink_def)

lemma edit_skip:
  "p + total_size leaf us < a \<Longrightarrow> edit_at leaf r a g (us @ ns) p = map_option ((@) us) (edit_at leaf r a g ns (p + total_size leaf us))"
proof (induction us arbitrary: p)
  case Nil
  then show ?case by (simp add: option.map_ident)
next
  case (Cons u us)
  have "p \<noteq> a" "\<not> a < p + node_size leaf u" using Cons.prems by simp_all
  then show ?case using Cons by (simp add: option.map_comp o_def add.assoc)
qed

lemma edit_here: "edit_at leaf r p g ns p = g ns"
  by (cases ns) simp_all

text \<open>Behind the nodes before a position, also when it comes right after them.\<close>

lemma edit_behind:
  assumes "\<forall>u \<in> set us. 0 < node_size leaf u" "p + total_size leaf us \<le> a"
  shows "edit_at leaf r a g (us @ ns) p = map_option ((@) us) (edit_at leaf r a g ns (p + total_size leaf us))"
  using assms
proof (induction us arbitrary: p)
  case Nil
  then show ?case by (simp add: option.map_ident)
next
  case (Cons u us)
  have "p \<noteq> a" "\<not> a < p + node_size leaf u" using Cons.prems by fastforce+
  then show ?case using Cons by (simp add: option.map_comp o_def add.assoc)
qed

text \<open>Inside a block, in its content, behind it or in its group.\<close>

lemma edit_block:
  assumes leaf: "inner_types leaf" and a: "p < a" "a < p + node_size leaf (to_pm b)"
  shows "edit_at leaf r a g (to_pm b # ns) p =
    map_option (\<lambda>cs. r (to_pm b) cs @ ns) (edit_at leaf r a g (child_nodes (to_pm b)) (Suc p))"
  using a by (subst edit_at.simps) simp

lemma edit_in_group:
  assumes leaf: "inner_types leaf" and r: "rebuilds r" and c: "\<not> is_PText c"
    and a: "p + node_size leaf c + 2 \<le> a" "a \<le> p + node_size leaf c + 2 + tsize leaf xs" "xs \<noteq> []"
    and e: "edit_at leaf r a g (map to_pm xs) (p + node_size leaf c + 2) = Some (map to_pm ys)"
    and ys: "ys = [] \<Longrightarrow> r (PNode ''blockGroup'' ga (map to_pm xs) []) [] = []"
  shows "edit_at leaf r a g (to_pm (TBlock as c ga xs) # ns) p = Some (to_pm (TBlock as c ga ys) # ns)"
proof -
  let ?b = "TBlock as c ga xs" and ?G = "PNode ''blockGroup'' ga (map to_pm xs) []"
  have size: "node_size leaf (to_pm ?b) = node_size leaf c + 2 + (tsize leaf xs + 2)" "node_size leaf ?G = tsize leaf xs + 2"
    using block_size [OF leaf, of as c ga xs] a(3) leaf by (simp_all add: inner_types_def)
  have "edit_at leaf r a g [?G] (Suc p + node_size leaf c) = map_option (\<lambda>cs. r ?G cs @ []) (edit_at leaf r a g (map to_pm xs) (p + node_size leaf c + 2))"
    using a size(2) by (subst edit_at.simps) simp
  also have "\<dots> = Some (if ys = [] then [] else [PNode ''blockGroup'' ga (map to_pm ys) []])"
    using e ys r by (auto simp: rebuilds_def)
  finally have G: "edit_at leaf r a g [?G] (Suc p + node_size leaf c) = Some (if ys = [] then [] else [PNode ''blockGroup'' ga (map to_pm ys) []])" .
  have kids: "child_nodes (to_pm ?b) = [c] @ [?G]" using a(3) by simp
  have "edit_at leaf r a g ([c] @ [?G]) (Suc p) = Some (c # (if ys = [] then [] else [PNode ''blockGroup'' ga (map to_pm ys) []]))"
    using a G by (subst edit_skip) simp_all
  moreover have "p < a" "a < p + node_size leaf (to_pm ?b)" using a size by simp_all
  ultimately have "edit_at leaf r a g (to_pm ?b # ns) p
      = Some (r (to_pm ?b) (c # (if ys = [] then [] else [PNode ''blockGroup'' ga (map to_pm ys) []])) @ ns)"
    unfolding edit_block [OF leaf \<open>p < a\<close> \<open>a < _\<close>] kids by simp
  then show ?thesis using r by (simp add: rebuilds_def to_pm.simps)
qed

lemma edit_fill:
  assumes leaf: "inner_types leaf" and r: "rebuilds r"
    and c: "\<forall>(as, c, ga, ls, rs) \<in> set ctx. \<not> is_PText c"
    and a: "hole leaf ctx \<le> a" "a \<le> hole leaf ctx + tsize leaf xs" "ctx \<noteq> [] \<Longrightarrow> xs \<noteq> []"
    and e: "edit_at leaf r a g (map to_pm xs) (hole leaf ctx) = Some (map to_pm ys)"
    and ys: "\<And>n. ys = [] \<Longrightarrow> ctx \<noteq> [] \<Longrightarrow> r n [] = []"
  shows "edit_at leaf r a g (map to_pm (fill ctx xs)) 1 = Some (map to_pm (fill ctx ys))"
  using assms(3-8)
proof (induction ctx arbitrary: xs ys)
  case (Cons fr ctx)
  obtain as c ga ls rs where fr: "fr = (as, c, ga, ls, rs)" by (cases fr)
  let ?p = "hole leaf ctx + tsize leaf ls" and ?b = "TBlock as c ga xs"
  have xs: "xs \<noteq> []" using Cons.prems(4) by simp
  have a: "?p + node_size leaf c + 2 \<le> a" "a \<le> ?p + node_size leaf c + 2 + tsize leaf xs" using Cons.prems(2,3) by (simp_all add: fr)
  have "edit_at leaf r a g (to_pm ?b # map to_pm rs) ?p = Some (to_pm (TBlock as c ga ys) # map to_pm rs)"
    using Cons.prems(1,5,6) by (intro edit_in_group [OF leaf r _ a xs]) (auto simp: fr)
  then have "edit_at leaf r a g (map to_pm ls @ to_pm ?b # map to_pm rs) (hole leaf ctx) = Some (map to_pm ls @ to_pm (TBlock as c ga ys) # map to_pm rs)"
    using a by (subst edit_skip) simp_all
  then have e: "edit_at leaf r a g (map to_pm (ls @ ?b # rs)) (hole leaf ctx) = Some (map to_pm (ls @ TBlock as c ga ys # rs))" by simp
  have "node_size leaf (to_pm ?b) = node_size leaf c + 2 + (tsize leaf xs + 2)" using block_size [OF leaf, of as c ga xs] xs by simp
  then show ?case
    unfolding fr fill.simps using Cons.prems(1) a by (intro Cons.IH [OF _ _ _ _ e]) simp_all
qed simp

section \<open>Blocks by id\<close>

definition tid :: "btree \<Rightarrow> dyn" where
  "tid b = get_attr (t_attrs b) ''id''"

fun all_ids :: "btree list \<Rightarrow> dyn list" where
  "all_ids [] = []"
| "all_ids (TBlock as c g ks # ts) = get_attr as ''id'' # all_ids ks @ all_ids ts"

text \<open>The specification of a change of one block: the first with the id, parents before children, becomes other blocks.\<close>

fun upd_first :: "dyn \<Rightarrow> (btree \<Rightarrow> btree list) \<Rightarrow> btree list \<Rightarrow> btree list" where
  "upd_first v f [] = []"
| "upd_first v f (TBlock as c g ks # ts) =
     (if get_attr as ''id'' = v then f (TBlock as c g ks) @ ts
      else if v \<in> set (all_ids ks) then TBlock as c g (upd_first v f ks) # ts
      else TBlock as c g ks # upd_first v f ts)"

lemma all_ids_append [simp]: "all_ids (xs @ ys) = all_ids xs @ all_ids ys"
  by (induction xs rule: all_ids.induct) simp_all

lemma bpos_ids: "map (\<lambda>(b, q). tid b) (bpos leaf ts p) = all_ids ts"
  by (induction leaf ts p rule: bpos.induct) (simp_all add: tid_def)

abbreviation first_at :: "(string \<Rightarrow> bool) \<Rightarrow> dyn \<Rightarrow> btree list \<Rightarrow> nat \<Rightarrow> (btree \<times> nat) option" where
  "first_at leaf v ts p \<equiv> find (\<lambda>(b, q). tid b = v) (bpos leaf ts p)"

lemma first_none: "first_at leaf v ts p = None \<longleftrightarrow> v \<notin> set (all_ids ts)"
  by (force simp: find_None_iff bpos_ids [of leaf ts p, symmetric])

lemma first_split:
  "first_at leaf v ts p = Some (b, q) \<Longrightarrow> p = hole leaf ctx0 + tsize leaf pre \<Longrightarrow>
   \<exists>ctx ls rs. q = hole leaf ctx + tsize leaf ls \<and> tid b = v \<and> fill ctx0 (pre @ ts) = fill ctx (ls @ b # rs) \<and>
     (\<forall>f. fill ctx0 (pre @ upd_first v f ts) = fill ctx (ls @ f b @ rs))"
proof (induction leaf ts p arbitrary: ctx0 pre rule: bpos.induct)
  case (2 leaf as c g ks ts p)
  let ?b = "TBlock as c g ks"
  show ?case
  proof (cases "get_attr as ''id'' = v")
    case True
    then have "b = ?b" "q = p" using 2(3) by (simp_all add: tid_def)
    with True 2(4) show ?thesis
      by (intro exI [of _ ctx0] exI [of _ pre] exI [of _ ts]) (simp add: tid_def)
  next
    case ne: False
    have p: "p + node_size leaf c + 2 = hole leaf ((as, c, g, pre, ts) # ctx0) + tsize leaf []" using 2(4) by simp
    show ?thesis
    proof (cases "first_at leaf v ks (p + node_size leaf c + 2)")
      case (Some r)
      then have "first_at leaf v ks (p + node_size leaf c + 2) = Some (b, q)" using 2(3) ne by (simp add: tid_def find_append)
      from 2(1) [OF this p] obtain ctx ls rs where r: "q = hole leaf ctx + tsize leaf ls" "tid b = v"
        "fill ctx0 (pre @ ?b # ts) = fill ctx (ls @ b # rs)"
        "\<forall>f. fill ctx0 (pre @ TBlock as c g (upd_first v f ks) # ts) = fill ctx (ls @ f b @ rs)" by auto
      moreover have "v \<in> set (all_ids ks)" using Some first_none by (metis option.distinct(1))
      ultimately show ?thesis using ne by (intro exI [of _ ctx] exI [of _ ls] exI [of _ rs]) simp
    next
      case None
      then have rest: "first_at leaf v ts (p + node_size leaf (to_pm ?b)) = Some (b, q)" using 2(3) ne by (simp add: tid_def find_append)
      have "p + node_size leaf (to_pm ?b) = hole leaf ctx0 + tsize leaf (pre @ [?b])" using 2(4) by simp
      from 2(2) [OF rest this] obtain ctx ls rs where r: "q = hole leaf ctx + tsize leaf ls" "tid b = v"
        "fill ctx0 (pre @ ?b # ts) = fill ctx (ls @ b # rs)"
        "\<forall>f. fill ctx0 (pre @ ?b # upd_first v f ts) = fill ctx (ls @ f b @ rs)" by auto
      moreover have "v \<notin> set (all_ids ks)" using None first_none by blast
      ultimately show ?thesis using ne by (intro exI [of _ ctx] exI [of _ ls] exI [of _ rs]) simp
    qed
  qed
qed simp

text \<open>The containers among the nodes of a document.\<close>

lemma plain_nodes: "list_all plain ns \<Longrightarrow> filter (\<lambda>(n, p). type_name n = ''blockContainer'') (nodes_at leaf ns p) = []"
proof (induction leaf ns p rule: nodes_at.induct)
  case (2 leaf n ns p)
  have "list_all plain (child_nodes n)" using 2(3) by (cases n) auto
  with 2 plain_type show ?case by simp
qed simp

lemma nodes_at_append: "nodes_at leaf (xs @ ys) p = nodes_at leaf xs p @ nodes_at leaf ys (p + total_size leaf xs)"
  by (induction xs arbitrary: p) (simp_all add: add.assoc)

lemma container_nodes:
  "inner_types leaf \<Longrightarrow> list_all tree_ok ts \<Longrightarrow>
     filter (\<lambda>(n, p). type_name n = ''blockContainer'') (nodes_at leaf (map to_pm ts) p) = map (\<lambda>(b, q). (to_pm b, q)) (bpos leaf ts p)"
proof (induction leaf ts p rule: bpos.induct)
  case (2 leaf as c g ks ts p)
  have "plain c" using 2(4) by simp
  then have c: "filter (\<lambda>(n, p). type_name n = ''blockContainer'') (nodes_at leaf (child_nodes c) q) = []" "type_name c \<noteq> ''blockContainer''" for q
    using plain_nodes [of "child_nodes c" leaf q] plain_type by (cases c; simp)+
  have "filter (\<lambda>(n, p). type_name n = ''blockContainer'') (nodes_at leaf (map to_pm ks) (p + node_size leaf c + 2)) =
      map (\<lambda>(b, q). (to_pm b, q)) (bpos leaf ks (p + node_size leaf c + 2))"
    using 2(4) by (intro 2(1) [OF 2(3)]) simp
  moreover have "filter (\<lambda>(n, p). type_name n = ''blockContainer'') (nodes_at leaf (map to_pm ts) (p + node_size leaf (to_pm (TBlock as c g ks)))) =
      map (\<lambda>(b, q). (to_pm b, q)) (bpos leaf ts (p + node_size leaf (to_pm (TBlock as c g ks))))"
    using 2(4) by (intro 2(2) [OF 2(3)]) simp
  ultimately show ?case using c by (cases "ks = []") (simp_all add: nodes_at_append)
qed simp

lemma bpos_shift: "bpos leaf ts (p + d) = map (\<lambda>(b, q). (b, q + d)) (bpos leaf ts p)"
proof (induction leaf ts p rule: bpos.induct)
  case (2 leaf as c g ks ts p)
  have "p + d + node_size leaf c + 2 = p + node_size leaf c + 2 + d" "p + d + node_size leaf (to_pm (TBlock as c g ks)) = p + node_size leaf (to_pm (TBlock as c g ks)) + d" by simp_all
  then show ?case unfolding bpos.simps using 2 by (simp only: map_append list.map prod.case)
qed simp

lemma getNodeById_tree:
  assumes "inner_types leaf" "list_all tree_ok ts"
  shows "getNodeById leaf i (tree_doc da ga ts) = (case first_at leaf (JStr i) ts 1 of
     None \<Rightarrow> Inl (Error ''Could not find block in the editor with matching ID.'') | Some (b, q) \<Rightarrow> Inr (to_pm b, q))"
proof -
  let ?P = "\<lambda>(n, p :: nat). type_name n = ''blockContainer'' \<and> get_attr (node_attrs n) ''id'' = JStr i"
  have "find ?P (nodes_at leaf (map to_pm ts) 0) = find ?P (map (\<lambda>(b, q). (to_pm b, q)) (bpos leaf ts 0))"
    unfolding container_nodes [OF assms, symmetric] by (rule find_filter) auto
  also have "\<dots> = map_option (\<lambda>(b, q). (to_pm b, q)) (first_at leaf (JStr i) ts 0)"
    unfolding find_map by (rule arg_cong [of _ _ "map_option _"]) (rule arg_cong2 [of _ _ _ _ find], auto simp: tid_def fun_eq_iff)
  finally have f: "find ?P (nodes_at leaf (map to_pm ts) 0) = map_option (\<lambda>(b, q). (to_pm b, q)) (first_at leaf (JStr i) ts 0)" .
  have "first_at leaf (JStr i) ts 1 = map_option (\<lambda>(b, q). (b, q + 1)) (first_at leaf (JStr i) ts 0)"
    using bpos_shift [of leaf ts 0 1] by (simp add: find_map o_def case_prod_unfold)
  with f show ?thesis by (simp add: getNodeById_def tree_doc_def split: option.split)
qed

section \<open>Blocks that are inserted\<close>

text \<open>Blocks that become nodes of the schema, in full: known types, typed content, content that is allowed.\<close>

fun insertable :: "pm_schema \<Rightarrow> (pm_node \<Rightarrow> bool) \<Rightarrow> partial_block \<Rightarrow> bool" where
  "insertable S okc (PartialBlock i t p c cs) \<longleftrightarrow>
     (let type = pb_typename (PartialBlock i t p c cs)
      in s_known S type \<and> t \<noteq> Some ''codeBlock'' \<and> type \<noteq> ''blockContainer'' \<and> type \<noteq> ''blockGroup'' \<and> typed_content c \<and>
         (\<forall>n. content_node S t type p c = Inr n \<longrightarrow> okc n) \<and> list_all (insertable S okc) cs)"

lemma joins_plain: "joins ns ns' \<Longrightarrow> list_all plain ns \<Longrightarrow> list_all plain ns'"
  by (induction rule: joins.induct) simp_all

lemma inline_nodes_are_plain: "schema_laws S \<Longrightarrow> n \<in> set (inline_nodes S x) \<Longrightarrow> plain n"
  by (cases x) (auto simp: run_nodes_def piece_node_def fragment_nil)

lemma content_node_typed:
  assumes S: "schema_laws S" and c: "typed_content c" "s_known S type" "t \<noteq> Some ''codeBlock''"
    and type: "type \<noteq> ''blockContainer''" "type \<noteq> ''blockGroup''"
  shows "\<exists>n. content_node S t type p c = Inr n \<and> plain n \<and> \<not> is_PText n"
proof (cases c)
  case NoContent
  then show ?thesis using c(2) type by (simp add: content_node_def schema_create_def fragment_nil [OF S])
next
  case (StringContent s)
  have "joins [PText s (s_mark_set S [])] (s_fragment S [PText s (s_mark_set S [])])" by (rule schema_lawsD(6) [OF S])
  from joins_plain [OF this] show ?thesis
    using StringContent c(2) type by (simp add: content_node_def schema_create_def schema_text_def fragment_nil [OF S])
next
  case (InlineContent cs)
  let ?ns = "concat (map (inline_nodes S) cs)"
  have "list_all plain ?ns" using inline_nodes_are_plain [OF S] by (auto simp: list_all_iff)
  then have "list_all plain (s_fragment S ?ns)" by (rule joins_plain [OF schema_lawsD(6) [OF S]])
  moreover have "inlineContentToNodes S cs = Inr ?ns" using c(1) InlineContent by (intro inlineContentToNodes_eq [OF S]) simp
  ultimately show ?thesis using InlineContent c type by (simp add: content_node_def schema_create_def)
qed

lemma map_ids_trees:
  "(\<And>x j. x \<in> set xs \<Longrightarrow> \<exists>y j'. f x j = Inr (to_pm y, j') \<and> P y) \<Longrightarrow> \<exists>ys k'. map_ids f xs k = Inr (map to_pm ys, k') \<and> list_all P ys \<and> (ys = [] \<longleftrightarrow> xs = [])"
proof (induction xs arbitrary: k)
  case (Cons x xs)
  obtain y j where y: "f x k = Inr (to_pm y, j)" "P y" using Cons.prems by force
  obtain ys k' where "map_ids f xs j = Inr (map to_pm ys, k')" "list_all P ys" using Cons by force
  with y show ?case by (intro exI [of _ "y # ys"]) simp
qed simp

lemma block_becomes_tree:
  assumes S: "schema_laws S"
  shows "insertable S okc b \<Longrightarrow> \<exists>y k'. blockToNode S gen b k = Inr (to_pm y, k') \<and> tree_in okc y"
proof (induction b arbitrary: k)
  case (PartialBlock i t p c cs)
  let ?b = "PartialBlock i t p c cs"
  obtain cn where cn: "content_node S t (pb_typename ?b) p c = Inr cn" "plain cn" "\<not> is_PText cn"
    using content_node_typed [OF S, of c "pb_typename ?b" t p] PartialBlock.prems by (auto simp: Let_def)
  have okc: "okc cn" using PartialBlock.prems cn(1) by (simp add: Let_def)
  have "\<exists>y j'. blockToNode S gen x j = Inr (to_pm y, j') \<and> tree_in okc y" if "x \<in> set cs" for x j
    using that PartialBlock by (simp add: Let_def list_all_iff)
  from map_ids_trees [of cs "blockToNode S gen" "tree_in okc" "case i of None \<Rightarrow> Suc k | Some s \<Rightarrow> k", OF this]
  obtain ys k2 where ys: "map_ids (blockToNode S gen) cs (case i of None \<Rightarrow> Suc k | Some s \<Rightarrow> k) = Inr (map to_pm ys, k2)"
    "list_all (tree_in okc) ys" by blast
  have "blockToNode S gen ?b k = Inr (container_node S (block_id gen i k) p cn (map to_pm ys), k2)"
    by (rule blockToNode_container [OF S cn(1,3) ys(1)]) auto
  moreover have "container_node S (block_id gen i k) p cn (map to_pm ys) = to_pm (TBlock
      (s_attrs S ''blockContainer'' (obj_spread [(''id'', JStr (block_id gen i k))] p)) cn (s_attrs S ''blockGroup'' []) ys)"
    by (simp add: container_node_def to_pm.simps)
  ultimately show ?case using okc cn ys(2) by fastforce
qed

lemma blocks_become_trees:
  assumes "schema_laws S" "list_all (insertable S okc) bs"
  shows "\<exists>new k. map_ids (blockToNode S gen) bs 0 = Inr (map to_pm new, k) \<and> list_all (tree_in okc) new \<and> (new = [] \<longleftrightarrow> bs = [])"
  using assms by (intro map_ids_trees block_becomes_tree) (auto simp: list_all_iff)

text \<open>A node leaves open only the attributes of groups that are not there.\<close>

lemma same_node_in: "to_pm x = to_pm y \<Longrightarrow> tree_in okc y \<Longrightarrow> tree_in okc x"
proof (induction x arbitrary: y)
  case (TBlock as c g ks)
  obtain as' c' g' ks' where y: "y = TBlock as' c' g' ks'" by (cases y)
  have "c = c'" "map to_pm ks = map to_pm ks'" using TBlock(2) by (auto simp: y to_pm.simps split: if_splits)
  moreover have "list_all (tree_in okc) ks" if "map to_pm ks = map to_pm ks'"
    using that TBlock.IH TBlock(3) by (auto simp: y list_all_length list_eq_iff_nth_eq)
  ultimately show ?case using TBlock(3) by (simp add: y)
qed

lemma same_nodes_in: "map to_pm xs = map to_pm ys \<Longrightarrow> list_all (tree_in okc) ys \<Longrightarrow> list_all (tree_in okc) xs"
  by (induction xs arbitrary: ys) (auto intro: same_node_in)

section \<open>What the operations do to the tree\<close>

fun place :: "pm_schema \<Rightarrow> placement \<Rightarrow> btree list \<Rightarrow> btree \<Rightarrow> btree list" where
  "place S Before new b = new @ [b]"
| "place S After new b = b # new"
| "place S Nested new (TBlock as c g ks) =
     [TBlock as c (if ks = [] then s_attrs S ''blockGroup'' [] else g) (new @ ks)]"

lemma tree_in_ok: "tree_in okc t \<Longrightarrow> tree_ok t"
  by (induction t) (auto simp: list_all_iff)

lemma trees_in_ok: "list_all (tree_in okc) ts \<Longrightarrow> list_all tree_ok ts"
  by (auto simp: list_all_iff tree_in_ok)

lemma edited_tree:
  assumes "inner_types leaf" "rebuilds r" "ts' \<noteq> []" "1 \<le> a" "a \<le> 1 + tsize leaf ts" "ts \<noteq> []"
    and "edit_at leaf r a g (map to_pm ts) 1 = Some (map to_pm ts')"
  shows "edited leaf r a g (tree_doc da ga ts) = Some (tree_doc da ga ts')"
proof -
  have "node_size leaf (PNode ''blockGroup'' ga (map to_pm ts) []) = tsize leaf ts + 2" using assms(1) by (simp add: inner_types_def)
  then have "edit_at leaf r a g (child_nodes (tree_doc da ga ts)) 0 = Some [PNode ''blockGroup'' ga (map to_pm ts') []]"
    unfolding tree_doc_def child_nodes.simps using assms by (subst edit_at.simps) (simp add: rebuilds_def)
  then show ?thesis by (simp add: edited_def tree_doc_def)
qed

text \<open>The content of the frames of a document of the schema is no text.\<close>

lemma frames_ok: "list_all (tree_in okc) (fill ctx us) \<Longrightarrow> list_all (tree_in okc) us \<and> (\<forall>(as, c, ga, ls, rs) \<in> set ctx. \<not> is_PText c)"
  by (induction ctx us rule: fill.induct) auto

text \<open>A place never lies before the first position of the outer group, nor behind its end.\<close>

lemma hole_range:
  "inner_types leaf \<Longrightarrow> us \<noteq> [] \<Longrightarrow> 1 \<le> hole leaf ctx \<and> hole leaf ctx + tsize leaf us \<le> 1 + tsize leaf (fill ctx us)"
proof (induction ctx us rule: fill.induct)
  case (2 as c g ls rs ctx us)
  then show ?case using block_size [OF 2(2), of as c g us] by auto
qed simp

lemma edited_fill:
  assumes leaf: "inner_types leaf" and r: "rebuilds r" and ok: "list_all (tree_in okc) (fill ctx xs)"
    and a: "hole leaf ctx \<le> a" "a \<le> hole leaf ctx + tsize leaf xs" "xs \<noteq> []" "fill ctx ys \<noteq> []"
    and e: "edit_at leaf r a g (map to_pm xs) (hole leaf ctx) = Some (map to_pm ys)"
    and ys: "\<And>n. ys = [] \<Longrightarrow> ctx \<noteq> [] \<Longrightarrow> r n [] = []"
  shows "edited leaf r a g (tree_doc da ga (fill ctx xs)) = Some (tree_doc da ga (fill ctx ys))"
proof (rule edited_tree [OF leaf r a(4)])
  show "fill ctx xs \<noteq> []" by (rule fill_ne [OF a(3)])
  show "1 \<le> a" "a \<le> 1 + tsize leaf (fill ctx xs)" using hole_range [OF leaf a(3), of ctx] a(1,2) by simp_all
  show "edit_at leaf r a g (map to_pm (fill ctx xs)) 1 = Some (map to_pm (fill ctx ys))"
    using frames_ok [OF ok] a(3) by (intro edit_fill [OF leaf r _ a(1,2) _ e]) (auto simp: ys)
qed

text \<open>A change among siblings, and one among the parts of a block.\<close>

lemma edited_siblings:
  assumes leaf: "inner_types leaf" and r: "rebuilds r" and ok: "list_all (tree_in okc) (fill ctx (us @ vs))"
    and ne: "us @ vs \<noteq> []" "fill ctx (us @ vs') \<noteq> []" and g: "g (map to_pm vs) = Some (map to_pm vs')"
    and ys: "\<And>n. us @ vs' = [] \<Longrightarrow> ctx \<noteq> [] \<Longrightarrow> r n [] = []"
  shows "edited leaf r (hole leaf ctx + tsize leaf us) g (tree_doc da ga (fill ctx (us @ vs))) = Some (tree_doc da ga (fill ctx (us @ vs')))"
proof (rule edited_fill [OF leaf r ok])
  have "edit_at leaf r (hole leaf ctx + tsize leaf us) g (map to_pm us @ map to_pm vs) (hole leaf ctx) = Some (map to_pm us @ map to_pm vs')"
    using g by (subst edit_behind) (auto simp: node_size_pos edit_here)
  then show "edit_at leaf r (hole leaf ctx + tsize leaf us) g (map to_pm (us @ vs)) (hole leaf ctx) = Some (map to_pm (us @ vs'))" by simp
qed (use ne ys in auto)

lemma edited_inside:
  assumes leaf: "inner_types leaf" and ok: "list_all (tree_in okc) (fill ctx (ls @ b # rs))"
    and a: "q = hole leaf ctx + tsize leaf ls" "q < a" "a < q + node_size leaf (to_pm b)"
    and e: "edit_at leaf keep a g (child_nodes (to_pm b)) (Suc q) = Some cs" "with_children (to_pm b) cs = to_pm b'"
  shows "edited leaf keep a g (tree_doc da ga (fill ctx (ls @ b # rs))) = Some (tree_doc da ga (fill ctx (ls @ b' # rs)))"
proof (rule edited_fill [OF leaf _ ok])
  have "edit_at leaf keep a g (map to_pm ls @ to_pm b # map to_pm rs) (hole leaf ctx) = Some (map to_pm ls @ to_pm b' # map to_pm rs)"
    using a e by (subst edit_skip) (simp_all only: edit_block [OF leaf] keep_def option.map append.simps)
  then show "edit_at leaf keep a g (map to_pm (ls @ b # rs)) (hole leaf ctx) = Some (map to_pm (ls @ b' # rs))" by simp
qed (use a in \<open>auto simp: fill_ne\<close>)

lemma fill_in: "list_all (tree_in okc) (fill ctx us) \<Longrightarrow> list_all (tree_in okc) us' \<Longrightarrow> list_all (tree_in okc) (fill ctx us')"
proof (induction ctx us arbitrary: us' rule: fill.induct)
  case (2 as c g ls rs ctx us)
  have "list_all (tree_in okc) (ls @ TBlock as c g us # rs)" using 2(2) frames_ok by (metis fill.simps(2))
  with 2 show ?case by simp
qed simp

lemma valid_tree: "ts \<noteq> [] \<Longrightarrow> list_all (tree_in okc) ts \<Longrightarrow> valid_doc okc (tree_doc da ga ts)"
  by (auto simp: valid_doc_def)

lemma insert_call:
  assumes "transform_laws leaf S okc T" "valid_doc okc doc" "valid_doc okc doc'" "edited leaf keep a (put_nodes new) doc = Some doc'"
  shows "tr_insert T doc a new = Inr doc'"
  using assms unfolding transform_laws_def by blast

text \<open>A block at a place: its document is valid with any block the schema allows there.\<close>

lemma block_valid:
  assumes "list_all (tree_in okc) (fill ctx (ls @ b # rs))" "tree_in okc b'"
  shows "valid_doc okc (tree_doc da ga (fill ctx (ls @ b' # rs)))" "list_all (tree_in okc) (fill ctx (ls @ b' # rs))"
proof -
  have "list_all (tree_in okc) (ls @ b' # rs)" using frames_ok [OF assms(1)] assms(2) by simp
  then show ok: "list_all (tree_in okc) (fill ctx (ls @ b' # rs))" by (rule fill_in [OF assms(1)])
  show "valid_doc okc (tree_doc da ga (fill ctx (ls @ b' # rs)))" by (rule valid_tree [OF fill_ne ok]) simp
qed

lemma insert_group:
  assumes laws: "transform_laws leaf S okc T" and ok: "list_all (tree_in okc) (fill ctx (ls @ TBlock as c g [] # rs))"
    and new: "new \<noteq> []" "list_all (tree_in okc) new" and q: "q = hole leaf ctx + tsize leaf ls"
  shows "tr_insert T (tree_doc da ga (fill ctx (ls @ TBlock as c g [] # rs))) (Suc q + node_size leaf c) [PNode ''blockGroup'' gg (map to_pm new) []]
    = Inr (tree_doc da ga (fill ctx (ls @ TBlock as c gg new # rs)))"
proof -
  let ?b = "TBlock as c g []" and ?G = "PNode ''blockGroup'' gg (map to_pm new) []"
  have leaf: "inner_types leaf" using laws by (simp add: transform_laws_def)
  have b: "tree_in okc ?b" "tree_in okc (TBlock as c gg new)" using frames_ok [OF ok] new(2) by simp_all
  have c: "0 < node_size leaf c" using b(1) by (intro node_size_pos) simp
  have "edited leaf keep (Suc q + node_size leaf c) (put_nodes [?G]) (tree_doc da ga (fill ctx (ls @ ?b # rs)))
      = Some (tree_doc da ga (fill ctx (ls @ TBlock as c gg new # rs)))"
  proof (rule edited_inside [OF leaf ok q])
    have "edit_at leaf keep (Suc q + node_size leaf c) (put_nodes [?G]) ([c] @ []) (Suc q) = Some [c, ?G]"
      using c by (subst edit_behind) (simp_all add: put_nodes_def)
    then show "edit_at leaf keep (Suc q + node_size leaf c) (put_nodes [?G]) (child_nodes (to_pm ?b)) (Suc q) = Some [c, ?G]" by simp
    show "with_children (to_pm ?b) [c, ?G] = to_pm (TBlock as c gg new)" using new(1) by (simp add: to_pm.simps)
  qed (use block_size [OF leaf, of as c g "[]"] in simp_all)
  from insert_call [OF laws block_valid(1) [OF ok b(1)] block_valid(1) [OF ok b(2)] this] show ?thesis .
qed

lemma insert_core:
  assumes laws: "transform_laws leaf S okc T" "schema_laws S" and ok: "ts \<noteq> []" "list_all (tree_in okc) ts"
    and new: "map_ids (blockToNode S gen) bs 0 = Inr (map to_pm new, k)" "list_all (tree_in okc) new" "placement = Nested \<Longrightarrow> new \<noteq> []"
    and first: "first_at leaf (JStr i) ts 1 = Some (b, q)"
  shows "insertBlocks leaf S gen T bs i placement (tree_doc da ga ts) = Inr (tree_doc da ga (upd_first (JStr i) (place S placement new) ts))"
proof -
  have leaf: "inner_types leaf" using laws(1) by (simp add: transform_laws_def)
  obtain ctx ls rs where at: "q = hole leaf ctx + tsize leaf ls" "ts = fill ctx (ls @ b # rs)"
    "\<And>f. upd_first (JStr i) f ts = fill ctx (ls @ f b @ rs)"
    using first_split [OF first, of "[]" "[]"] by auto
  obtain as c g ks where b: "b = TBlock as c g ks" by (cases b)
  have ins: "list_all (tree_in okc) (ls @ b # rs)" using ok(2) at(2) frames_ok by blast
  define us where "us = place S placement new b"
  have us: "us \<noteq> []" "list_all (tree_in okc) us"
    using new(2) ins by (cases placement; simp add: us_def b)+
  have ok': "list_all (tree_in okc) (fill ctx (ls @ us @ rs))" using ins us(2) fill_in [OF ok(2) [unfolded at(2)], of "ls @ us @ rs"] by simp
  have v: "valid_doc okc (tree_doc da ga (fill ctx (ls @ b # rs)))" "valid_doc okc (tree_doc da ga (fill ctx (ls @ us @ rs)))"
    using ok(2) ok' us(1) unfolding at(2) by (simp_all only: valid_tree fill_ne append_is_Nil_conv list.distinct simp_thms not_False_eq_True)
  note call = insert_call [OF laws(1) v]
  have node: "getNodeById leaf i (tree_doc da ga ts) = Inr (to_pm b, q)"
    using getNodeById_tree [OF leaf trees_in_ok [OF ok(2)]] first by simp
  have frag: "s_fragment S (map to_pm new) = map to_pm new" by (rule no_text_fragment [OF laws(2)]) auto
  have okd: "list_all (tree_in okc) (fill ctx (ls @ b # rs))" using ok(2) unfolding at(2) .
  have "insertBlocks leaf S gen T bs i placement (tree_doc da ga ts) = Inr (tree_doc da ga (fill ctx (ls @ us @ rs)))"
  proof (cases placement)
    case Before
    have "edited leaf keep q (put_nodes (map to_pm new)) (tree_doc da ga (fill ctx (ls @ b # rs))) = Some (tree_doc da ga (fill ctx (ls @ new @ b # rs)))"
      unfolding at(1) by (rule edited_siblings [OF leaf _ okd]) (simp_all add: put_nodes_def fill_ne)
    then show ?thesis using call node new(1) Before at(2) by (simp add: insertBlocks_def us_def)
  next
    case After
    have "edited leaf keep (hole leaf ctx + tsize leaf (ls @ [b])) (put_nodes (map to_pm new)) (tree_doc da ga (fill ctx ((ls @ [b]) @ rs)))
        = Some (tree_doc da ga (fill ctx ((ls @ [b]) @ new @ rs)))"
      by (rule edited_siblings [OF leaf]) (use okd in \<open>simp_all add: put_nodes_def fill_ne\<close>)
    then show ?thesis using call node new(1) After at(1,2) by (simp add: insertBlocks_def us_def add.assoc)
  next
    case Nested
    show ?thesis
    proof (cases "ks = []")
      case False
      let ?ctx = "(as, c, g, ls, rs) # ctx"
      have "edited leaf keep (hole leaf ?ctx + tsize leaf []) (put_nodes (map to_pm new)) (tree_doc da ga (fill ?ctx ([] @ ks)))
          = Some (tree_doc da ga (fill ?ctx ([] @ new @ ks)))"
        by (rule edited_siblings [OF leaf]) (use okd False in \<open>simp_all add: put_nodes_def fill_ne b\<close>)
      then show ?thesis using call node new(1) Nested at(1,2) False by (simp add: insertBlocks_def us_def b add.assoc)
    next
      case True
      have "list_all (tree_in okc) (fill ctx (ls @ TBlock as c g [] # rs))" using okd by (simp add: b True)
      from insert_group [OF laws(1) this new(3) [OF Nested] new(2) at(1), where gg = "s_attrs S ''blockGroup'' []"]
      show ?thesis using node new(1) Nested at(2) True frag
        by (simp add: insertBlocks_def us_def b schema_create_def schema_lawsD(3) [OF laws(2)])
    qed
  qed
  then show ?thesis by (simp add: at(3) us_def)
qed

section \<open>Removing\<close>

text \<open>The specification: blocks with the ids go with all that is below them.\<close>

fun prune :: "dyn set \<Rightarrow> btree list \<Rightarrow> btree list" where
  "prune R [] = []"
| "prune R (TBlock as c g ks # ts) = (if get_attr as ''id'' \<in> R then [] else [TBlock as c g (prune R ks)]) @ prune R ts"

text \<open>The ids that are met on the way, which leaves out the blocks below one that goes.\<close>

fun topmost :: "dyn set \<Rightarrow> btree list \<Rightarrow> dyn list" where
  "topmost R [] = []"
| "topmost R (TBlock as c g ks # ts) = (if get_attr as ''id'' \<in> R then [get_attr as ''id''] else topmost R ks) @ topmost R ts"

lemma prune_cong: "(\<And>v. v \<in> set (all_ids ts) \<Longrightarrow> v \<in> R \<longleftrightarrow> v \<in> R') \<Longrightarrow> prune R ts = prune R' ts \<and> topmost R ts = topmost R' ts"
  by (induction R ts rule: prune.induct) auto

lemma topmost_ids: "set (topmost R ts) \<subseteq> set (all_ids ts) \<inter> R"
  by (induction R ts rule: topmost.induct) auto

lemma prune_none: "set (all_ids ts) \<inter> R = {} \<Longrightarrow> prune R ts = ts \<and> topmost R ts = []"
  by (induction R ts rule: prune.induct) auto

lemma fill_size:
  "inner_types leaf \<Longrightarrow> us \<noteq> [] \<Longrightarrow> us' \<noteq> [] \<Longrightarrow> tsize leaf (fill ctx us) + tsize leaf us' = tsize leaf (fill ctx us') + tsize leaf us"
proof (induction ctx us arbitrary: us' rule: fill.induct)
  case (2 as c g ls rs ctx us)
  have "tsize leaf (fill ctx (ls @ TBlock as c g us # rs)) + tsize leaf (ls @ TBlock as c g us' # rs) =
      tsize leaf (fill ctx (ls @ TBlock as c g us' # rs)) + tsize leaf (ls @ TBlock as c g us # rs)"
    by (rule 2(1) [OF 2(2)]) simp_all
  then show ?case using block_size [OF 2(2), of as c g us] block_size [OF 2(2), of as c g us'] 2(3,4) by simp
qed simp

lemma walk_nothing: "rm_ids st = [] \<Longrightarrow> rm_error st = None \<Longrightarrow> remove_walk leaf T ns p st = st"
  by (induction leaf T ns p st rule: remove_walk.induct) auto

lemma walk_plain: "list_all plain ns \<Longrightarrow> remove_walk leaf T ns p st = st"
proof (induction leaf T ns p st rule: remove_walk.induct)
  case (2 leaf T n ns p st)
  have n: "plain n" using 2(3) by simp
  then have "wanted st n = None" "list_all plain (child_nodes n)" using plain_type [OF n] by (cases n; simp add: wanted_def)+
  with 2 show ?case by auto
qed simp

lemma walk_append:
  "remove_walk leaf T (xs @ ys) p st = remove_walk leaf T ys (p + total_size leaf xs) (remove_walk leaf T xs p st)"
proof (induction xs arbitrary: p st)
  case (Cons x xs)
  have "rm_error st \<noteq> None \<Longrightarrow> remove_walk leaf T zs q st = st" for zs q by (cases zs) simp_all
  with Cons show ?case by (simp add: add.assoc)
qed simp

lemma walk_block:
  assumes leaf: "inner_types leaf" and st: "rm_error st = None" "wanted st (to_pm (TBlock as c g ks)) = None" and c: "plain c"
  shows "remove_walk leaf T (map to_pm (TBlock as c g ks # ts)) p st =
    remove_walk leaf T (map to_pm ts) (p + node_size leaf (to_pm (TBlock as c g ks))) (remove_walk leaf T (map to_pm ks) (p + node_size leaf c + 2) st)"
proof (cases "rm_ids st = []")
  case True
  then show ?thesis using st(1) by (simp add: walk_nothing)
next
  case False
  let ?G = "PNode ''blockGroup'' g (map to_pm ks) []"
  have "remove_walk leaf T [?G] (Suc p + node_size leaf c) st = remove_walk leaf T (map to_pm ks) (p + node_size leaf c + 2) st"
    using st(1) by (cases "rm_ids st = []") (simp_all add: wanted_def walk_nothing)
  then have "remove_walk leaf T (child_nodes (to_pm (TBlock as c g ks))) (Suc p) st = remove_walk leaf T (map to_pm ks) (p + node_size leaf c + 2) st"
    using c walk_plain [of "[c]" leaf T "Suc p" st] walk_append [of leaf T "[c]" "[?G]" "Suc p" st] by (cases "ks = []") simp_all
  then show ?thesis using st False by simp
qed

lemma deleteRange_call:
  assumes "transform_laws leaf S okc T" "valid_doc okc doc" "valid_doc okc doc'" "edited leaf shrink a (cut_container leaf m) doc = Some doc'"
  shows "tr_deleteRange T doc (a + 1) (a + m - 1) = Inr doc'"
  using assms unfolding transform_laws_def by blast

lemma delete_block:
  assumes laws: "transform_laws leaf S okc T" and ok: "list_all (tree_in okc) (fill ctx (ls @ b # rs))" and ne: "fill ctx (ls @ rs) \<noteq> []"
  shows "BNDeleteBlock leaf T (Suc (hole leaf ctx + tsize leaf ls)) (tree_doc da ga (fill ctx (ls @ b # rs))) = Inr (tree_doc da ga (fill ctx (ls @ rs)))"
proof -
  let ?q = "hole leaf ctx + tsize leaf ls" and ?ts = "fill ctx (ls @ b # rs)"
  have leaf: "inner_types leaf" "resolve_law leaf (tr_resolve T)" using laws by (simp_all add: transform_laws_def)
  have ins: "list_all (tree_in okc) (ls @ b # rs)" using frames_ok [OF ok] by blast
  then have "list_all (tree_in okc) (ls @ rs)" by simp
  then have v: "valid_doc okc (tree_doc da ga ?ts)" "valid_doc okc (tree_doc da ga (fill ctx (ls @ rs)))"
    using valid_tree [OF fill_ne ok] valid_tree [OF ne fill_in [OF ok]] by simp_all
  have "edited leaf shrink ?q (cut_container leaf (node_size leaf (to_pm b))) (tree_doc da ga ?ts) = Some (tree_doc da ga (fill ctx (ls @ rs)))"
    by (rule edited_siblings [OF leaf(1) _ ok]) (use ne in \<open>simp_all add: cut_container_def shrink_def\<close>)
  note call = deleteRange_call [OF laws v this]
  have "(b, ?q) \<in> set (bpos leaf (ls @ b # rs) (hole leaf ctx))" by (cases b) (simp add: bpos_append)
  from block_start_info [OF leaf(2,1) trees_in_ok [OF ok] bpos_fill [OF this], of da ga]
  obtain k where info: "getBlockInfoFromPos leaf (tr_resolve T) (tree_doc da ga ?ts) (Suc ?q) = Inr (info_of leaf (b, Suc ?q, k))" by blast
  have "tree_ok b" using ins by (intro tree_in_ok [of okc]) simp
  then have "3 \<le> node_size leaf (to_pm b)" by (cases b) (auto intro!: block_big [OF leaf(1)])
  then have "?q + node_size leaf (to_pm b) - 1 = Suc ?q + (node_size leaf (to_pm b) - 2)" by simp
  with call info show ?thesis by (simp add: BNDeleteBlock_def info_of_def)
qed

text \<open>
  The walk keeps up with the document: what went before a place is as long as the positions behind it
  have moved, since what comes after is the same.
\<close>

abbreviation ids_of :: "removal \<Rightarrow> dyn set" where
  "ids_of st \<equiv> JStr ` set (rm_ids st)"

definition walked :: "(string \<Rightarrow> bool) \<Rightarrow> attrs \<Rightarrow> attrs \<Rightarrow> frame list \<Rightarrow> btree list \<Rightarrow> btree list \<Rightarrow> removal \<Rightarrow> removal" where
  "walked leaf da ga ctx ls ts st =
     \<lparr>rm_ids = filter (\<lambda>i. JStr i \<notin> set (topmost (ids_of st) ts)) (rm_ids st),
      rm_size = rm_size st + (int (tsize leaf (fill ctx (ls @ ts))) - int (tsize leaf (fill ctx (ls @ prune (ids_of st) ts)))),
      rm_doc = tree_doc da ga (fill ctx (ls @ prune (ids_of st) ts)), rm_error = None\<rparr>"

lemma wanted_block: "wanted st (to_pm b) = (case tid b of JStr i \<Rightarrow> if i \<in> set (rm_ids st) then Some i else None | _ \<Rightarrow> None)"
  by (simp add: wanted_def tid_def)

lemma wanted_iff: "wanted st (to_pm b) = None \<longleftrightarrow> tid b \<notin> ids_of st" "wanted st (to_pm b) = Some i \<Longrightarrow> tid b = JStr i \<and> i \<in> set (rm_ids st)"
  by (auto simp: wanted_block split: dyn.splits if_splits)

lemma doc_sizes: "inner_types leaf \<Longrightarrow> int (node_size leaf (tree_doc da ga ts)) - int (node_size leaf (tree_doc da ga ts')) = int (tsize leaf ts) - int (tsize leaf ts')"
  by (simp add: tree_doc_def inner_types_def)

lemma prune_in: "list_all (tree_in okc) ts \<Longrightarrow> list_all (tree_in okc) (prune R ts)"
  by (induction R ts rule: prune.induct) auto

lemma fill_ctx_ne: "ctx \<noteq> [] \<Longrightarrow> fill ctx us \<noteq> []"
  by (cases "(ctx, us)" rule: fill.cases) (auto simp: fill_ne)

lemma walk_prunes:
  assumes laws: "transform_laws leaf S okc T"
  shows "list_all (tree_in okc) (fill ctx (ls @ ts)) \<Longrightarrow> distinct (all_ids ts) \<Longrightarrow> rm_error st = None \<Longrightarrow>
    rm_doc st = tree_doc da ga (fill ctx (ls @ ts)) \<Longrightarrow>
    (ts \<noteq> [] \<Longrightarrow> int p - rm_size st = int (hole leaf ctx + tsize leaf ls)) \<Longrightarrow>
    fill ctx (ls @ prune (ids_of st) ts) \<noteq> [] \<Longrightarrow> remove_walk leaf T (map to_pm ts) p st = walked leaf da ga ctx ls ts st"
proof (induction ts arbitrary: ctx ls st p rule: all_ids.induct)
  case 1
  then show ?case by (cases st) (simp add: walked_def)
next
  case (2 as c g ks ts)
  let ?b = "TBlock as c g ks" and ?R = "ids_of st"
  have leaf: "inner_types leaf" using laws by (simp add: transform_laws_def)
  have ins: "list_all (tree_in okc) (ls @ ?b # ts)" using frames_ok [OF 2(3)] by blast
  have d: "distinct (all_ids ks)" "distinct (all_ids ts)" "get_attr as ''id'' \<notin> set (all_ids ts)"
    "set (all_ids ks) \<inter> set (all_ids ts) = {}" using 2(4) by auto
  have pos: "int p - rm_size st = int (hole leaf ctx + tsize leaf ls)" using 2(7) by simp
  show ?case
  proof (cases "wanted st (to_pm ?b)")
    case (Some i)
    then have i: "get_attr as ''id'' = JStr i" "i \<in> set (rm_ids st)" using wanted_iff(2) [OF Some] by (simp_all add: tid_def)
    then have gone: "prune ?R (?b # ts) = prune ?R ts" "topmost ?R (?b # ts) = JStr i # topmost ?R ts" by simp_all
    have ne: "fill ctx (ls @ ts) \<noteq> []"
    proof (cases "ctx = []")
      case True
      then show ?thesis using 2(8) unfolding gone by (cases ts) auto
    qed (rule fill_ctx_ne)
    define st2 where "st2 = \<lparr>rm_ids = removeAll i (rm_ids st),
      rm_size = rm_size st + (int (tsize leaf (fill ctx (ls @ ?b # ts))) - int (tsize leaf (fill ctx (ls @ ts)))),
      rm_doc = tree_doc da ga (fill ctx (ls @ ts)), rm_error = None\<rparr>"
    have "nat (int p - rm_size st + 1) = Suc (hole leaf ctx + tsize leaf ls)" using pos by linarith
    then have "remove_one leaf T i p st = st2"
      using delete_block [OF laws 2(3) ne, of da ga] 2(5,6) doc_sizes [OF leaf] by (simp add: remove_one_def st2_def)
    then have "remove_walk leaf T (map to_pm (?b # ts)) p st = remove_walk leaf T (map to_pm ts) (p + node_size leaf (to_pm ?b)) st2"
      using 2(5) Some i(2) by (cases "rm_ids st") simp_all
    also have "\<dots> = walked leaf da ga ctx ls ts st2"
    proof (rule 2(2) [OF _ d(2)])
      show "list_all (tree_in okc) (fill ctx (ls @ ts))" using fill_in [OF 2(3), of "ls @ ts"] ins by simp
      have "prune (ids_of st2) ts = prune ?R ts" using prune_cong [of ts "ids_of st2" ?R] d(3) i(1) by (auto simp: st2_def)
      then show "fill ctx (ls @ prune (ids_of st2) ts) \<noteq> []" using 2(8) unfolding gone by simp
      show "int (p + node_size leaf (to_pm ?b)) - rm_size st2 = int (hole leaf ctx + tsize leaf ls)" if "ts \<noteq> []"
        using fill_size [OF leaf, of "ls @ ?b # ts" "ls @ ts" ctx] that pos by (simp add: st2_def)
    qed (simp_all add: st2_def)
    also have "\<dots> = walked leaf da ga ctx ls (?b # ts) st"
    proof -
      have "prune (ids_of st2) ts = prune ?R ts" "topmost (ids_of st2) ts = topmost ?R ts"
        using prune_cong [of ts "ids_of st2" ?R] d(3) i(1) by (auto simp: st2_def)
      then show ?thesis
        unfolding walked_def gone by (simp add: st2_def removeAll_filter_not_eq) (auto intro: filter_cong)
    qed
    finally show ?thesis .
  next
    case None
    then have notin: "get_attr as ''id'' \<notin> ?R" using wanted_iff(1) by (simp add: tid_def)
    let ?b' = "TBlock as c g (prune ?R ks)" and ?ctx = "(as, c, g, ls, ts) # ctx"
    define st1 where "st1 = walked leaf da ga ?ctx [] ks st"
    have kept: "prune ?R (?b # ts) = ?b' # prune ?R ts" "topmost ?R (?b # ts) = topmost ?R ks @ topmost ?R ts" using notin by simp_all
    have "plain c" using ins by simp
    then have "remove_walk leaf T (map to_pm (?b # ts)) p st = remove_walk leaf T (map to_pm ts) (p + node_size leaf (to_pm ?b))
        (remove_walk leaf T (map to_pm ks) (p + node_size leaf c + 2) st)" by (rule walk_block [OF leaf 2(5) None])
    also have "remove_walk leaf T (map to_pm ks) (p + node_size leaf c + 2) st = st1"
      unfolding st1_def using 2(3,6) pos by (intro 2(1) [OF _ d(1) 2(5)]) (simp_all add: fill_ne)
    also have "remove_walk leaf T (map to_pm ts) (p + node_size leaf (to_pm ?b)) st1 = walked leaf da ga ctx (ls @ [?b']) ts st1"
    proof (rule 2(2) [OF _ d(2)])
      have "list_all (tree_in okc) (prune ?R ks)" using ins by (intro prune_in) simp
      then show "list_all (tree_in okc) (fill ctx ((ls @ [?b']) @ ts))" using ins by (intro fill_in [OF 2(3)]) simp
      show "int (p + node_size leaf (to_pm ?b)) - rm_size st1 = int (hole leaf ctx + tsize leaf (ls @ [?b']))"
        using fill_size [OF leaf, of "ls @ ?b # ts" "ls @ ?b' # ts" ctx] pos by (simp add: st1_def walked_def)
    qed (simp_all add: st1_def walked_def fill_ne)
    also have "\<dots> = walked leaf da ga ctx ls (?b # ts) st"
    proof -
      have "ids_of st1 = ?R - set (topmost ?R ks)" by (auto simp: st1_def walked_def)
      then have "prune (ids_of st1) ts = prune ?R ts" "topmost (ids_of st1) ts = topmost ?R ts"
        using prune_cong [of ts "ids_of st1" ?R] d(4) topmost_ids [of ?R ks] by (auto simp: disjoint_iff)
      then show ?thesis unfolding walked_def kept by (simp add: st1_def walked_def)
    qed
    finally show ?thesis .
  qed
qed

section \<open>Updating\<close>

text \<open>The specification: what is given replaces what the block has, and the attributes are added to.\<close>

definition updated_content :: "pm_schema \<Rightarrow> string option \<Rightarrow> attrs \<Rightarrow> pm_node list option \<Rightarrow> pm_node \<Rightarrow> pm_node" where
  "updated_content S type props content c =
     (let k = (case known_type S type of None \<Rightarrow> type_name c | Some t \<Rightarrow> t)
      in PNode k (s_attrs S k (obj_spread (node_attrs c) props)) (case content of None \<Rightarrow> child_nodes c | Some ns \<Rightarrow> s_fragment S ns) (pm_marks c))"

fun updated :: "pm_schema \<Rightarrow> string option \<Rightarrow> attrs \<Rightarrow> pm_node list option \<Rightarrow> btree list \<Rightarrow> btree \<Rightarrow> btree" where
  "updated S type props content new (TBlock as c g ks) = TBlock (s_attrs S ''blockContainer'' (obj_spread as props))
     (updated_content S type props content c) (if new \<noteq> [] \<and> ks = [] then s_attrs S ''blockGroup'' [] else g) (if new = [] then ks else new)"

lemma replace_call:
  assumes "transform_laws leaf S okc T" "valid_doc okc doc" "valid_doc okc doc'" "edited leaf keep a (replace_nodes leaf a b new) doc = Some doc'"
  shows "tr_replace T doc a b new = Inr doc'"
  using assms unfolding transform_laws_def by blast

lemma markup_call:
  assumes "transform_laws leaf S okc T" "valid_doc okc doc" "valid_doc okc doc'" "edited leaf keep a (mark_node S type as) doc = Some doc'"
  shows "tr_setNodeMarkup T doc a type as = Inr doc'"
  using assms unfolding transform_laws_def by blast

lemma drop_all: "\<forall>n \<in> set ns. 0 < node_size leaf n \<Longrightarrow> drop_to leaf (p + total_size leaf ns) ns p = Some []"
proof (induction ns arbitrary: p)
  case (Cons n ns)
  then show ?case using Cons.IH [of "p + node_size leaf n"] by (simp add: add.assoc)
qed simp

lemma replace_children:
  assumes laws: "transform_laws leaf S okc T" and ok: "list_all (tree_in okc) (fill ctx (ls @ TBlock as c g ks # rs))"
    and new: "new \<noteq> []" "list_all (tree_in okc) new" "ks \<noteq> []" and q: "q = hole leaf ctx + tsize leaf ls"
  shows "tr_replace T (tree_doc da ga (fill ctx (ls @ TBlock as c g ks # rs))) (q + node_size leaf c + 2) (q + node_size leaf c + 2 + tsize leaf ks) (map to_pm new)
    = Inr (tree_doc da ga (fill ctx (ls @ TBlock as c g new # rs)))"
proof -
  let ?ctx = "(as, c, g, ls, rs) # ctx" and ?a = "q + node_size leaf c + 2"
  have leaf: "inner_types leaf" using laws by (simp add: transform_laws_def)
  have "tree_in okc (TBlock as c g ks)" "tree_in okc (TBlock as c g new)" using frames_ok [OF ok] new(2) by simp_all
  note v = block_valid(1) [OF ok this(1)] block_valid(1) [OF ok this(2)]
  have "drop_to leaf (?a + tsize leaf ks) (map to_pm ks) ?a = Some []" by (rule drop_all) (auto simp: node_size_pos)
  then have "edited leaf keep (hole leaf ?ctx + tsize leaf []) (replace_nodes leaf ?a (?a + tsize leaf ks) (map to_pm new)) (tree_doc da ga (fill ?ctx ([] @ ks)))
      = Some (tree_doc da ga (fill ?ctx ([] @ new)))"
    by (intro edited_siblings [OF leaf]) (use ok new in \<open>simp_all add: replace_nodes_def fill_ne\<close>)
  then show ?thesis using replace_call [OF laws v] q by (simp add: add.assoc)
qed

lemma replace_content:
  assumes laws: "transform_laws leaf S okc T" and ok: "list_all (tree_in okc) (fill ctx (ls @ TBlock as c g ks # rs))"
    and c: "\<not> leaf (type_name c)" "\<forall>n \<in> set (child_nodes c). 0 < node_size leaf n"
    and ns: "tree_in okc (TBlock as (with_children c ns) g ks)" and q: "q = hole leaf ctx + tsize leaf ls"
  shows "tr_replace T (tree_doc da ga (fill ctx (ls @ TBlock as c g ks # rs))) (q + 2) (Suc q + node_size leaf c - 1) ns
    = Inr (tree_doc da ga (fill ctx (ls @ TBlock as (with_children c ns) g ks # rs)))"
proof -
  let ?b = "TBlock as c g ks" and ?e = "Suc q + node_size leaf c - 1"
  let ?rest = "if ks = [] then [] else [PNode ''blockGroup'' g (map to_pm ks) []]"
  have leaf: "inner_types leaf" using laws by (simp add: transform_laws_def)
  have b: "tree_in okc ?b" using frames_ok [OF ok] by simp
  then have size: "node_size leaf c = total_size leaf (child_nodes c) + 2" "\<not> is_PText c" using c(1) by (cases c; simp)+
  have "drop_to leaf (q + 2 + total_size leaf (child_nodes c)) (child_nodes c) (q + 2) = Some []" by (rule drop_all [OF c(2)])
  then have "replace_nodes leaf (q + 2) ?e ns (child_nodes c) = Some ns" using size(1) by (simp add: replace_nodes_def)
  then have "edit_at leaf keep (q + 2) (replace_nodes leaf (q + 2) ?e ns) (c # ?rest) (Suc q) = Some (with_children c ns # ?rest)"
    using size by (subst edit_at.simps) (simp add: edit_here [of leaf keep "Suc (Suc q)", simplified] keep_def)
  then have "edited leaf keep (q + 2) (replace_nodes leaf (q + 2) ?e ns) (tree_doc da ga (fill ctx (ls @ ?b # rs)))
      = Some (tree_doc da ga (fill ctx (ls @ TBlock as (with_children c ns) g ks # rs)))"
    using block_size [OF leaf, of as c g ks] size(1)
    by (intro edited_inside [OF leaf ok q]) (simp_all add: to_pm.simps)
  from replace_call [OF laws block_valid(1) [OF ok b] block_valid(1) [OF ok ns] this] show ?thesis .
qed

lemma mark_content:
  assumes laws: "transform_laws leaf S okc T" and ok: "list_all (tree_in okc) (fill ctx (ls @ TBlock as c g ks # rs))"
    and c': "mark_node S type at [c] = Some [c']" "tree_in okc (TBlock as c' g ks)" and q: "q = hole leaf ctx + tsize leaf ls"
  shows "tr_setNodeMarkup T (tree_doc da ga (fill ctx (ls @ TBlock as c g ks # rs))) (Suc q) type at
    = Inr (tree_doc da ga (fill ctx (ls @ TBlock as c' g ks # rs)))"
proof -
  let ?b = "TBlock as c g ks" and ?rest = "if ks = [] then [] else [PNode ''blockGroup'' g (map to_pm ks) []]"
  have leaf: "inner_types leaf" using laws by (simp add: transform_laws_def)
  have b: "tree_in okc ?b" using frames_ok [OF ok] by simp
  have "mark_node S type at (c # ?rest) = Some (c' # ?rest)" using c'(1) by (auto simp: mark_node_def Let_def split: pm_node.splits)
  then have "edited leaf keep (Suc q) (mark_node S type at) (tree_doc da ga (fill ctx (ls @ ?b # rs)))
      = Some (tree_doc da ga (fill ctx (ls @ TBlock as c' g ks # rs)))"
    using block_size [OF leaf, of as c g ks]
    by (intro edited_inside [OF leaf ok q, of _ _ "c' # ?rest"]) (simp_all add: edit_here to_pm.simps del: edit_at.simps)
  from markup_call [OF laws block_valid(1) [OF ok b] block_valid(1) [OF ok c'(2)] this] show ?thesis .
qed

lemma mark_container:
  assumes laws: "transform_laws leaf S okc T" and ok: "list_all (tree_in okc) (fill ctx (ls @ TBlock as c g ks # rs))"
    and q: "q = hole leaf ctx + tsize leaf ls"
  shows "tr_setNodeMarkup T (tree_doc da ga (fill ctx (ls @ TBlock as c g ks # rs))) q None at
    = Inr (tree_doc da ga (fill ctx (ls @ TBlock (s_attrs S ''blockContainer'' at) c g ks # rs)))"
proof -
  let ?b = "TBlock as c g ks" and ?b' = "TBlock (s_attrs S ''blockContainer'' at) c g ks"
  have leaf: "inner_types leaf" using laws by (simp add: transform_laws_def)
  have b: "tree_in okc ?b" "tree_in okc ?b'" using frames_ok [OF ok] by simp_all
  have "edited leaf keep q (mark_node S None at) (tree_doc da ga (fill ctx (ls @ ?b # rs))) = Some (tree_doc da ga (fill ctx (ls @ ?b' # rs)))"
    unfolding q by (rule edited_siblings [OF leaf _ ok]) (simp_all add: mark_node_def to_pm.simps fill_ne Let_def)
  from markup_call [OF laws block_valid(1) [OF ok b(1)] block_valid(1) [OF ok b(2)] this] show ?thesis .
qed

lemma update_core:
  assumes laws: "transform_laws leaf S okc T" "schema_laws S" and ok: "ts \<noteq> []" "list_all (tree_in okc) ts"
    and new: "map_ids (blockToNode S gen) (pb_children update) 0 = Inr (map to_pm new, k)" "list_all (tree_in okc) new" "new = [] \<longleftrightarrow> pb_children update = []"
    and first: "first_at leaf (JStr i) ts 1 = Some (TBlock as c g ks, q)"
    and content: "given_content S (pb_content update) = Inr content"
    and ns: "\<And>ns. content = Some ns \<Longrightarrow> \<not> leaf (type_name c) \<and> (\<forall>n \<in> set (child_nodes c). 0 < node_size leaf n) \<and>
      okc (with_children c (s_fragment S ns)) \<and> list_all plain (s_fragment S ns)"
    and c': "okc (updated_content S (pb_type update) (pb_props update) content c)" "plain (updated_content S (pb_type update) (pb_props update) content c)"
  shows "updateBlock leaf S gen T i update (tree_doc da ga ts) =
    Inr (tree_doc da ga (upd_first (JStr i) (\<lambda>b. [updated S (pb_type update) (pb_props update) content new b]) ts))"
proof -
  let ?b = "TBlock as c g ks" and ?t = "pb_type update" and ?p = "pb_props update"
  have leaf: "inner_types leaf" "resolve_law leaf (tr_resolve T)" using laws(1) by (simp_all add: transform_laws_def)
  obtain ctx ls rs where at: "q = hole leaf ctx + tsize leaf ls" "ts = fill ctx (ls @ ?b # rs)"
    "\<And>f. upd_first (JStr i) f ts = fill ctx (ls @ f ?b @ rs)"
    using first_split [OF first, of "[]" "[]"] by auto
  define D where "D b = tree_doc da ga (fill ctx (ls @ b # rs))" for b
  define gg where "gg = (if new \<noteq> [] \<and> ks = [] then s_attrs S ''blockGroup'' [] else g)"
  define kk where "kk = (if new = [] then ks else new)"
  define c1 where "c1 = (case content of None \<Rightarrow> c | Some ns \<Rightarrow> with_children c (s_fragment S ns))"
  have ok0: "list_all (tree_in okc) (fill ctx (ls @ ?b # rs))" using ok(2) at(2) by simp
  have b: "okc c" "plain c" "\<not> is_PText c" "list_all (tree_in okc) ks" using frames_ok [OF ok0] by simp_all
  have kk: "list_all (tree_in okc) kk" using b(4) new(2) by (simp add: kk_def)
  have node: "getNodeById leaf i (D ?b) = Inr (to_pm ?b, q)"
    using getNodeById_tree [OF leaf(1) trees_in_ok [OF ok(2)]] first at(2) by (simp add: D_def)
  have "find (\<lambda>(b, q). tid b = JStr i) (bpos leaf ts 1) = Some (?b, q)" by (rule first)
  then have "(?b, q) \<in> set (bpos leaf ts 1)" using find_SomeD' by metis
  from block_start_info [OF leaf(2,1) trees_in_ok [OF ok(2)] this, of da ga]
  obtain d where info: "getBlockInfoFromPos leaf (tr_resolve T) (D ?b) (Suc q) = Inr (info_of leaf (?b, Suc q, d))" using at(2) by (auto simp: D_def)
  let ?i = "info_of leaf (?b, Suc q, d)"
  have i: "bp_startPos ?i = Suc q" "bi_contentNode ?i = c" "bp_node ?i = to_pm ?b" "bp_endPos ?i = Suc q + (node_size leaf (to_pm ?b) - 2)"
    by (simp_all add: info_of_def)
  have 1: "update_children leaf S gen T ?i (pb_children update) (D ?b) = Inr (D (TBlock as c gg kk))"
  proof (cases "new = []")
    case True
    then show ?thesis using new(3) by (simp add: update_children_def kk_def gg_def)
  next
    case False
    have frag: "s_fragment S (map to_pm new) = map to_pm new" by (rule no_text_fragment [OF laws(2)]) auto
    show ?thesis
    proof (cases "ks = []")
      case True
      have "list_all (tree_in okc) (fill ctx (ls @ TBlock as c g [] # rs))" using ok0 True by simp
      from insert_group [OF laws(1) this False new(2) at(1), where gg = gg] show ?thesis
        using True False new(1,3) frag
        by (simp add: update_children_def info_of_def D_def kk_def gg_def schema_create_def schema_lawsD(3) [OF laws(2)])
    next
      case ks: False
      have "Suc q + (node_size leaf (to_pm ?b) - 2) - 1 = q + node_size leaf c + 2 + tsize leaf ks"
        using block_size [OF leaf(1), of as c g ks] ks by simp
      with replace_children [OF laws(1) ok0 False new(2) ks at(1)] show ?thesis
        using ks False new(1,3) frag by (simp add: update_children_def i D_def kk_def gg_def add.assoc)
    qed
  qed
  have ok1: "list_all (tree_in okc) (fill ctx (ls @ TBlock as c gg kk # rs))" using b kk by (intro block_valid(2) [OF ok0]) simp
  have "tree_in okc (TBlock as c1 gg kk)"
    using b kk ns by (cases c; cases content) (auto simp: c1_def)
  then have ok2: "list_all (tree_in okc) (fill ctx (ls @ TBlock as c1 gg kk # rs))" and t2: "tree_in okc (TBlock as c1 gg kk)"
    using block_valid(2) [OF ok0] by blast+
  have 2: "update_content leaf S T ?i (pb_content update) (D (TBlock as c gg kk)) = Inr (D (TBlock as c1 gg kk))"
  proof (cases content)
    case None
    then show ?thesis using content by (simp add: update_content_def c1_def)
  next
    case (Some ms)
    have "tree_in okc (TBlock as (with_children c (s_fragment S ms)) gg kk)" using t2 Some by (simp add: c1_def)
    from replace_content [OF laws(1) ok1 _ _ this at(1)] ns [OF Some] content Some show ?thesis
      by (simp add: update_content_def i D_def c1_def)
  qed
  let ?c2 = "updated_content S ?t ?p content c"
  have "mark_node S (known_type S ?t) (obj_spread (node_attrs c) ?p) [c1] = Some [?c2]"
    using b(3) by (cases c; cases content) (simp_all add: c1_def mark_node_def updated_content_def Let_def split: option.split)
  moreover have t3: "tree_in okc (TBlock as ?c2 gg kk)" using c' kk by (simp add: updated_content_def Let_def)
  ultimately have 3: "tr_setNodeMarkup T (D (TBlock as c1 gg kk)) (Suc q) (known_type S ?t) (obj_spread (node_attrs c) ?p) = Inr (D (TBlock as ?c2 gg kk))"
    unfolding D_def by (intro mark_content [OF laws(1) ok2 _ _ at(1)])
  have 4: "tr_setNodeMarkup T (D (TBlock as ?c2 gg kk)) q None (obj_spread as ?p) = Inr (D (updated S ?t ?p content new ?b))"
    using mark_container [OF laws(1) block_valid(2) [OF ok0 t3] at(1), of da ga "obj_spread as ?p"] by (simp add: D_def gg_def kk_def)
  have "updateBlock leaf S gen T i update (D ?b) = Inr (D (updated S ?t ?p content new ?b))"
    using node info 1 2 3 4 by (simp add: updateBlock_def BNUpdateBlock_def i)
  then show ?thesis unfolding D_def at(2) [symmetric] at(3) by simp
qed

section \<open>Properties\<close>

text \<open>
  C17. Inserting puts the new blocks, made into nodes, right before or after the first block with the id, or in
  front of its children, at whatever depth it is; without such a block nothing is inserted and the error
  says so.
\<close>

theorem insertBlocks_inserts:
  assumes "transform_laws leaf S okc T" and "schema_laws S" and "ts \<noteq> []" and "list_all (tree_in okc) ts"
    and "list_all (insertable S okc) bs" and "placement = Nested \<longrightarrow> bs \<noteq> []"
  shows "\<exists>new k. map_ids (blockToNode S gen) bs 0 = Inr (map to_pm new, k) \<and>
    insertBlocks leaf S gen T bs i placement (tree_doc da ga ts) =
      (if JStr i \<in> set (all_ids ts) then Inr (tree_doc da ga (upd_first (JStr i) (place S placement new) ts))
       else Inl (Error ''Could not find block in the editor with matching ID.''))"
proof -
  have leaf: "inner_types leaf" using assms(1) by (simp add: transform_laws_def)
  obtain new k where new: "map_ids (blockToNode S gen) bs 0 = Inr (map to_pm new, k)" "list_all (tree_in okc) new" "new = [] \<longleftrightarrow> bs = []"
    using blocks_become_trees [OF assms(2,5)] by blast
  show ?thesis
  proof (cases "first_at leaf (JStr i) ts 1")
    case None
    then have "JStr i \<notin> set (all_ids ts)" using first_none by blast
    then show ?thesis
      using new(1) getNodeById_tree [OF leaf trees_in_ok [OF assms(4)], of i da ga] None
      by (intro exI [of _ new] exI [of _ k]) (simp add: insertBlocks_def)
  next
    case (Some r)
    obtain b q where r: "r = (b, q)" by (cases r)
    have "JStr i \<in> set (all_ids ts)" using Some first_none by (metis option.distinct(1))
    moreover have "placement = Nested \<Longrightarrow> new \<noteq> []" using new(3) assms(6) by simp
    moreover from insert_core [OF assms(1-4) new(1,2) this Some [unfolded r]]
    have "insertBlocks leaf S gen T bs i placement (tree_doc da ga ts) = Inr (tree_doc da ga (upd_first (JStr i) (place S placement new) ts))" .
    ultimately show ?thesis using new(1) by (intro exI [of _ new] exI [of _ k]) simp
  qed
qed

text \<open>
  C16. Removing works on positions that shift with every block that goes, and still takes out exactly the blocks
  with the ids, each with all below it. The ids that it does not meet are an error, raised after the rest is
  removed: those of no block, and those of blocks below one that went.
\<close>

theorem removeBlocks_prunes:
  assumes "transform_laws leaf S okc T" and "list_all (tree_in okc) ts" and "distinct (all_ids ts)"
    and "prune (JStr ` set is) ts \<noteq> []"
  shows "removeBlocks leaf T is (tree_doc da ga ts) = (tree_doc da ga (prune (JStr ` set is) ts),
    case filter (\<lambda>i. JStr i \<notin> set (topmost (JStr ` set is) ts)) (set_add_all [] is) of
      [] \<Rightarrow> None
    | missing \<Rightarrow> Some (Error (''Blocks with the following IDs could not be found in the editor: '' @ join [CHR 0x0A] missing)))"
proof -
  let ?st = "\<lparr>rm_ids = set_add_all [] is, rm_size = 0, rm_doc = tree_doc da ga ts, rm_error = None\<rparr>"
  let ?G = "PNode ''blockGroup'' ga (map to_pm ts) []"
  have "remove_walk leaf T [?G] 0 ?st = remove_walk leaf T (map to_pm ts) 1 ?st"
    by (cases "is") (simp_all add: wanted_def walk_nothing)
  also have "\<dots> = walked leaf da ga [] [] ts ?st"
    using assms(2-4) by (intro walk_prunes [OF assms(1)]) simp_all
  finally show ?thesis by (simp add: removeBlocks_def tree_doc_def walked_def split: list.split)
qed

text \<open>
  Replacing puts the new blocks in the place of the first block and takes out all the old ones, when the new
  ones have other ids.
\<close>

theorem replaceBlocks_replaces:
  assumes "transform_laws leaf S okc T" and "schema_laws S" and "ts \<noteq> []" and "list_all (tree_in okc) ts"
    and "list_all (insertable S okc) bs" and "JStr i \<in> set (all_ids ts)"
    and new: "map_ids (blockToNode S gen) bs 0 = Inr (map to_pm new, k)"
    and ids: "distinct (all_ids (upd_first (JStr i) (\<lambda>b. new @ [b]) ts))"
    and left: "prune (JStr ` set (i # is)) (upd_first (JStr i) (\<lambda>b. new @ [b]) ts) \<noteq> []"
  shows "fst (replaceBlocks leaf S gen T (i # is) bs (tree_doc da ga ts)) =
    tree_doc da ga (prune (JStr ` set (i # is)) (upd_first (JStr i) (\<lambda>b. new @ [b]) ts))"
proof -
  have leaf: "inner_types leaf" using assms(1) by (simp add: transform_laws_def)
  obtain new' k' where new': "map_ids (blockToNode S gen) bs 0 = Inr (map to_pm new', k')" "list_all (tree_in okc) new'"
    using blocks_become_trees [OF assms(2,5)] by blast
  have same: "map to_pm new = map to_pm new'" using new new'(1) by simp
  obtain b q where first: "first_at leaf (JStr i) ts 1 = Some (b, q)"
    using assms(6) first_none by (metis not_None_eq prod.exhaust)
  have ok: "list_all (tree_in okc) new" by (rule same_nodes_in [OF same new'(2)])
  let ?ts = "upd_first (JStr i) (place S Before new) ts"
  have "insertBlocks leaf S gen T bs i Before (tree_doc da ga ts) = Inr (tree_doc da ga ?ts)"
    by (rule insert_core [OF assms(1-4) new ok _ first]) simp
  moreover have "place S Before new = (\<lambda>b. new @ [b])" by (simp add: fun_eq_iff)
  moreover have "list_all (tree_in okc) ?ts"
  proof -
    obtain ctx ls rs where at: "ts = fill ctx (ls @ b # rs)" "\<And>f. upd_first (JStr i) f ts = fill ctx (ls @ f b @ rs)"
      using first_split [OF first, of "[]" "[]"] by auto
    have "list_all (tree_in okc) (ls @ place S Before new b @ rs)" using frames_ok [of okc ctx "ls @ b # rs"] assms(4) ok at(1) by simp
    then show ?thesis unfolding at(2) using assms(4) at(1) fill_in [of okc ctx "ls @ b # rs"] by simp
  qed
  ultimately show ?thesis
    using removeBlocks_prunes [OF assms(1), of "upd_first (JStr i) (\<lambda>b. new @ [b]) ts" "i # is" da ga] ids left
    by (simp add: replaceBlocks_def)
qed

text \<open>
  C18. Updating changes the first block with the id and nothing else: given props are added to the attributes of
  the container and of its content, a known type, a content and a list of children that is not empty replace
  what is there.
\<close>

theorem updateBlock_updates:
  assumes "transform_laws leaf S okc T" and "schema_laws S" and "ts \<noteq> []" and "list_all (tree_in okc) ts"
    and "list_all (insertable S okc) (pb_children update)" and "given_content S (pb_content update) = Inr content"
    and "first_at leaf (JStr i) ts 1 = Some (b, q)"
    and "\<forall>ns. content = Some ns \<longrightarrow> \<not> leaf (type_name (t_content b)) \<and> (\<forall>n \<in> set (child_nodes (t_content b)). 0 < node_size leaf n) \<and>
      okc (with_children (t_content b) (s_fragment S ns)) \<and> list_all plain (s_fragment S ns)"
    and "okc (updated_content S (pb_type update) (pb_props update) content (t_content b))"
    and "plain (updated_content S (pb_type update) (pb_props update) content (t_content b))"
  shows "\<exists>new k. map_ids (blockToNode S gen) (pb_children update) 0 = Inr (map to_pm new, k) \<and>
    updateBlock leaf S gen T i update (tree_doc da ga ts) =
      Inr (tree_doc da ga (upd_first (JStr i) (\<lambda>b. [updated S (pb_type update) (pb_props update) content new b]) ts))"
proof -
  obtain as c g ks where b: "b = TBlock as c g ks" by (cases b)
  obtain new k where new: "map_ids (blockToNode S gen) (pb_children update) 0 = Inr (map to_pm new, k)" "list_all (tree_in okc) new"
    "new = [] \<longleftrightarrow> pb_children update = []"
    using blocks_become_trees [OF assms(2,5)] by blast
  have "updateBlock leaf S gen T i update (tree_doc da ga ts) =
      Inr (tree_doc da ga (upd_first (JStr i) (\<lambda>b. [updated S (pb_type update) (pb_props update) content new b]) ts))"
    using assms(8-10) by (intro update_core [OF assms(1-4) new assms(7) [unfolded b] assms(6)]) (simp_all add: b)
  with new(1) show ?thesis by blast
qed

section \<open>Samples\<close>

text \<open>Calls that do what the laws say.\<close>

definition or_fail :: "pm_node option \<Rightarrow> pm_node result" where
  "or_fail d = (case d of None \<Rightarrow> Inl (Error ''invalid content'') | Some doc \<Rightarrow> Inr doc)"

definition sample_transforms :: transforms where
  "sample_transforms = \<lparr>tr_resolve = path_resolve sample_leaf,
     tr_insert = (\<lambda>doc a new. or_fail (edited sample_leaf keep a (put_nodes new) doc)),
     tr_replace = (\<lambda>doc a b new. or_fail (edited sample_leaf keep a (replace_nodes sample_leaf a b new) doc)),
     tr_deleteRange = (\<lambda>doc a b. or_fail (edited sample_leaf shrink (a - 1) (cut_container sample_leaf (b - a + 2)) doc)),
     tr_setNodeMarkup = (\<lambda>doc a type as. or_fail (edited sample_leaf keep a (mark_node sample_schema type as) doc))\<rparr>"

lemma cut_container_size: "cut_container leaf m ns = Some d \<Longrightarrow> \<not> leaf ''blockContainer'' \<Longrightarrow> 2 \<le> m"
  by (cases ns; cases "hd ns") (auto simp: cut_container_def split: if_splits)

lemma edit_cut_size: "edit_at leaf r a (cut_container leaf m) ns p = Some d \<Longrightarrow> \<not> leaf ''blockContainer'' \<Longrightarrow> 2 \<le> m"
  by (induction leaf r a "cut_container leaf m" ns p arbitrary: d rule: edit_at.induct)
    (auto split: if_splits dest: cut_container_size)

lemma cut_size: "edited leaf shrink a (cut_container leaf m) doc = Some d \<Longrightarrow> \<not> leaf ''blockContainer'' \<Longrightarrow> 2 \<le> m"
  by (auto simp: edited_def dest: edit_cut_size)

lemma sample_transform_laws: "transform_laws sample_leaf sample_schema okc sample_transforms"
proof -
  have "tr_deleteRange sample_transforms doc (a + 1) (a + m - 1) = Inr doc'"
    if "edited sample_leaf shrink a (cut_container sample_leaf m) doc = Some doc'" for doc doc' a m
  proof -
    have "2 \<le> m" using cut_size [OF that] by (simp add: sample_leaf_def)
    then have "a + m - 1 - (a + 1) + 2 = m" by simp
    with that show ?thesis by (simp add: sample_transforms_def or_fail_def)
  qed
  then show ?thesis
    unfolding transform_laws_def using sample_tree_facts(1) path_resolve_law
    by (auto simp: sample_transforms_def or_fail_def)
qed

definition sample_new :: "partial_block list" where
  "sample_new = [PartialBlock (Some ''n'') None [] (StringContent ''new'') []]"

lemma sample_tree_in: "list_all (tree_in (\<lambda>c. True)) sample_trees"
  by (simp add: sample_trees_def)

lemma sample_insertable: "list_all (insertable sample_schema (\<lambda>c. True)) sample_new"
  by (simp add: sample_new_def pb_typename_def)

definition sample_id :: "nat \<Rightarrow> string" where
  "sample_id k = ''r'' @ show_nat k"

theorem insertBlocks_inserts_witness:
  "\<exists>new k. map_ids (blockToNode sample_schema sample_id) sample_new 0 = Inr (map to_pm new, k) \<and>
    insertBlocks sample_leaf sample_schema sample_id sample_transforms sample_new ''b'' After (tree_doc [] [] sample_trees) =
      Inr (tree_doc [] [] (upd_first (JStr ''b'') (place sample_schema After new) sample_trees))"
proof -
  have "JStr ''b'' \<in> set (all_ids sample_trees)" by (simp add: sample_trees_def get_attr_def)
  then show ?thesis
    using insertBlocks_inserts [OF sample_transform_laws sample_schema_laws sample_tree_facts(3) sample_tree_in sample_insertable,
        of After sample_id "''b''" "[]" "[]"] by simp
qed

theorem removeBlocks_prunes_witness:
  "removeBlocks sample_leaf sample_transforms [''b'', ''x''] (tree_doc [] [] sample_trees) =
     (tree_doc [] [] [TBlock [(''id'', JStr ''a'')] (PNode ''paragraph'' [] [PText ''xy'' []] []) [(''listType'', JStr ''div'')] []],
      Some (Error ''Blocks with the following IDs could not be found in the editor: x''))"
proof -
  have "distinct (all_ids sample_trees)" "prune (JStr ` set [''b'', ''x'']) sample_trees \<noteq> []"
    by (simp_all add: sample_trees_def get_attr_def)
  from removeBlocks_prunes [OF sample_transform_laws sample_tree_in this, of "[]" "[]"] show ?thesis
    by (simp add: sample_trees_def get_attr_def set_add_def)
qed

theorem replaceBlocks_replaces_witness:
  "\<exists>new k. map_ids (blockToNode sample_schema sample_id) sample_new 0 = Inr (map to_pm new, k) \<and>
    fst (replaceBlocks sample_leaf sample_schema sample_id sample_transforms [''b''] sample_new (tree_doc [] [] sample_trees)) =
      tree_doc [] [] (prune {JStr ''b''} (upd_first (JStr ''b'') (\<lambda>b. new @ [b]) sample_trees))"
proof -
  let ?n = "TBlock [(''id'', JStr ''n'')] (PNode ''paragraph'' [] [PText ''new'' []] []) [] []"
  have new: "map_ids (blockToNode sample_schema sample_id) sample_new 0 = Inr (map to_pm [?n], 0)"
    by (simp add: sample_new_def content_node_def schema_create_def schema_text_def sample_attrs_def to_pm.simps)
  have "JStr ''b'' \<in> set (all_ids sample_trees)" "distinct (all_ids (upd_first (JStr ''b'') (\<lambda>b. [?n] @ [b]) sample_trees))"
    "prune (JStr ` set [''b'']) (upd_first (JStr ''b'') (\<lambda>b. [?n] @ [b]) sample_trees) \<noteq> []"
    by (simp_all add: sample_trees_def get_attr_def)
  from replaceBlocks_replaces [OF sample_transform_laws sample_schema_laws sample_tree_facts(3) sample_tree_in sample_insertable
      this(1) new this(2,3), of "[]" "[]"] new show ?thesis
    by (intro exI [of _ "[?n]"] exI [of _ 0]) simp
qed

definition sample_update :: partial_block where
  "sample_update = PartialBlock None (Some ''heading'') [(''level'', JStr ''2'')] (StringContent ''T'') []"

theorem updateBlock_updates_witness:
  "\<exists>new k. map_ids (blockToNode sample_schema sample_id) (pb_children sample_update) 0 = Inr (map to_pm new, k) \<and>
    updateBlock sample_leaf sample_schema sample_id sample_transforms ''a'' sample_update (tree_doc [] [] sample_trees) =
      Inr (tree_doc [] [] (upd_first (JStr ''a'') (\<lambda>b. [updated sample_schema (Some ''heading'') [(''level'', JStr ''2'')] (Some [PText ''T'' []]) new b]) sample_trees))"
proof -
  let ?a = "hd sample_trees"
  have content: "given_content sample_schema (pb_content sample_update) = Inr (Some [PText ''T'' []])"
    by (simp add: sample_update_def given_content_def schema_text_def)
  have first: "first_at sample_leaf (JStr ''a'') sample_trees 1 = Some (?a, 1)"
    by (simp add: sample_trees_def tid_def get_attr_def)
  have "list_all (insertable sample_schema (\<lambda>c. True)) (pb_children sample_update)" by (simp add: sample_update_def)
  from updateBlock_updates [OF sample_transform_laws sample_schema_laws sample_tree_facts(3) sample_tree_in this content first,
      of sample_id "[]" "[]"] show ?thesis
    by (simp add: sample_trees_def sample_update_def sample_leaf_def updated_content_def known_type_def Let_def)
qed

end
