(* ===== verification/Group_Calls.thy ===== *)
theory Group_Calls
  imports Drafts Timeline
begin

text \<open>
  Groups (\<^verbatim>\<open>frontend/packages/app/models/groups.ts\<close>): the calls to the daemon that create a
  group, change its members and its content and publish a new version of its navigation document,
  and what the queries make of the answers.

  An action returns its result, or the error that ended it, and the calls it has made. The daemon is
  an argument: each answer may depend on all the calls before it. What a change of a group means
  (\<open>apply_update\<close>) is in the protocol file for groups.
\<close>

section \<open>Calls\<close>

datatype role = ROLE_UNSPECIFIED | OWNER | EDITOR

record group_update =
  gu_id :: string
  gu_title :: "string option"
  gu_description :: "string option"
  gu_members :: "(string \<times> role) list option"
  gu_content :: "(string \<times> string) list option"
  gu_siteSetupUrl :: "string option"

definition update_of :: "string \<Rightarrow> group_update" where
  "update_of i = \<lparr>gu_id = i, gu_title = None, gu_description = None, gu_members = None,
     gu_content = None, gu_siteSetupUrl = None\<rparr>"

datatype daemon_call =
  ListContent string
| CreateGroup string "string option"
| UpdateGroup group_update
| DeleteDraft "string option"
| CreateDraft "string option" "string option"
| UpdateDraft string "document_change list"
| PublishDraft string

text \<open>A draft is answered with its id, a publication with its document, if any, and its version.\<close>

record draft_answer =
  da_id :: string
  da_document :: "hm_document option"

record publish_answer =
  pa_document :: "string option"
  pa_version :: string

record daemon =
  listContent :: "daemon_call list \<Rightarrow> (string \<times> string) list result"
  createGroup :: "daemon_call list \<Rightarrow> string result"
  updateGroup :: "daemon_call list \<Rightarrow> unit result"
  deleteDraft :: "daemon_call list \<Rightarrow> unit result"
  createDraft :: "daemon_call list \<Rightarrow> draft_answer result"
  dm_updateDraft :: "daemon_call list \<Rightarrow> unit result"
  dm_publishDraft :: "daemon_call list \<Rightarrow> publish_answer result"

type_synonym 'a action = "daemon_call list \<Rightarrow> 'a result \<times> daemon_call list"

text \<open>
  Calling: the call goes on the record, the answer is that for the whole record. \<open>await\<close>
  followed by the rest, \<open>return\<close>, \<open>throw\<close>, and a \<open>try\<close> whose handler looks at the error.
\<close>

definition invoke :: "(daemon_call list \<Rightarrow> 'a result) \<Rightarrow> daemon_call \<Rightarrow> 'a action" where
  "invoke ans c past = (ans (past @ [c]), past @ [c])"

definition await :: "'a action \<Rightarrow> ('a \<Rightarrow> 'b action) \<Rightarrow> 'b action" where
  "await m f past = (case m past of (Inl e, past1) \<Rightarrow> (Inl e, past1) | (Inr x, past1) \<Rightarrow> f x past1)"

definition returns :: "'a result \<Rightarrow> 'a action" where
  "returns r past = (r, past)"

definition catching :: "'a action \<Rightarrow> (js_error \<Rightarrow> 'a result) \<Rightarrow> 'a action" where
  "catching m h past = (case m past of (Inl e, past1) \<Rightarrow> (h e, past1) | (Inr x, past1) \<Rightarrow> (Inr x, past1))"

section \<open>Creating and changing groups\<close>

text \<open>\<open>useCreateGroup\<close>. The handler returns the error: the id of the group or the error is the result.\<close>

definition useCreateGroup ::
  "daemon \<Rightarrow> string option \<Rightarrow> string \<Rightarrow> string list option \<Rightarrow> (string \<times> string) list option \<Rightarrow> (js_error + string) action" where
  "useCreateGroup D description title members content =
     catching
       (await (invoke (createGroup D) (CreateGroup title description)) (\<lambda>i.
          if content \<noteq> None \<or> members \<noteq> None
          then await (invoke (updateGroup D) (UpdateGroup ((update_of i)
                 \<lparr>gu_content := content,
                  gu_members := map_option (\<lambda>ms. obj_spread [] (map (\<lambda>m. (m, EDITOR)) ms)) members\<rparr>)))
                 (\<lambda>_. returns (Inr (Inr i)))
          else returns (Inr (Inr i))))
       (\<lambda>e. Inr (Inl e))"

definition useUpdateGroup :: "daemon \<Rightarrow> string \<Rightarrow> string \<Rightarrow> string \<Rightarrow> unit action" where
  "useUpdateGroup D description title i =
     invoke (updateGroup D) (UpdateGroup ((update_of i)\<lparr>gu_description := Some description, gu_title := Some title\<rparr>))"

definition usePublishGroupToSite :: "daemon \<Rightarrow> string \<Rightarrow> string \<Rightarrow> unit action" where
  "usePublishGroupToSite D gid setupUrl =
     invoke (updateGroup D) (UpdateGroup ((update_of gid)\<lparr>gu_siteSetupUrl := Some setupUrl\<rparr>))"

text \<open>\<open>e.message.match('nothing to update')\<close>.\<close>

definition nothing_to_update :: "js_error \<Rightarrow> bool" where
  "nothing_to_update e = (case e of Error m \<Rightarrow> occurs_in ''nothing to update'' m | TypeError \<Rightarrow> False)"

definition usePublishDocToGroup :: "daemon \<Rightarrow> string \<Rightarrow> string \<Rightarrow> string \<Rightarrow> string \<Rightarrow> bool action" where
  "usePublishDocToGroup D gid path docId version =
     catching
       (await (invoke (updateGroup D)
            (UpdateGroup ((update_of gid)\<lparr>gu_content := Some [(path, docId @ ''?v='' @ version)]\<rparr>)))
          (\<lambda>_. returns (Inr True)))
       (\<lambda>e. if nothing_to_update e then Inr False else Inl e)"

definition useRemoveDocFromGroup :: "daemon \<Rightarrow> string \<Rightarrow> string \<Rightarrow> unit action" where
  "useRemoveDocFromGroup D gid path =
     invoke (updateGroup D) (UpdateGroup ((update_of gid)\<lparr>gu_content := Some [(path, [])]\<rparr>))"

definition useAddGroupMember :: "daemon \<Rightarrow> string \<Rightarrow> string list \<Rightarrow> unit action" where
  "useAddGroupMember D gid members =
     invoke (updateGroup D) (UpdateGroup ((update_of gid)
       \<lparr>gu_members := Some (foldl (\<lambda>ob i. obj_set i EDITOR ob) [] members)\<rparr>))"

definition useRemoveGroupMember :: "daemon \<Rightarrow> string \<Rightarrow> string \<Rightarrow> unit action" where
  "useRemoveGroupMember D gid member =
     invoke (updateGroup D) (UpdateGroup ((update_of gid)\<lparr>gu_members := Some [(member, ROLE_UNSPECIFIED)]\<rparr>))"

section \<open>The navigation document\<close>

definition getGroupNavigationDocument :: "daemon \<Rightarrow> string \<Rightarrow> string option action" where
  "getGroupNavigationDocument D gid =
     await (invoke (listContent D) (ListContent gid)) (\<lambda>content.
       returns (Inr (if truthy (map_of content ''_navigation'') then map_of content ''_navigation'' else None)))"

text \<open>\<open>await ...\<close> in a \<open>try\<close> with an empty handler.\<close>

definition ignoring :: "unit action \<Rightarrow> unit action" where
  "ignoring m = catching m (\<lambda>_. Inr ())"

text \<open>What is done with the draft: without changes it is deleted, with changes it is saved and published.\<close>

definition publish_changes :: "daemon \<Rightarrow> string \<Rightarrow> document_change list \<Rightarrow> string option action" where
  "publish_changes D draftId changes =
     (if changes = []
      then await (invoke (deleteDraft D) (DeleteDraft (Some draftId))) (\<lambda>_. returns (Inr None))
      else
        await (invoke (dm_updateDraft D) (UpdateDraft draftId changes)) (\<lambda>_.
        await (invoke (dm_publishDraft D) (PublishDraft draftId)) (\<lambda>published.
          (case pa_document published of
             None \<Rightarrow> returns (Inl (Error ''No document returned from publish''))
           | Some i \<Rightarrow>
               (let newNavDoc = hmIdWithVersion (Val i) (Val (pa_version published)) Absent Absent
                in if \<not> truthy newNavDoc then returns (Inl (Error ''Could not determine new nav doc id''))
                   else returns (Inr newNavDoc))))))"

definition mutateGroupNavigationDoc ::
  "daemon \<Rightarrow> string \<Rightarrow> (hm_document \<Rightarrow> document_change list result) \<Rightarrow> string option action" where
  "mutateGroupNavigationDoc D gid mutator =
     await (getGroupNavigationDocument D gid) (\<lambda>navEntry.
       (let navDocId = (case navEntry of None \<Rightarrow> None | Some e \<Rightarrow> unpackHmId e) in
        await (ignoring (invoke (deleteDraft D) (DeleteDraft (map_option u_qid navDocId)))) (\<lambda>_.
        await (invoke (createDraft D) (CreateDraft (map_option u_qid navDocId)
                 (case navDocId of None \<Rightarrow> None | Some u \<Rightarrow> truthy_str (u_version u)))) (\<lambda>draft.
          (case da_document draft of
             None \<Rightarrow> returns (Inl (Error ''Could not create document''))
           | Some doc \<Rightarrow>
               await (returns (mutator doc)) (\<lambda>changes. publish_changes D (da_id draft) changes))))))"

definition mutateGroupNavigation ::
  "daemon \<Rightarrow> string \<Rightarrow> (hm_document \<Rightarrow> document_change list result) \<Rightarrow> unit action" where
  "mutateGroupNavigation D gid mutator =
     await (mutateGroupNavigationDoc D gid mutator) (\<lambda>newNavDoc.
       if \<not> truthy newNavDoc then returns (Inr ())
       else invoke (updateGroup D) (UpdateGroup ((update_of gid)
              \<lparr>gu_content := Some [(''_navigation'', default_str newNavDoc)]\<rparr>)))"

section \<open>What a change of a group means\<close>

text \<open>Only the paths and members sent change; an empty value or an unspecified role removes.\<close>

definition apply_content :: "(string \<rightharpoonup> string) \<Rightarrow> (string \<times> string) list \<Rightarrow> (string \<rightharpoonup> string)" where
  "apply_content m upd = foldl (\<lambda>m (k, v). if v = [] then m(k := None) else m(k \<mapsto> v)) m upd"

definition apply_members :: "(string \<rightharpoonup> role) \<Rightarrow> (string \<times> role) list \<Rightarrow> (string \<rightharpoonup> role)" where
  "apply_members m upd = foldl (\<lambda>m (k, r). if r = ROLE_UNSPECIFIED then m(k := None) else m(k \<mapsto> r)) m upd"

lemma apply_content_simps [simp]:
  "apply_content m [] = m"
  "apply_content m ((k, v) # upd) = apply_content (if v = [] then m(k := None) else m(k \<mapsto> v)) upd"
  by (simp_all add: apply_content_def)

section \<open>Runs of actions\<close>

named_theorems run_simps \<open>evaluation of actions on a record of calls\<close>

lemma await_returns [run_simps]: "await (returns r) f past = (case r of Inl e \<Rightarrow> (Inl e, past) | Inr x \<Rightarrow> f x past)"
  by (simp add: await_def returns_def split: sum.splits)

lemma await_invoke [run_simps]:
  "await (invoke ans c) f past = (case ans (past @ [c]) of Inl e \<Rightarrow> (Inl e, past @ [c]) | Inr x \<Rightarrow> f x (past @ [c]))"
  by (simp add: await_def invoke_def)

lemma await_await [run_simps]: "await (await m f) g past = await m (\<lambda>x. await (f x) g) past"
  by (simp add: await_def split: prod.splits sum.splits)

lemma await_ignoring [run_simps]: "await (ignoring (invoke ans c)) f past = f () (past @ [c])"
  by (simp add: await_def ignoring_def catching_def invoke_def split: sum.splits prod.splits)

lemma await_if [run_simps]: "await (if b then m else m') f past = (if b then await m f past else await m' f past)"
  by simp

lemma returns_run [run_simps]: "returns r past = (r, past)"
  by (simp add: returns_def)

lemma invoke_run [run_simps]: "invoke ans c past = (ans (past @ [c]), past @ [c])"
  by (simp add: invoke_def)

text \<open>The id and version that the daemon is asked for, and the published id.\<close>

definition nav_source :: "(string \<times> string) list \<Rightarrow> UnpackedHypermediaId option" where
  "nav_source content = (if truthy (map_of content ''_navigation'')
     then unpackHmId (the (map_of content ''_navigation'')) else None)"

definition nav_opening :: "string \<Rightarrow> (string \<times> string) list \<Rightarrow> daemon_call list" where
  "nav_opening gid content = [ListContent gid, DeleteDraft (map_option u_qid (nav_source content)),
     CreateDraft (map_option u_qid (nav_source content))
       (case nav_source content of None \<Rightarrow> None | Some u \<Rightarrow> truthy_str (u_version u))]"

text \<open>
  A run that publishes: the draft made from the current navigation document gets exactly the changes,
  is published, and the result names what was published.
\<close>

definition published_nav ::
  "daemon \<Rightarrow> string \<Rightarrow> (hm_document \<Rightarrow> document_change list result) \<Rightarrow> daemon_call list \<Rightarrow> daemon_call list \<Rightarrow> string \<Rightarrow> bool" where
  "published_nav D gid mutator past calls nav \<longleftrightarrow>
     (\<exists>content draft doc changes pub i.
        listContent D (past @ [ListContent gid]) = Inr content \<and>
        createDraft D (past @ nav_opening gid content) = Inr draft \<and> da_document draft = Some doc \<and>
        mutator doc = Inr changes \<and> changes \<noteq> [] \<and>
        calls = nav_opening gid content @ [UpdateDraft (da_id draft) changes, PublishDraft (da_id draft)] \<and>
        dm_publishDraft D (past @ calls) = Inr pub \<and> pa_document pub = Some i \<and>
        hmIdWithVersion (Val i) (Val (pa_version pub)) Absent Absent = Some nav \<and> nav \<noteq> [])"

text \<open>A run without changes: the draft is deleted again.\<close>

definition unchanged_nav ::
  "daemon \<Rightarrow> string \<Rightarrow> (hm_document \<Rightarrow> document_change list result) \<Rightarrow> daemon_call list \<Rightarrow> daemon_call list \<Rightarrow> bool" where
  "unchanged_nav D gid mutator past calls \<longleftrightarrow>
     (\<exists>content draft doc.
        listContent D (past @ [ListContent gid]) = Inr content \<and>
        createDraft D (past @ nav_opening gid content) = Inr draft \<and> da_document draft = Some doc \<and>
        mutator doc = Inr [] \<and>
        calls = nav_opening gid content @ [DeleteDraft (Some (da_id draft))])"

definition no_group_update :: "daemon_call list \<Rightarrow> bool" where
  "no_group_update calls \<longleftrightarrow> (\<forall>u. UpdateGroup u \<notin> set calls)"


lemma getNav_run [run_simps]: "await (getGroupNavigationDocument D gid) f past =
  (case listContent D (past @ [ListContent gid]) of
     Inl e \<Rightarrow> (Inl e, past @ [ListContent gid])
   | Inr content \<Rightarrow> f (if truthy (map_of content ''_navigation'') then map_of content ''_navigation'' else None)
       (past @ [ListContent gid]))"
  by (simp add: getGroupNavigationDocument_def run_simps split: sum.splits)

lemma nav_source_case: "(case (if truthy (map_of content k) then map_of content k else None) of None \<Rightarrow> None | Some e \<Rightarrow> unpackHmId e)
  = (if truthy (map_of content k) then unpackHmId (the (map_of content k)) else None)"
  by (auto simp: truthy_def split: option.splits)

text \<open>The run after the list of contents and the draft are there.\<close>

lemma mutate_run_eq:
  "mutateGroupNavigationDoc D gid mutator past =
    (case listContent D (past @ [ListContent gid]) of
       Inl e \<Rightarrow> (Inl e, past @ [ListContent gid])
     | Inr content \<Rightarrow>
        (case createDraft D (past @ nav_opening gid content) of
           Inl e \<Rightarrow> (Inl e, past @ nav_opening gid content)
         | Inr draft \<Rightarrow>
            (case da_document draft of
               None \<Rightarrow> (Inl (Error ''Could not create document''), past @ nav_opening gid content)
             | Some doc \<Rightarrow>
                (case mutator doc of
                   Inl e \<Rightarrow> (Inl e, past @ nav_opening gid content)
                 | Inr changes \<Rightarrow> publish_changes D (da_id draft) changes (past @ nav_opening gid content)))))"
  by (simp add: mutateGroupNavigationDoc_def run_simps nav_source_case nav_opening_def nav_source_def Let_def
      split: sum.split option.split)

lemma publish_run:
  assumes "publish_changes D i changes past = (r, past')"
  shows "\<exists>calls. past' = past @ calls \<and> no_group_update calls \<and>
    (r = Inr None \<longrightarrow> changes = [] \<and> calls = [DeleteDraft (Some i)]) \<and>
    (\<forall>nav. r = Inr (Some nav) \<longrightarrow> changes \<noteq> [] \<and> calls = [UpdateDraft i changes, PublishDraft i] \<and>
       (\<exists>pub d. dm_publishDraft D (past @ calls) = Inr pub \<and> pa_document pub = Some d \<and>
          hmIdWithVersion (Val d) (Val (pa_version pub)) Absent Absent = Some nav \<and> nav \<noteq> []))"
  using assms
  by (auto simp: publish_changes_def run_simps Let_def truthy_def no_group_update_def
      split: if_splits sum.splits option.splits)

lemma mutate_run:
  assumes run: "mutateGroupNavigationDoc D gid mutator past = (r, past')"
  shows "\<exists>calls. past' = past @ calls \<and> no_group_update calls \<and>
    (r = Inr None \<longrightarrow> unchanged_nav D gid mutator past calls) \<and>
    (\<forall>nav. r = Inr (Some nav) \<longrightarrow> published_nav D gid mutator past calls nav)"
proof -
  have op: "no_group_update (nav_opening gid content @ calls) \<longleftrightarrow> no_group_update calls"
    "no_group_update [ListContent gid]" "no_group_update (nav_opening gid content)" for content calls
    by (simp_all add: no_group_update_def nav_opening_def)
  show ?thesis
  proof (cases "\<exists>e. r = Inl e \<and> (\<exists>content. past' = past @ [ListContent gid] \<or> past' = past @ nav_opening gid content)")
    case True
    then show ?thesis using op by blast
  next
    case False
    with run obtain content draft doc changes where
        c: "listContent D (past @ [ListContent gid]) = Inr content"
        "createDraft D (past @ nav_opening gid content) = Inr draft"
        "da_document draft = Some doc" "mutator doc = Inr changes"
        "publish_changes D (da_id draft) changes (past @ nav_opening gid content) = (r, past')"
      by (auto simp: mutate_run_eq split: sum.splits option.splits)
    from publish_run [OF c(5)] obtain calls where
        calls: "past' = past @ nav_opening gid content @ calls" "no_group_update calls"
        "r = Inr None \<longrightarrow> changes = [] \<and> calls = [DeleteDraft (Some (da_id draft))]"
        "\<forall>nav. r = Inr (Some nav) \<longrightarrow> changes \<noteq> [] \<and> calls = [UpdateDraft (da_id draft) changes, PublishDraft (da_id draft)] \<and>
       (\<exists>pub d. dm_publishDraft D (past @ nav_opening gid content @ calls) = Inr pub \<and> pa_document pub = Some d \<and>
          hmIdWithVersion (Val d) (Val (pa_version pub)) Absent Absent = Some nav \<and> nav \<noteq> [])" by auto
    have "r = Inr None \<longrightarrow> unchanged_nav D gid mutator past (nav_opening gid content @ calls)"
      unfolding unchanged_nav_def using c calls(3) by auto
    moreover have "\<forall>nav. r = Inr (Some nav) \<longrightarrow> published_nav D gid mutator past (nav_opening gid content @ calls) nav"
      unfolding published_nav_def using c calls(4) by fastforce
    ultimately show ?thesis using calls(1,2) op(1) by blast
  qed
qed

text \<open>
  C10. Safety of the navigation of a group: whatever the daemon answers, the group is updated at most once, as
  the last call, and only to the published version of a draft that was made from the current
  navigation document and got exactly the changes asked for; an action that ends well without an
  update made no changes and has deleted its draft.
\<close>

theorem navigation_published:
  assumes "mutateGroupNavigation D gid mutator past = (r, past')"
  shows "\<exists>calls. past' = past @ calls \<and>
    (no_group_update calls \<and> (r = Inr () \<longrightarrow> unchanged_nav D gid mutator past calls) \<or>
     (\<exists>before nav. published_nav D gid mutator past before nav \<and> no_group_update before \<and>
        calls = before @ [UpdateGroup ((update_of gid)\<lparr>gu_content := Some [(''_navigation'', nav)]\<rparr>)] \<and>
        r = updateGroup D past'))"
proof -
  obtain r1 past1 where m: "mutateGroupNavigationDoc D gid mutator past = (r1, past1)" by force
  from mutate_run [OF m] obtain calls where
      calls: "past1 = past @ calls" "no_group_update calls" "r1 = Inr None \<longrightarrow> unchanged_nav D gid mutator past calls"
      "\<forall>nav. r1 = Inr (Some nav) \<longrightarrow> published_nav D gid mutator past calls nav" by blast
  show ?thesis
  proof (cases "\<exists>nav. r1 = Inr (Some nav)")
    case True
    then obtain nav where nav: "r1 = Inr (Some nav)" by blast
    with calls have p: "published_nav D gid mutator past calls nav" by blast
    then have "nav \<noteq> []" by (auto simp: published_nav_def)
    with nav assms m calls(1) have "past' = past @ calls @ [UpdateGroup ((update_of gid)\<lparr>gu_content := Some [(''_navigation'', nav)]\<rparr>)]"
      "r = updateGroup D past'"
      by (auto simp: mutateGroupNavigation_def await_def truthy_def invoke_def default_str_def)
    with p calls(2) show ?thesis by blast
  next
    case False
    with assms m calls show ?thesis
      by (cases r1) (auto simp: mutateGroupNavigation_def await_def truthy_def returns_def)
  qed
qed

definition daemon_sample :: "hm_document \<Rightarrow> daemon" where
  "daemon_sample doc = \<lparr>listContent = \<lambda>_. Inr [(''old'', ''hm://d/doc?v=1''), (''_navigation'', ''hm://d/nav?v=2'')],
     createGroup = \<lambda>_. Inr ''hm://g/grp'', updateGroup = \<lambda>_. Inr (), deleteDraft = \<lambda>_. Inr (),
     createDraft = \<lambda>_. Inr \<lparr>da_id = ''hm://d/nav'', da_document = Some doc\<rparr>,
     dm_updateDraft = \<lambda>_. Inr (),
     dm_publishDraft = \<lambda>_. Inr \<lparr>pa_document = Some ''hm://d/nav'', pa_version = ''3''\<rparr>\<rparr>"

theorem navigation_published_witness:
  "\<exists>before. mutateGroupNavigation (daemon_sample \<lparr>d_title = None, d_children = None\<rparr>) ''hm://g/grp'' (\<lambda>_. Inr [SetTitle ''t'']) [] =
      (Inr (), before @ [UpdateGroup ((update_of ''hm://g/grp'')\<lparr>gu_content := Some [(''_navigation'', ''hm://d/nav?v=3'')]\<rparr>)]) \<and>
    published_nav (daemon_sample \<lparr>d_title = None, d_children = None\<rparr>) ''hm://g/grp'' (\<lambda>_. Inr [SetTitle ''t'']) [] before ''hm://d/nav?v=3''"
proof -
  let ?D = "daemon_sample \<lparr>d_title = None, d_children = None\<rparr>" and ?u = "(update_of ''hm://g/grp'')\<lparr>gu_content := Some [(''_navigation'', ''hm://d/nav?v=3'')]\<rparr>"
  have "hmIdWithVersion (Val ''hm://d/nav'') (Val ''3'') Absent Absent = Some ''hm://d/nav?v=3''" by code_simp
  then obtain before where run: "mutateGroupNavigation ?D ''hm://g/grp'' (\<lambda>_. Inr [SetTitle ''t'']) [] = (Inr (), before @ [UpdateGroup ?u])"
    by (simp add: mutateGroupNavigation_def await_def mutate_run_eq daemon_sample_def publish_changes_def invoke_def
        returns_def truthy_def default_str_def)
  have "\<not> no_group_update (before @ [UpdateGroup ?u])" unfolding no_group_update_def by auto
  with navigation_published [OF run] obtain b nav where
    "published_nav ?D ''hm://g/grp'' (\<lambda>_. Inr [SetTitle ''t'']) [] b nav"
    "before @ [UpdateGroup ?u] = b @ [UpdateGroup ((update_of ''hm://g/grp'')\<lparr>gu_content := Some [(''_navigation'', nav)]\<rparr>)]"
    by auto
  then show ?thesis using run by (auto simp: update_of_def)
qed

section \<open>Creating a group\<close>

text \<open>
  Creating a group never fails as an action: an error of the daemon is its result, in the place of the
  id, and when only the update failed the group that was created stays, without its members and content.
  Without an error the members sent are the given accounts, each once, as editors.
\<close>

theorem create_group_result:
  "\<exists>calls r. useCreateGroup D description title members content past = (Inr r, past @ CreateGroup title description # calls) \<and>
     (case createGroup D (past @ [CreateGroup title description]) of
        Inl e \<Rightarrow> r = Inl e \<and> calls = []
      | Inr i \<Rightarrow>
         (if content = None \<and> members = None then r = Inr i \<and> calls = []
          else \<exists>u. calls = [UpdateGroup u] \<and> gu_id u = i \<and> gu_content u = content \<and>
            (case gu_members u of None \<Rightarrow> members = None
             | Some ms \<Rightarrow> distinct (map fst ms) \<and>
                 map_of ms = (\<lambda>m. if m \<in> set (the members) then Some EDITOR else None)) \<and>
            r = (case updateGroup D (past @ [CreateGroup title description, UpdateGroup u]) of Inl e \<Rightarrow> Inl e | Inr _ \<Rightarrow> Inr i)))"
proof -
  have editors: "distinct (map fst (obj_spread ob (map (\<lambda>m. (m, EDITOR)) ms))) \<and>
      map_of (obj_spread ob (map (\<lambda>m. (m, EDITOR)) ms)) = (\<lambda>m. if m \<in> set ms then Some EDITOR else map_of ob m)"
    if "distinct (map fst ob)" for ob and ms :: "string list"
    using that
  proof (induction ms arbitrary: ob)
    case (Cons m ms)
    from Cons.IH [of "obj_set m EDITOR ob"] Cons.prems show ?case
      by (auto simp: distinct_update update_conv' fun_eq_iff)
  qed simp
  from editors [of "[]" "the members"] show ?thesis
    by (cases "createGroup D (past @ [CreateGroup title description])"; cases members)
      (auto simp: useCreateGroup_def catching_def run_simps update_of_def split: sum.splits)
qed

end
