(* ===== verification/Group_Nav.thy ===== *)
theory Group_Nav
  imports Complex_Main Group_Calls
begin

text \<open>
  The navigation document of a group (\<^verbatim>\<open>frontend/packages/app/models/groups.ts\<close>): its
  categories are headings of the top level, the items of a category are embeds below it. Creating,
  renaming, moving and deleting them, and renaming a path of the group, which also rewrites the
  embeds that point at the path. The search for a block is that of
  \<^verbatim>\<open>shared/src/publication-content.tsx\<close>.

  A parent or left sibling that is \<open>undefined\<close> is empty in the message sent.
\<close>

section \<open>Finding blocks\<close>

fun getBlockNode :: "block_node list \<Rightarrow> string \<Rightarrow> block_node option result" where
  "getBlockNode [] i = Inr None"
| "getBlockNode (BlockNode mb cs # rest) i =
     (case mb of
        None \<Rightarrow> Inl TypeError
      | Some b \<Rightarrow>
          if b_id b = i then Inr (Some (BlockNode mb cs))
          else bind_result (case cs of None \<Rightarrow> Inr None | Some ns \<Rightarrow> getBlockNode ns i) (\<lambda>found.
            case found of Some n \<Rightarrow> Inr (Some n) | None \<Rightarrow> getBlockNode rest i))"

fun getBlockNodeById :: "block_node list \<Rightarrow> string \<Rightarrow> block_node option" where
  "getBlockNodeById [] i = None"
| "getBlockNodeById (BlockNode mb cs # rest) i =
     (if i = [] then None
      else if (case mb of None \<Rightarrow> False | Some b \<Rightarrow> b_id b = i) then Some (BlockNode mb cs)
      else (case (case cs of None \<Rightarrow> None | Some ns \<Rightarrow> getBlockNodeById ns i) of
              Some n \<Rightarrow> Some n
            | None \<Rightarrow> getBlockNodeById rest i))"

text \<open>The nodes that \<open>forEachBlockNode\<close> calls back with, in order.\<close>

fun forEachBlockNode :: "block_node list \<Rightarrow> block_node list" where
  "forEachBlockNode [] = []"
| "forEachBlockNode (BlockNode mb cs # rest) =
     BlockNode mb cs # (case cs of None \<Rightarrow> [] | Some ns \<Rightarrow> forEachBlockNode ns) @ forEachBlockNode rest"

definition doc_nodes :: "hm_document \<Rightarrow> block_node list" where
  "doc_nodes doc = (case d_children doc of None \<Rightarrow> [] | Some ns \<Rightarrow> ns)"

section \<open>Renaming a path\<close>

text \<open>The id an embed refers to, when it refers to the path of the group; the block that replaces it.\<close>

definition group_ref :: "string \<Rightarrow> string \<Rightarrow> hm_block \<Rightarrow> UnpackedHypermediaId option" where
  "group_ref gid path b =
     (if b_type b \<noteq> ''embed'' then None
      else (case unpackHmId (default_str (b_ref b)) of
          None \<Rightarrow> None
        | Some u \<Rightarrow>
            if u_type u \<noteq> ''d'' then None
            else if u_variants u = Val [GroupVariant gid (Some path)] then Some u else None))"

definition path_ref :: "string \<Rightarrow> string \<Rightarrow> string option \<Rightarrow> string" where
  "path_ref gid path eid = createHmId ''d'' (show_undef eid) (no_opts\<lparr>o_variants := Val [GroupVariant gid (Some path)]\<rparr>)"

definition rename_block :: "string \<Rightarrow> string \<Rightarrow> string \<Rightarrow> hm_block \<Rightarrow> document_change list" where
  "rename_block gid path newPath b = (case group_ref gid path b of
      None \<Rightarrow> [] | Some u \<Rightarrow> [ReplaceBlock (b\<lparr>b_ref := Some (path_ref gid newPath (u_eid u))\<rparr>)])"

definition rename_refs :: "string \<Rightarrow> string \<Rightarrow> string \<Rightarrow> hm_document \<Rightarrow> document_change list result" where
  "rename_refs gid path newPath doc =
     map_result concat (traverse (\<lambda>n. case node_block n of
         None \<Rightarrow> Inl TypeError | Some b \<Rightarrow> Inr (rename_block gid path newPath b)) (forEachBlockNode (doc_nodes doc)))"

definition useRenameGroupDoc :: "daemon \<Rightarrow> string \<Rightarrow> string \<Rightarrow> string \<Rightarrow> string action" where
  "useRenameGroupDoc D gid path newPath =
     await (invoke (listContent D) (ListContent gid)) (\<lambda>listed.
       if \<not> truthy (map_of listed path) then returns (Inl (Error (''Could not find previous path at '' @ path)))
       else (let prevPathValue = the (map_of listed path) in
         await (mutateGroupNavigationDoc D gid (rename_refs gid path newPath)) (\<lambda>newNavDoc.
           (let updated = obj_set newPath prevPathValue [(path, [])];
                updatedContent = (if truthy newNavDoc then obj_set ''_navigation'' (default_str newNavDoc) updated else updated) in
            await (invoke (updateGroup D) (UpdateGroup ((update_of gid)\<lparr>gu_content := Some updatedContent\<rparr>))) (\<lambda>_.
              returns (Inr prevPathValue))))))"

section \<open>Categories\<close>

text \<open>The id of a new block, for the number that \<open>Math.random\<close> gave.\<close>

definition createBlockID :: "rat \<Rightarrow> string" where
  "createBlockID random = show_nat (nat (round (random * 100000)))"

definition nav_title :: string where
  "nav_title = ''(HIDDEN) Group Navigation''"

definition category_block :: "string \<Rightarrow> string \<Rightarrow> hm_block" where
  "category_block i title = \<lparr>b_id = i, b_type = ''heading'', b_text = Some title, b_ref = None,
     b_annotations = Some [], b_attributes = Some (\<lambda>_. None)\<rparr>"

text \<open>\<open>nodes?.at(-1)?.block?.id\<close>.\<close>

definition last_id :: "block_node list option \<Rightarrow> string" where
  "last_id ns = (case ns of None \<Rightarrow> [] | Some [] \<Rightarrow> [] | Some (n # rest) \<Rightarrow> node_id (Some (last (n # rest))))"

definition create_category :: "string \<Rightarrow> rat \<Rightarrow> hm_document \<Rightarrow> document_change list result" where
  "create_category title random doc =
     (let newCategoryBlock = category_block (createBlockID random) title
      in Inr [SetTitle nav_title, MoveBlock (b_id newCategoryBlock) [] (last_id (d_children doc)),
              ReplaceBlock newCategoryBlock])"

text \<open>The category a user picked, or the error.\<close>

definition category_node :: "hm_document \<Rightarrow> string \<Rightarrow> (hm_block \<times> block_node list option) result" where
  "category_node doc categoryId =
     bind_result (getBlockNode (doc_nodes doc) categoryId) (\<lambda>found.
       case found of
         Some (BlockNode (Some b) cs) \<Rightarrow> Inr (b, cs)
       | _ \<Rightarrow> Inl (Error ''Could not find category block''))"

definition rename_category :: "string \<Rightarrow> string \<Rightarrow> hm_document \<Rightarrow> document_change list result" where
  "rename_category categoryId title doc =
     bind_result (category_node doc categoryId) (\<lambda>(b, _). Inr [ReplaceBlock (b\<lparr>b_text := Some title\<rparr>)])"

definition move_category :: "string \<Rightarrow> string option \<Rightarrow> hm_document \<Rightarrow> document_change list result" where
  "move_category categoryId leftSibling doc = Inr [MoveBlock categoryId [] (default_str leftSibling)]"

definition move_category_item :: "string \<Rightarrow> string \<Rightarrow> string option \<Rightarrow> hm_document \<Rightarrow> document_change list result" where
  "move_category_item category itemId leftSibling doc = Inr [MoveBlock itemId category (default_str leftSibling)]"

definition delete_category :: "string \<Rightarrow> hm_document \<Rightarrow> document_change list result" where
  "delete_category categoryId doc = Inr [DeleteBlock categoryId]"

definition delete_category_item :: "string \<Rightarrow> hm_document \<Rightarrow> document_change list result" where
  "delete_category_item itemId doc = Inr [DeleteBlock itemId]"

definition ref_block :: "string \<Rightarrow> string \<Rightarrow> string \<Rightarrow> string option \<Rightarrow> hm_block" where
  "ref_block i gid path eid = \<lparr>b_id = i, b_type = ''embed'', b_text = Some [], b_ref = Some (path_ref gid path eid),
     b_annotations = Some [], b_attributes = Some ((\<lambda>_. None)(''view'' := Some ''card''))\<rparr>"

definition add_to_category ::
  "string \<Rightarrow> string \<Rightarrow> string \<Rightarrow> string \<Rightarrow> rat \<Rightarrow> hm_document \<Rightarrow> document_change list result" where
  "add_to_category gid path docId categoryId random doc =
     bind_result (category_node doc categoryId) (\<lambda>(b, cs).
       (case unpackHmId docId of
          None \<Rightarrow> Inl (Error ''Could not unpack docId'')
        | Some fullDocId \<Rightarrow>
            (let refBlock = ref_block (createBlockID random) gid path (u_eid fullDocId)
             in Inr [SetTitle nav_title, MoveBlock (b_id refBlock) (b_id b) (last_id cs), ReplaceBlock refBlock])))"

definition useCreateGroupCategory :: "daemon \<Rightarrow> string \<Rightarrow> string \<Rightarrow> rat \<Rightarrow> unit action" where
  "useCreateGroupCategory D gid title random = mutateGroupNavigation D gid (create_category title random)"

definition useRenameGroupCateogry :: "daemon \<Rightarrow> string \<Rightarrow> string \<Rightarrow> string \<Rightarrow> unit action" where
  "useRenameGroupCateogry D gid categoryId title = mutateGroupNavigation D gid (rename_category categoryId title)"

definition useMoveCategory :: "daemon \<Rightarrow> string \<Rightarrow> string \<Rightarrow> string option \<Rightarrow> unit action" where
  "useMoveCategory D gid categoryId leftSibling = mutateGroupNavigation D gid (move_category categoryId leftSibling)"

definition useMoveCategoryItem :: "daemon \<Rightarrow> string \<Rightarrow> string \<Rightarrow> string \<Rightarrow> string option \<Rightarrow> unit action" where
  "useMoveCategoryItem D gid category itemId leftSibling =
     mutateGroupNavigation D gid (move_category_item category itemId leftSibling)"

definition useDeleteCategory :: "daemon \<Rightarrow> string \<Rightarrow> string \<Rightarrow> unit action" where
  "useDeleteCategory D gid categoryId = mutateGroupNavigation D gid (delete_category categoryId)"

definition useDeleteCategoryItem :: "daemon \<Rightarrow> string \<Rightarrow> string \<Rightarrow> unit action" where
  "useDeleteCategoryItem D gid itemId = mutateGroupNavigation D gid (delete_category_item itemId)"

definition useAddToCategory :: "daemon \<Rightarrow> string \<Rightarrow> string \<Rightarrow> string \<Rightarrow> string \<Rightarrow> rat \<Rightarrow> string action" where
  "useAddToCategory D gid path docId categoryId random =
     await (mutateGroupNavigation D gid (add_to_category gid path docId categoryId random)) (\<lambda>_. returns (Inr gid))"

text \<open>\<open>useGroupCategories\<close>: id and title of each heading of the top level.\<close>

definition useGroupCategories :: "hm_document option \<Rightarrow> (string \<times> string option) list option result" where
  "useGroupCategories doc = (case doc of None \<Rightarrow> Inr None | Some d \<Rightarrow>
     (case d_children d of None \<Rightarrow> Inr None | Some ns \<Rightarrow>
        map_result (\<lambda>bs. Some (map (\<lambda>b. (b_id b, b_text b)) (filter (\<lambda>b. b_type b = ''heading'') bs)))
          (traverse (\<lambda>n. case node_block n of None \<Rightarrow> Inl TypeError | Some b \<Rightarrow> Inr b) ns)))"

section \<open>Finding\<close>

lemma getBlockNodeById_Nil: "getBlockNodeById ns [] = None"
  by (induction ns rule: forEachBlockNode.induct) auto

lemma find_nodes:
  "draft_wf ns \<Longrightarrow> getBlockNode ns i = Inr (find (\<lambda>n. node_id (Some n) = i) (forEachBlockNode ns))"
  "draft_wf ns \<Longrightarrow> i \<noteq> [] \<Longrightarrow> getBlockNodeById ns i = find (\<lambda>n. node_id (Some n) = i) (forEachBlockNode ns)"
proof (induction ns rule: forEachBlockNode.induct)
  case (2 mb cs rest)
  { case 1 with 2 show ?case by (cases cs; cases mb) (auto simp: node_id_def find_append split: option.splits) }
  { case 2 with "2.IH" show ?case by (cases cs; cases mb) (auto simp: node_id_def find_append split: option.splits) }
qed simp_all

lemma nodes_blocks: "draft_wf ns \<Longrightarrow>
   map node_block (forEachBlockNode ns) = map (\<lambda>e. Some (en_block e)) (draft_entries prev ns p)"
proof (induction ns arbitrary: prev p rule: forEachBlockNode.induct)
  case (2 mb cs rest)
  then show ?case by (cases cs; cases mb) auto
qed simp

lemma nodes_ids:
  assumes "draft_wf ns"
  shows "map (\<lambda>n. node_id (Some n)) (forEachBlockNode ns) = draft_ids ns"
proof -
  have "map (\<lambda>n. node_id (Some n)) (forEachBlockNode ns)
    = map (\<lambda>mb. case mb of None \<Rightarrow> [] | Some b \<Rightarrow> b_id b) (map node_block (forEachBlockNode ns))"
    by (simp add: node_id_def)
  also have "\<dots> = draft_ids ns"
    unfolding nodes_blocks [OF assms, of None "[]"] draft_ids_def by (simp add: draft_entries_block)
  finally show ?thesis .
qed

lemma find_node_id:
  "draft_wf ns \<Longrightarrow> find (\<lambda>n. node_id (Some n) = i) (forEachBlockNode ns) = None \<longleftrightarrow> i \<notin> set (draft_ids ns)"
  by (auto simp: find_None_iff simp flip: nodes_ids)

text \<open>
  The two searches for a block agree: in a tree of blocks with ids \<open>getBlockNode\<close> never raises and
  returns what \<open>getBlockNodeById\<close> does, a node of the tree with that id, or nothing when there is none.
\<close>

theorem getBlockNode_agree:
  assumes "draft_wf ns" "i \<noteq> []"
  shows "getBlockNode ns i = Inr (getBlockNodeById ns i) \<and>
    (case getBlockNodeById ns i of
       None \<Rightarrow> i \<notin> set (draft_ids ns)
     | Some n \<Rightarrow> n \<in> set (forEachBlockNode ns) \<and> node_id (Some n) = i)"
  using find_nodes [OF assms(1)] find_node_id [OF assms(1), of i] assms(2)
  by (auto split: option.splits simp: find_Some_iff)

section \<open>Renaming\<close>

definition renamed :: "string \<Rightarrow> string \<Rightarrow> string \<Rightarrow> hm_block \<Rightarrow> hm_block" where
  "renamed gid path newPath b = (case group_ref gid path b of
     None \<Rightarrow> b | Some u \<Rightarrow> b\<lparr>b_ref := Some (path_ref gid newPath (u_eid u))\<rparr>)"

lemma rename_block_renamed: "rename_block gid path newPath b =
   (if group_ref gid path b = None then [] else [ReplaceBlock (renamed gid path newPath b)])"
  by (auto simp: rename_block_def renamed_def)

lemma b_id_renamed [simp]: "b_id (renamed gid path newPath b) = b_id b"
  by (simp add: renamed_def split: option.splits)

lemma path_ref_unpacks:
  assumes "seg_ok e" "variant_ok (GroupVariant gid (Some path))"
  shows "unpackHmId (path_ref gid path (Some e)) = Some (unpacked_of (path_ref gid path (Some e)) ''d'' e Null Null ''hm''
      (no_opts\<lparr>o_variants := Val [GroupVariant gid (Some path)]\<rparr>))"
proof -
  let ?o = "no_opts\<lparr>o_variants := Val [GroupVariant gid (Some path)]\<rparr>"
  have "entity_type ''d''" by (simp add: entity_type_def HYPERMEDIA_ENTITY_TYPES_def)
  moreover have "str_opt_ok seg_ok (o_groupPathName ?o)" by (simp add: no_opts_def str_opt_ok_def)
  moreover have "opts_ok ?o" using assms(2) by (simp add: no_opts_def opts_ok_def str_opt_ok_def range_ok_def)
  ultimately show ?thesis using unpack_created [of "''d''" e ?o] assms(1)
    by (simp add: path_ref_def show_undef_def no_opts_def)
qed

lemma group_ref_path:
  assumes "seg_ok e" "variant_ok (GroupVariant gid (Some path))" "b_type b = ''embed''"
  shows "\<exists>u. (\<forall>p. group_ref gid p (b\<lparr>b_ref := Some (path_ref gid path (Some e))\<rparr>) = (if p = path then Some u else None)) \<and>
    u_eid u = Some e \<and> u_version u = Null \<and> u_blockRef u = Null"
  using path_ref_unpacks [OF assms(1,2)] assms(3)
  by (auto simp: group_ref_def default_str_def unpacked_of_def given_variants_def no_opts_def)

lemma traverse_Inr: "(\<And>x. x \<in> set xs \<Longrightarrow> f x = Inr (g x)) \<Longrightarrow> traverse f xs = Inr (map g xs)"
  by (induction xs) auto


lemma replacements:
  assumes "distinct (map en_id es)" "\<forall>e \<in> set es. b_id (f (en_block e)) = en_id e"
  shows "foldl apply_change m (concat (map (\<lambda>e. if P (en_block e) then [ReplaceBlock (f (en_block e))] else []) es)) i =
    (case map_of (map (\<lambda>e. (en_id e, en_block e)) es) i of
       None \<Rightarrow> m i
     | Some b \<Rightarrow> if P b then map_option (\<lambda>it. it\<lparr>bm_block := f b\<rparr>) (m i) else m i)"
  using assms
proof (induction es arbitrary: m)
  case (Cons e es)
  have new: "map_of (map (\<lambda>e. (en_id e, en_block e)) es) (en_id e) = None"
    using Cons.prems(1) by (auto simp: map_of_eq_None_iff)
  let ?m = "if P (en_block e) then apply_change m (ReplaceBlock (f (en_block e))) else m"
  have "foldl apply_change m (concat (map (\<lambda>e. if P (en_block e) then [ReplaceBlock (f (en_block e))] else []) (e # es))) i
      = foldl apply_change ?m (concat (map (\<lambda>e. if P (en_block e) then [ReplaceBlock (f (en_block e))] else []) es)) i"
    by simp
  also have "\<dots> = (case map_of (map (\<lambda>e. (en_id e, en_block e)) es) i of
       None \<Rightarrow> ?m i
     | Some b \<Rightarrow> if P b then map_option (\<lambda>it. it\<lparr>bm_block := f b\<rparr>) (?m i) else ?m i)"
    using Cons.prems by (intro Cons.IH) auto
  also have "\<dots> = (case map_of (map (\<lambda>e. (en_id e, en_block e)) (e # es)) i of
       None \<Rightarrow> m i
     | Some b \<Rightarrow> if P b then map_option (\<lambda>it. it\<lparr>bm_block := f b\<rparr>) (m i) else m i)"
    using new Cons.prems(2) by (auto split: option.splits)
  finally show ?case .
qed simp

lemma map_of_map_entry: "map_of (map (\<lambda>e. (k e, f (g e))) es) i = map_option f (map_of (map (\<lambda>e. (k e, g e)) es) i)"
  by (induction es) auto

text \<open>
  C24. Renaming a path rewrites the navigation document: exactly the embeds that referred to the old
  path of the group are replaced; each then refers to the same document at the new path, read back
  with the parser of ids, and to no version or block; all else stays.
\<close>

theorem rename_moves_refs:
  assumes "draft_wf ns" "distinct (draft_ids ns)" "d_children doc = Some ns"
    and "variant_ok (GroupVariant gid (Some newPath))" "newPath \<noteq> path"
    and "\<forall>n \<in> set (forEachBlockNode ns). \<forall>b u. node_block n = Some b \<and> group_ref gid path b = Some u \<longrightarrow>
      (\<exists>e. u_eid u = Some e \<and> seg_ok e)"
  shows "\<exists>changes. rename_refs gid path newPath doc = Inr changes \<and>
    (\<forall>i. case map_of (createBlocksMap (Some ns) []) i of
       None \<Rightarrow> foldl apply_change (map_of (createBlocksMap (Some ns) [])) changes i = None
     | Some it \<Rightarrow> (\<exists>b. foldl apply_change (map_of (createBlocksMap (Some ns) [])) changes i = Some (it\<lparr>bm_block := b\<rparr>) \<and>
         (case group_ref gid path (bm_block it) of
            None \<Rightarrow> b = bm_block it
          | Some u \<Rightarrow> group_ref gid path b = None \<and> b\<lparr>b_ref := b_ref (bm_block it)\<rparr> = bm_block it \<and>
             (\<exists>u'. group_ref gid newPath b = Some u' \<and> u_eid u' = u_eid u \<and> u_version u' = Null \<and> u_blockRef u' = Null))))"
proof -
  let ?es = "draft_entries None ns []"
  let ?m = "map_of (createBlocksMap (Some ns) [])"
  let ?P = "\<lambda>b. group_ref gid path b \<noteq> None" and ?f = "renamed gid path newPath"
  let ?chs = "concat (map (\<lambda>e. if ?P (en_block e) then [ReplaceBlock (?f (en_block e))] else []) ?es)"
  have blocks: "node_block n \<noteq> None" if "n \<in> set (forEachBlockNode ns)" for n
    using nodes_blocks [OF assms(1), of None "[]"] that by (metis (no_types, lifting) in_set_conv_nth length_map nth_map option.discI)
  have "traverse (\<lambda>n. case node_block n of None \<Rightarrow> Inl TypeError | Some b \<Rightarrow> Inr (rename_block gid path newPath b)) (forEachBlockNode ns)
     = Inr (map (\<lambda>n. rename_block gid path newPath (the (node_block n))) (forEachBlockNode ns))"
    by (intro traverse_Inr) (use blocks in \<open>fastforce split: option.splits\<close>)
  also have "map (\<lambda>n. rename_block gid path newPath (the (node_block n))) (forEachBlockNode ns)
     = map (\<lambda>mb. rename_block gid path newPath (the mb)) (map node_block (forEachBlockNode ns))" by simp
  also have "\<dots> = map (\<lambda>e. if ?P (en_block e) then [ReplaceBlock (?f (en_block e))] else []) ?es"
    unfolding nodes_blocks [OF assms(1), of None "[]"] by (auto simp: rename_block_renamed)
  finally have chs: "rename_refs gid path newPath doc = Inr ?chs"
    using assms(3) by (simp add: rename_refs_def doc_nodes_def)
  have b: "map_of (map (\<lambda>e. (en_id e, en_block e)) ?es) i = map_option bm_block (?m i)" for i
    using map_of_map_entry [of en_id bm_block item_of ?es i]
    by (simp add: createBlocksMap_entries [OF assms(1,2)] item_of_def)
  have after: "foldl apply_change ?m ?chs i = map_option (\<lambda>it. it\<lparr>bm_block := ?f (bm_block it)\<rparr>) (?m i)" for i
    using replacements [of ?es ?f ?m ?P i] assms(2) draft_entries_block
    by (auto simp: b draft_ids_def renamed_def split: option.splits)
  have in_nodes: "\<exists>n \<in> set (forEachBlockNode ns). node_block n = Some (bm_block it)" if "?m i = Some it" for i it
  proof -
    from that obtain e where "e \<in> set ?es" "it = item_of e"
      by (auto simp: createBlocksMap_entries [OF assms(1,2)] dest!: map_of_SomeD)
    then have "Some (bm_block it) \<in> set (map node_block (forEachBlockNode ns))"
      unfolding nodes_blocks [OF assms(1), of None "[]"] by (auto simp: item_of_def)
    then show ?thesis by auto
  qed
  show ?thesis
  proof (intro exI conjI allI)
    show "rename_refs gid path newPath doc = Inr ?chs" by (rule chs)
    fix i
    show "case ?m i of None \<Rightarrow> foldl apply_change ?m ?chs i = None
     | Some it \<Rightarrow> (\<exists>b. foldl apply_change ?m ?chs i = Some (it\<lparr>bm_block := b\<rparr>) \<and>
         (case group_ref gid path (bm_block it) of
            None \<Rightarrow> b = bm_block it
          | Some u \<Rightarrow> group_ref gid path b = None \<and> b\<lparr>b_ref := b_ref (bm_block it)\<rparr> = bm_block it \<and>
             (\<exists>u'. group_ref gid newPath b = Some u' \<and> u_eid u' = u_eid u \<and> u_version u' = Null \<and> u_blockRef u' = Null)))"
    proof (cases "?m i")
      case (Some it)
      show ?thesis
      proof (cases "group_ref gid path (bm_block it)")
        case None
        with Some show ?thesis using after [of i] by (simp add: renamed_def del: not_None_eq)
      next
        case u: (Some u)
        obtain n where "n \<in> set (forEachBlockNode ns)" "node_block n = Some (bm_block it)"
          using in_nodes [OF Some] by blast
        then obtain e where e: "u_eid u = Some e" "seg_ok e" using assms(6) u by blast
        have "b_type (bm_block it) = ''embed''" using u by (auto simp: group_ref_def split: if_splits)
        from group_ref_path [OF e(2) assms(4) this] obtain u' where
          "\<forall>p. group_ref gid p (?f (bm_block it)) = (if p = newPath then Some u' else None)"
          "u_eid u' = Some e" "u_version u' = Null" "u_blockRef u' = Null"
          using u e by (auto simp: renamed_def)
        moreover have "(?f (bm_block it))\<lparr>b_ref := b_ref (bm_block it)\<rparr> = bm_block it"
          using u by (simp add: renamed_def)
        ultimately show ?thesis using Some u e assms(5) after [of i]
          by (auto simp del: not_None_eq intro!: exI [of _ "?f (bm_block it)"])
      qed
    qed (use after [of i] in \<open>simp del: not_None_eq\<close>)
  qed
qed

section \<open>Adding categories and items\<close>

declare siblings_simps [simp]

lemma siblings_other:
  assumes "q \<noteq> p" "q \<notin> set (draft_ids ns)"
  shows "siblings (draft_entries prev ns p) q = []"
proof -
  have "set (draft_ids ns) = en_id ` set (draft_entries prev ns p)"
    by (subst draft_ids_eq [of prev ns p, symmetric]) simp
  then have "en_parent e \<noteq> q" if "e \<in> set (draft_entries prev ns p)" for e
    using draft_entries_parents [OF that] assms by auto
  then show ?thesis by (auto simp: siblings_def filter_empty_conv)
qed

lemma draft_ids_Cons:
  "draft_ids (BlockNode (Some b) cs # rest) = b_id b # (case cs of None \<Rightarrow> [] | Some ns \<Rightarrow> draft_ids ns) @ draft_ids rest"
  unfolding draft_ids_def
  using ids_draft_entries [of "Some (BlockNode (Some b) cs)" rest "[]" None "[]"]
  by (cases cs) (simp_all add: ids_draft_entries [of None _ "b_id b" None "[]"])

lemma siblings_top:
  "draft_wf ns \<Longrightarrow> p \<notin> set (draft_ids ns) \<Longrightarrow>
   siblings (draft_entries prev ns p) p = map (\<lambda>n. node_id (Some n)) ns"
proof (induction ns arbitrary: prev)
  case (Cons n ns)
  obtain b cs where n: "n = BlockNode (Some b) cs" using Cons.prems(1) by (cases n; cases "node_block n") auto
  have "siblings (draft_entries None ms (b_id b)) p = []" if "cs = Some ms" for ms
    using Cons.prems that n by (intro siblings_other) (auto simp: draft_ids_Cons)
  with Cons n show ?case by (cases cs) (auto simp: draft_ids_Cons node_id_def)
qed simp

lemma siblings_node:
  "draft_wf ns \<Longrightarrow> distinct (p # draft_ids ns) \<Longrightarrow> BlockNode (Some b) cs \<in> set (forEachBlockNode ns) \<Longrightarrow>
   siblings (draft_entries prev ns p) (b_id b) = map (\<lambda>n. node_id (Some n)) (case cs of None \<Rightarrow> [] | Some ms \<Rightarrow> ms)"
proof (induction ns arbitrary: prev p rule: forEachBlockNode.induct)
  case (2 mb ms rest)
  obtain a where a: "mb = Some a" using 2 by (cases mb) auto
  have ids: "BlockNode (Some b) cs \<in> set (forEachBlockNode xs) \<Longrightarrow> draft_wf xs \<Longrightarrow> b_id b \<in> set (draft_ids xs)" for xs
    by (metis (no_types, lifting) block_node.sel(1) image_eqI list.set_map node_id_def nodes_ids option.simps(5))
  note d = 2(4) [unfolded a draft_ids_Cons]
  consider "BlockNode (Some b) cs = BlockNode mb ms"
    | xs where "ms = Some xs" "BlockNode (Some b) cs \<in> set (forEachBlockNode xs)"
    | "BlockNode (Some b) cs \<in> set (forEachBlockNode rest)"
    using 2(5) by (auto split: option.splits)
  then show ?case
  proof cases
    case 1
    then have "siblings (draft_entries (Some (BlockNode mb ms)) rest p) (b_id b) = []"
      using d a by (intro siblings_other) auto
    moreover have "siblings (draft_entries None xs (b_id b)) (b_id b) = map (\<lambda>n. node_id (Some n)) xs" if "ms = Some xs" for xs
      using 1 2(3) d a that by (intro siblings_top) auto
    ultimately show ?thesis using 1 a d by (cases ms) auto
  next
    case (2 xs)
    have b: "b_id b \<in> set (draft_ids xs)" using ids [OF 2(2)] \<open>draft_wf (BlockNode mb ms # rest)\<close> 2(1) a by auto
    have "siblings (draft_entries (Some (BlockNode mb ms)) rest p) (b_id b) = []"
      using d b 2(1) by (intro siblings_other) auto
    moreover have "siblings (draft_entries None xs (b_id a)) (b_id b) = map (\<lambda>n. node_id (Some n)) (case cs of None \<Rightarrow> [] | Some ms \<Rightarrow> ms)"
      using "2.IH"(1) [OF 2(1), of "b_id a" None] \<open>draft_wf (BlockNode mb ms # rest)\<close> 2 a d by auto
    ultimately show ?thesis using a d b 2(1) by auto
  next
    case 3
    have b: "b_id b \<in> set (draft_ids rest)" using ids [OF 3] 2(3) a by auto
    have "siblings (draft_entries None xs (b_id a)) (b_id b) = []" if "ms = Some xs" for xs
      using d b that by (intro siblings_other) auto
    moreover have "siblings (draft_entries (Some (BlockNode mb ms)) rest p) (b_id b) = map (\<lambda>n. node_id (Some n)) (case cs of None \<Rightarrow> [] | Some ms \<Rightarrow> ms)"
      using "2.IH"(2) [of p "Some (BlockNode mb ms)"] 2(3) 3 d a by auto
    ultimately show ?thesis using a d b by (cases ms) auto
  qed
qed simp

lemma place_last:
  assumes "\<And>q. i \<notin> set (f q)" "distinct (f p)" "[] \<notin> set (f p)"
  shows "place i p (if f p = [] then [] else last (f p)) f = f(p := f p @ [i])"
proof -
  have "removeAll i (f q) = f q" for q using assms(1) by simp
  moreover have "f p \<noteq> [] \<Longrightarrow> last (f p) \<noteq> []" using assms(3) last_in_set by metis
  ultimately show ?thesis using assms(2) by (auto simp: place_def insert_after_last)
qed

lemma nav_draft_ids_ne: "draft_wf ns \<Longrightarrow> [] \<notin> set (draft_ids ns)"
proof (induction ns rule: forEachBlockNode.induct)
  case (2 mb ms rest)
  then show ?case by (cases mb; cases ms) (auto simp: draft_ids_Cons)
qed (simp add: draft_ids_def)

lemma set_siblings: "set (siblings (draft_entries prev ns p) q) \<subseteq> set (draft_ids ns)"
  by (subst draft_ids_eq [of prev ns p, symmetric]) (auto simp: siblings_def)

lemma distinct_siblings: "distinct (draft_ids ns) \<Longrightarrow> distinct (siblings (draft_entries prev ns p) q)"
  by (subst (asm) draft_ids_eq [of prev ns p, symmetric]) (simp add: siblings_def distinct_map_filter)

lemma last_id_last: "last_id (Some ns) = (if ns = [] then [] else last (map (\<lambda>n. node_id (Some n)) ns))"
  by (cases ns) (auto simp: last_id_def last_map)

text \<open>The changes that put a new block behind the others of its parent.\<close>

lemma appended:
  assumes "draft_wf ns" "distinct (draft_ids ns)" and i: "b_id b \<notin> set (draft_ids ns)"
    and l: "l = (if siblings (draft_entries None ns []) p = [] then [] else last (siblings (draft_entries None ns []) p))"
  shows "foldl move_step (siblings (draft_entries None ns [])) [SetTitle t, MoveBlock (b_id b) p l, ReplaceBlock b]
    = (siblings (draft_entries None ns []))(p := siblings (draft_entries None ns []) p @ [b_id b])"
proof -
  let ?s = "siblings (draft_entries None ns [])"
  have "b_id b \<notin> set (?s q)" "[] \<notin> set (?s q)" for q
    using set_siblings [of None ns "[]" q] i nav_draft_ids_ne [OF assms(1)] by auto
  then have "place (b_id b) p l ?s = ?s(p := ?s p @ [b_id b])"
    unfolding l using distinct_siblings [OF assms(2)] by (intro place_last) auto
  then show ?thesis by simp
qed

lemma appended_map:
  "foldl apply_change m [SetTitle t, MoveBlock (b_id b) p l, ReplaceBlock b]
    = m(b_id b \<mapsto> \<lparr>bm_parent = p, bm_left = l, bm_block = b\<rparr>)"
  by (auto split: option.splits)

text \<open>
  A new category goes behind all blocks of the top level; with an id that some block already has,
  that block is moved there and overwritten.
\<close>

theorem category_created:
  assumes "draft_wf ns" "distinct (draft_ids ns)" "d_children doc = Some ns"
    and "new = category_block (createBlockID random) title"
  shows "\<exists>changes. create_category title random doc = Inr changes \<and>
    foldl apply_change m changes =
      m(createBlockID random \<mapsto> \<lparr>bm_parent = [], bm_left = last_id (Some ns), bm_block = new\<rparr>) \<and>
    (createBlockID random \<notin> set (draft_ids ns) \<longrightarrow>
      foldl move_step (siblings (draft_entries None ns [])) changes =
        (siblings (draft_entries None ns []))([] := map (\<lambda>n. node_id (Some n)) ns @ [createBlockID random]))"
proof -
  have ids: "b_id new = createBlockID random" by (simp add: assms(4) category_block_def)
  have top: "siblings (draft_entries None ns []) [] = map (\<lambda>n. node_id (Some n)) ns"
    using siblings_top [OF assms(1)] nav_draft_ids_ne [OF assms(1)] by blast
  have l: "last_id (Some ns) = (if siblings (draft_entries None ns []) [] = [] then [] else last (siblings (draft_entries None ns []) []))"
    unfolding top last_id_last by simp
  show ?thesis
    using appended [OF assms(1,2) _ l, of new nav_title] appended_map [of m nav_title new "[]" "last_id (Some ns)"] assms(3) ids
    unfolding create_category_def Let_def assms(4) [symmetric] top by auto
qed

lemma category_node_found:
  assumes "draft_wf ns" "d_children doc = Some ns" "category_node doc i = Inr (b, cs)"
  shows "b_id b = i" "BlockNode (Some b) cs \<in> set (forEachBlockNode ns)"
proof -
  have "find (\<lambda>n. node_id (Some n) = i) (forEachBlockNode ns) = Some (BlockNode (Some b) cs)"
    using assms(2,3) find_nodes(1) [OF assms(1), of i]
    by (auto simp: category_node_def doc_nodes_def split: option.splits block_node.splits)
  from find_SomeD' [OF this] show "b_id b = i" "BlockNode (Some b) cs \<in> set (forEachBlockNode ns)"
    by (simp_all add: node_id_def)
qed

text \<open>
  A document added to a category becomes an embed that refers to the group at that path, the last
  of the items of the category, and no other block moves or changes.
\<close>

theorem item_added:
  assumes "draft_wf ns" "distinct (draft_ids ns)" "d_children doc = Some ns"
    and "add_to_category gid path docId categoryId random doc = Inr changes"
    and "variant_ok (GroupVariant gid (Some path))"
    and "unpackHmId docId = Some u" "u_eid u = Some e" "seg_ok e"
  shows "\<exists>new ref. b_id new = createBlockID random \<and>
    group_ref gid path new = Some ref \<and> u_eid ref = Some e \<and>
    foldl apply_change m changes = m(createBlockID random \<mapsto>
      \<lparr>bm_parent = categoryId, bm_left = last ([] # siblings (draft_entries None ns []) categoryId), bm_block = new\<rparr>) \<and>
    (createBlockID random \<notin> set (draft_ids ns) \<longrightarrow>
      foldl move_step (siblings (draft_entries None ns [])) changes =
        (siblings (draft_entries None ns []))(categoryId := siblings (draft_entries None ns []) categoryId @ [createBlockID random]))"
proof -
  let ?new = "ref_block (createBlockID random) gid path (Some e)" and ?s = "siblings (draft_entries None ns [])"
  obtain b cs where c: "category_node doc categoryId = Inr (b, cs)"
    and chs: "changes = [SetTitle nav_title, MoveBlock (b_id ?new) (b_id b) (last_id cs), ReplaceBlock ?new]"
    using assms(4,6,7) by (auto simp: add_to_category_def Let_def bind_result_Inr_iff)
  note found = category_node_found [OF assms(1,3) c]
  have kids: "?s (b_id b) = map (\<lambda>n. node_id (Some n)) (case cs of None \<Rightarrow> [] | Some ms \<Rightarrow> ms)"
    using siblings_node [OF assms(1) _ found(2), of "[]" None] assms(2) nav_draft_ids_ne [OF assms(1)] by auto
  have l: "last_id cs = (if ?s (b_id b) = [] then [] else last (?s (b_id b)))"
    using last_id_last kids by (cases cs) (auto simp: last_id_def [of None])
  have id: "b_id ?new = createBlockID random" by (simp add: ref_block_def)
  have "?new\<lparr>b_ref := Some (path_ref gid path (Some e))\<rparr> = ?new" "b_type ?new = ''embed''" by (simp_all add: ref_block_def)
  with group_ref_path [OF assms(8,5), of ?new] obtain ref where "group_ref gid path ?new = Some ref" "u_eid ref = Some e" by auto
  then show ?thesis
    using appended [OF assms(1,2) _ l, of ?new nav_title] appended_map [of m nav_title ?new "b_id b" "last_id cs"] l found(1) id
    unfolding chs by (intro exI [of _ ?new] exI [of _ ref]) auto
qed

text \<open>
  C23. Renaming a path that succeeds returns the entry it had and updates the group once, as its last
  call, so that the new path has that entry, the old path none and every other path what it had, but
  for the navigation, which gets the newly published document when its references changed.
\<close>

theorem rename_path:
  assumes "useRenameGroupDoc D gid path newPath past = (Inr v, past')"
  shows "\<exists>content calls nav u. listContent D (past @ [ListContent gid]) = Inr content \<and>
    map_of content path = Some v \<and> past' = past @ ListContent gid # calls @ [UpdateGroup u] \<and>
    no_group_update calls \<and> gu_id u = gid \<and>
    (case nav of None \<Rightarrow> unchanged_nav D gid (rename_refs gid path newPath) (past @ [ListContent gid]) calls
     | Some i \<Rightarrow> published_nav D gid (rename_refs gid path newPath) (past @ [ListContent gid]) calls i) \<and>
    apply_content (map_of content) (the (gu_content u)) =
      (\<lambda>k. if k = ''_navigation'' \<and> nav \<noteq> None then nav else if k = newPath then Some v
           else if k = path then None else map_of content k)"
proof -
  let ?past = "past @ [ListContent gid]"
  obtain content where content: "listContent D ?past = Inr content" "truthy (map_of content path)"
    using assms by (auto simp: useRenameGroupDoc_def run_simps split: sum.splits if_splits)
  obtain v' where v': "map_of content path = Some v'" "v' \<noteq> []" using content(2) by (auto simp: truthy_def)
  obtain r past1 where m: "mutateGroupNavigationDoc D gid (rename_refs gid path newPath) ?past = (r, past1)" by force
  from mutate_run [OF m] obtain calls where calls: "past1 = ?past @ calls" "no_group_update calls"
    "r = Inr None \<longrightarrow> unchanged_nav D gid (rename_refs gid path newPath) ?past calls"
    "\<forall>nav. r = Inr (Some nav) \<longrightarrow> published_nav D gid (rename_refs gid path newPath) ?past calls nav" by blast
  obtain nav where r: "r = Inr nav"
    using assms content v' m by (cases r) (auto simp: useRenameGroupDoc_def run_simps await_def)
  have nav_ne: "nav = Some i \<Longrightarrow> i \<noteq> []" for i using calls(4) r by (auto simp: published_nav_def)
  let ?upd = "if truthy nav then obj_set ''_navigation'' (default_str nav) (obj_set newPath v' [(path, [])])
      else obj_set newPath v' [(path, [])]"
  let ?u = "(update_of gid)\<lparr>gu_content := Some ?upd\<rparr>"
  have "v = v'" "past' = past1 @ [UpdateGroup ?u]"
    using assms content v' m r
    by (auto simp: useRenameGroupDoc_def run_simps await_def invoke_def Let_def split: sum.splits prod.splits)
  moreover have "apply_content (map_of content) ?upd =
      (\<lambda>k. if k = ''_navigation'' \<and> nav \<noteq> None then nav else if k = newPath then Some v'
           else if k = path then None else map_of content k)"
    using v' nav_ne by (cases nav) (auto simp: truthy_def default_str_def fun_eq_iff)
  ultimately show ?thesis
    using content v' calls r by (intro exI [of _ content] exI [of _ calls] exI [of _ nav] exI [of _ ?u])
      (auto simp: update_of_def split: option.splits)
qed


section \<open>Instances\<close>

definition nav_sample :: hm_document where
  "nav_sample = \<lparr>d_title = None, d_children = Some
     [BlockNode (Some (category_block ''h1'' ''News''))
        (Some [BlockNode (Some (ref_block ''r1'' ''hm://g/grp'' ''old'' (Some ''doc''))) None])]\<rparr>"

lemma nav_sample_ok: "d_children nav_sample = Some (the (d_children nav_sample))"
  "draft_wf (the (d_children nav_sample))" "distinct (draft_ids (the (d_children nav_sample)))"
  by (simp_all add: nav_sample_def category_block_def ref_block_def draft_ids_def)

lemma sample_variant: "variant_ok (GroupVariant ''hm://g/grp'' (Some ''new''))"
  by code_simp

lemma sample_ref: "group_ref ''hm://g/grp'' ''old'' (ref_block ''r1'' ''hm://g/grp'' ''old'' (Some ''doc'')) \<noteq> None"
  "map_option u_eid (group_ref ''hm://g/grp'' ''old'' (ref_block ''r1'' ''hm://g/grp'' ''old'' (Some ''doc''))) = Some (Some ''doc'')"
  "seg_ok ''doc''"
  by code_simp+

lemma sample_heading: "group_ref ''hm://g/grp'' ''old'' (category_block ''h1'' ''News'') = None"
  by (simp add: group_ref_def category_block_def)

theorem getBlockNode_agree_witness:
  "getBlockNode (the (d_children nav_sample)) ''r1'' = Inr (getBlockNodeById (the (d_children nav_sample)) ''r1'') \<and>
   getBlockNodeById (the (d_children nav_sample)) ''r1'' \<noteq> None"
  using getBlockNode_agree [OF nav_sample_ok(2), of "''r1''"]
  by (simp add: nav_sample_def category_block_def ref_block_def)

theorem rename_moves_refs_witness:
  "\<exists>changes it b u. rename_refs ''hm://g/grp'' ''old'' ''new'' nav_sample = Inr changes \<and>
     map_of (createBlocksMap (d_children nav_sample) []) ''r1'' = Some it \<and>
     foldl apply_change (map_of (createBlocksMap (d_children nav_sample) [])) changes ''r1'' = Some (it\<lparr>bm_block := b\<rparr>) \<and>
     group_ref ''hm://g/grp'' ''new'' b = Some u \<and> u_eid u = Some ''doc''"
proof -
  let ?h = "category_block ''h1'' ''News''" and ?r = "ref_block ''r1'' ''hm://g/grp'' ''old'' (Some ''doc'')"
  let ?ns = "the (d_children nav_sample)"
  let ?m = "createBlocksMap (Some ?ns) []"
  have nodes: "forEachBlockNode ?ns = [BlockNode (Some ?h) (Some [BlockNode (Some ?r) None]), BlockNode (Some ?r) None]"
    by (simp add: nav_sample_def)
  have ok: "\<forall>n \<in> set (forEachBlockNode ?ns). \<forall>b u. node_block n = Some b \<and> group_ref ''hm://g/grp'' ''old'' b = Some u \<longrightarrow>
      (\<exists>e. u_eid u = Some e \<and> seg_ok e)"
    using sample_ref sample_heading by (auto simp: nodes)
  have it: "map_of ?m ''r1'' = Some \<lparr>bm_parent = ''h1'', bm_left = [], bm_block = ?r\<rparr>"
    using createBlocksMap_entries [OF nav_sample_ok(2,3), of "[]"]
    by (simp add: nav_sample_def category_block_def ref_block_def item_of_def node_id_def)
  from sample_ref obtain u where u: "group_ref ''hm://g/grp'' ''old'' ?r = Some u" "u_eid u = Some ''doc''" by auto
  show ?thesis
    using rename_moves_refs [OF nav_sample_ok(2,3,1) sample_variant _ ok] it u nav_sample_ok(1)
    by (auto dest!: spec [of _ "''r1''"])
qed

lemma sample_siblings:
  "siblings (draft_entries None (the (d_children nav_sample)) []) ''h1'' = [''r1'']"
  "siblings (draft_entries None (the (d_children nav_sample)) []) [] = [''h1'']"
  "draft_ids (the (d_children nav_sample)) = [''h1'', ''r1'']"
  by (simp_all add: nav_sample_def category_block_def ref_block_def draft_ids_def)

lemma sample_id: "createBlockID (1 / 2) = ''50000''"
  by (simp add: createBlockID_def show_nat.simps digit_char_def)

theorem category_created_witness:
  "\<exists>changes. create_category ''More'' (1 / 2) nav_sample = Inr changes \<and>
     foldl move_step (siblings (draft_entries None (the (d_children nav_sample)) [])) changes [] = [''h1'', ''50000'']"
proof -
  have "map (\<lambda>n. node_id (Some n)) (the (d_children nav_sample)) = [''h1'']"
    by (simp add: nav_sample_def node_id_def category_block_def)
  then show ?thesis
    using category_created [OF nav_sample_ok(2,3,1) refl, where m = Map.empty and random = "1 / 2" and title = "''More''"]
    by (auto simp: sample_siblings sample_id)
qed

lemma sample_doc_id: "map_option u_eid (unpackHmId ''hm://d/more?v=1'') = Some (Some ''more'')" "seg_ok ''more''"
  by code_simp+

theorem item_added_witness:
  "\<exists>changes. add_to_category ''hm://g/grp'' ''new'' ''hm://d/more?v=1'' ''h1'' (1 / 2) nav_sample = Inr changes \<and>
     foldl move_step (siblings (draft_entries None (the (d_children nav_sample)) [])) changes ''h1'' = [''r1'', ''50000'']"
proof -
  obtain u where u: "unpackHmId ''hm://d/more?v=1'' = Some u" "u_eid u = Some ''more''"
    using sample_doc_id by auto
  obtain b cs where "category_node nav_sample ''h1'' = Inr (b, cs)"
    by (simp add: category_node_def doc_nodes_def nav_sample_def category_block_def)
  then obtain changes where c: "add_to_category ''hm://g/grp'' ''new'' ''hm://d/more?v=1'' ''h1'' (1 / 2) nav_sample = Inr changes"
    using u by (simp add: add_to_category_def Let_def)
  show ?thesis
    using item_added [OF nav_sample_ok(2,3,1) c sample_variant u sample_doc_id(2), where m = Map.empty] c
    by (auto simp: sample_siblings sample_id)
qed

theorem rename_path_witness:
  "\<exists>past' u. useRenameGroupDoc (daemon_sample nav_sample) ''hm://g/grp'' ''old'' ''new'' [] = (Inr ''hm://d/doc?v=1'', past' @ [UpdateGroup u]) \<and>
     apply_content [''_navigation'' \<mapsto> ''hm://d/nav?v=2'', ''old'' \<mapsto> ''hm://d/doc?v=1''] (the (gu_content u)) ''new'' = Some ''hm://d/doc?v=1''"
proof -
  let ?r = "ref_block ''r1'' ''hm://g/grp'' ''old'' (Some ''doc'')"
  have id: "hmIdWithVersion (Val ''hm://d/nav'') (Val ''3'') Absent Absent = Some ''hm://d/nav?v=3''" by code_simp
  have chs: "\<exists>c. rename_refs ''hm://g/grp'' ''old'' ''new'' nav_sample = Inr [c]"
    using sample_ref(1) sample_heading
    by (auto simp: rename_refs_def doc_nodes_def nav_sample_def rename_block_def)
  obtain past' where run: "useRenameGroupDoc (daemon_sample nav_sample) ''hm://g/grp'' ''old'' ''new'' [] = (Inr ''hm://d/doc?v=1'', past')"
    using chs id
    by (auto simp: useRenameGroupDoc_def run_simps daemon_sample_def truthy_def await_def mutate_run_eq publish_changes_def Let_def invoke_def returns_def)
  show ?thesis
    using rename_path [OF run] run by (auto simp: daemon_sample_def)
qed

end
