(* ===== verification/Group_Queries.thy ===== *)
theory Group_Queries
  imports Group_Calls
begin

text \<open>
  What the queries on groups show (\<^verbatim>\<open>frontend/packages/app/models/groups.ts\<close>): the content
  of a group, by path and by document, and the groups a document is in, with what they hold now.

  The answers of the daemon are arguments. A map is the list of its entries in insertion order.
\<close>

section \<open>The groups of a document\<close>

record group_entry =
  ge_groupId :: string
  ge_changeId :: string
  ge_seconds :: "nat option"
  ge_path :: string
  ge_rawUrl :: string

definition entry_key :: "group_entry \<Rightarrow> string" where
  "entry_key item = ge_groupId item @ ''-'' @ ge_path item"

text \<open>The loop body: an item without a time, or older than what is there, is passed over; a time of zero is no time there.\<close>

definition latest_step :: "(string \<times> group_entry) list \<Rightarrow> group_entry \<Rightarrow> (string \<times> group_entry) list" where
  "latest_step m item = (case ge_seconds item of None \<Rightarrow> m
    | Some t \<Rightarrow>
        (case map_of m (entry_key item) of
           None \<Rightarrow> obj_set (entry_key item) item m
         | Some prev \<Rightarrow>
             (case ge_seconds prev of None \<Rightarrow> m
              | Some t' \<Rightarrow> if t' = 0 then m else if t' > t then m else obj_set (entry_key item) item m)))"

definition useDocumentGroups :: "group_entry list \<Rightarrow> group_entry list" where
  "useDocumentGroups items = map snd (foldl latest_step [] items)"

text \<open>
  \<open>useCurrentDocumentGroups\<close>: the ids of the groups, the answers in the same order, and the items
  whose group has the document at the path now. An entry that is no document raises.
\<close>

fun find_query :: "string \<Rightarrow> string list \<Rightarrow> 'a list \<Rightarrow> 'a option" where
  "find_query gid (i # ids) (q # queries) = (if gid = i then Some q else find_query gid ids queries)"
| "find_query gid _ _ = None"

definition holds_now :: "(string \<Rightarrow> (string \<times> string) list option) \<Rightarrow> string list \<Rightarrow> string option \<Rightarrow> group_entry \<Rightarrow> (url_error + bool)" where
  "holds_now contents ids documentId item =
     (case find_query (ge_groupId item) ids (map contents ids) of
        Some (Some content) \<Rightarrow>
          (case map_of content (ge_path item) of
             None \<Rightarrow> Inr False
           | Some pathURL \<Rightarrow>
               if pathURL = [] then Inr False
               else (case unpackDocId pathURL of
                   Inl e \<Rightarrow> Inl e
                 | Inr None \<Rightarrow> Inr False
                 | Inr (Some (_, docId)) \<Rightarrow> Inr (docId \<noteq> [] \<and> Some docId = documentId)))
      | _ \<Rightarrow> Inr False)"

fun filter_raising :: "('a \<Rightarrow> 'e + bool) \<Rightarrow> 'a list \<Rightarrow> 'e + 'a list" where
  "filter_raising f [] = Inr []"
| "filter_raising f (x # xs) = (case f x of Inl e \<Rightarrow> Inl e
    | Inr b \<Rightarrow> (case filter_raising f xs of Inl e \<Rightarrow> Inl e | Inr ys \<Rightarrow> Inr (if b then x # ys else ys)))"

definition useCurrentDocumentGroups ::
  "(string \<Rightarrow> (string \<times> string) list option) \<Rightarrow> string option \<Rightarrow> group_entry list \<Rightarrow> url_error + group_entry list" where
  "useCurrentDocumentGroups contents documentId items =
     (let docGroups = useDocumentGroups items;
          groupsToQuery = set_add_all [] (map ge_groupId docGroups)
      in filter_raising (holds_now contents groupsToQuery documentId) docGroups)"

section \<open>The content of a group\<close>

text \<open>\<open>useInvertedGroupContent\<close>: from document and version to path.\<close>

definition invert_step :: "(string \<times> (string \<times> string) list) list \<Rightarrow> string \<times> string \<Rightarrow> (string \<times> (string \<times> string) list) list" where
  "invert_step acc entry = (case entry of (path, fullContentId) \<Rightarrow>
     if fullContentId = [] then acc
     else (case unpackHmId fullContentId of
         None \<Rightarrow> acc
       | Some u \<Rightarrow>
           (case truthy_str (u_version u) of
              None \<Rightarrow> acc
            | Some v \<Rightarrow>
                (let versions = (case map_of acc (show_undef (u_eid u)) of None \<Rightarrow> [] | Some vs \<Rightarrow> vs)
                 in obj_set (show_undef (u_eid u)) (obj_set v path versions) acc))))"

definition useInvertedGroupContent :: "(string \<times> string) list option \<Rightarrow> (string \<times> (string \<times> string) list) list" where
  "useInvertedGroupContent content = foldl invert_step [] (case content of None \<Rightarrow> [] | Some c \<Rightarrow> c)"

text \<open>
  \<open>useFullGroupContent\<close>: the entries that are ids, each with the publication the queries found. The
  order in which the items are shown is left out: the comparison of times is no order when one is missing.
\<close>

record publication_data =
  pd_id :: "string option"
  pd_version :: "string option"

definition contentEntries :: "(string \<times> string) list option \<Rightarrow> (string \<times> UnpackedHypermediaId) list" where
  "contentEntries content = List.map_filter (\<lambda>(path, fullContentId). map_option (Pair path) (unpackHmId fullContentId))
     (case content of None \<Rightarrow> [] | Some c \<Rightarrow> c)"

text \<open>Equality of a field that may be missing with the version of an id, where \<open>null\<close> is not \<open>undefined\<close>.\<close>

definition same_version :: "string option \<Rightarrow> string jsval \<Rightarrow> bool" where
  "same_version a b = (case b of Val v \<Rightarrow> a = Some v | Null \<Rightarrow> False | _ \<Rightarrow> a = None)"

definition fullGroupContent ::
  "(string \<Rightarrow> string option \<Rightarrow> publication_data option) \<Rightarrow> (string \<times> string) list option
     \<Rightarrow> (string \<times> UnpackedHypermediaId \<times> publication_data option) list" where
  "fullGroupContent queryPublication content =
     (let entries = contentEntries content;
          queries = map (\<lambda>(_, u). queryPublication (createHmId ''d'' (show_undef (u_eid u)) no_opts) (truthy_str (u_version u))) entries
      in map (\<lambda>(key, u). (key, u,
           (case find (\<lambda>q. case q of None \<Rightarrow> False | Some p \<Rightarrow> pd_id p = Some (u_qid u) \<and> same_version (pd_version p) (u_version u)) queries of
              None \<Rightarrow> None | Some q \<Rightarrow> q))) entries)"

definition useGroupFrontpage :: "(string \<times> string) list option \<Rightarrow> UnpackedHypermediaId option" where
  "useGroupFrontpage content = (case content of None \<Rightarrow> None | Some c \<Rightarrow>
     (case map_of c ''/'' of None \<Rightarrow> None | Some frontpage \<Rightarrow> if frontpage = [] then None else unpackHmId frontpage))"

definition useCanEditGroup :: "string option list option \<Rightarrow> string option \<Rightarrow> bool" where
  "useCanEditGroup items gid = (if \<not> truthy gid then False
     else (case items of None \<Rightarrow> False | Some is \<Rightarrow> (\<exists>i \<in> set is. truthy i \<and> i = gid)))"

definition useAllGroups :: "('g \<Rightarrow> int option) \<Rightarrow> 'g list list option \<Rightarrow> 'g list" where
  "useAllGroups updateTime pages = js_sort (\<lambda>a b. sortDocuments (updateTime a) (updateTime b))
     (case pages of None \<Rightarrow> [] | Some ps \<Rightarrow> concat ps)"

section \<open>Latest entries\<close>

definition same_place :: "group_entry \<Rightarrow> group_entry \<Rightarrow> bool" where
  "same_place i j \<longleftrightarrow> ge_groupId i = ge_groupId j \<and> ge_path i = ge_path j"

text \<open>An item that no item of its place outdates: none is later, none after it in the answer is as late.\<close>

definition latest_in :: "group_entry list \<Rightarrow> group_entry \<Rightarrow> bool" where
  "latest_in items it \<longleftrightarrow> (\<exists>t xs ys. ge_seconds it = Some t \<and> items = xs @ it # ys \<and>
     (\<forall>j \<in> set xs. same_place j it \<longrightarrow> (\<forall>s. ge_seconds j = Some s \<longrightarrow> s \<le> t)) \<and>
     (\<forall>j \<in> set ys. same_place j it \<longrightarrow> (\<forall>s. ge_seconds j = Some s \<longrightarrow> s < t)))"

lemma latest_in_snoc: "latest_in (items @ [x]) it \<longleftrightarrow>
  (\<exists>t. ge_seconds it = Some t \<and>
    (it = x \<and> (\<forall>j \<in> set items. same_place j it \<longrightarrow> (\<forall>s. ge_seconds j = Some s \<longrightarrow> s \<le> t)) \<or>
     latest_in items it \<and> (same_place x it \<longrightarrow> (\<forall>s. ge_seconds x = Some s \<longrightarrow> s < t))))"
proof
  assume "latest_in (items @ [x]) it"
  then obtain t xs ys where *: "ge_seconds it = Some t" "items @ [x] = xs @ it # ys"
     "\<forall>j \<in> set xs. same_place j it \<longrightarrow> (\<forall>s. ge_seconds j = Some s \<longrightarrow> s \<le> t)"
     "\<forall>j \<in> set ys. same_place j it \<longrightarrow> (\<forall>s. ge_seconds j = Some s \<longrightarrow> s < t)" by (auto simp: latest_in_def)
  show "\<exists>t. ge_seconds it = Some t \<and>
    (it = x \<and> (\<forall>j \<in> set items. same_place j it \<longrightarrow> (\<forall>s. ge_seconds j = Some s \<longrightarrow> s \<le> t)) \<or>
     latest_in items it \<and> (same_place x it \<longrightarrow> (\<forall>s. ge_seconds x = Some s \<longrightarrow> s < t)))"
  proof (cases ys rule: rev_cases)
    case Nil
    with * show ?thesis by auto
  next
    case (snoc zs z)
    with * have "latest_in items it" by (auto simp: latest_in_def)
    with * snoc show ?thesis by auto
  qed
next
  assume "\<exists>t. ge_seconds it = Some t \<and>
    (it = x \<and> (\<forall>j \<in> set items. same_place j it \<longrightarrow> (\<forall>s. ge_seconds j = Some s \<longrightarrow> s \<le> t)) \<or>
     latest_in items it \<and> (same_place x it \<longrightarrow> (\<forall>s. ge_seconds x = Some s \<longrightarrow> s < t)))"
  then obtain t where t: "ge_seconds it = Some t"
    "it = x \<and> (\<forall>j \<in> set items. same_place j it \<longrightarrow> (\<forall>s. ge_seconds j = Some s \<longrightarrow> s \<le> t)) \<or>
     latest_in items it \<and> (same_place x it \<longrightarrow> (\<forall>s. ge_seconds x = Some s \<longrightarrow> s < t))" by blast
  from t(2) show "latest_in (items @ [x]) it"
  proof (elim disjE conjE)
    assume "it = x" "\<forall>j \<in> set items. same_place j it \<longrightarrow> (\<forall>s. ge_seconds j = Some s \<longrightarrow> s \<le> t)"
    with t(1) show ?thesis unfolding latest_in_def by (intro exI [of _ t] exI [of _ items] exI [of _ "[]"]) auto
  next
    assume "latest_in items it" and new: "same_place x it \<longrightarrow> (\<forall>s. ge_seconds x = Some s \<longrightarrow> s < t)"
    then obtain xs ys where "items = xs @ it # ys"
     "\<forall>j \<in> set xs. same_place j it \<longrightarrow> (\<forall>s. ge_seconds j = Some s \<longrightarrow> s \<le> t)"
     "\<forall>j \<in> set ys. same_place j it \<longrightarrow> (\<forall>s. ge_seconds j = Some s \<longrightarrow> s < t)"
      using t(1) by (auto simp: latest_in_def)
    with t(1) new show ?thesis unfolding latest_in_def
      by (intro exI [of _ t] exI [of _ xs] exI [of _ "ys @ [x]"]) auto
  qed
qed

lemma same_place_key:
  assumes "CHR ''-'' \<notin> set (ge_groupId i)" "CHR ''-'' \<notin> set (ge_groupId j)"
  shows "entry_key i = entry_key j \<longleftrightarrow> same_place i j"
proof
  assume k: "entry_key i = entry_key j"
  have "takeWhile (\<lambda>c. c \<noteq> CHR ''-'') (entry_key x) = ge_groupId x" if "CHR ''-'' \<notin> set (ge_groupId x)" for x
    using that by (subst entry_key_def, subst takeWhile_append2) auto
  with assms k have "ge_groupId i = ge_groupId j" by metis
  with k show "same_place i j" by (simp add: same_place_def entry_key_def)
qed (simp add: same_place_def entry_key_def)

definition entries_ok :: "group_entry list \<Rightarrow> bool" where
  "entries_ok items \<longleftrightarrow> (\<forall>it \<in> set items. CHR ''-'' \<notin> set (ge_groupId it) \<and> ge_seconds it \<noteq> Some 0)"

lemma latest_fold:
  "entries_ok items \<Longrightarrow>
    (\<forall>k it. map_of (foldl latest_step [] items) k = Some it \<longleftrightarrow> entry_key it = k \<and> latest_in items it) \<and>
    (\<forall>x s. x \<in> set items \<longrightarrow> ge_seconds x = Some s \<longrightarrow>
      (\<exists>it t. map_of (foldl latest_step [] items) (entry_key x) = Some it \<and> ge_seconds it = Some t \<and> s \<le> t))"
proof (induction items rule: rev_induct)
  case Nil
  show ?case by (simp add: latest_in_def)
next
  case (snoc y items)
  let ?m = "foldl latest_step [] items"
  have ok: "entries_ok items" using snoc.prems by (simp add: entries_ok_def)
  have mem: "x \<in> set items \<Longrightarrow> entry_key y = entry_key x \<longleftrightarrow> same_place y x" "same_place y x \<longleftrightarrow> same_place x y" for x
    using snoc.prems same_place_key [of y x] by (simp_all add: entries_ok_def) (auto simp: same_place_def)
  have li: "latest_in items it \<Longrightarrow> it \<in> set items \<and> (\<exists>t. ge_seconds it = Some t \<and> t \<noteq> 0)" for it
    using ok by (auto simp: latest_in_def entries_ok_def)
  have IH1: "map_of ?m k = Some it \<longleftrightarrow> entry_key it = k \<and> latest_in items it"
    and IH2: "x \<in> set items \<Longrightarrow> ge_seconds x = Some s \<Longrightarrow>
      \<exists>it t. map_of ?m (entry_key x) = Some it \<and> ge_seconds it = Some t \<and> s \<le> t" for k it x s
    using snoc.IH [OF ok] by blast+
  have bound: "\<exists>p t'. map_of ?m (entry_key y) = Some p \<and> ge_seconds p = Some t' \<and> s \<le> t'"
    if "x \<in> set items" "ge_seconds x = Some s" "same_place x y" for x s
    using IH2 [OF that(1,2)] mem [of x] that by auto
  have old: "latest_in (items @ [y]) it \<longleftrightarrow> latest_in items it" if "entry_key it \<noteq> entry_key y \<or> ge_seconds y = None" for it
    using that li [of it] mem [of it] by (auto simp: latest_in_snoc)
  have "map_of (foldl latest_step [] (items @ [y])) k = Some it \<longleftrightarrow> entry_key it = k \<and> latest_in (items @ [y]) it" for k it
    proof (cases "k = entry_key y \<and> ge_seconds y \<noteq> None")
      case False
      then have "map_of (latest_step ?m y) k = map_of ?m k"
        by (auto simp: latest_step_def update_conv' split: option.splits)
      with False old [of it] IH1 [of k it] show ?thesis by auto
    next
      case True
      then obtain t where k: "k = entry_key y" and t: "ge_seconds y = Some t" "t \<noteq> 0"
        using snoc.prems by (auto simp: entries_ok_def)
      show ?thesis
      proof (cases "map_of ?m k")
        case None
        then have "\<not> (entry_key it = k \<and> latest_in items it)" for it using IH1 [of k it] by auto
        moreover have "\<forall>j \<in> set items. same_place j y \<longrightarrow> (\<forall>s. ge_seconds j = Some s \<longrightarrow> s \<le> t)"
          using bound None k by fastforce
        ultimately show ?thesis using None t k by (auto simp: latest_step_def latest_in_snoc update_conv')
      next
        case (Some p)
        then have p: "entry_key p = k" "latest_in items p" using IH1 by auto
        then obtain t' where t': "ge_seconds p = Some t'" "t' \<noteq> 0" "p \<in> set items" using li by blast
        have same: "same_place y p" using mem(1) [OF t'(3)] p(1) k by simp
        have uniq: "entry_key it = k \<and> latest_in items it \<longleftrightarrow> it = p" for it using IH1 [of k it] Some by auto
        have le: "\<forall>j \<in> set items. same_place j y \<longrightarrow> (\<forall>s. ge_seconds j = Some s \<longrightarrow> s \<le> t')"
          using bound Some k t'(1) by fastforce
        show ?thesis
        proof (cases "t' > t")
          case True
          then have "\<not> (\<forall>j \<in> set items. same_place j y \<longrightarrow> (\<forall>s. ge_seconds j = Some s \<longrightarrow> s \<le> t))"
            using t' same mem(2) [of p] by fastforce
          then have "entry_key it = k \<and> latest_in (items @ [y]) it \<longleftrightarrow> it = p"
            using uniq [of it] t t' True same by (auto simp: latest_in_snoc)
          with True Some t t' k show ?thesis by (auto simp: latest_step_def)
        next
          case False
          with le have "\<forall>j \<in> set items. same_place j y \<longrightarrow> (\<forall>s. ge_seconds j = Some s \<longrightarrow> s \<le> t)" by fastforce
          with False have "entry_key it = k \<and> latest_in (items @ [y]) it \<longleftrightarrow> it = y"
            using uniq [of it] t t' same k by (auto simp: latest_in_snoc)
          with False Some t t' k show ?thesis by (auto simp: latest_step_def update_conv')
        qed
      qed
    qed
  moreover have "\<exists>it t. map_of (foldl latest_step [] (items @ [y])) (entry_key x) = Some it \<and> ge_seconds it = Some t \<and> s \<le> t"
    if 2: "x \<in> set (items @ [y])" "ge_seconds x = Some s" for x s
    proof (cases "x \<in> set items")
      case True
      from IH2 [OF this 2(2)] show ?thesis
        by (auto simp: latest_step_def update_conv' split: option.splits)
    next
      case False
      with 2 have "x = y" by simp
      with 2 show ?thesis
      proof (cases "map_of ?m (entry_key y)")
        case (Some p)
        then have "latest_in items p" using IH1 by auto
        then obtain t' where "ge_seconds p = Some t'" "t' \<noteq> 0" using li by blast
        with 2 Some \<open>x = y\<close> show ?thesis by (auto simp: latest_step_def update_conv')
      qed (auto simp: latest_step_def update_conv')
    qed
  ultimately show ?case by blast
qed

lemma latest_keys: "distinct (map fst m) \<Longrightarrow> (\<forall>k it. map_of m k = Some it \<longrightarrow> k = entry_key it) \<Longrightarrow>
   distinct (map fst (foldl latest_step m items)) \<and> (\<forall>k it. map_of (foldl latest_step m items) k = Some it \<longrightarrow> k = entry_key it)"
proof (induction items arbitrary: m)
  case (Cons y items)
  have "distinct (map fst (latest_step m y))" "\<forall>k it. map_of (latest_step m y) k = Some it \<longrightarrow> k = entry_key it"
    using Cons.prems by (auto simp: latest_step_def distinct_update update_conv' simp del: map_of_eq_Some_iff split: option.splits)
  from Cons.IH [OF this] show ?case by simp
qed simp

lemma distinct_map_imp: "distinct (map f xs) \<Longrightarrow> distinct xs"
  by (simp add: distinct_map)

lemma document_groups_core:
  assumes "entries_ok items"
  shows "set (useDocumentGroups items) = {it. latest_in items it} \<and>
    distinct (map (\<lambda>it. (ge_groupId it, ge_path it)) (useDocumentGroups items))"
proof -
  let ?m = "foldl latest_step [] items"
  have d: "distinct (map fst ?m)" "\<forall>k it. map_of ?m k = Some it \<longrightarrow> k = entry_key it"
    using latest_keys [of "[]" items] by simp_all
  have mem: "(k, it) \<in> set ?m \<longleftrightarrow> entry_key it = k \<and> latest_in items it" for k it
    using latest_fold [OF assms] map_of_eq_Some_iff [OF d(1)] by metis
  have items: "snd ` set ?m = {it. latest_in items it}"
  proof
    show "snd ` set ?m \<subseteq> {it. latest_in items it}" using mem by auto
    show "{it. latest_in items it} \<subseteq> snd ` set ?m"
    proof
      fix it assume "it \<in> {it. latest_in items it}"
      then have "(entry_key it, it) \<in> set ?m" using mem by simp
      then show "it \<in> snd ` set ?m" by (rule image_eqI [rotated]) simp
    qed
  qed
  have "map entry_key (map snd ?m) = map fst ?m" 
    using mem by (simp add: case_prod_unfold prod_eq_iff) (metis prod.collapse)
  then have "distinct (map entry_key (map snd ?m))" using d(1) by (simp only:)
  also have "map entry_key (map snd ?m) = map (\<lambda>(g, p). g @ ''-'' @ p) (map (\<lambda>it. (ge_groupId it, ge_path it)) (map snd ?m))"
    by (simp only: list.map_comp o_def entry_key_def case_prod_conv)
  finally have "distinct (map (\<lambda>it. (ge_groupId it, ge_path it)) (map snd ?m))" by (rule distinct_map_imp)
  with items show ?thesis by (simp only: useDocumentGroups_def set_map simp_thms)
qed
text \<open>
  The groups of a document: of the items for each group and path the query keeps exactly the latest,
  the last one of those as late, and one for each place, when group ids have no dash and no time is zero.
\<close>

theorem document_groups_latest:
  assumes "entries_ok items"
  shows "set (useDocumentGroups items) = {it. latest_in items it} \<and>
    distinct (map (\<lambda>it. (ge_groupId it, ge_path it)) (useDocumentGroups items))"
  using assms by (rule document_groups_core)

lemma find_query_map: "find_query gid ids (map f ids) = (if gid \<in> set ids then Some (f gid) else None)"
  by (induction ids) auto

lemma filter_raising_cases: "case filter_raising f xs of
    Inl e \<Rightarrow> \<exists>x \<in> set xs. f x = Inl e
  | Inr ys \<Rightarrow> (\<forall>x \<in> set xs. \<exists>b. f x = Inr b) \<and> ys = filter (\<lambda>x. f x = Inr True) xs"
  by (induction xs) (auto split: sum.splits)

text \<open>What a group has at a path now: a document, or an id that is none.\<close>

definition current_doc :: "(string \<Rightarrow> (string \<times> string) list option) \<Rightarrow> group_entry \<Rightarrow> url_error + string option" where
  "current_doc contents it = (case contents (ge_groupId it) of None \<Rightarrow> Inr None
    | Some content \<Rightarrow> (case map_of content (ge_path it) of None \<Rightarrow> Inr None
      | Some url \<Rightarrow> (case unpackDocId url of Inl e \<Rightarrow> Inl e | Inr r \<Rightarrow> Inr (map_option snd r))))"

lemma unpackDocId_Nil: "unpackDocId [] = Inr None"
  by (simp add: unpackDocId_def unpackHmId_def parseCustomURL_def)

lemma unpackDocId_ne: "unpackDocId url = Inr (Some (u, d)) \<Longrightarrow> d \<noteq> []"
  by (auto simp: unpackDocId_def createHmId_plain_def url_to_string_def Let_def split: option.splits if_splits prod.splits)

lemma holds_now_current:
  "ge_groupId it \<in> set ids \<Longrightarrow> holds_now contents ids documentId it =
     (case current_doc contents it of Inl e \<Rightarrow> Inl e | Inr d \<Rightarrow> Inr (d \<noteq> None \<and> d = documentId))"
  by (auto simp: holds_now_def current_doc_def find_query_map unpackDocId_Nil split: option.splits sum.splits dest: unpackDocId_ne)

text \<open>
  The groups a document is in now: of its latest items exactly those stay whose group holds the document
  at their path; when the query raises, some group holds at such a path an id that is no document.
\<close>

theorem current_groups:
  assumes "entries_ok items"
  shows "case useCurrentDocumentGroups contents documentId items of
      Inl e \<Rightarrow> \<exists>it. latest_in items it \<and> current_doc contents it = Inl e
    | Inr out \<Rightarrow> set out = {it. latest_in items it \<and> (\<exists>d. current_doc contents it = Inr (Some d) \<and> documentId = Some d)}
        \<and> (\<forall>it. latest_in items it \<longrightarrow> (\<exists>d. current_doc contents it = Inr d))"
proof -
  let ?docs = "useDocumentGroups items"
  let ?ids = "set_add_all [] (map ge_groupId ?docs)"
  have docs: "set ?docs = {it. latest_in items it}" using document_groups_core [OF assms] by simp
  have now: "holds_now contents ?ids documentId it =
     (case current_doc contents it of Inl e \<Rightarrow> Inl e | Inr d \<Rightarrow> Inr (d \<noteq> None \<and> d = documentId))" if "it \<in> set ?docs" for it
    using that by (intro holds_now_current) auto
  show ?thesis
  proof (cases "filter_raising (holds_now contents ?ids documentId) ?docs")
    case (Inl e)
    with filter_raising_cases [where f = "holds_now contents ?ids documentId" and xs = ?docs] obtain it where
      "it \<in> set ?docs" "holds_now contents ?ids documentId it = Inl e" by auto
    with now [of it] docs have "latest_in items it" "current_doc contents it = Inl e" by (auto split: sum.splits)
    with Inl show ?thesis by (auto simp: useCurrentDocumentGroups_def Let_def)
  next
    case (Inr out)
    with filter_raising_cases [where f = "holds_now contents ?ids documentId" and xs = ?docs] have
      ok: "\<forall>it \<in> set ?docs. \<exists>b. holds_now contents ?ids documentId it = Inr b"
      "out = filter (\<lambda>it. holds_now contents ?ids documentId it = Inr True) ?docs" by auto
    have "\<exists>d. current_doc contents it = Inr d" if "latest_in items it" for it
      using ok(1) that now [of it] docs by (cases "current_doc contents it") auto
    moreover have "it \<in> set out \<longleftrightarrow> latest_in items it \<and> (\<exists>d. current_doc contents it = Inr (Some d) \<and> documentId = Some d)" for it
      using ok(2) now [of it] docs by (cases "current_doc contents it") auto
    ultimately show ?thesis using Inr by (simp add: useCurrentDocumentGroups_def Let_def set_eq_iff)
  qed
qed

section \<open>By document and version\<close>

definition look_up :: "(string \<times> (string \<times> string) list) list \<Rightarrow> string \<Rightarrow> string \<Rightarrow> string option" where
  "look_up m eid v = (case map_of m eid of None \<Rightarrow> None | Some versions \<Rightarrow> map_of versions v)"

definition versioned :: "string \<times> string \<Rightarrow> ((string \<times> string) \<times> string) option" where
  "versioned entry = (case unpackHmId (snd entry) of None \<Rightarrow> None | Some u \<Rightarrow>
     (case truthy_str (u_version u) of None \<Rightarrow> None | Some v \<Rightarrow> Some ((show_undef (u_eid u), v), fst entry)))"

lemma invert_step_look_up:
  "look_up (invert_step acc entry) eid v =
     (case versioned entry of Some (k, path) \<Rightarrow> if k = (eid, v) then Some path else look_up acc eid v | None \<Rightarrow> look_up acc eid v)"
proof -
  have "unpackHmId [] = None" by (simp add: unpackHmId_def parseCustomURL_def)
  then show ?thesis
    by (cases entry) (auto simp: invert_step_def versioned_def look_up_def Let_def update_conv' split: option.splits)
qed

text \<open>
  The inverted content of a group: under a document and a version stands the last path of the content
  whose id names them, and nothing when there is none.
\<close>

theorem inverted_content:
  "look_up (useInvertedGroupContent (Some content)) eid v = map_of (rev (List.map_filter versioned content)) (eid, v)"
proof -
  have "look_up (foldl invert_step acc content) eid v =
    (case map_of (rev (List.map_filter versioned content)) (eid, v) of Some path \<Rightarrow> Some path | None \<Rightarrow> look_up acc eid v)" for acc
  proof (induction content arbitrary: acc)
    case (Cons entry content)
    then show ?case
      by (cases "versioned entry") (auto simp: invert_step_look_up map_filter_simps map_add_def split: option.splits)
  qed (simp add: map_filter_simps)
  from this [of "[]"] show ?thesis
    by (auto simp: useInvertedGroupContent_def look_up_def split: option.splits)
qed

section \<open>Items with their publications\<close>

lemma unpackHmId_qid: "unpackHmId url = Some u \<Longrightarrow> u_qid u = createHmId (u_type u) (show_undef (u_eid u)) no_opts"
  by (auto simp: unpackHmId_def unpack_parts_def Let_def createHmId_no_opts split: option.splits if_splits)

definition answers_ok :: "(string \<Rightarrow> string option \<Rightarrow> publication_data option) \<Rightarrow> bool" where
  "answers_ok queryPublication \<longleftrightarrow> (\<forall>i v p. queryPublication i v = Some p \<longrightarrow>
     pd_id p = Some i \<and> truthy (pd_version p) \<and> (v \<noteq> None \<longrightarrow> pd_version p = v))"

text \<open>
  The items of a group: an item whose id has a version shows a publication of that document and
  version, if its query was answered; an item whose id has none never shows one, though the query asked for the
  latest.
\<close>

theorem full_content_items:
  assumes "answers_ok queryPublication" and "(key, u, pub) \<in> set (fullGroupContent queryPublication content)"
  shows "(case truthy_str (u_version u) of
      None \<Rightarrow> pub = None
    | Some v \<Rightarrow> (case pub of
          Some p \<Rightarrow> pd_id p = Some (u_qid u) \<and> pd_version p = Some v
        | None \<Rightarrow> u_type u = ''d'' \<longrightarrow> queryPublication (u_qid u) (Some v) = None))"
proof -
  let ?qs = "map (\<lambda>(_, u). queryPublication (createHmId ''d'' (show_undef (u_eid u)) no_opts) (truthy_str (u_version u))) (contentEntries content)"
  let ?P = "\<lambda>q. case q of None \<Rightarrow> False | Some p \<Rightarrow> pd_id p = Some (u_qid u) \<and> same_version (pd_version p) (u_version u)"
  from assms(2) have mem: "(key, u) \<in> set (contentEntries content)"
    and pub: "pub = (case find ?P ?qs of None \<Rightarrow> None | Some q \<Rightarrow> q)"
    by (auto simp: fullGroupContent_def Let_def)
  from mem have qid: "u_qid u = createHmId (u_type u) (show_undef (u_eid u)) no_opts"
    by (auto simp: contentEntries_def set_map_filter unpackHmId_qid split: option.splits)
  have ver: "truthy (pd_version p)" if "Some p \<in> set ?qs" for p
    using that assms(1) by (auto simp: answers_ok_def)
  have some: "pub = Some p \<Longrightarrow> Some p \<in> set ?qs \<and> pd_id p = Some (u_qid u) \<and> same_version (pd_version p) (u_version u)" for p
    unfolding pub by (auto dest!: find_SomeD' split: option.splits)
  show ?thesis
  proof (cases "truthy_str (u_version u)")
    case None
    have "pub \<noteq> Some p" for p
      using some [of p] ver [of p] None by (cases "u_version u") (auto simp: same_version_def truthy_def split: if_splits)
    with None show ?thesis by (cases pub) auto
  next
    case (Some v)
    then have v: "u_version u = Val v" by (simp add: truthy_str_eq_Some)
    show ?thesis
    proof (cases pub)
      case None
      have "queryPublication (u_qid u) (Some v) = None" if "u_type u = ''d''"
      proof (rule ccontr)
        assume "queryPublication (u_qid u) (Some v) \<noteq> None"
        then obtain p where p: "queryPublication (u_qid u) (Some v) = Some p" by blast
        with mem that qid Some have "Some p \<in> set ?qs" by (force simp: image_iff)
        moreover have "?P (Some p)" using p assms(1) v by (auto simp: answers_ok_def same_version_def)
        ultimately have "find ?P ?qs \<noteq> None" unfolding find_None_iff by blast
        with None pub show False by (auto split: option.splits dest!: find_SomeD')
      qed
      with None Some show ?thesis by simp
    next
      case (Some p)
      with some [OF this] v \<open>truthy_str (u_version u) = Some v\<close> show ?thesis by (simp add: same_version_def)
    qed
  qed
qed

section \<open>Instances\<close>

definition groups_sample :: "group_entry list" where
  "groups_sample = [
     \<lparr>ge_groupId = ''hm://g/a'', ge_changeId = ''c1'', ge_seconds = Some 5, ge_path = ''p'', ge_rawUrl = ''hm://d/x?v=1''\<rparr>,
     \<lparr>ge_groupId = ''hm://g/a'', ge_changeId = ''c2'', ge_seconds = Some 9, ge_path = ''p'', ge_rawUrl = ''hm://d/x?v=2''\<rparr>,
     \<lparr>ge_groupId = ''hm://g/a'', ge_changeId = ''c0'', ge_seconds = Some 2, ge_path = ''p'', ge_rawUrl = ''hm://d/x?v=0''\<rparr>]"

lemma groups_sample_ok: "entries_ok groups_sample"
  by (simp add: entries_ok_def groups_sample_def)

lemma groups_sample_latest: "map ge_changeId (useDocumentGroups groups_sample) = [''c2'']"
  by (simp add: useDocumentGroups_def groups_sample_def latest_step_def entry_key_def)

theorem document_groups_latest_witness:
  "latest_in groups_sample (groups_sample ! 1) \<and> \<not> latest_in groups_sample (groups_sample ! 0)"
proof -
  have "useDocumentGroups groups_sample = [groups_sample ! 1]"
    by (simp add: useDocumentGroups_def groups_sample_def latest_step_def entry_key_def)
  moreover have "groups_sample ! 0 \<noteq> groups_sample ! 1" by (simp add: groups_sample_def)
  ultimately show ?thesis using document_groups_latest [OF groups_sample_ok] by auto
qed

theorem current_groups_witness:
  "\<exists>out. useCurrentDocumentGroups (\<lambda>_. Some [(''p'', ''hm://d/x?v=2'')]) (Some ''hm://d/x'') groups_sample = Inr out \<and>
     groups_sample ! 1 \<in> set out"
proof -
  let ?c = "\<lambda>_. Some [(''p'', ''hm://d/x?v=2'')]" and ?it = "groups_sample ! 1"
  have doc: "(case unpackDocId ''hm://d/x?v=2'' of Inr (Some (u, d)) \<Rightarrow> Some d | _ \<Rightarrow> None) = Some ''hm://d/x''" by code_simp
  then have cur: "current_doc ?c it = Inr (Some ''hm://d/x'')" if "ge_path it = ''p''" for it
    using that by (auto simp: current_doc_def split: sum.splits option.splits)
  have docs: "useDocumentGroups groups_sample = [?it]"
    by (simp add: useDocumentGroups_def groups_sample_def latest_step_def entry_key_def)
  then have latest: "latest_in groups_sample it \<longleftrightarrow> it = ?it" for it
    using document_groups_core [OF groups_sample_ok] by auto
  have "ge_path ?it = ''p''" by (simp add: groups_sample_def)
  with current_groups [OF groups_sample_ok, of ?c "Some ''hm://d/x''"] cur latest show ?thesis
    by (auto split: sum.splits)
qed

definition queries_sample :: "string \<Rightarrow> string option \<Rightarrow> publication_data option" where
  "queries_sample i v = Some \<lparr>pd_id = Some i, pd_version = Some (case v of Some (c # s) \<Rightarrow> c # s | _ \<Rightarrow> ''9'')\<rparr>"

theorem full_content_items_witness:
  "\<exists>u pub. (''p'', u, pub) \<in> set (fullGroupContent (\<lambda>i v. if v = Some [] then None else queries_sample i v) (Some [(''p'', ''hm://d/x'')])) \<and> pub = None"
proof -
  let ?q = "\<lambda>i v. if v = Some [] then None else queries_sample i v"
  have q: "answers_ok ?q" by (auto simp: answers_ok_def queries_sample_def truthy_def split: option.splits list.splits)
  have "map_option (\<lambda>u. truthy_str (u_version u)) (unpackHmId ''hm://d/x'') = Some None" by code_simp
  then obtain u where u: "unpackHmId ''hm://d/x'' = Some u" "truthy_str (u_version u) = None" by auto
  then obtain pub where mem: "(''p'', u, pub) \<in> set (fullGroupContent ?q (Some [(''p'', ''hm://d/x'')]))"
    by (auto simp: fullGroupContent_def contentEntries_def map_filter_simps Let_def)
  from full_content_items [OF q mem] u(2) mem show ?thesis by auto
qed

end
