(* ===== verification/Range_Selection.thy ===== *)
theory Range_Selection
  imports Prelude
begin

text \<open>
  Selecting a range of a publication (\<^verbatim>\<open>frontend/packages/shared/src/range-selection.tsx\<close>):
  the state chart, its context, and the reading of the browser's selection.

  The events of the chart come with what the browser has selected then. The delay of 300
  milliseconds is an event of its own; it only comes to the state that set it, which is what entering and
  leaving do to the timer. A transition of the inner state goes before one of the chart as a whole.
\<close>

section \<open>The selection of the browser\<close>

text \<open>A node is the list of itself and the elements around it, inner ones first.\<close>

record dom_element =
  el_id :: string
  el_rangeOffset :: "nat option"

type_synonym dom_node = "dom_element list"

record dom_selection =
  sel_rangeCount :: nat
  sel_anchorNode :: dom_node
  sel_anchorOffset :: nat
  sel_focusNode :: dom_node
  sel_focusOffset :: nat

fun getParentElId :: "dom_node \<Rightarrow> string option" where
  "getParentElId [] = None"
| "getParentElId (el # around) = (if el_id el \<noteq> [] then Some (el_id el) else getParentElId around)"

fun getRangeOffset :: "dom_node \<Rightarrow> nat" where
  "getRangeOffset [] = 0"
| "getRangeOffset (el # around) = (case el_rangeOffset el of Some n \<Rightarrow> n | None \<Rightarrow> getRangeOffset around)"

section \<open>The state chart\<close>

record range_context =
  rc_selection :: "dom_selection option"
  rc_blockId :: "string option"
  rc_rangeStart :: "nat option"
  rc_rangeEnd :: "nat option"
  rc_mouseDown :: bool

definition defaultContext :: range_context where
  "defaultContext = \<lparr>rc_selection = None, rc_blockId = Some [], rc_rangeStart = None, rc_rangeEnd = None,
     rc_mouseDown = False\<rparr>"

datatype active_state = Selecting | Selected | Commenting

datatype range_state = Idle | Active active_state

datatype range_event = SELECT | CREATE_COMMENT | COMMENT_CANCEL | COMMENT_SUBMIT | MOUSEDOWN | MOUSEUP | AFTER_300

record range_machine =
  rm_state :: range_state
  rm_context :: range_context

definition initial_machine :: range_machine where
  "initial_machine = \<lparr>rm_state = Idle, rm_context = defaultContext\<rparr>"

definition setMouse :: "range_event \<Rightarrow> range_context \<Rightarrow> range_context" where
  "setMouse event c = c\<lparr>rc_mouseDown := (event = MOUSEDOWN)\<rparr>"

text \<open>Without a selection the assignment returns nothing and changes nothing.\<close>

definition setRange :: "dom_selection option \<Rightarrow> range_context \<Rightarrow> range_context" where
  "setRange sel c = (case sel of None \<Rightarrow> c
    | Some s \<Rightarrow>
        if sel_rangeCount s = 0 then c
        else (let anchorBlockId = getParentElId (sel_anchorNode s);
                  focusBlockId = getParentElId (sel_focusNode s);
                  anchorRange = getRangeOffset (sel_anchorNode s) + sel_anchorOffset s;
                  focusRange = getRangeOffset (sel_focusNode s) + sel_focusOffset s
              in if focusBlockId \<noteq> anchorBlockId then defaultContext
                 else if anchorRange = focusRange then defaultContext
                 else defaultContext\<lparr>rc_selection := Some s, rc_blockId := focusBlockId,
                        rc_rangeStart := Some (min anchorRange focusRange),
                        rc_rangeEnd := Some (max anchorRange focusRange)\<rparr>))"

definition clearContext :: "range_context \<Rightarrow> range_context" where
  "clearContext c = defaultContext"

text \<open>Entering a state: \<open>selected\<close> reads the selection.\<close>

definition enter :: "dom_selection option \<Rightarrow> active_state \<Rightarrow> range_context \<Rightarrow> range_machine" where
  "enter sel st c = \<lparr>rm_state = Active st, rm_context = (if st = Selected then setRange sel c else c)\<rparr>"

text \<open>The transitions of the inner states; \<open>None\<close> leaves the event to the chart.\<close>

definition inner_step :: "range_machine \<Rightarrow> range_event \<Rightarrow> dom_selection option \<Rightarrow> range_machine option" where
  "inner_step m event sel = (let c = rm_context m in
     (case (rm_state m, event) of
        (Idle, SELECT) \<Rightarrow> Some (enter sel Selecting c)
      | (Active Selecting, AFTER_300) \<Rightarrow> if \<not> rc_mouseDown c then Some (enter sel Selected c) else None
      | (Active Selecting, SELECT) \<Rightarrow> Some (enter sel Selecting c)
      | (Active Selecting, MOUSEUP) \<Rightarrow> Some (enter sel Selected c)
      | (Active Selected, SELECT) \<Rightarrow> Some (enter sel Selecting c)
      | (Active Selected, CREATE_COMMENT) \<Rightarrow> Some \<lparr>rm_state = Idle, rm_context = clearContext c\<rparr>
      | (Active Commenting, COMMENT_SUBMIT) \<Rightarrow> Some \<lparr>rm_state = Idle, rm_context = c\<rparr>
      | (Active Commenting, COMMENT_CANCEL) \<Rightarrow> Some (enter sel Selected c)
      | _ \<Rightarrow> None))"

definition range_step :: "range_machine \<Rightarrow> range_event \<times> dom_selection option \<Rightarrow> range_machine" where
  "range_step m ev = (case inner_step m (fst ev) (snd ev) of
      Some m' \<Rightarrow> m'
    | None \<Rightarrow> if fst ev = MOUSEDOWN \<or> fst ev = MOUSEUP then m\<lparr>rm_context := setMouse (fst ev) (rm_context m)\<rparr> else m)"

section \<open>The invariant\<close>

definition no_range :: "range_context \<Rightarrow> bool" where
  "no_range c \<longleftrightarrow> rc_selection c = None \<and> rc_blockId c = Some [] \<and> rc_rangeStart c = None \<and> rc_rangeEnd c = None"

text \<open>
  What a selection selects: the block and the range, when both ends are in one block (or both in none) and
  differ.
\<close>

definition selects :: "dom_selection \<Rightarrow> (string option \<times> nat \<times> nat) option" where
  "selects s =
     (let a = getRangeOffset (sel_anchorNode s) + sel_anchorOffset s;
          f = getRangeOffset (sel_focusNode s) + sel_focusOffset s
      in if sel_rangeCount s > 0 \<and> getParentElId (sel_anchorNode s) = getParentElId (sel_focusNode s) \<and> a \<noteq> f
         then Some (getParentElId (sel_anchorNode s), min a f, max a f) else None)"

definition range_ok :: "range_context \<Rightarrow> bool" where
  "range_ok c \<longleftrightarrow> no_range c \<or>
     (\<exists>s b x y. rc_selection c = Some s \<and> selects s = Some (b, x, y) \<and> x < y \<and>
        rc_blockId c = b \<and> rc_rangeStart c = Some x \<and> rc_rangeEnd c = Some y)"

definition machine_ok :: "range_machine \<Rightarrow> bool" where
  "machine_ok m \<longleftrightarrow> range_ok (rm_context m) \<and> rm_state m \<noteq> Active Commenting"

lemma range_ok_default [simp]: "range_ok defaultContext"
  by (simp add: range_ok_def no_range_def defaultContext_def)

lemma selects_ordered: "selects s = Some (b, x, y) \<Longrightarrow> x < y"
  by (auto simp: selects_def Let_def split: if_splits)

lemma setRange_cases:
  "setRange sel c = (case sel of None \<Rightarrow> c | Some s \<Rightarrow>
     if sel_rangeCount s = 0 then c
     else (case selects s of None \<Rightarrow> defaultContext
       | Some (b, x, y) \<Rightarrow> defaultContext\<lparr>rc_selection := Some s, rc_blockId := b, rc_rangeStart := Some x, rc_rangeEnd := Some y\<rparr>))"
  by (auto simp: setRange_def selects_def Let_def split: option.splits)

lemma range_ok_setRange: "range_ok c \<Longrightarrow> range_ok (setRange sel c)"
proof (cases sel)
  case (Some s)
  assume "range_ok c"
  with Some show ?thesis
    by (cases "selects s") (auto simp: setRange_cases range_ok_def [of "defaultContext\<lparr>rc_selection := _, rc_blockId := _, rc_rangeStart := _, rc_rangeEnd := _\<rparr>"]
        dest: selects_ordered)
qed (simp add: setRange_def)

lemma range_ok_mouse [simp]: "range_ok (c\<lparr>rc_mouseDown := b\<rparr>) = range_ok c"
  by (simp add: range_ok_def no_range_def)

lemma inner_step_ok: "machine_ok m \<Longrightarrow> inner_step m event sel = Some m' \<Longrightarrow> machine_ok m'"
  by (auto simp: inner_step_def machine_ok_def enter_def clearContext_def Let_def range_ok_setRange
      split: range_state.splits range_event.splits active_state.splits if_splits)

lemma range_step_ok: "machine_ok m \<Longrightarrow> machine_ok (range_step m ev)"
  using inner_step_ok [of m "fst ev" "snd ev"]
  by (auto simp: range_step_def machine_ok_def setMouse_def split: option.splits)

interpretation chart: machine range_step machine_ok
  by unfold_locales (rule range_step_ok)

lemma initial_ok: "machine_ok initial_machine"
  by (simp add: initial_machine_def machine_ok_def)


text \<open>
  Ending a selection: when the chart leaves \<open>selecting\<close>, by the mouse or after the delay, it offers
  exactly what the browser has selected then, whichever end was the anchor, and nothing when that is empty or spans
  blocks.
\<close>

theorem selection_offered:
  assumes "rm_state m = Active Selecting"
    and "event = MOUSEUP \<or> event = AFTER_300 \<and> \<not> rc_mouseDown (rm_context m)" and "sel_rangeCount s > 0"
  shows "rm_state (range_step m (event, Some s)) = Active Selected \<and>
    (let c = rm_context (range_step m (event, Some s)) in
       (case selects s of None \<Rightarrow> no_range c
        | Some (b, x, y) \<Rightarrow> rc_selection c = Some s \<and> rc_blockId c = b \<and> rc_rangeStart c = Some x \<and> rc_rangeEnd c = Some y)) \<and>
    range_step m (event, Some (s\<lparr>sel_anchorNode := sel_focusNode s, sel_anchorOffset := sel_focusOffset s,
        sel_focusNode := sel_anchorNode s, sel_focusOffset := sel_anchorOffset s\<rparr>))
      = (range_step m (event, Some s))\<lparr>rm_context := (rm_context (range_step m (event, Some s)))
          \<lparr>rc_selection := map_option (\<lambda>s. s\<lparr>sel_anchorNode := sel_focusNode s, sel_anchorOffset := sel_focusOffset s,
        sel_focusNode := sel_anchorNode s, sel_focusOffset := sel_anchorOffset s\<rparr>) (rc_selection (rm_context (range_step m (event, Some s))))\<rparr>\<rparr>"
proof -
  let ?swap = "\<lambda>s. s\<lparr>sel_anchorNode := sel_focusNode s, sel_anchorOffset := sel_focusOffset s,
        sel_focusNode := sel_anchorNode s, sel_focusOffset := sel_anchorOffset s\<rparr>"
  have step: "range_step m (event, Some s) = \<lparr>rm_state = Active Selected, rm_context = setRange (Some s) (rm_context m)\<rparr>" for s
    using assms(1,2) by (auto simp: range_step_def inner_step_def enter_def Let_def)
  have swap: "selects (?swap s) = selects s" "sel_rangeCount (?swap s) = sel_rangeCount s"
    by (auto simp: selects_def Let_def min.commute max.commute)
  show ?thesis
    using assms(3) swap by (auto simp: step setRange_cases no_range_def defaultContext_def Let_def split: option.splits)
qed

definition selection_sample :: dom_selection where
  "selection_sample = \<lparr>sel_rangeCount = 1,
     sel_anchorNode = [\<lparr>el_id = [], el_rangeOffset = Some 4\<rparr>, \<lparr>el_id = ''b1'', el_rangeOffset = None\<rparr>], sel_anchorOffset = 3,
     sel_focusNode = [\<lparr>el_id = [], el_rangeOffset = None\<rparr>, \<lparr>el_id = ''b1'', el_rangeOffset = Some 0\<rparr>], sel_focusOffset = 2\<rparr>"

theorem selection_offered_witness:
  "rm_context (range_step \<lparr>rm_state = Active Selecting, rm_context = defaultContext\<rparr> (AFTER_300, Some selection_sample))
    = \<lparr>rc_selection = Some selection_sample, rc_blockId = Some ''b1'', rc_rangeStart = Some 2, rc_rangeEnd = Some 7, rc_mouseDown = False\<rparr>"
proof -
  let ?m = "\<lparr>rm_state = Active Selecting, rm_context = defaultContext\<rparr>"
  have sel: "selects selection_sample = Some (Some ''b1'', 2, 7)"
    by (simp add: selects_def selection_sample_def)
  have "rc_mouseDown (rm_context (range_step ?m (AFTER_300, Some selection_sample))) = False"
    by (simp add: range_step_def inner_step_def enter_def setRange_cases defaultContext_def sel)
  then show ?thesis
    using selection_offered [of ?m AFTER_300 selection_sample] sel
    by (simp add: defaultContext_def selection_sample_def Let_def)
qed

section \<open>The mouse\<close>

text \<open>What the mouse events say: whether the last of them was a press.\<close>

definition pressed :: "(range_event \<times> dom_selection option) list \<Rightarrow> bool" where
  "pressed events = (let es = filter (\<lambda>e. e = MOUSEDOWN \<or> e = MOUSEUP) (map fst events)
     in es \<noteq> [] \<and> last es = MOUSEDOWN)"

lemma pressed_snoc: "pressed (events @ [ev]) =
   (if fst ev = MOUSEDOWN then True else if fst ev = MOUSEUP then False else pressed events)"
  by (auto simp: pressed_def Let_def)

lemma flag_step:
  assumes "fst ev = MOUSEUP \<longrightarrow> (\<exists>s. snd ev = Some s \<and> sel_rangeCount s > 0)"
  shows "rc_mouseDown (rm_context (range_step m ev)) \<Longrightarrow>
     fst ev = MOUSEDOWN \<or> fst ev \<noteq> MOUSEUP \<and> rc_mouseDown (rm_context m)"
  using assms
  by (auto simp: range_step_def inner_step_def enter_def setRange_cases clearContext_def defaultContext_def setMouse_def Let_def
      split: range_state.splits range_event.splits active_state.splits if_splits option.splits)

text \<open>
  The flag of the mouse: as long as there is a selection whenever the mouse is let go, the flag
  is only set while the mouse is pressed, so the delay ends every selection made since.
\<close>

theorem mouse_flag:
  assumes "\<forall>(e, sel) \<in> set events. e = MOUSEUP \<longrightarrow> (\<exists>s. sel = Some s \<and> sel_rangeCount s > 0)"
    and "\<not> pressed events"
  shows "\<not> rc_mouseDown (rm_context (foldl range_step initial_machine events)) \<and>
    (rm_state (foldl range_step initial_machine events) = Active Selecting \<longrightarrow>
      rm_state (foldl range_step initial_machine (events @ [(AFTER_300, sel)])) = Active Selected)"
proof -
  have "rc_mouseDown (rm_context (foldl range_step initial_machine events)) \<longrightarrow> pressed events"
    using assms(1)
  proof (induction events rule: rev_induct)
    case Nil
    show ?case by (simp add: initial_machine_def defaultContext_def)
  next
    case (snoc ev events)
    have "fst ev = MOUSEUP \<longrightarrow> (\<exists>s. snd ev = Some s \<and> sel_rangeCount s > 0)" using snoc.prems by auto
    from flag_step [OF this] snoc.IH snoc.prems show ?case
      by (auto simp: pressed_snoc)
  qed
  with assms(2) show ?thesis by (auto simp: range_step_def inner_step_def enter_def Let_def)
qed

theorem mouse_flag_witness:
  "rm_state (foldl range_step initial_machine
     [(SELECT, None), (MOUSEDOWN, None), (MOUSEUP, Some selection_sample), (SELECT, None), (AFTER_300, None)]) = Active Selected"
  using mouse_flag [of "[(SELECT, None), (MOUSEDOWN, None), (MOUSEUP, Some selection_sample), (SELECT, None)]" None]
  by (simp add: pressed_def selection_sample_def range_step_def inner_step_def enter_def Let_def initial_machine_def)

text \<open>
  Letting the mouse go in \<open>selecting\<close> does not reach the chart, so without a selection the flag
  stays set: the next selection never leaves \<open>selecting\<close> by the delay.
\<close>

theorem mouse_flag_stays:
  "rm_state (foldl range_step initial_machine
     ([(SELECT, None), (MOUSEDOWN, None), (MOUSEUP, None), (SELECT, None)] @ replicate n (AFTER_300, None))) = Active Selecting"
proof -
  let ?m = "\<lparr>rm_state = Active Selecting, rm_context = defaultContext\<lparr>rc_mouseDown := True\<rparr>\<rparr>"
  have "foldl range_step initial_machine [(SELECT, None), (MOUSEDOWN, None), (MOUSEUP, None), (SELECT, None)] = ?m"
    by (simp add: range_step_def inner_step_def enter_def Let_def initial_machine_def setRange_def setMouse_def)
  moreover have "foldl range_step ?m (replicate n (AFTER_300, None)) = ?m"
    by (induction n) (simp_all add: range_step_def inner_step_def Let_def)
  ultimately show ?thesis by simp
qed

end
