(* ===== verification/Streams.thy ===== *)
theory Streams
  imports Prelude
begin

text \<open>
  The streams of \<^verbatim>\<open>frontend/packages/shared/src/utils/stream.ts\<close>: a state that tells its
  subscribers of every write, and events that are only passed on. A handler is a number; a set of handlers is
  the list of them in the order they came. Handlers do not subscribe or write while they are called.

  Both streams are instances of one interface, \<open>broadcast\<close>: what every handler hears.
\<close>

section \<open>Model\<close>

datatype 'v updater = NewState 'v | Update "'v \<Rightarrow> 'v"

record 'v state_stream =
  ss_state :: 'v
  ss_handlers :: "nat list"

definition writeableStateStream :: "'v \<Rightarrow> 'v state_stream" where
  "writeableStateStream initState = \<lparr>ss_state = initState, ss_handlers = []\<rparr>"

definition new_state :: "'v updater \<Rightarrow> 'v \<Rightarrow> 'v" where
  "new_state u v = (case u of NewState w \<Rightarrow> w | Update f \<Rightarrow> f v)"

text \<open>A write answers the calls of handlers it makes, in order.\<close>

definition writeState :: "'v updater \<Rightarrow> 'v state_stream \<Rightarrow> 'v state_stream \<times> (nat \<times> 'v) list" where
  "writeState u s = (let newState = new_state u (ss_state s)
     in (s\<lparr>ss_state := newState\<rparr>, map (\<lambda>h. (h, newState)) (ss_handlers s)))"

definition ss_subscribe :: "nat \<Rightarrow> 'v state_stream \<Rightarrow> 'v state_stream" where
  "ss_subscribe h s = s\<lparr>ss_handlers := set_add h (ss_handlers s)\<rparr>"

definition ss_unsubscribe :: "nat \<Rightarrow> 'v state_stream \<Rightarrow> 'v state_stream" where
  "ss_unsubscribe h s = s\<lparr>ss_handlers := removeAll h (ss_handlers s)\<rparr>"

text \<open>An event stream has no state but its handlers.\<close>

definition es_dispatch :: "'e \<Rightarrow> nat list \<Rightarrow> (nat \<times> 'e) list" where
  "es_dispatch event handlers = map (\<lambda>h. (h, event)) handlers"

definition es_subscribe :: "nat \<Rightarrow> nat list \<Rightarrow> nat list" where
  "es_subscribe h handlers = set_add h handlers"

definition es_unsubscribe :: "nat \<Rightarrow> nat list \<Rightarrow> nat list" where
  "es_unsubscribe h handlers = removeAll h handlers"

section \<open>Steps\<close>

datatype 'w stream_op = Send 'w | Subscribe nat | Unsubscribe nat

fun state_step :: "'v state_stream \<Rightarrow> 'v updater stream_op \<Rightarrow> 'v state_stream \<times> (nat \<times> 'v) list" where
  "state_step s (Send u) = writeState u s"
| "state_step s (Subscribe h) = (ss_subscribe h s, [])"
| "state_step s (Unsubscribe h) = (ss_unsubscribe h s, [])"

fun event_step :: "nat list \<Rightarrow> 'e stream_op \<Rightarrow> nat list \<times> (nat \<times> 'e) list" where
  "event_step hs (Send e) = (hs, es_dispatch e hs)"
| "event_step hs (Subscribe h) = (es_subscribe h hs, [])"
| "event_step hs (Unsubscribe h) = (es_unsubscribe h hs, [])"

fun run_ops :: "('s \<Rightarrow> 'o \<Rightarrow> 's \<times> 'd list) \<Rightarrow> 's \<Rightarrow> 'o list \<Rightarrow> 's \<times> 'd list" where
  "run_ops step s [] = (s, [])"
| "run_ops step s (op # ops) = (let (s', ds) = step s op; (s'', ds') = run_ops step s' ops in (s'', ds @ ds'))"

fun sub_change :: "'w stream_op \<Rightarrow> nat \<Rightarrow> bool option" where
  "sub_change (Subscribe h') h = (if h = h' then Some True else None)"
| "sub_change (Unsubscribe h') h = (if h = h' then Some False else None)"
| "sub_change (Send _) h = None"

section \<open>What a handler hears\<close>

text \<open>One handler alone: it hears what is sent while it is subscribed.\<close>

fun heard :: "('s \<Rightarrow> 'w stream_op \<Rightarrow> 's) \<Rightarrow> ('s \<Rightarrow> 'w \<Rightarrow> 'v) \<Rightarrow> nat \<Rightarrow> 's \<Rightarrow> bool \<Rightarrow> 'w stream_op list \<Rightarrow> 'v list" where
  "heard next val h s b [] = []"
| "heard next val h s b (op # ops) =
     (case op of Send w \<Rightarrow> if b then [val s w] else [] | _ \<Rightarrow> [])
     @ heard next val h (next s op) (case sub_change op h of Some b' \<Rightarrow> b' | None \<Rightarrow> b) ops"

lemma one_call:
  "distinct hs \<Longrightarrow> map snd (filter (\<lambda>d. fst d = h) (map (\<lambda>h. (h, v)) hs)) = (if h \<in> set hs then [v] else [])"
  by (induction hs) auto

locale broadcast =
  fixes step :: "'s \<Rightarrow> 'w stream_op \<Rightarrow> 's \<times> (nat \<times> 'v) list"
    and handlers :: "'s \<Rightarrow> nat list"
    and val :: "'s \<Rightarrow> 'w \<Rightarrow> 'v"
  assumes distinct_step: "distinct (handlers s) \<Longrightarrow> distinct (handlers (fst (step s op)))"
    and sub_step: "h \<in> set (handlers (fst (step s op))) \<longleftrightarrow>
      (case sub_change op h of Some b \<Rightarrow> b | None \<Rightarrow> h \<in> set (handlers s))"
    and sent: "snd (step s op) = (case op of Send w \<Rightarrow> map (\<lambda>h. (h, val s w)) (handlers s) | _ \<Rightarrow> [])"
begin

lemma deliveries:
  "distinct (handlers s) \<Longrightarrow>
   map snd (filter (\<lambda>d. fst d = h) (snd (run_ops step s ops)))
     = heard (\<lambda>s op. fst (step s op)) val h s (h \<in> set (handlers s)) ops"
proof (induction ops arbitrary: s)
  case (Cons op ops)
  obtain s' ds where st: "step s op = (s', ds)" by fastforce
  obtain s'' ds' where rest: "run_ops step s' ops = (s'', ds')" by fastforce
  have d: "distinct (handlers s')" using distinct_step [of s op] Cons.prems st by simp
  have "map snd (filter (\<lambda>d. fst d = h) ds) = (case op of Send w \<Rightarrow> if h \<in> set (handlers s) then [val s w] else [] | _ \<Rightarrow> [])"
  proof (cases op)
    case (Send w)
    then have "ds = map (\<lambda>h. (h, val s w)) (handlers s)" using sent [of s op] st by simp
    with Send one_call [OF Cons.prems] show ?thesis by (simp only: stream_op.simps)
  qed (use sent [of s op] st in simp_all)
  with Cons.IH [OF d] sub_step [of h s op] st rest show ?case by simp
qed simp

end

lemma set_add_set [simp]: "set (set_add h hs) = insert h (set hs)"
  by (auto simp: set_add_def)

lemma set_add_distinct [simp]: "distinct (set_add h hs) = distinct hs"
  by (auto simp: set_add_def)

interpretation state_stream: broadcast state_step ss_handlers "\<lambda>s u. new_state u (ss_state s)"
proof
  fix s :: "'a state_stream" and op h
  show "distinct (ss_handlers s) \<Longrightarrow> distinct (ss_handlers (fst (state_step s op)))"
    by (cases op) (simp_all add: writeState_def Let_def ss_subscribe_def ss_unsubscribe_def distinct_removeAll)
  show "h \<in> set (ss_handlers (fst (state_step s op))) \<longleftrightarrow>
      (case sub_change op h of Some b \<Rightarrow> b | None \<Rightarrow> h \<in> set (ss_handlers s))"
    by (cases op) (simp_all add: writeState_def Let_def ss_subscribe_def ss_unsubscribe_def)
  show "snd (state_step s op) = (case op of Send w \<Rightarrow> map (\<lambda>h. (h, new_state w (ss_state s))) (ss_handlers s) | _ \<Rightarrow> [])"
    by (cases op) (simp_all add: writeState_def Let_def)
qed

interpretation event_stream: broadcast event_step "\<lambda>hs. hs" "\<lambda>_ e. e"
proof
  fix hs :: "nat list" and op :: "'b stream_op" and h
  show "distinct hs \<Longrightarrow> distinct (fst (event_step hs op))"
    by (cases op) (simp_all add: es_subscribe_def es_unsubscribe_def distinct_removeAll)
  show "h \<in> set (fst (event_step hs op)) \<longleftrightarrow> (case sub_change op h of Some b \<Rightarrow> b | None \<Rightarrow> h \<in> set hs)"
    by (cases op) (simp_all add: es_subscribe_def es_unsubscribe_def)
  show "snd (event_step hs op) = (case op of Send e \<Rightarrow> map (\<lambda>h. (h, e)) hs | _ \<Rightarrow> [])"
    by (cases op) (simp_all add: es_dispatch_def)
qed

text \<open>The value of the state after some operations, subscriptions apart.\<close>

definition written :: "'v \<Rightarrow> 'v updater stream_op list \<Rightarrow> 'v" where
  "written v ops = foldl (\<lambda>v op. case op of Send u \<Rightarrow> new_state u v | _ \<Rightarrow> v) v ops"

lemma state_step_state: "ss_state (fst (state_step s op)) = (case op of Send u \<Rightarrow> new_state u (ss_state s) | _ \<Rightarrow> ss_state s)"
  by (cases op) (simp_all add: writeState_def Let_def ss_subscribe_def ss_unsubscribe_def)

lemma run_state: "ss_state (fst (run_ops state_step s ops)) = written (ss_state s) ops"
proof (induction ops arbitrary: s)
  case (Cons op ops)
  from Cons.IH [of "fst (state_step s op)"] show ?case
    by (simp add: written_def state_step_state case_prod_unfold Let_def)
qed (simp add: written_def)

text \<open>What a handler hears of a state stream, from the state and its own subscription alone.\<close>

fun heard_states :: "nat \<Rightarrow> 'v \<Rightarrow> bool \<Rightarrow> 'v updater stream_op list \<Rightarrow> 'v list" where
  "heard_states h v b [] = []"
| "heard_states h v b (Send u # ops) = (if b then [new_state u v] else []) @ heard_states h (new_state u v) b ops"
| "heard_states h v b (Subscribe h' # ops) = heard_states h v (b \<or> h = h') ops"
| "heard_states h v b (Unsubscribe h' # ops) = heard_states h v (b \<and> h \<noteq> h') ops"

lemma heard_heard_states:
  "heard (\<lambda>s op. fst (state_step s op)) (\<lambda>s u. new_state u (ss_state s)) h s b ops = heard_states h (ss_state s) b ops"
proof (induction ops arbitrary: s b)
  case (Cons op ops)
  from Cons.IH [of "fst (state_step s op)"] state_step_state [of s op] show ?case
    by (cases op) (auto split: option.splits)
qed simp

text \<open>
  A state stream: whatever is subscribed and unsubscribed, reading gives the last state written, and every
  handler is called with exactly the states written while it was subscribed, in order, each once.
\<close>

theorem state_stream_delivers:
  "ss_state (fst (run_ops state_step (writeableStateStream v) ops)) = written v ops \<and>
   map snd (filter (\<lambda>d. fst d = h) (snd (run_ops state_step (writeableStateStream v) ops))) = heard_states h v False ops"
  using state_stream.deliveries [of "writeableStateStream v" h ops] run_state [of "writeableStateStream v" ops]
  by (simp add: writeableStateStream_def heard_heard_states)

end
