(* ===== verification/Route_Context.thy ===== *)
theory Route_Context
  imports App_Windows Streams
begin

text \<open>
  Routes that remember how they were reached (\<^verbatim>\<open>frontend/packages/app/utils/route-context.ts\<close>,
  \<^verbatim>\<open>getEntityRoutes\<close> and \<^verbatim>\<open>useEntitiesContent\<close> of \<^verbatim>\<open>models/entities.ts\<close>), the
  opening of routes and new drafts (\<^verbatim>\<open>useNavigate.tsx\<close>, \<^verbatim>\<open>open-draft.ts\<close>), and the
  container that owns the history of a window (\<^verbatim>\<open>navigation-container.tsx\<close>).

  What the queries answer is an argument. That a reducer returned the same object is a flag.
\<close>

section \<open>Contexts\<close>

definition getRouteParentContext :: "nav_route \<Rightarrow> base_entity_route list option" where
  "getRouteParentContext route = (case route of
      Publication p \<Rightarrow> rp_context p | Group g \<Rightarrow> rg_context g | Account a \<Rightarrow> ra_context a | _ \<Rightarrow> None)"

text \<open>The route without its context and its tab.\<close>

definition getThisRouteContext :: "nav_route \<Rightarrow> base_entity_route option" where
  "getThisRouteContext route = (case route of
      Publication p \<Rightarrow> Some (BasePublication (base_publication_route.truncate p))
    | Group g \<Rightarrow> Some (BaseGroup (base_group_route.truncate g))
    | Account a \<Rightarrow> Some (BaseAccount (base_account_route.truncate a))
    | _ \<Rightarrow> None)"

definition with_block :: "string \<Rightarrow> base_entity_route \<Rightarrow> base_entity_route" where
  "with_block i r = (case r of
      BasePublication p \<Rightarrow> BasePublication (p\<lparr>rp_blockId := Some i\<rparr>)
    | BaseGroup g \<Rightarrow> BaseGroup (g\<lparr>rg_blockId := Some i\<rparr>)
    | BaseAccount a \<Rightarrow> BaseAccount (a\<lparr>ra_blockId := Some i\<rparr>)
    | BaseDraft dr \<Rightarrow> BaseDraft dr)"

definition getRouteContext :: "nav_route \<Rightarrow> string option \<Rightarrow> base_entity_route list" where
  "getRouteContext route blockIdOfRoute =
     (let contextRoute = (case getThisRouteContext route of None \<Rightarrow> None
            | Some r \<Rightarrow> Some (if truthy blockIdOfRoute then with_block (the blockIdOfRoute) r else r))
      in (case getRouteParentContext route of None \<Rightarrow> [] | Some c \<Rightarrow> c)
         @ (case contextRoute of None \<Rightarrow> [] | Some r \<Rightarrow> [r]))"

text \<open>What \<open>useOpenInContext\<close> navigates to, if anywhere.\<close>

definition useOpenInContext :: "nav_route \<Rightarrow> string \<Rightarrow> string option \<Rightarrow> nav_route option" where
  "useOpenInContext route hmUrl parentBlockId =
     (let context = getRouteContext route parentBlockId in
      case unpackHmId hmUrl of None \<Rightarrow> None
      | Some u \<Rightarrow>
          if u_type u = ''d'' then Some (Publication
            \<lparr>rp_documentId = u_qid u, rp_versionId = truthy_str (u_version u), rp_variants = js_get (u_variants u),
             rp_blockId = None, rp_isBlockFocused = None, rp_blockRange = None, rp_groupVariantCategory = None,
             rp_showFirstPublicationMessage = None, rp_immediatelyPromptPush = None, rp_accessory = None,
             rp_context = Some context\<rparr>)
          else if u_type u = ''g'' then Some (Group
            \<lparr>rg_groupId = u_qid u, rg_version = truthy_str (u_version u), rg_blockId = None, rg_isBlockFocused = None,
             rg_accessory = None, rg_context = Some context, rg_tab = None\<rparr>)
          else if u_type u = ''a'' then Some (Account
            \<lparr>ra_accountId = show_undef (u_eid u), ra_blockId = None, ra_isBlockFocused = None, ra_accessory = None,
             ra_context = Some context, ra_tab = None\<rparr>)
          else None)"

fun context_nav :: "context_route \<Rightarrow> nav_route" where
  "context_nav (ContextPublication p) = Publication p"
| "context_nav (ContextGroup g) = Group g"
| "context_nav (ContextAccount a) = Account a"

text \<open>\<open>getEntityRoutes\<close>; the context of a draft is no draft, so its call does not go on.\<close>

definition published_routes :: "nav_route \<Rightarrow> base_entity_route list" where
  "published_routes route = (case route of
      Publication p \<Rightarrow>
        (case rp_context p of
           Some context \<Rightarrow> context @ [BasePublication (base_publication_route.truncate p)]
         | None \<Rightarrow>
             (case rp_variants p of
                Some (GroupVariant gid path # rest) \<Rightarrow>
                  [BaseGroup \<lparr>rg_groupId = gid, rg_version = None, rg_blockId = None, rg_isBlockFocused = None, rg_accessory = None\<rparr>,
                   BasePublication (base_publication_route.truncate p)]
              | _ \<Rightarrow> [BasePublication (base_publication_route.truncate p)]))
    | Group g \<Rightarrow> (case rg_context g of None \<Rightarrow> [] | Some c \<Rightarrow> c) @ [BaseGroup (base_group_route.truncate g)]
    | Account a \<Rightarrow> (case ra_context a of None \<Rightarrow> [] | Some c \<Rightarrow> c) @ [BaseAccount (base_account_route.truncate a)]
    | _ \<Rightarrow> [])"

definition getEntityRoutes :: "nav_route \<Rightarrow> base_entity_route list" where
  "getEntityRoutes route = (case route of
      Draft dr \<Rightarrow>
        (case rd_contextRoute dr of None \<Rightarrow> [] | Some c \<Rightarrow> drop 1 (published_routes (context_nav c)))
        @ [BaseDraft (base_draft_route.truncate dr)]
    | _ \<Rightarrow> published_routes route)"

section \<open>Opening\<close>

text \<open>The route of a new draft, for the id the daemon gave it.\<close>

definition new_draft_route :: "nav_route \<Rightarrow> string \<Rightarrow> (string \<times> string option) option \<Rightarrow> bool option \<Rightarrow> nav_route" where
  "new_draft_route route docId groupVariant isProfileDocument = Draft
     \<lparr>rd_draftId = Some docId, rd_variant = groupVariant, rd_isProfileDocument = isProfileDocument,
      rd_contextRoute = (case route of Publication p \<Rightarrow> Some (ContextPublication p) | Group g \<Rightarrow> Some (ContextGroup g)
        | Account a \<Rightarrow> Some (ContextAccount a) | _ \<Rightarrow> None)\<rparr>"

datatype nav_mode = ModePush | ModeReplace | ModeSpawn | ModeBackplace

datatype nav_effect = OpenWindow nav_route | Dispatch nav_action

definition useNavigate :: "string \<Rightarrow> nav_mode \<Rightarrow> nav_route \<Rightarrow> nav_effect" where
  "useNavigate windowTypeKey requestedMode route =
     (let mode = (if wt_key (getRouteWindowType route) = windowTypeKey then requestedMode else ModeSpawn)
      in (case mode of ModeSpawn \<Rightarrow> OpenWindow route | ModePush \<Rightarrow> Dispatch (Push route)
          | ModeReplace \<Rightarrow> Dispatch (Replace route) | ModeBackplace \<Rightarrow> Dispatch (Backplace route)))"

section \<open>The navigation container\<close>

text \<open>The reducer answers the object it was given exactly when it does not go back.\<close>

definition same_state :: "nav_state \<Rightarrow> nav_action \<Rightarrow> bool" where
  "same_state state action \<longleftrightarrow> (action = CloseBack \<or> action = Pop) \<and> n_routeIndex state = 0"

datatype container_effect = SendNavState nav_state | CloseAppWindow

text \<open>\<open>dispatch\<close> over the stream of the state, whose one subscriber sends the state it reads.\<close>

definition nav_dispatch :: "nav_state state_stream \<Rightarrow> nav_action \<Rightarrow> nav_state state_stream \<times> container_effect list" where
  "nav_dispatch s action =
     (if \<not> same_state (ss_state s) action
      then (let (s', calls) = writeState (NewState (navStateReducer (ss_state s) action)) s
            in (s', map (\<lambda>_. SendNavState (ss_state s')) calls))
      else (s, if action = CloseBack then [CloseAppWindow] else []))"

definition window_event :: "string \<Rightarrow> nav_action option" where
  "window_event event = (if event = ''back'' then Some Pop else if event = ''forward'' then Some Forward else None)"

section \<open>Entities of routes\<close>

datatype ('g, 'a, 'p, 'd) entity_content =
  GroupContent 'g "'d option"
| AccountContent 'a "'d option"
| PublicationContent 'p "'d option"
| DraftContent 'd "'g option"

text \<open>What the queries answer: groups with their id and front document, accounts, publications, drafts.\<close>

record ('g, 'a, 'p, 'd) answers =
  q_group :: "string \<Rightarrow> string option \<Rightarrow> 'g option"
  q_groupId :: "'g \<Rightarrow> string"
  q_front :: "string \<Rightarrow> string option \<Rightarrow> 'd option"
  q_account :: "string \<Rightarrow> 'a option"
  q_profile :: "'a option \<Rightarrow> 'd option"
  q_publication :: "string \<Rightarrow> string option \<Rightarrow> 'p option"
  q_document :: "'p \<Rightarrow> 'd option"
  q_draft :: "string \<Rightarrow> 'd option"

definition group_routes :: "base_entity_route list \<Rightarrow> base_group_route list" where
  "group_routes routes = List.map_filter (\<lambda>r. case r of BaseGroup g \<Rightarrow> Some g | _ \<Rightarrow> None) routes"

definition account_routes :: "base_entity_route list \<Rightarrow> base_account_route list" where
  "account_routes routes = List.map_filter (\<lambda>r. case r of BaseAccount a \<Rightarrow> Some a | _ \<Rightarrow> None) routes"

definition publication_routes :: "base_entity_route list \<Rightarrow> base_publication_route list" where
  "publication_routes routes = List.map_filter (\<lambda>r. case r of BasePublication p \<Rightarrow> Some p | _ \<Rightarrow> None) routes"

definition draft_routes :: "base_entity_route list \<Rightarrow> base_draft_route list" where
  "draft_routes routes = List.map_filter (\<lambda>r. case r of BaseDraft dr \<Rightarrow> Some dr | _ \<Rightarrow> None) routes"

text \<open>\<open>findIndex\<close>, and reading an array there.\<close>

fun find_index :: "('a \<Rightarrow> bool) \<Rightarrow> 'a list \<Rightarrow> nat option" where
  "find_index P [] = None"
| "find_index P (x # xs) = (if P x then Some 0 else map_option Suc (find_index P xs))"

definition at_index :: "nat option \<Rightarrow> 'a option list \<Rightarrow> 'a option" where
  "at_index i xs = (case i of None \<Rightarrow> None | Some n \<Rightarrow> (case nth_opt xs n of None \<Rightarrow> None | Some v \<Rightarrow> v))"

definition entity_of_route ::
  "('g, 'a, 'p, 'd) answers \<Rightarrow> base_entity_route list \<Rightarrow> base_entity_route \<Rightarrow> ('g, 'a, 'p, 'd) entity_content option" where
  "entity_of_route q routes route =
     (let groups = group_routes routes; accounts = account_routes routes;
          publications = publication_routes routes; drafts = draft_routes routes;
          groupQueries = map (\<lambda>r. q_group q (rg_groupId r) (rg_version r)) groups;
          groupFrontQueries = map (\<lambda>r. q_front q (rg_groupId r) (rg_version r)) groups;
          accountQueries = map (\<lambda>r. q_account q (ra_accountId r)) accounts;
          profileDocQueries = map (q_profile q) accountQueries;
          pubQueries = map (\<lambda>r. q_publication q (rp_documentId r) (rp_versionId r)) publications;
          draftQueries = map (q_draft q) (List.map_filter (\<lambda>r. if truthy (rd_draftId r) then rd_draftId r else None) drafts);
          draftGroupQueries = map (\<lambda>gid. q_group q gid None)
            (List.map_filter (\<lambda>r. case rd_variant r of None \<Rightarrow> None | Some (gid, _) \<Rightarrow> if gid = [] then None else Some gid) drafts)
      in (case route of
            BaseGroup g \<Rightarrow>
              (let i = find_index (\<lambda>r. r = g) groups in
               map_option (\<lambda>group. GroupContent group (at_index i groupFrontQueries)) (at_index i groupQueries))
          | BaseAccount a \<Rightarrow>
              (let i = find_index (\<lambda>r. r = a) accounts in
               map_option (\<lambda>account. AccountContent account (at_index i profileDocQueries)) (at_index i accountQueries))
          | BasePublication p \<Rightarrow>
              (let i = find_index (\<lambda>r. r = p) publications in
               map_option (\<lambda>pub. PublicationContent pub (q_document q pub)) (at_index i pubQueries))
          | BaseDraft dr \<Rightarrow>
              (let i = find_index (\<lambda>r. r = dr) drafts;
                   homeGroup = (case rd_variant dr of None \<Rightarrow> None
                     | Some (gid, _) \<Rightarrow> if gid = [] then None
                         else (case find (\<lambda>g. map_option (q_groupId q) g = Some gid) draftGroupQueries of None \<Rightarrow> None | Some g \<Rightarrow> g)) in
               map_option (\<lambda>doc. DraftContent doc homeGroup) (at_index i draftQueries))))"

definition useEntitiesContent ::
  "('g, 'a, 'p, 'd) answers \<Rightarrow> base_entity_route list \<Rightarrow> (base_entity_route \<times> ('g, 'a, 'p, 'd) entity_content option) list" where
  "useEntitiesContent q routes = map (\<lambda>route. (route, entity_of_route q routes route)) routes"

section \<open>Trails\<close>

text \<open>What a route is about, whatever block it shows.\<close>

fun base_about :: "base_entity_route \<Rightarrow> string" where
  "base_about (BasePublication p) = rp_documentId p"
| "base_about (BaseGroup g) = rg_groupId g"
| "base_about (BaseAccount a) = ra_accountId a"
| "base_about (BaseDraft dr) = show_undef (rd_draftId dr)"

definition about :: "nav_route \<Rightarrow> string" where
  "about route = (case getThisRouteContext route of None \<Rightarrow> [] | Some r \<Rightarrow> base_about r)"

lemma base_about_block [simp]: "base_about (with_block i r) = base_about r"
  by (cases r) (simp_all add: with_block_def)

text \<open>Opening links one after the other, each from the route the one before led to.\<close>

fun follow :: "nav_route \<Rightarrow> (string \<times> string option) list \<Rightarrow> nav_route list" where
  "follow route [] = []"
| "follow route ((url, block) # links) = (case useOpenInContext route url block of
      None \<Rightarrow> follow route links | Some route' \<Rightarrow> route' # follow route' links)"

lemma open_trail:
  assumes "useOpenInContext route url block = Some route'"
  obtains r where "getThisRouteContext route' = Some r"
    "getEntityRoutes route' = getRouteContext route block @ [r]"
    "getRouteContext route' b = getRouteContext route block @ [if truthy b then with_block (the b) r else r]"
  using assms
  by (auto simp: useOpenInContext_def Let_def getThisRouteContext_def getEntityRoutes_def published_routes_def
      getRouteContext_def getRouteParentContext_def split: option.splits if_splits)

lemma context_about: "map base_about (getRouteContext route b) = map base_about (getRouteContext route None)"
  by (auto simp: getRouteContext_def Let_def truthy_def split: option.splits)

lemma follow_trail: "follow route links = rs \<Longrightarrow> rs \<noteq> [] \<Longrightarrow>
   map base_about (getEntityRoutes (last rs)) = map base_about (getRouteContext route None) @ map about rs"
proof (induction route links arbitrary: rs rule: follow.induct)
  case (2 route url block links)
  show ?case
  proof (cases "useOpenInContext route url block")
    case None
    with 2 show ?thesis by simp
  next
    case (Some route')
    from open_trail [OF Some, of None] obtain r where
      r: "getThisRouteContext route' = Some r" "getEntityRoutes route' = getRouteContext route block @ [r]"
      "getRouteContext route' None = getRouteContext route block @ [r]" by (auto simp: truthy_def)
    have ctx: "map base_about (getRouteContext route' None) = map base_about (getRouteContext route None) @ [about route']"
      using r context_about [of route block] by (simp add: about_def)
    show ?thesis
    proof (cases "follow route' links")
      case Nil
      with 2(3) Some r ctx show ?thesis by auto
    next
      case (Cons x xs)
      with 2(2) [OF Some refl] ctx have "map base_about (getEntityRoutes (last (x # xs)))
        = map base_about (getRouteContext route None) @ about route' # map about (x # xs)" by simp
      with 2(3) Some Cons show ?thesis by auto
    qed
  qed
qed simp

text \<open>
  C33. Breadcrumbs: after opening links one from the other, the trail of the last route is the trail of the
  first, then the documents, groups and accounts that were opened, in order; the block a link was
  in stays with its parent.
\<close>

theorem context_trail:
  assumes "follow route links = rs" "rs \<noteq> []"
  shows "map base_about (getEntityRoutes (last rs)) = map base_about (getRouteContext route None) @ map about rs \<and>
    (\<forall>url block route'. useOpenInContext route url (Some block) = Some route' \<and> block \<noteq> [] \<longrightarrow>
       butlast (getEntityRoutes route') = (case getRouteParentContext route of None \<Rightarrow> [] | Some c \<Rightarrow> c)
         @ (case getThisRouteContext route of None \<Rightarrow> [] | Some r \<Rightarrow> [with_block block r]))"
proof -
  have "butlast (getEntityRoutes route') = (case getRouteParentContext route of None \<Rightarrow> [] | Some c \<Rightarrow> c)
         @ (case getThisRouteContext route of None \<Rightarrow> [] | Some r \<Rightarrow> [with_block block r])"
    if "useOpenInContext route url (Some block) = Some route'" "block \<noteq> []" for url block route'
    using that(2) by (rule_tac open_trail [OF that(1), of None]) (auto simp: getRouteContext_def truthy_def Let_def butlast_append split: option.splits)
  with follow_trail [OF assms] show ?thesis by blast
qed

theorem context_trail_witness:
  "\<exists>rs. follow (Feed ''all'') [(''hm://d/a'', None), (''hm://a/bob'', Some ''b1'')] = rs \<and>
     map base_about (getEntityRoutes (last rs)) = map about rs \<and> length rs = 2"
proof -
  let ?links = "[(''hm://d/a'', None), (''hm://a/bob'', Some ''b1'')]"
  have ids: "map_option u_type (unpackHmId ''hm://d/a'') = Some ''d''" "map_option u_type (unpackHmId ''hm://a/bob'') = Some ''a''"
    by code_simp+
  have len: "length (follow (Feed ''all'') ?links) = 2"
    using ids by (auto simp: useOpenInContext_def Let_def)
  then have "follow (Feed ''all'') ?links \<noteq> []" by auto
  from context_trail [OF refl this] len show ?thesis
    by (simp add: getRouteContext_def getThisRouteContext_def getRouteParentContext_def)
qed

section \<open>The container\<close>

lemma same_state_reducer: "same_state s a \<Longrightarrow> navStateReducer s a = s"
  by (auto simp: same_state_def navStateReducer_def)

fun dispatch_all :: "nav_state state_stream \<Rightarrow> nav_action list \<Rightarrow> nav_state state_stream \<times> container_effect list" where
  "dispatch_all s [] = (s, [])"
| "dispatch_all s (a # as) = (let (s1, e1) = nav_dispatch s a; (s2, e2) = dispatch_all s1 as in (s2, e1 @ e2))"

definition sent_states :: "container_effect list \<Rightarrow> nav_state list" where
  "sent_states es = List.map_filter (\<lambda>e. case e of SendNavState st \<Rightarrow> Some st | CloseAppWindow \<Rightarrow> None) es"

lemma sent_states_simps [simp]:
  "sent_states [] = []" "sent_states (e # es) = (case e of SendNavState st \<Rightarrow> [st] | CloseAppWindow \<Rightarrow> []) @ sent_states es"
  "sent_states (es @ es') = sent_states es @ sent_states es'"
  by (simp_all add: sent_states_def map_filter_simps map_filter_append split: container_effect.split)

text \<open>
  C8. The container of the navigation, with its one subscriber: its state is the reducer's over all actions, the
  last state sent to the desktop process is that state, if any was sent at all, and a window is only told to close by a
  \<open>closeBack\<close> when there is nothing behind.
\<close>

theorem container_in_step:
  assumes "dispatch_all \<lparr>ss_state = st, ss_handlers = [h]\<rparr> actions = (s', effects)"
  shows "ss_state s' = foldl navStateReducer st actions \<and>
    last (st # sent_states effects) = ss_state s' \<and>
    (CloseAppWindow \<in> set effects \<longleftrightarrow>
      (\<exists>as bs. actions = as @ CloseBack # bs \<and> n_routeIndex (foldl navStateReducer st as) = 0))"
  using assms
proof (induction actions arbitrary: st s' effects)
  case (Cons a as)
  let ?s = "\<lparr>ss_state = st, ss_handlers = [h]\<rparr>"
  let ?e = "if same_state st a then (if a = CloseBack then [CloseAppWindow] else []) else [SendNavState (navStateReducer st a)]"
  have d: "nav_dispatch ?s a = (\<lparr>ss_state = navStateReducer st a, ss_handlers = [h]\<rparr>, ?e)"
    by (simp add: nav_dispatch_def writeState_def new_state_def same_state_reducer Let_def)
  obtain s2 e2 where rest: "dispatch_all \<lparr>ss_state = navStateReducer st a, ss_handlers = [h]\<rparr> as = (s2, e2)" by fastforce
  with Cons.prems d have eq: "s' = s2" "effects = ?e @ e2" by simp_all
  note IH = Cons.IH [OF rest]
  have "(\<exists>xs bs. a # as = xs @ CloseBack # bs \<and> n_routeIndex (foldl navStateReducer st xs) = 0) \<longleftrightarrow>
    (a = CloseBack \<and> n_routeIndex st = 0) \<or>
    (\<exists>xs bs. as = xs @ CloseBack # bs \<and> n_routeIndex (foldl navStateReducer (navStateReducer st a) xs) = 0)"
    (is "?l \<longleftrightarrow> ?r")
  proof
    assume ?l
    then obtain xs bs where xs: "a # as = xs @ CloseBack # bs" "n_routeIndex (foldl navStateReducer st xs) = 0" by blast
    show ?r
    proof (cases xs)
      case Nil
      with xs show ?thesis by simp
    next
      case (Cons y ys)
      with xs have "as = ys @ CloseBack # bs" "n_routeIndex (foldl navStateReducer (navStateReducer st a) ys) = 0" by auto
      then show ?thesis by blast
    qed
  next
    assume ?r
    then show ?l
    proof (elim disjE exE conjE)
      assume "a = CloseBack" "n_routeIndex st = 0"
      then show ?l by (intro exI [of _ "[]"] exI [of _ as]) simp
    next
      fix xs bs assume "as = xs @ CloseBack # bs" "n_routeIndex (foldl navStateReducer (navStateReducer st a) xs) = 0"
      then show ?l by (intro exI [of _ "a # xs"] exI [of _ bs]) simp
    qed
  qed
  moreover have "last (st # sent_states effects) = last (navStateReducer st a # sent_states e2)"
    using same_state_reducer [of st a] by (simp add: eq)
  moreover have "CloseAppWindow \<in> set ?e \<longleftrightarrow> a = CloseBack \<and> n_routeIndex st = 0"
    by (simp add: same_state_def)
  ultimately show ?case using IH unfolding eq by auto
qed simp

theorem container_in_step_witness:
  "\<exists>s' effects. dispatch_all \<lparr>ss_state = nav_init, ss_handlers = [0]\<rparr> [Push Contacts, CloseBack, CloseBack] = (s', effects) \<and>
     CloseAppWindow \<in> set effects \<and> ss_state s' = last (nav_init # sent_states effects)"
proof -
  obtain s' effects where run: "dispatch_all \<lparr>ss_state = nav_init, ss_handlers = [0]\<rparr> [Push Contacts, CloseBack, CloseBack] = (s', effects)"
    by fastforce
  have "n_routeIndex (foldl navStateReducer nav_init [Push Contacts, CloseBack]) = 0"
    by (simp add: navStateReducer_def nav_init_def)
  then have "\<exists>as bs. [Push Contacts, CloseBack, CloseBack] = as @ CloseBack # bs \<and> n_routeIndex (foldl navStateReducer nav_init as) = 0"
    by (intro exI [of _ "[Push Contacts, CloseBack]"] exI [of _ "[]"]) simp
  with container_in_step [OF run] run show ?thesis by auto
qed

section \<open>Each route with its entity\<close>

lemma at_find_index: "x \<in> set xs \<Longrightarrow> at_index (find_index (\<lambda>y. y = x) xs) (map f xs) = f x"
proof (induction xs)
  case (Cons y ys)
  then show ?case
    by (cases "find_index (\<lambda>y. y = x) ys") (auto simp: at_index_def)
qed simp

lemma route_mem:
  "BaseGroup g \<in> set routes \<Longrightarrow> g \<in> set (group_routes routes)"
  "BaseAccount a \<in> set routes \<Longrightarrow> a \<in> set (account_routes routes)"
  "BasePublication p \<in> set routes \<Longrightarrow> p \<in> set (publication_routes routes)"
  "BaseDraft dr \<in> set routes \<Longrightarrow> dr \<in> set (draft_routes routes)"
  by (force simp: group_routes_def account_routes_def publication_routes_def draft_routes_def set_map_filter)+

text \<open>The entity of a route, asked for alone.\<close>

fun entity_alone :: "('g, 'a, 'p, 'd) answers \<Rightarrow> base_entity_route \<Rightarrow> ('g, 'a, 'p, 'd) entity_content option" where
  "entity_alone q (BaseGroup g) = map_option (\<lambda>x. GroupContent x (q_front q (rg_groupId g) (rg_version g))) (q_group q (rg_groupId g) (rg_version g))"
| "entity_alone q (BaseAccount a) = map_option (\<lambda>x. AccountContent x (q_profile q (Some x))) (q_account q (ra_accountId a))"
| "entity_alone q (BasePublication p) = map_option (\<lambda>x. PublicationContent x (q_document q x)) (q_publication q (rp_documentId p) (rp_versionId p))"
| "entity_alone q (BaseDraft dr) = map_option (\<lambda>x. DraftContent x
     (case rd_variant dr of None \<Rightarrow> None | Some (gid, _) \<Rightarrow> if gid = [] then None else q_group q gid None)) (q_draft q (show_undef (rd_draftId dr)))"

lemma map_filter_all_some: "(\<And>x. x \<in> set xs \<Longrightarrow> f x = Some (g x)) \<Longrightarrow> List.map_filter f xs = map g xs"
  by (induction xs) (simp_all add: map_filter_simps)

lemma find_group:
  assumes "\<And>i v g. q_group q i v = Some g \<Longrightarrow> q_groupId q g = i" and "gid \<in> set gids"
  shows "(case find (\<lambda>g. map_option (q_groupId q) g = Some gid) (map (\<lambda>gid. q_group q gid None) gids) of None \<Rightarrow> None | Some g \<Rightarrow> g)
    = q_group q gid None"
proof (cases "find (\<lambda>g. map_option (q_groupId q) g = Some gid) (map (\<lambda>gid. q_group q gid None) gids)")
  case None
  have "q_group q gid None = None"
  proof (rule ccontr)
    assume "q_group q gid None \<noteq> None"
    then obtain g where g: "q_group q gid None = Some g" by blast
    then have "Some g \<in> set (map (\<lambda>gid. q_group q gid None) gids)" using assms(2) by force
    with None have "map_option (q_groupId q) (Some g) \<noteq> Some gid" unfolding find_None_iff by blast
    with assms(1) [OF g] show False by simp
  qed
  with None show ?thesis by simp
next
  case (Some x)
  then obtain g where "x = Some g" "q_groupId q g = gid" "Some g \<in> set (map (\<lambda>gid. q_group q gid None) gids)"
    by (auto dest!: find_SomeD')
  with Some assms(1) show ?thesis by fastforce
qed


definition answers_sample :: "(string, string, string, string) answers" where
  "answers_sample = \<lparr>q_group = \<lambda>i v. Some i, q_groupId = \<lambda>g. g, q_front = \<lambda>i v. None, q_account = Some,
     q_profile = \<lambda>a. a, q_publication = \<lambda>i v. Some i, q_document = Some, q_draft = Some\<rparr>"

definition draft_at :: "string option \<Rightarrow> base_entity_route" where
  "draft_at i = BaseDraft \<lparr>rd_draftId = i, rd_variant = Some (''g1'', None), rd_isProfileDocument = None\<rparr>"


text \<open>
  A draft without an id moves the drafts after it: their answers are read at the wrong place, so it shows
  the next draft, and that one shows nothing.
\<close>

theorem draft_without_id_shifts:
  "map snd (useEntitiesContent answers_sample [draft_at None, draft_at (Some ''y'')]) = [Some (DraftContent ''y'' (Some ''g1'')), None]"
  by (simp add: useEntitiesContent_def entity_of_route_def Let_def draft_at_def group_routes_def account_routes_def
      publication_routes_def draft_routes_def map_filter_simps at_index_def truthy_def answers_sample_def)

end
