(* ===== verification/Route_Encoding.thy ===== *)
theory Route_Encoding
  imports Route_Context
begin

text \<open>
  A route in the path of a new window (\<^verbatim>\<open>frontend/packages/app/utils/route-encoding.ts\<close>,
  \<^verbatim>\<open>apps/desktop/src/ipc.ts\<close>): base 64 of the route as JSON, with the characters that have a
  meaning in paths exchanged.

  The model of \<open>Buffer\<close>'s base 64 takes bytes to sextets and back. \<open>JSON.stringify\<close> and
  \<open>JSON.parse\<close> are arguments.
\<close>

section \<open>Base 64\<close>

definition b64_alphabet :: string where
  "b64_alphabet = ''ABCDEFGHIJKLMNOPQRSTUVWXYZabcdefghijklmnopqrstuvwxyz0123456789+/''"

definition b64_char :: "nat \<Rightarrow> char" where
  "b64_char n = b64_alphabet ! n"

fun index_of :: "'a \<Rightarrow> 'a list \<Rightarrow> nat option" where
  "index_of x [] = None"
| "index_of x (y # ys) = (if x = y then Some 0 else map_option Suc (index_of x ys))"

definition b64_value :: "char \<Rightarrow> nat option" where
  "b64_value c = index_of c b64_alphabet"

fun to_sextets :: "nat list \<Rightarrow> nat list" where
  "to_sextets (a # b # c # bs) = [a div 4, a mod 4 * 16 + b div 16, b mod 16 * 4 + c div 64, c mod 64] @ to_sextets bs"
| "to_sextets [a, b] = [a div 4, a mod 4 * 16 + b div 16, b mod 16 * 4]"
| "to_sextets [a] = [a div 4, a mod 4 * 16]"
| "to_sextets [] = []"

fun of_sextets :: "nat list \<Rightarrow> nat list" where
  "of_sextets (s # t # u # v # ss) = [s * 4 + t div 16, t mod 16 * 16 + u div 4, u mod 4 * 64 + v] @ of_sextets ss"
| "of_sextets [s, t, u] = [s * 4 + t div 16, t mod 16 * 16 + u div 4]"
| "of_sextets [s, t] = [s * 4 + t div 16]"
| "of_sextets _ = []"

text \<open>\<open>toString('base64')\<close> pads to a multiple of four; reading stops at the padding and skips what is no digit.\<close>

definition to_base64 :: "string \<Rightarrow> string" where
  "to_base64 s = (let ss = to_sextets (map of_char s)
     in map b64_char ss @ replicate ((4 - length ss mod 4) mod 4) CHR ''='')"

definition from_base64 :: "string \<Rightarrow> string" where
  "from_base64 s = map char_of (of_sextets (List.map_filter b64_value (takeWhile (\<lambda>c. c \<noteq> CHR ''='') s)))"

section \<open>Routes\<close>

definition replaceAll :: "char \<Rightarrow> char \<Rightarrow> string \<Rightarrow> string" where
  "replaceAll a b s = map (\<lambda>c. if c = a then b else c) s"

definition encodeRouteToPath :: "('r \<Rightarrow> string) \<Rightarrow> 'r \<Rightarrow> string" where
  "encodeRouteToPath stringify route =
     CHR ''/'' # replaceAll CHR ''+'' CHR ''_'' (replaceAll CHR ''='' CHR ''-'' (to_base64 (stringify route)))"

definition decodeRouteFromPath :: "(string \<Rightarrow> 'r option) \<Rightarrow> string \<Rightarrow> 'r option" where
  "decodeRouteFromPath parse initRoute =
     parse (from_base64 (replaceAll CHR ''-'' CHR ''='' (replaceAll CHR ''_'' CHR ''+'' initRoute)))"

text \<open>The call \<open>plugin:window|open\<close>: the route of the window it makes.\<close>

definition open_window_route :: "(string \<Rightarrow> 'r option) \<Rightarrow> string option \<Rightarrow> 'r option" where
  "open_window_route parse path = decodeRouteFromPath parse (drop 1 (case path of None \<Rightarrow> [] | Some p \<Rightarrow> p))"

section \<open>Reading back\<close>

lemma index_of_nth: "distinct xs \<Longrightarrow> n < length xs \<Longrightarrow> index_of (xs ! n) xs = Some n"
proof (induction xs arbitrary: n)
  case (Cons x xs)
  then show ?case by (cases n) auto
qed simp

lemma alphabet_ok: "distinct b64_alphabet" "length b64_alphabet = 64" "set b64_alphabet \<inter> set ''=-_'' = {}"
  by (simp_all add: b64_alphabet_def)

lemma b64_value_char: "n < 64 \<Longrightarrow> b64_value (b64_char n) = Some n"
  unfolding b64_value_def b64_char_def using alphabet_ok by (intro index_of_nth) auto

lemma b64_char_plain: "n < 64 \<Longrightarrow> b64_char n \<notin> set ''=-_''"
  using alphabet_ok(2,3) nth_mem [of n b64_alphabet] unfolding b64_char_def by (metis disjoint_iff)

lemma sextet_less:
  fixes a b c :: nat
  assumes "a < 256" "b < 256" "c < 256"
  shows "a div 4 < 64" "a mod 4 * 16 + b div 16 < 64" "b mod 16 * 4 + c div 64 < 64" "c mod 64 < 64"
    "a mod 4 * 16 < 64" "b mod 16 * 4 < 64"
proof -
  have "a div 4 < 64" "b div 16 < 16" "c div 64 < 4"
    using assms by (simp_all add: div_less_iff_less_mult)
  moreover have "a mod 4 < 4" "b mod 16 < 16" "c mod 64 < 64" by simp_all
  ultimately show "a div 4 < 64" "a mod 4 * 16 + b div 16 < 64" "b mod 16 * 4 + c div 64 < 64" "c mod 64 < 64"
    "a mod 4 * 16 < 64" "b mod 16 * 4 < 64"
    by linarith+
qed

lemma sextet_back:
  fixes a b c :: nat
  assumes "a < 256" "b < 256" "c < 256"
  shows "a div 4 * 4 + (a mod 4 * 16 + b div 16) div 16 = a"
    "(a mod 4 * 16 + b div 16) mod 16 * 16 + (b mod 16 * 4 + c div 64) div 4 = b"
    "(b mod 16 * 4 + c div 64) mod 4 * 64 + c mod 64 = c"
    "a div 4 * 4 + (a mod 4 * 16) div 16 = a"
    "(a mod 4 * 16 + b div 16) mod 16 * 16 + (b mod 16 * 4) div 4 = b"
proof -
  have q: "b div 16 < 16" "c div 64 < 4" using assms by auto
  then have 1: "(a mod 4 * 16 + b div 16) div 16 = a mod 4" "(a mod 4 * 16 + b div 16) mod 16 = b div 16"
    "(b mod 16 * 4 + c div 64) div 4 = b mod 16" "(b mod 16 * 4 + c div 64) mod 4 = c div 64" by simp_all
  show "a div 4 * 4 + (a mod 4 * 16 + b div 16) div 16 = a" unfolding 1 by simp
  show "(a mod 4 * 16 + b div 16) mod 16 * 16 + (b mod 16 * 4 + c div 64) div 4 = b" unfolding 1 by simp
  show "(b mod 16 * 4 + c div 64) mod 4 * 64 + c mod 64 = c" unfolding 1 by simp
  show "a div 4 * 4 + (a mod 4 * 16) div 16 = a" by simp
  show "(a mod 4 * 16 + b div 16) mod 16 * 16 + (b mod 16 * 4) div 4 = b" unfolding 1 by simp
qed

lemma to_sextets_less: "\<forall>b \<in> set bs. b < 256 \<Longrightarrow> \<forall>x \<in> set (to_sextets bs). x < 64"
proof (induction bs rule: to_sextets.induct)
  case (1 a b c bs)
  then show ?case using sextet_less [of a b c] by simp
next
  case (2 a b)
  then show ?case using sextet_less [of a b b] by simp
next
  case (3 a)
  then show ?case using sextet_less [of a a a] by simp
qed simp

lemma of_to_sextets: "\<forall>b \<in> set bs. b < 256 \<Longrightarrow> of_sextets (to_sextets bs) = bs"
proof (induction bs rule: to_sextets.induct)
  case (1 a b c bs)
  then show ?case using sextet_back(1-3) [of a b c] by (simp add: ball_simps del: mult_div_mod_eq)
next
  case (2 a b)
  then show ?case using sextet_back(1,5) [of a b b] by (simp only: to_sextets.simps of_sextets.simps list.set ball_simps) (simp only: simp_thms)?
next
  case (3 a)
  then show ?case using sextet_back(4) [of a a a] by (simp only: to_sextets.simps of_sextets.simps list.set ball_simps) (simp only: simp_thms)?
qed simp

lemma bytes_less: "\<forall>b \<in> set (map of_char s). b < (256 :: nat)"
proof -
  have "of_char c < (256 :: nat)" for c :: char
    using of_char_mod_256 [where 'a = nat, of c] mod_less_divisor [of 256 "of_char c :: nat"] by simp
  then show ?thesis by simp
qed

lemma from_to_base64: "from_base64 (to_base64 s) = s"
proof -
  let ?ss = "to_sextets (map of_char s)"
  have less: "\<forall>x \<in> set ?ss. x < 64" using to_sextets_less [OF bytes_less] .
  have "takeWhile (\<lambda>c. c \<noteq> CHR ''='') (to_base64 s) = map b64_char ?ss"
    using less b64_char_plain by (auto simp: to_base64_def Let_def takeWhile_append)
  moreover have "List.map_filter b64_value (map b64_char xs) = xs" if "\<forall>x \<in> set xs. x < 64" for xs
    using that by (induction xs) (auto simp: map_filter_simps b64_value_char)
  ultimately show ?thesis using less of_to_sextets [OF bytes_less [of s]] by (simp add: from_base64_def o_def)
qed

lemma to_base64_chars: "c \<in> set (to_base64 s) \<Longrightarrow> c \<noteq> CHR ''-'' \<and> c \<noteq> CHR ''_''"
proof -
  assume "c \<in> set (to_base64 s)"
  moreover note to_sextets_less [OF bytes_less [of s]]
  ultimately show ?thesis using b64_char_plain by (fastforce simp: to_base64_def Let_def)
qed

lemma replace_back: "(\<And>c. c \<in> set s \<Longrightarrow> c \<noteq> CHR ''-'' \<and> c \<noteq> CHR ''_'') \<Longrightarrow>
   replaceAll CHR ''-'' CHR ''='' (replaceAll CHR ''_'' CHR ''+'' (replaceAll CHR ''+'' CHR ''_'' (replaceAll CHR ''='' CHR ''-'' s))) = s"
  by (induction s) (auto simp: replaceAll_def)

lemma replaceAll_gone: "a \<noteq> b \<Longrightarrow> a \<notin> set (replaceAll a b s)"
  by (induction s) (simp_all add: replaceAll_def)

lemma replaceAll_free: "c \<notin> set s \<Longrightarrow> c \<noteq> b \<Longrightarrow> c \<notin> set (replaceAll a b s)"
  by (induction s) (simp_all add: replaceAll_def)

definition path_encode :: "string \<Rightarrow> string" where
  "path_encode json = encodeRouteToPath (\<lambda>s. s) json"

definition path_decode :: "string \<Rightarrow> string option" where
  "path_decode path = open_window_route Some (Some path)"

interpretation route_paths: codec "\<lambda>_. True" path_encode path_decode
proof
  fix json
  have "replaceAll CHR ''-'' CHR ''='' (replaceAll CHR ''_'' CHR ''+''
      (replaceAll CHR ''+'' CHR ''_'' (replaceAll CHR ''='' CHR ''-'' (to_base64 json)))) = to_base64 json"
    using to_base64_chars by (rule replace_back)
  then show "path_decode (path_encode json) = Some json"
    by (simp add: path_decode_def path_encode_def encodeRouteToPath_def open_window_route_def decodeRouteFromPath_def from_to_base64)
qed

text \<open>
  C35. A new window opens the route it was asked for: the path that \<open>useNavigate\<close> sends to spawn a
  route is decoded to that route, for a JSON printer whose output the parser reads back; different
  routes have different paths, and a path has none of the characters \<open>=\<close> and \<open>+\<close>.
\<close>

theorem spawned_route:
  assumes "parse (stringify route) = Some (route :: nav_route)" "parse (stringify route') = Some route'"
  shows "open_window_route parse (Some (encodeRouteToPath stringify route)) = Some route \<and>
    (encodeRouteToPath stringify route = encodeRouteToPath stringify route' \<longrightarrow> route = route') \<and>
    CHR ''='' \<notin> set (encodeRouteToPath stringify route) \<and> CHR ''+'' \<notin> set (encodeRouteToPath stringify route) \<and>
    (useNavigate windowTypeKey mode route = OpenWindow route \<or> wt_key (getRouteWindowType route) = windowTypeKey)"
proof -
  have path: "encodeRouteToPath stringify r = path_encode (stringify r)" for r
    by (simp add: path_encode_def encodeRouteToPath_def)
  have again: "open_window_route parse (Some (encodeRouteToPath stringify r)) = Some r"
    if "parse (stringify r) = Some r" for r
    using route_paths.dec_enc [of "stringify r"] that
    by (simp add: path path_decode_def open_window_route_def decodeRouteFromPath_def)
  have inj: "encodeRouteToPath stringify route = encodeRouteToPath stringify route' \<longrightarrow> route = route'"
  proof
    assume "encodeRouteToPath stringify route = encodeRouteToPath stringify route'"
    with again [OF assms(1)] have "open_window_route parse (Some (encodeRouteToPath stringify route')) = Some route" by (simp only:)
    with again [OF assms(2)] show "route = route'" by (simp only: option.inject)
  qed
  have chars: "CHR ''='' \<notin> set (encodeRouteToPath stringify route)" "CHR ''+'' \<notin> set (encodeRouteToPath stringify route)"
    by (simp_all add: encodeRouteToPath_def replaceAll_gone replaceAll_free)
  have "useNavigate windowTypeKey mode route = OpenWindow route \<or> wt_key (getRouteWindowType route) = windowTypeKey"
    by (simp add: useNavigate_def)
  with again [OF assms(1)] inj chars show ?thesis by blast
qed

theorem spawned_route_witness:
  "open_window_route (\<lambda>json. if json = ''[1]'' then Some Contacts else None) (Some ''/WzFd'') = Some Contacts \<and>
   encodeRouteToPath (\<lambda>_. ''[1]'') Contacts = ''/WzFd''"
proof -
  let ?parse = "\<lambda>json. if json = ''[1]'' then Some Contacts else None"
  have "encodeRouteToPath (\<lambda>_. ''[1]'') Contacts = ''/WzFd''" by code_simp
  with spawned_route [of ?parse "\<lambda>_. ''[1]''" Contacts Contacts] show ?thesis by simp
qed

end
