(* ===== verification/Feeds.thy ===== *)
theory Feeds
  imports Hm_Url Timeline
begin

text \<open>
  The feed and the search (\<^verbatim>\<open>frontend/packages/app/models/feed.ts\<close>, \<^verbatim>\<open>search.ts\<close>,
  \<^verbatim>\<open>content-graph.ts\<close>): which events are shown, when there are new ones, and what is made of the
  entities a search finds.

  Events, blobs and entities are the daemon's answers. A JavaScript map is the list of its entries.
\<close>

section \<open>Events\<close>

datatype event_data =
  NewBlob (nb_cid: string) (nb_blobType: string) (nb_resource: string)
| OtherData

record feed_event =
  fe_data :: event_data
  fe_seconds :: "int option"

definition feedEventId :: "feed_event option \<Rightarrow> string option" where
  "feedEventId e = (case e of None \<Rightarrow> Some ''empty''
    | Some ev \<Rightarrow> (case fe_data ev of NewBlob cid blobType resource \<Rightarrow> Some cid | OtherData \<Rightarrow> None))"

text \<open>\<open>hasNewItems\<close>, from the first event of the feed and the id of the latest event.\<close>

definition hasNewItems :: "feed_event list \<Rightarrow> string option \<Rightarrow> bool" where
  "hasNewItems events latest =
     (let firstEventId = feedEventId (case events of [] \<Rightarrow> None | e # _ \<Rightarrow> Some e)
      in firstEventId \<noteq> Some ''empty'' \<and> (case latest of None \<Rightarrow> False | Some l \<Rightarrow> l \<noteq> []) \<and> firstEventId \<noteq> latest)"

record feed_filter =
  ff_filterResource :: "string list option"
  ff_filterUsers :: "string option list option"

definition feedFilterFromId :: "string option \<Rightarrow> feed_filter" where
  "feedFilterFromId i =
     (let given = (case i of None \<Rightarrow> False | Some s \<Rightarrow> s \<noteq> []);
          hmId = (if given then unpackHmId (the i) else None);
          isAccount = (case hmId of None \<Rightarrow> False | Some u \<Rightarrow> u_type u = ''a'')
      in \<lparr>ff_filterResource = (if \<not> given \<or> isAccount then None else Some [the i]),
          ff_filterUsers = (if isAccount then Some [u_eid (the hmId)] else None)\<rparr>)"

definition useResourceFeed :: "feed_event list list option \<Rightarrow> feed_event list" where
  "useResourceFeed pages = filter (\<lambda>event. case fe_data event of
       NewBlob cid blobType resource \<Rightarrow> blobType \<noteq> ''KeyDelegation'' | OtherData \<Rightarrow> True)
     (case pages of None \<Rightarrow> [] | Some ps \<Rightarrow> concat ps)"

section \<open>The feed\<close>

definition timeStampsWithinSec :: "int \<Rightarrow> int \<Rightarrow> int \<Rightarrow> bool" where
  "timeStampsWithinSec a b sec \<longleftrightarrow> \<bar>a - b\<bar> < sec"

text \<open>The first pass over the events: types and entity ids of changes, the changes of groups and their times.\<close>

record feed_pass =
  fp_groupUpdateCids :: "string list"
  fp_updateCidTypes :: "(string \<times> string option) list"
  fp_updateEids :: "(string \<times> string option) list"
  fp_groupUpdateTimes :: "(string \<times> int option) list"

definition pass_event :: "feed_pass \<Rightarrow> feed_event \<Rightarrow> feed_pass" where
  "pass_event fp event = (case fe_data event of
      OtherData \<Rightarrow> fp
    | NewBlob cid blobType resource \<Rightarrow>
        if blobType \<noteq> ''Change'' then fp
        else (let u = unpackHmId resource;
                  fp1 = fp\<lparr>fp_updateCidTypes := obj_set cid (map_option u_type u) (fp_updateCidTypes fp),
                           fp_updateEids := obj_set cid (case u of None \<Rightarrow> None | Some x \<Rightarrow> u_eid x) (fp_updateEids fp)\<rparr>
              in if map_option u_type u = Some ''g''
                 then fp1\<lparr>fp_groupUpdateCids := fp_groupUpdateCids fp1 @ [cid],
                          fp_groupUpdateTimes := obj_set cid (fe_seconds event) (fp_groupUpdateTimes fp1)\<rparr>
                 else fp1))"

definition feed_passed :: "feed_event list \<Rightarrow> feed_pass" where
  "feed_passed events = foldl pass_event
     \<lparr>fp_groupUpdateCids = [], fp_updateCidTypes = [], fp_updateEids = [], fp_groupUpdateTimes = []\<rparr> events"

text \<open>The key of a document at a version; a version that is missing prints as \<open>null\<close>.\<close>

definition show_null :: "string jsval \<Rightarrow> string" where
  "show_null v = (case v of Val s \<Rightarrow> s | Null \<Rightarrow> ''null'' | _ \<Rightarrow> ''undefined'')"

definition content_key :: "string option \<Rightarrow> string \<Rightarrow> string" where
  "content_key eid version = show_undef eid @ ''-'' @ version"

text \<open>\<open>blobs cid\<close> is the content patch of the blob, when it is a change that has one.\<close>

definition time_step ::
  "(string \<Rightarrow> (string \<times> string) list option) \<Rightarrow> feed_pass \<Rightarrow> (string \<times> int) list \<Rightarrow> string \<Rightarrow> (string \<times> int) list" where
  "time_step blobs fp timeMap cid = (case blobs cid of
      Some [(k, v)] \<Rightarrow>
        (case unpackHmId v of
           Some item \<Rightarrow>
             (case map_of (fp_groupUpdateTimes fp) cid of
                Some (Some time) \<Rightarrow>
                  if u_type item = ''d''
                  then obj_set (content_key (u_eid item) (show_null (u_version item))) time timeMap else timeMap
              | _ \<Rightarrow> timeMap)
         | None \<Rightarrow> timeMap)
    | _ \<Rightarrow> timeMap)"

definition feed_times :: "(string \<Rightarrow> (string \<times> string) list option) \<Rightarrow> feed_pass \<Rightarrow> (string \<times> int) list" where
  "feed_times blobs fp = foldl (time_step blobs fp) [] (fp_groupUpdateCids fp)"

definition shown :: "feed_pass \<Rightarrow> (string \<times> int) list \<Rightarrow> feed_event \<Rightarrow> bool" where
  "shown fp timeMap event = (case fe_data event of
      OtherData \<Rightarrow> True
    | NewBlob cid blobType resource \<Rightarrow>
        if blobType = ''KeyDelegation'' then False
        else if blobType = ''Change'' then
          (case (map_of (fp_updateCidTypes fp) cid, map_of (fp_updateEids fp) cid) of
             (Some (Some type), Some (Some eid)) \<Rightarrow>
               if eid \<noteq> [] \<and> type = ''d'' then
                 \<not> (case (map_of timeMap (content_key (Some eid) cid), fe_seconds event) of
                     (Some t, Some s) \<Rightarrow> timeStampsWithinSec t s (60 * 10) | _ \<Rightarrow> False)
               else True
           | _ \<Rightarrow> True)
        else True)"

definition useFeed :: "(string \<Rightarrow> (string \<times> string) list option) \<Rightarrow> feed_event list list option \<Rightarrow> feed_event list" where
  "useFeed blobs pages =
     (let allEvents = (case pages of None \<Rightarrow> [] | Some ps \<Rightarrow> concat ps);
          fp = feed_passed allEvents
      in filter (shown fp (feed_times blobs fp)) allEvents)"

section \<open>Search\<close>

record entity =
  en_entityId :: string
  en_title :: string

definition useSearch :: "entity list \<Rightarrow> entity list" where
  "useSearch entities = filter (\<lambda>e. en_title e \<noteq> ''(HIDDEN) Group Navigation'') entities"

record mention_item =
  mi_title :: string
  mi_subtitle :: "string option"
  mi_value :: string

record mention_groups =
  mg_Accounts :: "mention_item list"
  mg_Groups :: "mention_item list"
  mg_Documents :: "mention_item list"

definition mention_step :: "mention_groups \<Rightarrow> entity \<Rightarrow> mention_groups" where
  "mention_step acc e =
     (let item = (\<lambda>sub. \<lparr>mi_title = en_title e, mi_subtitle = Some sub, mi_value = en_entityId e\<rparr>)
      in if starts_with (en_entityId e) ''hm://a/'' then acc\<lparr>mg_Accounts := mg_Accounts acc @ [item ''Account'']\<rparr>
         else if starts_with (en_entityId e) ''hm://g/'' then acc\<lparr>mg_Groups := mg_Groups acc @ [item ''Group'']\<rparr>
         else if starts_with (en_entityId e) ''hm://d/'' then acc\<lparr>mg_Documents := mg_Documents acc @ [item ''Document'']\<rparr>
         else acc)"

definition useInlineMentions :: "entity list option \<Rightarrow> mention_groups" where
  "useInlineMentions queryResult = foldl mention_step \<lparr>mg_Accounts = [], mg_Groups = [], mg_Documents = []\<rparr>
     (case queryResult of None \<Rightarrow> [] | Some es \<Rightarrow> es)"

text \<open>The order of \<open>_useSearchMentions\<close>: a prefix without a number compares as equal.\<close>

definition prefixOrder :: "string \<Rightarrow> int option" where
  "prefixOrder p = map_of [(''hm://a/'', 0), (''hm://g/'', 1), (''hm://d/'', 2)] p"

definition mention_cmp :: "entity \<Rightarrow> entity \<Rightarrow> int" where
  "mention_cmp a b = (case (prefixOrder (take 7 (en_entityId a)), prefixOrder (take 7 (en_entityId b))) of
     (Some x, Some y) \<Rightarrow> x - y | _ \<Rightarrow> 0)"

definition useSearchMentions :: "entity list \<Rightarrow> entity list" where
  "useSearchMentions entities = js_sort mention_cmp entities"

definition transformResultsToItems :: "entity list \<Rightarrow> mention_item list" where
  "transformResultsToItems results = List.map_filter (\<lambda>e. map_option
     (\<lambda>u. \<lparr>mi_title = en_title e, mi_subtitle = map_of HYPERMEDIA_ENTITY_TYPES (u_type u), mi_value = en_entityId e\<rparr>)
     (unpackHmId (en_entityId e))) results"

definition useEntityMentions :: "string list \<Rightarrow> string list" where
  "useEntityMentions sources = filter (\<lambda>s. map_option u_type (unpackHmId s) \<noteq> Some ''g'') sources"

section \<open>What the feed hides\<close>

definition change_of :: "feed_event \<Rightarrow> (string \<times> string) option" where
  "change_of e = (case fe_data e of NewBlob cid blobType resource \<Rightarrow> if blobType = ''Change'' then Some (cid, resource) else None
    | OtherData \<Rightarrow> None)"

definition group_change :: "feed_event \<Rightarrow> string option" where
  "group_change e = (case change_of e of None \<Rightarrow> None
    | Some (cid, resource) \<Rightarrow> if map_option u_type (unpackHmId resource) = Some ''g'' then Some cid else None)"

text \<open>When a group change published just the document under the key.\<close>

definition publish_time :: "(string \<Rightarrow> (string \<times> string) list option) \<Rightarrow> string \<Rightarrow> feed_event \<Rightarrow> int option" where
  "publish_time blobs key e = (case group_change e of None \<Rightarrow> None | Some cid \<Rightarrow>
     (case blobs cid of
        Some [(k, v)] \<Rightarrow>
          (case unpackHmId v of None \<Rightarrow> None
           | Some item \<Rightarrow> if u_type item = ''d'' \<and> content_key (u_eid item) (show_null (u_version item)) = key
               then fe_seconds e else None)
      | _ \<Rightarrow> None))"

definition hidden :: "(string \<Rightarrow> (string \<times> string) list option) \<Rightarrow> feed_event list \<Rightarrow> feed_event \<Rightarrow> bool" where
  "hidden blobs events e \<longleftrightarrow> (case fe_data e of OtherData \<Rightarrow> False
    | NewBlob cid blobType resource \<Rightarrow>
        blobType = ''KeyDelegation'' \<or>
        blobType = ''Change'' \<and> (\<exists>u eid s. unpackHmId resource = Some u \<and> u_type u = ''d'' \<and> u_eid u = Some eid \<and> eid \<noteq> [] \<and>
          fe_seconds e = Some s \<and>
          (let ts = List.map_filter (publish_time blobs (content_key (Some eid) cid)) events
           in ts \<noteq> [] \<and> \<bar>last ts - s\<bar> < 600)))"

lemma map_filter_snoc: "List.map_filter f (xs @ [x]) = List.map_filter f xs @ (case f x of None \<Rightarrow> [] | Some y \<Rightarrow> [y])"
  by (simp add: map_filter_append map_filter_simps split: option.splits)

lemma feed_passed_snoc: "feed_passed (events @ [e]) = pass_event (feed_passed events) e"
  by (simp add: feed_passed_def)

lemma passed_groups: "fp_groupUpdateCids (feed_passed events) = List.map_filter group_change events"
proof (induction events rule: rev_induct)
  case (snoc e events)
  then show ?case
    by (auto simp: feed_passed_snoc map_filter_snoc pass_event_def group_change_def change_of_def Let_def split: event_data.splits)
qed (simp add: feed_passed_def map_filter_simps)

definition change_cids :: "feed_event list \<Rightarrow> string list" where
  "change_cids events = List.map_filter (\<lambda>e. map_option fst (change_of e)) events"

lemma passed_change:
  "distinct (change_cids events) \<Longrightarrow> e \<in> set events \<Longrightarrow> change_of e = Some (cid, resource) \<Longrightarrow>
     map_of (fp_updateCidTypes (feed_passed events)) cid = Some (map_option u_type (unpackHmId resource)) \<and>
     map_of (fp_updateEids (feed_passed events)) cid = Some (case unpackHmId resource of None \<Rightarrow> None | Some u \<Rightarrow> u_eid u) \<and>
     (group_change e = Some cid \<longrightarrow> map_of (fp_groupUpdateTimes (feed_passed events)) cid = Some (fe_seconds e))"
proof (induction events rule: rev_induct)
  case (snoc y events)
  show ?case
  proof (cases "e \<in> set events")
    case True
    then have "cid \<in> set (change_cids events)" using snoc.prems(3) by (auto simp: change_cids_def set_map_filter)
    then have "map_option fst (change_of y) \<noteq> Some cid"
      using snoc.prems(1) by (auto simp: change_cids_def map_filter_snoc)
    moreover have "distinct (change_cids events)"
      using snoc.prems(1) by (auto simp: change_cids_def map_filter_snoc split: option.splits)
    ultimately show ?thesis using snoc.IH [OF _ True snoc.prems(3)]
      by (auto simp: feed_passed_snoc pass_event_def change_of_def Let_def update_conv' split: event_data.splits if_splits)
  next
    case False
    with snoc.prems have "y = e" by simp
    with snoc.prems(3) show ?thesis
      by (auto simp: feed_passed_snoc pass_event_def change_of_def group_change_def Let_def update_conv' split: event_data.splits if_splits option.splits)
  qed
qed simp

lemma times_fold:
  "(\<And>e cid. e \<in> set es \<Longrightarrow> group_change e = Some cid \<Longrightarrow> map_of (fp_groupUpdateTimes fp) cid = Some (fe_seconds e)) \<Longrightarrow>
   map_of (foldl (time_step blobs fp) m (List.map_filter group_change es)) key =
     (let ts = List.map_filter (publish_time blobs key) es in if ts = [] then map_of m key else Some (last ts))"
proof (induction es arbitrary: m)
  case (Cons e es)
  show ?case
  proof (cases "group_change e")
    case None
    then have "publish_time blobs key e = None" by (simp add: publish_time_def)
    with None Cons show ?thesis by (simp add: map_filter_simps)
  next
    case (Some cid)
    have t: "map_of (fp_groupUpdateTimes fp) cid = Some (fe_seconds e)" using Cons.prems [of e cid] Some by simp
    have step: "map_of (time_step blobs fp m cid) key = (case publish_time blobs key e of None \<Rightarrow> map_of m key | Some s \<Rightarrow> Some s)"
      using Some t by (auto simp: time_step_def publish_time_def update_conv' split: option.splits list.splits prod.splits)
    have "map_of (foldl (time_step blobs fp) (time_step blobs fp m cid) (List.map_filter group_change es)) key =
      (let ts = List.map_filter (publish_time blobs key) es in if ts = [] then map_of (time_step blobs fp m cid) key else Some (last ts))"
      using Cons.prems by (intro Cons.IH) auto
    with Some step show ?thesis by (auto simp: map_filter_simps Let_def split: option.splits)
  qed
qed (simp add: map_filter_simps)

lemma feed_times_last:
  assumes "distinct (change_cids events)"
  shows "map_of (feed_times blobs (feed_passed events)) key =
    (let ts = List.map_filter (publish_time blobs key) events in if ts = [] then None else Some (last ts))"
proof -
  have "map_of (fp_groupUpdateTimes (feed_passed events)) cid = Some (fe_seconds e)"
    if "e \<in> set events" "group_change e = Some cid" for e cid
  proof -
    from that(2) obtain resource where "change_of e = Some (cid, resource)"
      by (auto simp: group_change_def split: option.splits if_splits)
    from passed_change [OF assms that(1) this] that(2) show ?thesis by simp
  qed
  from times_fold [OF this, of events blobs "[]" key] show ?thesis
    by (simp add: feed_times_def passed_groups Let_def cong: if_cong)
qed

text \<open>
  The feed: of all events, in their order, exactly the delegations of keys are hidden and the changes of documents
  that a group published, alone in one change, less than ten minutes away; of several such changes of
  groups only the last in the list counts.
\<close>

theorem feed_hides:
  assumes "distinct (change_cids (concat pages))"
  shows "useFeed blobs (Some pages) = filter (\<lambda>e. \<not> hidden blobs (concat pages) e) (concat pages)"
proof -
  have "shown (feed_passed (concat pages)) (feed_times blobs (feed_passed (concat pages))) e \<longleftrightarrow> \<not> hidden blobs (concat pages) e"
    if "e \<in> set (concat pages)" for e
  proof (cases "change_of e")
    case None
    then show ?thesis by (auto simp: change_of_def shown_def hidden_def split: event_data.splits if_splits)
  next
    case (Some c)
    obtain cid resource where c: "c = (cid, resource)" by fastforce
    then have d: "fe_data e = NewBlob cid ''Change'' resource"
      using Some by (auto simp: change_of_def split: event_data.splits if_splits)
    note p = passed_change [OF assms that Some [unfolded c]]
    show ?thesis
    proof (cases "unpackHmId resource")
      case None
      with p d show ?thesis by (simp add: shown_def hidden_def)
    next
      case (Some u)
      show ?thesis
      proof (cases "u_type u = ''d'' \<and> u_eid u \<noteq> None \<and> u_eid u \<noteq> Some []")
        case True
        then obtain eid where eid: "u_eid u = Some eid" "eid \<noteq> []" by auto
        show ?thesis
          using p d Some True eid feed_times_last [OF assms, of blobs "content_key (Some eid) cid"]
          by (cases "fe_seconds e") (auto simp: shown_def hidden_def timeStampsWithinSec_def Let_def)
      next
        case False
        with p d Some show ?thesis by (auto simp: shown_def hidden_def split: option.splits)
      qed
    qed
  qed
  then have "filter (shown (feed_passed (concat pages)) (feed_times blobs (feed_passed (concat pages)))) (concat pages)
    = filter (\<lambda>e. \<not> hidden blobs (concat pages) e) (concat pages)" by (rule filter_cong [OF refl])
  then show ?thesis by (simp only: useFeed_def Let_def option.case)
qed

definition feed_sample :: "feed_event list" where
  "feed_sample = [\<lparr>fe_data = NewBlob ''cg'' ''Change'' ''hm://g/grp'', fe_seconds = Some 100\<rparr>,
     \<lparr>fe_data = NewBlob ''cd'' ''Change'' ''hm://d/x'', fe_seconds = Some 90\<rparr>]"

theorem feed_hides_witness:
  "useFeed (\<lambda>cid. if cid = ''cg'' then Some [(''p'', ''hm://d/x?v=cd'')] else None) (Some [feed_sample]) = [hd feed_sample]"
proof -
  let ?blobs = "\<lambda>cid. if cid = ''cg'' then Some [(''p'', ''hm://d/x?v=cd'')] else None"
  have ids: "map_option (\<lambda>u. (u_type u, u_eid u, u_version u)) (unpackHmId ''hm://d/x?v=cd'') = Some (''d'', Some ''x'', Val ''cd'')"
    "map_option (\<lambda>u. (u_type u, u_eid u)) (unpackHmId ''hm://d/x'') = Some (''d'', Some ''x'')"
    "map_option u_type (unpackHmId ''hm://g/grp'') = Some ''g''" by code_simp+
  then obtain u v w where u: "unpackHmId ''hm://d/x?v=cd'' = Some u" "u_type u = ''d''" "u_eid u = Some ''x''" "u_version u = Val ''cd''"
    and v: "unpackHmId ''hm://d/x'' = Some v" "u_type v = ''d''" "u_eid v = Some ''x''"
    and w: "unpackHmId ''hm://g/grp'' = Some w" "u_type w = ''g''" by auto
  have "distinct (change_cids (concat [feed_sample]))"
    by (simp add: change_cids_def change_of_def feed_sample_def map_filter_simps)
  from feed_hides [OF this, of ?blobs] show ?thesis
    by (simp add: feed_sample_def hidden_def publish_time_def group_change_def change_of_def map_filter_simps
        u v w content_key_def show_null_def show_undef_def)
qed

end
