(* ===== verification/Markdown_Export.thy ===== *)
theory Markdown_Export
  imports Hm_Url Hm_Blocks
begin

text \<open>
  Exporting blocks (\<^verbatim>\<open>frontend/packages/app/utils/blocks-to-markdown.ts\<close>): the files of images,
  videos and attachments are collected and their URLs made local, then the blocks become HTML, which a
  third-party pipeline turns into Markdown. The pipeline is left out.

  A field that is missing prints as \<open>undefined\<close>; a link without content raises.
\<close>

section \<open>HTML\<close>

definition wrap :: "string \<Rightarrow> string \<Rightarrow> string" where
  "wrap tag t = ''<'' @ tag @ ''>'' @ t @ ''</'' @ tag @ ''>''"

definition quoted :: "string \<Rightarrow> string" where
  "quoted t = CHR 0x22 # t @ [CHR 0x22]"

definition applyStyles :: "string \<Rightarrow> styles \<Rightarrow> string" where
  "applyStyles t0 st =
     (let t1 = (if style_on st ''bold'' then wrap ''strong'' t0 else t0);
          t2 = (if style_on st ''italic'' then wrap ''em'' t1 else t1);
          t3 = (if style_on st ''strike'' then wrap ''del'' t2 else t2)
      in if style_on st ''underline'' then wrap ''u'' t3 else t3)"

definition item_text :: "inline \<Rightarrow> string option" where
  "item_text item = (case item of InlText t st \<Rightarrow> Some t | _ \<Rightarrow> None)"

definition item_styles :: "inline \<Rightarrow> styles" where
  "item_styles item = (case item of InlText t st \<Rightarrow> st | _ \<Rightarrow> [])"

definition convertContentItemToHtml :: "inline \<Rightarrow> string result" where
  "convertContentItemToHtml item = (case item of
      InlLink ty href content \<Rightarrow>
        if ty = ''link'' then
          (case content of
             [] \<Rightarrow> Inl TypeError
           | c # _ \<Rightarrow> Inr (''<a href='' @ quoted href @ ''>'' @ applyStyles (show_undef (item_text c)) (item_styles c) @ ''</a>''))
        else Inr []
    | _ \<Rightarrow> Inr (applyStyles (case item_text item of None \<Rightarrow> [] | Some t \<Rightarrow> t) (item_styles item)))"

definition or_str :: "string option \<Rightarrow> string \<Rightarrow> string" where
  "or_str v fallback = (if truthy v then the v else fallback)"

text \<open>The element of the block itself; the second label of \<open>case 'math' || 'equation'\<close> is never compared.\<close>

definition block_html :: "string \<Rightarrow> block_props \<Rightarrow> string \<Rightarrow> string" where
  "block_html ty p contentHtml =
     (if ty = ''heading'' then wrap (CHR ''h'' # show_undef (p_level p)) contentHtml
      else if ty = ''paragraph'' then wrap ''p'' contentHtml
      else if ty = ''image'' then
        ''<img src='' @ quoted (show_undef (p_url p)) @ '' alt='' @ quoted contentHtml @ '' title=''
          @ quoted (show_undef (p_name p) @ '' | width='' @ show_undef (p_width p)) @ ''>''
      else if ty = ''codeBlock'' then
        ''<pre><code class='' @ quoted (''language-'' @ or_str (p_language p) ''plaintext'') @ ''>'' @ contentHtml @ ''</code></pre>''
      else if ty = ''video'' then
        ''<p>!['' @ show_undef (p_name p) @ ''](''  @ show_undef (p_url p) @ '' '' @ quoted (''width='' @ show_undef (p_width p)) @ '')</p>''
      else if ty = ''file'' then
        ''<p>['' @ show_undef (p_name p) @ ''](''  @ show_undef (p_url p) @ '' '' @ quoted (''size='' @ show_undef (p_size p)) @ '')</p>''
      else if ty = ''math'' then ''<p>$$'' @ contentHtml @ ''$$</p>''
      else contentHtml)"

text \<open>Children of a list are items; the start of a numbered list is 1 when there is none.\<close>

definition children_html :: "block_props \<Rightarrow> string \<Rightarrow> string" where
  "children_html p childrenContent =
     (if p_childrenType p = Some ''ul'' then ''<ul>'' @ childrenContent @ ''</ul>''
      else if p_childrenType p = Some ''ol'' then
        ''<ol start='' @ quoted (or_str (p_start p) ''1'') @ ''>'' @ childrenContent @ ''</ol>''
      else childrenContent)"

definition in_list :: "block_props \<Rightarrow> bool" where
  "in_list p \<longleftrightarrow> p_childrenType p = Some ''ul'' \<or> p_childrenType p = Some ''ol''"

fun convertBlockToHtml :: "editor_block \<Rightarrow> bool \<Rightarrow> string result" where
  "convertBlockToHtml (EditorBlock i ty p content children) isListItem =
     bind_result (traverse (\<lambda>child. convertBlockToHtml child (in_list p)) children) (\<lambda>kids.
     bind_result (traverse convertContentItemToHtml content) (\<lambda>items.
       (let childrenHtml = children_html p (join [CHR 0x0A] kids);
            blockHtml = block_html ty p (concat items)
        in Inr (if isListItem then ''<li>'' @ blockHtml @ childrenHtml @ ''</li>''
                else blockHtml @ CHR 0x0A # childrenHtml))))"

definition convertBlocksToHtml :: "editor_block list \<Rightarrow> string result" where
  "convertBlocksToHtml blocks = map_result (join [CHR 0x0A, CHR 0x0A]) (traverse (\<lambda>b. convertBlockToHtml b False) blocks)"

section \<open>Media files\<close>

record media_file =
  mf_url :: string
  mf_filename :: string

definition is_media :: "string \<Rightarrow> bool" where
  "is_media ty \<longleftrightarrow> ty = ''image'' \<or> ty = ''video'' \<or> ty = ''file''"

definition video_host :: "string \<Rightarrow> bool" where
  "video_host url \<longleftrightarrow> occurs_in ''youtu.be'' url \<or> occurs_in ''youtube'' url \<or> occurs_in ''vimeo'' url"

definition filename_of :: "string \<Rightarrow> string" where
  "filename_of url = last (split_char CHR ''/'' url)"

definition local_url :: "string \<Rightarrow> string" where
  "local_url url = ''media/'' @ filename_of url"

text \<open>The files found, and the block as the function leaves it; below a video that is linked it does not go.\<close>

fun extractMedia :: "editor_block \<Rightarrow> media_file list \<times> editor_block" where
  "extractMedia (EditorBlock i ty p content children) =
     (let below = map extractMedia children;
          files = concat (map fst below); children' = map snd below
      in if is_media ty \<and> truthy (p_url p) then
           (let url = the (p_url p) in
            if video_host url then ([], EditorBlock i ty p content children)
            else (\<lparr>mf_url = url, mf_filename = filename_of url\<rparr> # files,
                  EditorBlock i ty (p\<lparr>p_url := Some (local_url url)\<rparr>) content children'))
         else (files, EditorBlock i ty p content children'))"

definition extractMediaFiles :: "editor_block list \<Rightarrow> media_file list \<times> editor_block list" where
  "extractMediaFiles blocks = (concat (map (\<lambda>b. fst (extractMedia b)) blocks), map (\<lambda>b. snd (extractMedia b)) blocks)"

text \<open>The HTML that goes into the pipeline, and the files.\<close>

definition convertBlocksToMarkdown :: "editor_block list \<Rightarrow> (string \<times> media_file list) result" where
  "convertBlocksToMarkdown blocks = (case extractMediaFiles blocks of (mediaFiles, blocks') \<Rightarrow>
     map_result (\<lambda>html. (html, mediaFiles)) (convertBlocksToHtml blocks'))"

section \<open>Which exports raise\<close>

fun all_blocks :: "editor_block list \<Rightarrow> editor_block list" where
  "all_blocks [] = []"
| "all_blocks (EditorBlock i ty p content children # rest) =
     EditorBlock i ty p content children # all_blocks children @ all_blocks rest"

definition empty_link :: "inline \<Rightarrow> bool" where
  "empty_link item \<longleftrightarrow> (case item of InlLink ty href content \<Rightarrow> ty = ''link'' \<and> content = [] | _ \<Rightarrow> False)"

lemma item_raises: "(\<exists>e. convertContentItemToHtml item = Inl e) \<longleftrightarrow> empty_link item"
  by (cases item) (auto simp: convertContentItemToHtml_def empty_link_def split: list.splits)

lemma traverse_Inl_iff: "(\<exists>e. traverse f xs = Inl e) \<longleftrightarrow> (\<exists>x \<in> set xs. \<exists>e. f x = Inl e)"
proof (induction xs)
  case (Cons x xs)
  then show ?case by (cases "f x"; cases "traverse f xs") auto
qed simp

lemma all_blocks_set: "b \<in> set (all_blocks bs) \<longleftrightarrow> (\<exists>c \<in> set bs. b \<in> set (all_blocks [c]))"
  by (induction bs rule: all_blocks.induct) auto

lemma ex_all_blocks: "(\<exists>b \<in> set (all_blocks bs). P b) \<longleftrightarrow> (\<exists>c \<in> set bs. \<exists>b \<in> set (all_blocks [c]). P b)"
  using all_blocks_set [of _ bs] by metis

lemma all_blocks_Cons: "all_blocks (x # xs) = all_blocks [x] @ all_blocks xs"
  by (cases x) simp

lemma block_raises:
  "(\<exists>e. convertBlockToHtml b inl = Inl e) \<longleftrightarrow> (\<exists>c \<in> set (all_blocks [b]). \<exists>item \<in> set (e_content c). empty_link item)"
proof (induction b arbitrary: inl)
  case (EditorBlock i ty p content children)
  have "(\<exists>e. convertBlockToHtml (EditorBlock i ty p content children) inl = Inl e) \<longleftrightarrow>
    (\<exists>e. traverse (\<lambda>child. convertBlockToHtml child (in_list p)) children = Inl e) \<or>
    (\<exists>e. traverse convertContentItemToHtml content = Inl e)"
    by (cases "traverse (\<lambda>child. convertBlockToHtml child (in_list p)) children"; cases "traverse convertContentItemToHtml content")
      (auto simp: Let_def)
  also have "\<dots> \<longleftrightarrow> (\<exists>child \<in> set children. \<exists>c \<in> set (all_blocks [child]). \<exists>item \<in> set (e_content c). empty_link item) \<or>
    (\<exists>item \<in> set content. empty_link item)"
    unfolding traverse_Inl_iff item_raises using EditorBlock by blast
  also have "\<dots> \<longleftrightarrow> (\<exists>c \<in> set (all_blocks [EditorBlock i ty p content children]). \<exists>item \<in> set (e_content c). empty_link item)"
    using ex_all_blocks [of children "\<lambda>c. \<exists>item \<in> set (e_content c). empty_link item"] by auto
  finally show ?case .
qed

lemma extract_content: "map e_content (all_blocks [snd (extractMedia b)]) = map e_content (all_blocks [b])"
proof (induction b)
  case (EditorBlock i ty p content children)
  have "map e_content (all_blocks (map (\<lambda>b. snd (extractMedia b)) children)) = map e_content (all_blocks children)"
    using EditorBlock
  proof (induction children)
    case (Cons c cs)
    have "map e_content (all_blocks (snd (extractMedia c) # map (\<lambda>b. snd (extractMedia b)) cs))
      = map e_content (all_blocks [snd (extractMedia c)]) @ map e_content (all_blocks (map (\<lambda>b. snd (extractMedia b)) cs))"
      by (subst all_blocks_Cons) simp
    also have "\<dots> = map e_content (all_blocks [c]) @ map e_content (all_blocks cs)" using Cons by simp
    also have "\<dots> = map e_content (all_blocks (c # cs))" by (subst (2) all_blocks_Cons) simp
    finally show ?case by simp
  qed simp
  then show ?case by (simp add: Let_def o_def)
qed

text \<open>
  An export fails exactly when some block, at any depth, has a link without content; the media files
  do not matter to that.
\<close>

theorem export_raises:
  "(\<exists>e. convertBlocksToMarkdown blocks = Inl e) \<longleftrightarrow>
   (\<exists>b \<in> set (all_blocks blocks). \<exists>item \<in> set (e_content b). empty_link item)"
proof -
  have "(\<exists>e. convertBlocksToMarkdown blocks = Inl e) \<longleftrightarrow>
    (\<exists>e. traverse (\<lambda>b. convertBlockToHtml b False) (map (\<lambda>b. snd (extractMedia b)) blocks) = Inl e)"
    by (cases "traverse (\<lambda>b. convertBlockToHtml b False) (map (\<lambda>b. snd (extractMedia b)) blocks)")
      (auto simp: convertBlocksToMarkdown_def extractMediaFiles_def convertBlocksToHtml_def)
  also have "\<dots> \<longleftrightarrow> (\<exists>b \<in> set blocks. \<exists>c \<in> set (all_blocks [snd (extractMedia b)]). \<exists>item \<in> set (e_content c). empty_link item)"
    unfolding traverse_Inl_iff block_raises by auto
  also have "\<dots> \<longleftrightarrow> (\<exists>b \<in> set blocks. \<exists>content \<in> set (map e_content (all_blocks [snd (extractMedia b)])). \<exists>item \<in> set content. empty_link item)"
    by simp
  also have "\<dots> \<longleftrightarrow> (\<exists>b \<in> set (all_blocks blocks). \<exists>item \<in> set (e_content b). empty_link item)"
    unfolding extract_content using ex_all_blocks [of blocks "\<lambda>b. \<exists>item \<in> set (e_content b). empty_link item"] by simp
  finally show ?thesis .
qed

section \<open>The URLs of media\<close>

text \<open>The URL a local one stands for, and the blocks with all of them put back.\<close>

definition original_url :: "media_file list \<Rightarrow> string \<Rightarrow> string" where
  "original_url files u = (case find (\<lambda>f. u = ''media/'' @ mf_filename f) files of None \<Rightarrow> u | Some f \<Rightarrow> mf_url f)"

fun restore_urls :: "media_file list \<Rightarrow> editor_block \<Rightarrow> editor_block" where
  "restore_urls files (EditorBlock i ty p content children) =
     EditorBlock i ty (if is_media ty then p\<lparr>p_url := map_option (original_url files) (p_url p)\<rparr> else p) content
       (map (restore_urls files) children)"

text \<open>No URL of the blocks is local already; a name of a file belongs to one URL.\<close>

definition remote_urls :: "editor_block list \<Rightarrow> bool" where
  "remote_urls bs \<longleftrightarrow> (\<forall>b \<in> set (all_blocks bs). \<forall>u. is_media (e_type b) \<and> p_url (e_props b) = Some u \<longrightarrow> \<not> starts_with u ''media/'')"

definition names_differ :: "media_file list \<Rightarrow> bool" where
  "names_differ files \<longleftrightarrow> (\<forall>f \<in> set files. \<forall>g \<in> set files. mf_filename f = mf_filename g \<longrightarrow> mf_url f = mf_url g)"

lemma local_name: "starts_with (''media/'' @ name) ''media/''"
  by (simp add: starts_with_def)

lemma original_remote:
  assumes "\<not> starts_with u ''media/''"
  shows "original_url files u = u"
proof -
  have "u \<noteq> ''media/'' @ mf_filename f" for f using assms local_name by metis
  then have "find (\<lambda>f. u = ''media/'' @ mf_filename f) files = None" unfolding find_None_iff by blast
  then show ?thesis unfolding original_url_def by (simp only: option.case)
qed

lemma original_local:
  assumes "names_differ files" "f \<in> set files"
  shows "original_url files (''media/'' @ mf_filename f) = mf_url f"
proof -
  have same: "(\<lambda>g. ''media/'' @ mf_filename f = ''media/'' @ mf_filename g) = (\<lambda>g. mf_filename f = mf_filename g)"
    by (simp only: same_append_eq)
  show ?thesis
  proof (cases "find (\<lambda>g. mf_filename f = mf_filename g) files")
    case None
    with assms(2) show ?thesis unfolding find_None_iff by blast
  next
    case (Some g)
    from find_SomeD' [OF this] have "mf_filename f = mf_filename g" "g \<in> set files" by blast+
    with assms have "mf_url g = mf_url f" by (metis names_differ_def)
    with Some show ?thesis unfolding original_url_def same by (simp only: option.case)
  qed
qed

lemma remote_Cons: "remote_urls (b # bs) \<longleftrightarrow> remote_urls [b] \<and> remote_urls bs"
  by (subst remote_urls_def, subst all_blocks_Cons) (auto simp: remote_urls_def)

lemma remote_all: "remote_urls bs \<Longrightarrow> b \<in> set bs \<Longrightarrow> remote_urls [b]"
proof (induction bs)
  case (Cons c bs)
  from Cons.prems(1) have "remote_urls [c]" "remote_urls bs" by (simp_all only: remote_Cons [of c bs])
  with Cons show ?case by auto
qed simp

lemma remote_block:
  "remote_urls [EditorBlock i ty p content children] \<longleftrightarrow>
     (is_media ty \<longrightarrow> (\<forall>u. p_url p = Some u \<longrightarrow> \<not> starts_with u ''media/'')) \<and> remote_urls children"
  by (auto simp: remote_urls_def)

lemma restore_props: "(is_media ty \<longrightarrow> (\<forall>u. p_url p = Some u \<longrightarrow> \<not> starts_with u ''media/'')) \<Longrightarrow>
   (if is_media ty then p\<lparr>p_url := map_option (original_url files) (p_url p)\<rparr> else p) = p"
  by (cases "p_url p") (auto simp: original_remote)

lemma restore_untouched: "remote_urls [b] \<Longrightarrow> restore_urls files b = b"
proof (induction b)
  case (EditorBlock i ty p content children)
  have "map (restore_urls files) children = children"
    using EditorBlock remote_all [of children] by (intro map_idI) (simp add: remote_block)
  with EditorBlock.prems show ?case by (simp add: remote_block restore_props)
qed

lemma restore_extracted:
  "remote_urls [b] \<Longrightarrow> names_differ files \<Longrightarrow> set (fst (extractMedia b)) \<subseteq> set files \<Longrightarrow>
   restore_urls files (snd (extractMedia b)) = b"
proof (induction b)
  case (EditorBlock i ty p content children)
  have remote: "is_media ty \<longrightarrow> (\<forall>u. p_url p = Some u \<longrightarrow> \<not> starts_with u ''media/'')" "remote_urls children"
    using EditorBlock.prems(1) by (simp_all add: remote_block)
  show ?case
  proof (cases "is_media ty \<and> truthy (p_url p) \<and> video_host (the (p_url p))")
    case True
    then have "snd (extractMedia (EditorBlock i ty p content children)) = EditorBlock i ty p content children"
      by (simp add: Let_def)
    with restore_untouched [OF EditorBlock.prems(1)] show ?thesis by simp
  next
    case False
    let ?url = "the (p_url p)"
    have sub: "set (fst (extractMedia c)) \<subseteq> set files" if "c \<in> set children" for c
      using that EditorBlock.prems(3) False by (auto simp: Let_def split: if_splits)
    have kids: "map (restore_urls files) (map snd (map extractMedia children)) = children"
      unfolding list.map_comp o_def
      using EditorBlock.IH EditorBlock.prems(2) sub remote_all [OF remote(2)] by (intro map_idI) blast
    show ?thesis
    proof (cases "is_media ty \<and> truthy (p_url p)")
      case True
      then have url: "p_url p = Some ?url" by (auto simp: truthy_def)
      have f: "\<lparr>mf_url = ?url, mf_filename = filename_of ?url\<rparr> \<in> set files"
        using EditorBlock.prems(3) True False by (simp add: Let_def)
      have "original_url files (local_url ?url) = ?url"
        using original_local [OF EditorBlock.prems(2) f] by (simp add: local_url_def)
      with True False url kids show ?thesis by (simp add: Let_def)
    next
      case no: False
      then have "snd (extractMedia (EditorBlock i ty p content children)) = EditorBlock i ty p content (map snd (map extractMedia children))"
        unfolding extractMedia.simps Let_def if_not_P [OF no] by (simp only: snd_conv)
      then show ?thesis using kids restore_props [OF remote(1)] by (simp only: restore_urls.simps)
    qed
  qed
qed

text \<open>
  Media of an export: the list of files is enough to put every URL of the exported blocks back, when no two
  URLs end in the same name and none is local before.
\<close>

theorem media_restored:
  assumes "extractMediaFiles blocks = (files, blocks')" "remote_urls blocks" "names_differ files"
  shows "map (restore_urls files) blocks' = blocks"
proof -
  have "restore_urls files (snd (extractMedia b)) = b" if "b \<in> set blocks" for b
    using that assms remote_all [OF assms(2) that]
    by (intro restore_extracted) (auto simp: extractMediaFiles_def)
  moreover have "blocks' = map (\<lambda>b. snd (extractMedia b)) blocks" using assms(1) by (simp add: extractMediaFiles_def)
  ultimately show ?thesis by (simp add: map_idI)
qed

definition image_at :: "string \<Rightarrow> editor_block" where
  "image_at url = EditorBlock ''i'' ''image'' (no_props\<lparr>p_url := Some url\<rparr>) [] []"

theorem media_restored_witness:
  "\<exists>files blocks'. extractMediaFiles [image_at ''ipfs://a'', image_at ''ipfs://b''] = (files, blocks') \<and>
     map (\<lambda>b. p_url (e_props b)) blocks' = [Some ''media/a'', Some ''media/b''] \<and>
     map (restore_urls files) blocks' = [image_at ''ipfs://a'', image_at ''ipfs://b'']"
proof -
  let ?bs = "[image_at ''ipfs://a'', image_at ''ipfs://b'']"
  let ?files = "[\<lparr>mf_url = ''ipfs://a'', mf_filename = ''a''\<rparr>, \<lparr>mf_url = ''ipfs://b'', mf_filename = ''b''\<rparr>]"
  have run: "extractMediaFiles ?bs = (?files, [image_at ''media/a'', image_at ''media/b''])"
    by (simp add: extractMediaFiles_def image_at_def is_media_def truthy_def video_host_def filename_of_def local_url_def Let_def starts_with_def)
  have "remote_urls ?bs" "names_differ ?files"
    by (simp_all add: remote_urls_def image_at_def no_props_def starts_with_def names_differ_def)
  from media_restored [OF run this] run show ?thesis by (simp add: image_at_def)
qed

text \<open>
  Two files with the same name go to one local file: the export cannot tell them apart.
\<close>

theorem media_names_clash:
  "snd (extractMediaFiles [image_at ''http://x/a.png'']) = snd (extractMediaFiles [image_at ''http://y/a.png''])"
  by (simp add: extractMediaFiles_def image_at_def is_media_def truthy_def video_host_def filename_of_def local_url_def Let_def starts_with_def)

text \<open>Text is not escaped: words that look like an element export as one.\<close>

theorem text_not_escaped:
  "convertBlockToHtml (EditorBlock i ''paragraph'' p [InlText ''<u>x</u>'' []] []) False =
   convertBlockToHtml (EditorBlock i ''paragraph'' p [InlText ''x'' [(''underline'', True)]] []) False"
  by (simp add: convertContentItemToHtml_def applyStyles_def style_on_def item_text_def item_styles_def wrap_def)

end
