(* ===== verification/Site_Server.thy ===== *)
theory Site_Server
  imports Timeline Hm_Url Hm_Blocks
begin

text \<open>
  The requests the web site answers (\<^verbatim>\<open>frontend/apps/site/server/routers/_app.ts\<close>): the changes around a
  version, citations, the content of a group, accounts that are looked for among peers. The answers of
  the daemon are arguments; the walk over dependencies does not end when the version depends on itself.
\<close>

section \<open>Changes around a version\<close>

record site_publication =
  sp_docId :: "string option"
  sp_version :: string

text \<open>The three maps the request fills: change infos, what a change depends on, what depends on it.\<close>

record change_maps =
  cm_index :: "(string \<times> change) list"
  cm_deps :: "(string \<times> string list) list"
  cm_down :: "(string \<times> string list) list"

definition get_set :: "string \<Rightarrow> (string \<times> string list) list \<Rightarrow> string list" where
  "get_set k m = (case map_of m k of None \<Rightarrow> [] | Some s \<Rightarrow> s)"

definition add_to :: "string \<Rightarrow> string \<Rightarrow> (string \<times> string list) list \<Rightarrow> (string \<times> string list) list" where
  "add_to k x m = obj_set k (set_add x (get_set k m)) m"

definition index_change :: "change_maps \<Rightarrow> change \<Rightarrow> change_maps" where
  "index_change m c =
     (let i = ch_id c;
          deps0 = (if map_of (cm_deps m) i = None then obj_set i [] (cm_deps m) else cm_deps m)
      in \<lparr>cm_index = obj_set i c (cm_index m),
          cm_deps = foldl (\<lambda>d dep. add_to i dep d) deps0 (ch_deps c),
          cm_down = foldl (\<lambda>d dep. add_to dep i d) (cm_down m) (ch_deps c)\<rparr>)"

definition index_changes :: "change list \<Rightarrow> change_maps" where
  "index_changes changes = foldl index_change \<lparr>cm_index = [], cm_deps = [], cm_down = []\<rparr> changes"

definition changeIdsToChanges :: "change_maps \<Rightarrow> string list \<Rightarrow> change list" where
  "changeIdsToChanges m ids = List.map_filter (map_of (cm_index m)) ids"

text \<open>
  \<open>lookForDeps\<close>: the calls still to be made are the list \<open>todo\<close>, the calls for the dependencies of a
  change come before the rest. The version itself is looked at, but not collected.
\<close>

partial_function (option) lookForDeps ::
  "(string \<Rightarrow> string list) \<Rightarrow> string \<Rightarrow> string list \<Rightarrow> string list \<Rightarrow> string list option" where
  "lookForDeps deps version todo allDeps = (case todo of [] \<Rightarrow> Some allDeps
     | i # rest \<Rightarrow>
         if i \<in> set allDeps then lookForDeps deps version rest allDeps
         else lookForDeps deps version (deps i @ rest) (if i \<noteq> version then allDeps @ [i] else allDeps))"

record site_changes =
  sc_versionChanges :: "change list"
  sc_deps :: "change list"
  sc_downstreamChanges :: "change list"
  sc_allDeps :: "change list"

definition changes_of_version :: "string \<Rightarrow> change list \<Rightarrow> site_changes option" where
  "changes_of_version version changes =
     (let m = index_changes changes;
          versionChanges = split_char CHR '','' version;
          deps = set_add_all [] (concat (map (\<lambda>i. get_set i (cm_deps m)) versionChanges));
          downstream = (case map_of (cm_down m) version of None \<Rightarrow> []
            | Some s \<Rightarrow> set_add_all s (concat (map (\<lambda>i. get_set i (cm_down m)) versionChanges)))
      in map_option (\<lambda>allDeps.
           \<lparr>sc_versionChanges = changeIdsToChanges m versionChanges,
            sc_deps = changeIdsToChanges m deps,
            sc_downstreamChanges = changeIdsToChanges m (filter (\<lambda>i. i \<notin> set versionChanges) downstream),
            sc_allDeps = changeIdsToChanges m allDeps\<rparr>)
         (lookForDeps (\<lambda>i. get_set i (cm_deps m)) version versionChanges []))"

definition getChanges :: "site_publication option result \<Rightarrow> change list result \<Rightarrow> site_changes result option" where
  "getChanges pubAnswer changesAnswer = (case pubAnswer of
      Inl e \<Rightarrow> Some (Inl e)
    | Inr None \<Rightarrow> Some (Inl (Error ''getPublication returned null''))
    | Inr (Some pub) \<Rightarrow>
        if \<not> truthy (sp_docId pub) then Some (Inl (Error ''docId not retreived from getPublication''))
        else if sp_version pub = [] then Some (Inl (Error ''version not retrieved from getPublication''))
        else (case changesAnswer of Inl e \<Rightarrow> Some (Inl e)
          | Inr changes \<Rightarrow> map_option Inr (changes_of_version (sp_version pub) changes)))"

section \<open>Citations\<close>

record site_link =
  sl_source :: string
  sl_version :: string

record source_publication =
  so_docId :: string
  so_version :: string
  so_title :: string

text \<open>\<open>pubs\<close> are the answers for the sources of the links, in their order.\<close>

definition getCitations :: "site_link list \<Rightarrow> source_publication list \<Rightarrow> (site_link \<times> source_publication option) list" where
  "getCitations links pubs =
     filter (\<lambda>(link, pub). map_option so_title pub \<noteq> Some ''(HIDDEN) Group Navigation'')
       (map (\<lambda>link. (link, find (\<lambda>p. so_docId p = sl_source link) pubs)) links)"

section \<open>Accounts\<close>

datatype site_call = GetAccount string | DiscoverEntity string

text \<open>The pattern is a class of characters: it matches any of them.\<close>

definition matches_not_found :: "js_error \<Rightarrow> bool" where
  "matches_not_found e = (case e of Error m \<Rightarrow> \<exists>c \<in> set m. c \<in> set ''not_found'' | TypeError \<Rightarrow> True)"

text \<open>The answers may depend on the calls before; the second part is the calls made.\<close>

definition site_account ::
  "(site_call list \<Rightarrow> 'a result) \<Rightarrow> (site_call list \<Rightarrow> unit result) \<Rightarrow> string option \<Rightarrow> 'a option \<times> site_call list" where
  "site_account getAccount discoverEntity accountId =
     (if \<not> truthy accountId then (None, [])
      else (let i = the accountId; c1 = [GetAccount i] in
        case getAccount c1 of
          Inr a \<Rightarrow> (Some a, c1)
        | Inl e \<Rightarrow>
            if matches_not_found e then
              (let c2 = c1 @ [DiscoverEntity (createHmId ''a'' i no_opts)] in
               case discoverEntity c2 of
                 Inl e2 \<Rightarrow> (None, c2)
               | Inr u \<Rightarrow>
                   (let c3 = c2 @ [GetAccount i] in
                    case getAccount c3 of Inl e3 \<Rightarrow> (None, c3) | Inr a \<Rightarrow> (Some a, c3)))
            else (None, c1)))"

text \<open>\<open>entities.discover\<close>: the found version and entity, or the error.\<close>

definition site_discover :: "unit result \<Rightarrow> (bool \<times> bool) result" where
  "site_discover answer = (case answer of Inr u \<Rightarrow> Inr (True, True)
     | Inl (Error m) \<Rightarrow> if occurs_in ''desired version'' m then Inr (False, True) else Inl (Error m)
     | Inl TypeError \<Rightarrow> Inl TypeError)"

section \<open>Looking for dependencies\<close>

definition dep_edges :: "(string \<Rightarrow> string list) \<Rightarrow> (string \<times> string) set" where
  "dep_edges deps = {(i, d). d \<in> set (deps i)}"

lemma lookForDeps_closure:
  assumes fin: "finite U" and closed: "dep_edges deps `` U \<subseteq> U" and self: "version \<notin> set (deps version)"
  shows "set todo \<subseteq> U \<Longrightarrow> set acc \<subseteq> U \<Longrightarrow> version \<notin> set acc \<Longrightarrow>
    \<exists>r. lookForDeps deps version todo acc = Some r \<and> version \<notin> set r \<and> (distinct acc \<longrightarrow> distinct r) \<and>
      set r \<subseteq> set acc \<union> (dep_edges deps)\<^sup>* `` set todo \<and>
      (\<forall>A. A - {version} = set acc \<and> dep_edges deps `` A \<subseteq> A \<union> set todo \<longrightarrow>
        (\<exists>B. A \<union> set todo \<subseteq> B \<and> B - {version} = set r \<and> dep_edges deps `` B \<subseteq> B))"
proof (induction "(todo, acc)" arbitrary: todo acc
    rule: wf_induct_rule [OF wf_measures [of "[\<lambda>(t, a). card (U - set a), \<lambda>(t, a). count_list t version, \<lambda>(t, a). length t]"]])
  case 1
  note IH = 1(1) and prems = 1(2-4)
  show ?case
  proof (cases todo)
    case Nil
    then show ?thesis using prems by (subst lookForDeps.simps) auto
  next
    case (Cons i rest)
    show ?thesis
    proof (cases "i \<in> set acc")
      case True
      have less: "((rest, acc), (todo, acc)) \<in> measures [\<lambda>(t, a). card (U - set a), \<lambda>(t, a). count_list t version, \<lambda>(t, a). length t]"
        using Cons by auto
      have step: "lookForDeps deps version todo acc = lookForDeps deps version rest acc"
        using True Cons by (subst lookForDeps.simps) simp
      obtain r where r: "lookForDeps deps version rest acc = Some r" "version \<notin> set r" "distinct acc \<longrightarrow> distinct r"
        "set r \<subseteq> set acc \<union> (dep_edges deps)\<^sup>* `` set rest"
        "\<And>A. A - {version} = set acc \<Longrightarrow> dep_edges deps `` A \<subseteq> A \<union> set rest \<Longrightarrow>
          \<exists>B. A \<union> set rest \<subseteq> B \<and> B - {version} = set r \<and> dep_edges deps `` B \<subseteq> B"
        using IH [OF less] prems Cons by auto
      have "\<exists>B. A \<union> set todo \<subseteq> B \<and> B - {version} = set r \<and> dep_edges deps `` B \<subseteq> B"
        if t: "A - {version} = set acc" "dep_edges deps `` A \<subseteq> A \<union> set todo" for A
      proof -
        have "i \<in> A" using True t(1) by blast
        then have "dep_edges deps `` A \<subseteq> A \<union> set rest" using t(2) Cons by auto
        then obtain B where B: "A \<union> set rest \<subseteq> B" "B - {version} = set r" "dep_edges deps `` B \<subseteq> B"
          using r(5) [OF t(1)] by blast
        have "A \<union> set todo \<subseteq> B" using B(1) \<open>i \<in> A\<close> unfolding Cons set_simps by blast
        with B(2,3) show ?thesis by blast
      qed
      moreover have "set r \<subseteq> set acc \<union> (dep_edges deps)\<^sup>* `` set todo" using r(4) unfolding Cons set_simps by blast
      ultimately show ?thesis unfolding step using r(1-3) by blast
    next
      case False
      let ?acc = "if i \<noteq> version then acc @ [i] else acc"
      have i: "i \<in> U" using prems(1) Cons by simp
      have less: "((deps i @ rest, ?acc), (todo, acc)) \<in> measures [\<lambda>(t, a). card (U - set a), \<lambda>(t, a). count_list t version, \<lambda>(t, a). length t]"
      proof (cases "i = version")
        case True
        with self Cons show ?thesis by (simp add: count_notin)
      next
        case no: False
        have "card (U - insert i (set acc)) < card (U - set acc)"
          using fin i False by (intro psubset_card_mono) auto
        with no show ?thesis by simp
      qed
      have step: "lookForDeps deps version todo acc = lookForDeps deps version (deps i @ rest) ?acc"
        using False Cons by (subst lookForDeps.simps) simp
      have "set (deps i) \<subseteq> U" using closed i by (auto simp: dep_edges_def)
      then have pre: "set (deps i @ rest) \<subseteq> U" "set ?acc \<subseteq> U" "version \<notin> set ?acc"
        using prems Cons i by auto
      obtain r where r: "lookForDeps deps version (deps i @ rest) ?acc = Some r" "version \<notin> set r"
        "distinct ?acc \<longrightarrow> distinct r"
        "set r \<subseteq> set ?acc \<union> (dep_edges deps)\<^sup>* `` set (deps i @ rest)"
        "\<forall>A. A - {version} = set ?acc \<and> dep_edges deps `` A \<subseteq> A \<union> set (deps i @ rest) \<longrightarrow>
          (\<exists>B. A \<union> set (deps i @ rest) \<subseteq> B \<and> B - {version} = set r \<and> dep_edges deps `` B \<subseteq> B)"
        using IH [OF less pre] by (elim exE conjE)
      have "\<exists>B. A \<union> set todo \<subseteq> B \<and> B - {version} = set r \<and> dep_edges deps `` B \<subseteq> B"
        if t: "A - {version} = set acc" "dep_edges deps `` A \<subseteq> A \<union> set todo" for A
      proof -
        have 1: "insert i A - {version} = set ?acc" using t(1) by auto
        have "dep_edges deps `` insert i A \<subseteq> insert i A \<union> set (deps i @ rest)"
          using t(2) Cons by (auto simp: dep_edges_def)
        then obtain B where B: "insert i A \<union> set (deps i @ rest) \<subseteq> B" "B - {version} = set r" "dep_edges deps `` B \<subseteq> B"
          using spec [OF r(5), of "insert i A"] 1 by blast
        have "A \<union> set todo \<subseteq> B" using B(1) unfolding Cons set_simps set_append by blast
        with B(2,3) show ?thesis by blast
      qed
      moreover have "set r \<subseteq> set acc \<union> (dep_edges deps)\<^sup>* `` set todo"
      proof -
        have "(dep_edges deps)\<^sup>* `` set (deps i) \<subseteq> (dep_edges deps)\<^sup>* `` {i}"
          by (auto simp: dep_edges_def intro: converse_rtrancl_into_rtrancl)
        then have "(dep_edges deps)\<^sup>* `` set (deps i @ rest) \<subseteq> (dep_edges deps)\<^sup>* `` set todo"
          unfolding Cons set_simps set_append Image_Un insert_is_Un [of i "set rest"] by blast
        moreover have "set ?acc \<subseteq> set acc \<union> (dep_edges deps)\<^sup>* `` set todo" unfolding Cons by auto
        ultimately show ?thesis using r(4) by blast
      qed
      moreover have "distinct acc \<longrightarrow> distinct r" using r(3) False by auto
      ultimately show ?thesis unfolding step using r(1,2) by blast
    qed
  qed
qed

text \<open>What is looked at from the version's changes: everything they depend on, apart from the version.\<close>

lemma lookForDeps_reaches:
  assumes "finite U" "dep_edges deps `` U \<subseteq> U" "version \<notin> set (deps version)" "set heads \<subseteq> U"
  shows "\<exists>r. lookForDeps deps version heads [] = Some r \<and> distinct r \<and>
    set r = (dep_edges deps)\<^sup>* `` set heads - {version}"
proof -
  have nil: "set [] \<subseteq> U" "version \<notin> set []" by simp_all
  obtain r where r: "lookForDeps deps version heads [] = Some r" "version \<notin> set r" "distinct ([] :: string list) \<longrightarrow> distinct r"
    "set r \<subseteq> set [] \<union> (dep_edges deps)\<^sup>* `` set heads"
    "\<forall>A. A - {version} = set [] \<and> dep_edges deps `` A \<subseteq> A \<union> set heads \<longrightarrow>
      (\<exists>B. A \<union> set heads \<subseteq> B \<and> B - {version} = set r \<and> dep_edges deps `` B \<subseteq> B)"
    using lookForDeps_closure [OF assms(1-3) assms(4) nil] by (elim exE conjE)
  obtain B where B: "set heads \<subseteq> B" "B - {version} = set r" "dep_edges deps `` B \<subseteq> B"
    using spec [OF r(5), of "{}"] by auto
  have "(dep_edges deps)\<^sup>* `` set heads \<subseteq> B"
    using Image_closed_trancl [OF B(3)] B(1) by blast
  with B(2) r(4) have "set r = (dep_edges deps)\<^sup>* `` set heads - {version}" using r(2) by auto
  with r(1,3) show ?thesis by simp
qed

section \<open>The maps\<close>

lemma map_of_add_to: "map_of (add_to k x m) j = (if j = k then Some (set_add x (get_set k m)) else map_of m j)"
  by (simp add: add_to_def update_conv')

lemma get_set_add_to: "get_set j (add_to k x m) = (if j = k then set_add x (get_set k m) else get_set j m)"
  by (simp add: get_set_def map_of_add_to)

lemma get_add_deps: "get_set j (foldl (\<lambda>d dep. add_to i dep d) m ds) = (if j = i then set_add_all (get_set i m) ds else get_set j m)"
  by (induction ds arbitrary: m) (auto simp: get_set_add_to)

lemma get_add_down:
  "set (get_set j (foldl (\<lambda>d dep. add_to dep i d) m ds)) = set (get_set j m) \<union> (if j \<in> set ds then {i} else {})"
  by (induction ds arbitrary: m) (auto simp: get_set_add_to)

lemma get_obj_set_Nil: "map_of m i = None \<Longrightarrow> get_set j (obj_set i [] m) = get_set j m"
  by (auto simp: get_set_def update_conv')

lemma index_changes_snoc: "index_changes (cs @ [c]) = index_change (index_changes cs) c"
  by (simp add: index_changes_def)

lemma index_maps:
  assumes "distinct (map ch_id changes)"
  shows "map_of (cm_index (index_changes changes)) = map_of (map (\<lambda>c. (ch_id c, c)) changes)"
    and "set (get_set i (cm_deps (index_changes changes))) = (\<Union>c \<in> {c \<in> set changes. ch_id c = i}. set (ch_deps c))"
    and "set (get_set i (cm_down (index_changes changes))) = ch_id ` {c \<in> set changes. i \<in> set (ch_deps c)}"
  using assms
proof (induction changes rule: rev_induct)
  case Nil
  { case 1 show ?case by (simp add: index_changes_def) }
  { case 2 show ?case by (simp add: index_changes_def get_set_def) }
  { case 3 show ?case by (simp add: index_changes_def get_set_def) }
next
  case (snoc c cs)
  { case 1
    then have "ch_id c \<notin> fst ` set (map (\<lambda>c. (ch_id c, c)) cs)" by auto
    then have "map_of (map (\<lambda>c. (ch_id c, c)) cs) (ch_id c) = None" unfolding map_of_eq_None_iff .
    with 1 snoc(1) show ?case
      by (auto simp: index_changes_snoc index_change_def Let_def update_conv' map_add_def fun_eq_iff split: option.splits) }
  { case 2
    then show ?case using snoc(2)
      by (auto simp: index_changes_snoc index_change_def Let_def get_add_deps get_obj_set_Nil) }
  { case 3
    then show ?case using snoc(3)
      by (auto simp: index_changes_snoc index_change_def Let_def get_add_down) }
qed

lemma map_of_own: "map_of (map (\<lambda>c. (f c, c)) xs) i = find (\<lambda>c. f c = i) xs"
  by (induction xs) auto

lemma find_None_ids: "find (\<lambda>c. f c = i) xs = None \<longleftrightarrow> i \<notin> f ` set xs"
  by (auto simp: find_None_iff)

lemma ids_of_changes:
  assumes "distinct (map ch_id changes)"
  shows "map ch_id (changeIdsToChanges (index_changes changes) ids) = filter (\<lambda>i. i \<in> ch_id ` set changes) ids"
  unfolding changeIdsToChanges_def index_maps(1) [OF assms] map_of_own
proof (induction ids)
  case (Cons i ids)
  show ?case
  proof (cases "find (\<lambda>c. ch_id c = i) changes")
    case None
    with Cons show ?thesis using find_None_ids [of ch_id i changes] by (simp add: map_filter_simps)
  next
    case (Some c)
    with find_SomeD' [OF this] Cons show ?thesis by (auto simp: map_filter_simps)
  qed
qed (simp add: map_filter_simps)

section \<open>Properties\<close>

definition change_edges :: "change list \<Rightarrow> (string \<times> string) set" where
  "change_edges changes = {(ch_id c, d) |c d. c \<in> set changes \<and> d \<in> set (ch_deps c)}"

lemma edges_of_maps:
  "distinct (map ch_id changes) \<Longrightarrow> dep_edges (\<lambda>i. get_set i (cm_deps (index_changes changes))) = change_edges changes"
  by (auto simp: dep_edges_def change_edges_def index_maps(2))

lemma change_edges_Union: "change_edges changes = (\<Union>c \<in> set changes. Pair (ch_id c) ` set (ch_deps c))"
  by (auto simp: change_edges_def)

lemma finite_change_edges: "finite (change_edges changes)"
  by (simp add: change_edges_Union)

lemma site_changes_core:
  assumes "distinct (map ch_id changes)" and "(version, version) \<notin> change_edges changes"
  shows "\<exists>r. changes_of_version version changes = Some r \<and>
    map ch_id (sc_versionChanges r) = filter (\<lambda>i. i \<in> ch_id ` set changes) (split_char CHR '','' version) \<and>
    ch_id ` set (sc_deps r) = change_edges changes `` set (split_char CHR '','' version) \<inter> ch_id ` set changes \<and>
    distinct (map ch_id (sc_allDeps r)) \<and>
    ch_id ` set (sc_allDeps r) =
      (change_edges changes)\<^sup>* `` set (split_char CHR '','' version) \<inter> ch_id ` set changes - {version} \<and>
    (CHR '','' \<notin> set version \<longrightarrow> ch_id ` set (sc_downstreamChanges r) = {i. (i, version) \<in> change_edges changes})"
proof -
  let ?m = "index_changes changes" and ?heads = "split_char CHR '','' version"
  let ?deps = "\<lambda>i. get_set i (cm_deps ?m)" and ?U = "set ?heads \<union> snd ` change_edges changes"
  note edges = edges_of_maps [OF assms(1)]
  have fin: "finite ?U" using finite_change_edges by simp
  have closed: "dep_edges ?deps `` ?U \<subseteq> ?U" unfolding edges by force
  have self: "version \<notin> set (?deps version)" using assms(2) edges by (auto simp: dep_edges_def)
  obtain ids where ids: "lookForDeps ?deps version ?heads [] = Some ids" "distinct ids"
    "set ids = (change_edges changes)\<^sup>* `` set ?heads - {version}"
    using lookForDeps_reaches [OF fin closed self Un_upper1] unfolding edges by blast
  have img: "ch_id ` set (changeIdsToChanges ?m is) = set is \<inter> ch_id ` set changes" for "is"
    using arg_cong [OF ids_of_changes [OF assms(1), of "is"], of set] by auto
  have direct: "(\<Union>i \<in> set ?heads. set (?deps i)) = change_edges changes `` set ?heads"
    unfolding edges [symmetric] dep_edges_def by auto
  have down: "ch_id ` set (changeIdsToChanges ?m (filter (\<lambda>i. i \<notin> set ?heads) (case map_of (cm_down ?m) version of None \<Rightarrow> []
       | Some s \<Rightarrow> set_add_all s (concat (map (\<lambda>i. get_set i (cm_down ?m)) ?heads))))) = {i. (i, version) \<in> change_edges changes}"
    if "CHR '','' \<notin> set version"
  proof -
    have heads: "?heads = [version]" using that by (intro split_by_none) auto
    have "set (case map_of (cm_down ?m) version of None \<Rightarrow> []
       | Some s \<Rightarrow> set_add_all s (concat (map (\<lambda>i. get_set i (cm_down ?m)) ?heads))) = set (get_set version (cm_down ?m))"
      unfolding heads by (auto simp: get_set_def split: option.splits)
    then show ?thesis unfolding img set_filter heads using assms(2)
      by (auto simp: index_maps(3) [OF assms(1)] change_edges_def)
  qed
  let ?r = "\<lparr>sc_versionChanges = changeIdsToChanges ?m ?heads,
     sc_deps = changeIdsToChanges ?m (set_add_all [] (concat (map ?deps ?heads))),
     sc_downstreamChanges = changeIdsToChanges ?m (filter (\<lambda>i. i \<notin> set ?heads) (case map_of (cm_down ?m) version of None \<Rightarrow> []
       | Some s \<Rightarrow> set_add_all s (concat (map (\<lambda>i. get_set i (cm_down ?m)) ?heads)))),
     sc_allDeps = changeIdsToChanges ?m ids\<rparr>"
  have run: "changes_of_version version changes = Some ?r" by (simp only: changes_of_version_def Let_def ids(1) option.map)
  have "set (set_add_all [] (concat (map ?deps ?heads))) = change_edges changes `` set ?heads"
    unfolding direct [symmetric] by simp
  with img have deps: "ch_id ` set (sc_deps ?r) = change_edges changes `` set ?heads \<inter> ch_id ` set changes" by (simp only: site_changes.simps)
  have all: "distinct (map ch_id (sc_allDeps ?r))"
    "ch_id ` set (sc_allDeps ?r) = (change_edges changes)\<^sup>* `` set ?heads \<inter> ch_id ` set changes - {version}"
    using ids(2,3) img by (auto simp only: site_changes.simps ids_of_changes [OF assms(1)] intro: distinct_filter)
  have vers: "map ch_id (sc_versionChanges ?r) = filter (\<lambda>i. i \<in> ch_id ` set changes) ?heads"
    by (simp only: site_changes.simps ids_of_changes [OF assms(1)])
  have "CHR '','' \<notin> set version \<longrightarrow> ch_id ` set (sc_downstreamChanges ?r) = {i. (i, version) \<in> change_edges changes}"
    using down by (simp only: site_changes.simps) blast
  with run vers deps all show ?thesis by blast
qed

text \<open>
  C40. The request for the changes around a version ends unless the version depends on itself, even when other
  changes form a cycle. It gives the known changes named in the version, those they depend on directly,
  all those they depend on, each once, and, for one change, those that depend on it.
\<close>

theorem site_changes_shown:
  assumes "distinct (map ch_id changes)" and "(version, version) \<notin> change_edges changes"
  shows "\<exists>r. changes_of_version version changes = Some r \<and>
    map ch_id (sc_versionChanges r) = filter (\<lambda>i. i \<in> ch_id ` set changes) (split_char CHR '','' version) \<and>
    ch_id ` set (sc_deps r) = change_edges changes `` set (split_char CHR '','' version) \<inter> ch_id ` set changes \<and>
    distinct (map ch_id (sc_allDeps r)) \<and>
    ch_id ` set (sc_allDeps r) =
      (change_edges changes)\<^sup>* `` set (split_char CHR '','' version) \<inter> ch_id ` set changes - {version} \<and>
    (CHR '','' \<notin> set version \<longrightarrow> ch_id ` set (sc_downstreamChanges r) = {i. (i, version) \<in> change_edges changes})"
  by (rule site_changes_core [OF assms])

definition site_sample :: "change list" where
  "site_sample = map (\<lambda>(i, ds). \<lparr>ch_id = i, ch_deps = ds, ch_createTime = None\<rparr>)
     [(''a'', []), (''b'', [''a'']), (''c'', [''b'', ''x''])]"

lemma sample_edges: "change_edges site_sample = {(''b'', ''a''), (''c'', ''b''), (''c'', ''x'')}"
  unfolding change_edges_Union site_sample_def by auto

theorem site_changes_shown_witness:
  "\<exists>r. changes_of_version ''b'' site_sample = Some r \<and> map ch_id (sc_versionChanges r) = [''b''] \<and>
    ch_id ` set (sc_allDeps r) = {''a''} \<and> ch_id ` set (sc_downstreamChanges r) = {''c''}"
proof -
  have d: "distinct (map ch_id site_sample)" by (simp add: site_sample_def)
  have s: "(''b'', ''b'') \<notin> change_edges site_sample" by (simp add: sample_edges)
  have heads: "split_char CHR '','' ''b'' = [''b'']" "CHR '','' \<notin> set ''b''" by simp_all
  have "(change_edges site_sample)\<^sup>* `` {''a'', ''b''} \<subseteq> {''a'', ''b''}"
    using Image_closed_trancl [of "change_edges site_sample" "{''a'', ''b''}"] by (auto simp: sample_edges)
  moreover have "(''b'', ''a'') \<in> (change_edges site_sample)\<^sup>*" by (rule r_into_rtrancl) (simp add: sample_edges)
  ultimately have reach: "(change_edges site_sample)\<^sup>* `` {''b''} = {''a'', ''b''}" by blast
  have down: "{i. (i, ''b'') \<in> change_edges site_sample} = {''c''}" by (auto simp: sample_edges)
  have ids: "ch_id ` set site_sample = {''a'', ''b'', ''c''}" by (simp add: site_sample_def)
  obtain r where r: "changes_of_version ''b'' site_sample = Some r"
    "map ch_id (sc_versionChanges r) = filter (\<lambda>i. i \<in> {''a'', ''b'', ''c''}) [''b'']"
    "ch_id ` set (sc_deps r) = change_edges site_sample `` {''b''} \<inter> {''a'', ''b'', ''c''}"
    "distinct (map ch_id (sc_allDeps r))"
    "ch_id ` set (sc_allDeps r) = {''a'', ''b''} \<inter> {''a'', ''b'', ''c''} - {''b''}"
    "CHR '','' \<notin> set ''b'' \<longrightarrow> ch_id ` set (sc_downstreamChanges r) = {''c''}"
    using site_changes_shown [OF d s] unfolding heads(1) ids down list.set reach by (elim exE conjE)
  have "{''a'', ''b''} \<inter> {''a'', ''b'', ''c''} - {''b''} = {''a''}" by auto
  with r(5) have "ch_id ` set (sc_allDeps r) = {''a''}" by simp
  with r(1,2) mp [OF r(6) heads(2)] show ?thesis by auto
qed

text \<open>
  A version of several changes is written with dots, but split at commas: nothing is shown for it.
\<close>

theorem dotted_version_shows_nothing:
  assumes "CHR '','' \<notin> set version" "\<forall>c \<in> set changes. version \<noteq> ch_id c \<and> version \<notin> set (ch_deps c)"
    and "distinct (map ch_id changes)"
  shows "\<exists>r. changes_of_version version changes = Some r \<and> sc_versionChanges r = [] \<and> sc_deps r = [] \<and>
    sc_downstreamChanges r = [] \<and> sc_allDeps r = []"
proof -
  have e: "(version, d) \<notin> change_edges changes" "(d, version) \<notin> change_edges changes" for d
    using assms(2) by (auto simp: change_edges_def)
  have heads: "split_char CHR '','' version = [version]" using assms(1) by (intro split_by_none) auto
  have known: "version \<notin> ch_id ` set changes" using assms(2) by auto
  obtain r where r: "changes_of_version version changes = Some r"
    "map ch_id (sc_versionChanges r) = filter (\<lambda>i. i \<in> ch_id ` set changes) [version]"
    "ch_id ` set (sc_deps r) = change_edges changes `` set [version] \<inter> ch_id ` set changes"
    "distinct (map ch_id (sc_allDeps r))"
    "ch_id ` set (sc_allDeps r) = (change_edges changes)\<^sup>* `` set [version] \<inter> ch_id ` set changes - {version}"
    "CHR '','' \<notin> set version \<longrightarrow> ch_id ` set (sc_downstreamChanges r) = {i. (i, version) \<in> change_edges changes}"
    using site_changes_core [OF assms(3) e(1)] unfolding heads by (elim exE conjE)
  have "change_edges changes `` {version} \<subseteq> {version}" using e(1) by blast
  then have star: "(change_edges changes)\<^sup>* `` {version} = {version}" by (rule Image_closed_trancl)
  have "set [version] = {version}" by simp
  then have "ch_id ` set (sc_allDeps r) = {}" using r(5) star by (simp only:) blast
  moreover have "ch_id ` set (sc_deps r) = {}" using r(3) e(1) by auto
  moreover have "{i. (i, version) \<in> change_edges changes} = {}" using e(2) by simp
  with mp [OF r(6) assms(1)] have "ch_id ` set (sc_downstreamChanges r) = {}" by (rule trans)
  moreover have "map ch_id (sc_versionChanges r) = []" unfolding r(2) using known by (simp only: filter.simps if_False)
  ultimately have "sc_allDeps r = []" "sc_deps r = []" "sc_downstreamChanges r = []" "sc_versionChanges r = []"
    by simp_all
  with r(1) show ?thesis by blast
qed

text \<open>
  Citations: when the answers are those for the sources of the links and no document is cited from two of its
  versions, each link comes with its own publication, and those of group navigations are left out.
\<close>

lemma find_zip:
  "length links = length pubs \<Longrightarrow> i < length pubs \<Longrightarrow> \<forall>j < length pubs. so_docId (pubs ! j) = sl_source (links ! j) \<Longrightarrow>
   \<forall>j < length pubs. sl_source (links ! j) = sl_source (links ! i) \<longrightarrow> pubs ! j = pubs ! i \<Longrightarrow>
   find (\<lambda>p. so_docId p = sl_source (links ! i)) pubs = Some (pubs ! i)"
proof -
  assume a: "length links = length pubs" "i < length pubs" "\<forall>j < length pubs. so_docId (pubs ! j) = sl_source (links ! j)"
    "\<forall>j < length pubs. sl_source (links ! j) = sl_source (links ! i) \<longrightarrow> pubs ! j = pubs ! i"
  then show ?thesis
  proof (cases "find (\<lambda>p. so_docId p = sl_source (links ! i)) pubs")
    case None
    with a show ?thesis unfolding find_None_iff using nth_mem by blast
  next
    case (Some p)
    from find_SomeD' [OF this] obtain j where "j < length pubs" "p = pubs ! j" "so_docId p = sl_source (links ! i)"
      by (auto simp: in_set_conv_nth)
    with a Some show ?thesis by metis
  qed
qed

theorem citations_own_publication:
  assumes "length links = length pubs" "\<forall>j < length pubs. so_docId (pubs ! j) = sl_source (links ! j)"
    and "\<forall>i < length pubs. \<forall>j < length pubs. sl_source (links ! j) = sl_source (links ! i) \<longrightarrow> pubs ! j = pubs ! i"
  shows "getCitations links pubs =
    filter (\<lambda>(link, pub). map_option so_title pub \<noteq> Some ''(HIDDEN) Group Navigation'') (zip links (map Some pubs))"
proof -
  have "map (\<lambda>link. (link, find (\<lambda>p. so_docId p = sl_source link) pubs)) links = zip links (map Some pubs)"
  proof (rule nth_equalityI)
    fix i assume "i < length (map (\<lambda>link. (link, find (\<lambda>p. so_docId p = sl_source link) pubs)) links)"
    then have i: "i < length links" "i < length pubs" using assms(1) by simp_all
    have "\<forall>j < length pubs. sl_source (links ! j) = sl_source (links ! i) \<longrightarrow> pubs ! j = pubs ! i"
      using assms(3) i(2) by blast
    from find_zip [OF assms(1) i(2) assms(2) this] i assms(1)
    show "map (\<lambda>link. (link, find (\<lambda>p. so_docId p = sl_source link) pubs)) links ! i = zip links (map Some pubs) ! i"
      by (simp only: nth_map nth_zip length_map)
  qed (use assms(1) in simp)
  then show ?thesis by (simp add: getCitations_def)
qed

text \<open>Otherwise a link is shown with the publication of the other version.\<close>

theorem citations_first_version:
  "getCitations [\<lparr>sl_source = d, sl_version = ''1''\<rparr>, \<lparr>sl_source = d, sl_version = ''2''\<rparr>]
     [\<lparr>so_docId = d, so_version = ''1'', so_title = ''old''\<rparr>, \<lparr>so_docId = d, so_version = ''2'', so_title = ''new''\<rparr>]
   = [(\<lparr>sl_source = d, sl_version = ''1''\<rparr>, Some \<lparr>so_docId = d, so_version = ''1'', so_title = ''old''\<rparr>),
      (\<lparr>sl_source = d, sl_version = ''2''\<rparr>, Some \<lparr>so_docId = d, so_version = ''1'', so_title = ''old''\<rparr>)]"
  by (simp add: getCitations_def)

text \<open>
  An account is looked for among peers after any error with one of the letters of the pattern, not only after
  one that says so; without the error nothing is looked for.
\<close>

theorem account_looked_for:
  assumes "i \<noteq> []"
  shows "DiscoverEntity (createHmId ''a'' i no_opts) \<in> set (snd (site_account getAccount discoverEntity (Some i))) \<longleftrightarrow>
    (\<exists>e. getAccount [GetAccount i] = Inl e \<and> matches_not_found e)"
  using assms by (auto simp: site_account_def Let_def truthy_def split: sum.splits)

end
