(* ===== verification/Web_Import.thy ===== *)
theory Web_Import
  imports Group_Calls "HOL-Library.Multiset"
begin

text \<open>
  Importing a web page (\<^verbatim>\<open>frontend/packages/app/models/web-importer.ts\<close>): the page becomes blocks,
  the blocks become changes of a new draft, level by level, and the draft is published.

  A page is a tree of text and elements, as the platform's parser gives it; anything else in it has no text.
  The random ids of blocks are an argument, with the number of ids taken so far.
\<close>

section \<open>The page\<close>

datatype html_node = HtmlText string | HtmlElement string "html_node list" | HtmlOther

fun textContent :: "html_node \<Rightarrow> string" where
  "textContent (HtmlText t) = t"
| "textContent (HtmlElement name children) = concat (map textContent children)"
| "textContent HtmlOther = []"

definition blank_text :: "string \<Rightarrow> bool" where
  "blank_text s \<longleftrightarrow> (\<forall>c \<in> set s. js_space c)"

definition text_block :: "string \<Rightarrow> string \<Rightarrow> string \<Rightarrow> block_node" where
  "text_block i ty t = BlockNode (Some ((new_block i ty)\<lparr>b_text := Some t\<rparr>)) (Some [])"

definition list_block :: "string \<Rightarrow> block_node list \<Rightarrow> block_node" where
  "list_block i children = BlockNode (Some ((new_block i ''paragraph'')
     \<lparr>b_text := Some [], b_attributes := Some ((\<lambda>_. None)(''childrenType'' \<mapsto> ''ul''))\<rparr>)) (Some children)"

definition flattened :: "string \<Rightarrow> bool" where
  "flattened name \<longleftrightarrow> name \<in> {''ARTICLE'', ''DIV'', ''MAIN''}"

definition text_type :: "string \<Rightarrow> string option" where
  "text_type name = (if name \<in> {''P'', ''LI''} then Some ''paragraph''
     else if name \<in> {''H1'', ''H2'', ''H3'', ''H4'', ''H5'', ''H6'', ''H7''} then Some ''heading'' else None)"

fun extractBlockNodes :: "(nat \<Rightarrow> string) \<Rightarrow> html_node list \<Rightarrow> nat \<Rightarrow> block_node list \<times> nat" where
  "extractBlockNodes gen [] k = ([], k)"
| "extractBlockNodes gen (HtmlText t # rest) k =
     (if blank_text t then extractBlockNodes gen rest k
      else (case extractBlockNodes gen rest (Suc k) of (ns, k1) \<Rightarrow> (text_block (gen k) ''paragraph'' t # ns, k1)))"
| "extractBlockNodes gen (HtmlElement name children # rest) k =
     (case (if flattened name then extractBlockNodes gen children k
            else if text_type name \<noteq> None \<and> \<not> blank_text (textContent (HtmlElement name children))
            then ([text_block (gen k) (the (text_type name)) (textContent (HtmlElement name children))], Suc k)
            else if name = ''UL''
            then (case extractBlockNodes gen children (Suc k) of (kids, k1) \<Rightarrow> ([list_block (gen k) kids], k1))
            else ([], k))
      of (here, k1) \<Rightarrow> (case extractBlockNodes gen rest k1 of (ns, k2) \<Rightarrow> (here @ ns, k2)))"
| "extractBlockNodes gen (HtmlOther # rest) k = extractBlockNodes gen rest k"

section \<open>The changes\<close>

text \<open>The operations for the blocks of a level and those for the levels below, which come after.\<close>

fun body_ops :: "block_node option \<Rightarrow> block_node list \<Rightarrow> string \<Rightarrow> document_change list \<times> document_change list" where
  "body_ops prev [] parent = ([], [])"
| "body_ops prev (BlockNode mb cs # rest) parent =
     (case mb of None \<Rightarrow> body_ops (Some (BlockNode mb cs)) rest parent
      | Some b \<Rightarrow>
         (case (case cs of None \<Rightarrow> ([], []) | Some ns \<Rightarrow> body_ops None ns (b_id b)) of (kidOps, kidChildOps) \<Rightarrow>
         (case body_ops (Some (BlockNode mb cs)) rest parent of (blockOps, childrenOps) \<Rightarrow>
           ([MoveBlock (b_id b) parent (node_id prev), ReplaceBlock b] @ blockOps, (kidOps @ kidChildOps) @ childrenOps))))"

definition produceBodyOperations :: "string \<Rightarrow> block_node list \<Rightarrow> document_change list" where
  "produceBodyOperations parent nodes = (case body_ops None nodes parent of (blockOps, childrenOps) \<Rightarrow> blockOps @ childrenOps)"

definition import_changes :: "(nat \<Rightarrow> string) \<Rightarrow> html_node list \<Rightarrow> string option \<Rightarrow> document_change list" where
  "import_changes gen body title =
     produceBodyOperations [] (fst (extractBlockNodes gen body 0)) @ (if truthy title then [SetTitle (the title)] else [])"

definition importWebCapture ::
  "daemon \<Rightarrow> (nat \<Rightarrow> string) \<Rightarrow> html_node list option \<Rightarrow> string option \<Rightarrow> publish_answer action" where
  "importWebCapture D gen body title = (case body of
      None \<Rightarrow> returns (Inl (Error ''Could not extract the body element for this web page''))
    | Some nodes \<Rightarrow>
        await (invoke (createDraft D) (CreateDraft None None)) (\<lambda>draft.
        await (invoke (dm_updateDraft D) (UpdateDraft (da_id draft) (import_changes gen nodes title))) (\<lambda>_.
        invoke (dm_publishDraft D) (PublishDraft (da_id draft)))))"

section \<open>Level by level\<close>

abbreviation kids_of :: "block_node list option \<Rightarrow> block_node list" where
  "kids_of cs \<equiv> (case cs of None \<Rightarrow> [] | Some ns \<Rightarrow> ns)"

fun level :: "block_node option \<Rightarrow> block_node list \<Rightarrow> string \<Rightarrow> entry list" where
  "level prev [] p = []"
| "level prev (BlockNode mb cs # rest) p =
     (case mb of None \<Rightarrow> [] | Some b \<Rightarrow> [\<lparr>en_id = b_id b, en_parent = p, en_left = node_id prev, en_block = b\<rparr>])
     @ level (Some (BlockNode mb cs)) rest p"

fun below :: "block_node list \<Rightarrow> entry list" where
  "below [] = []"
| "below (BlockNode mb cs # rest) =
     (case mb of None \<Rightarrow> [] | Some b \<Rightarrow> (case cs of None \<Rightarrow> [] | Some ns \<Rightarrow> level None ns (b_id b) @ below ns)) @ below rest"

definition entry_ops :: "entry \<Rightarrow> document_change list" where
  "entry_ops e = [MoveBlock (en_id e) (en_parent e) (en_left e), ReplaceBlock (en_block e)]"

lemma body_ops_levels:
  "body_ops prev ns p = (concat (map entry_ops (level prev ns p)), concat (map entry_ops (below ns)))"
  by (induction prev ns p rule: body_ops.induct) (auto simp: entry_ops_def split: option.splits)

text \<open>The same entries as the comparison of drafts visits, in another order.\<close>

lemma draft_entries_kids:
  "draft_entries prev (BlockNode (Some b) cs # rest) p =
     \<lparr>en_id = b_id b, en_parent = p, en_left = node_id prev, en_block = b\<rparr> # draft_entries None (kids_of cs) (b_id b)
     @ draft_entries (Some (BlockNode (Some b) cs)) rest p"
  by (simp split: option.splits)

lemma below_kids: "below (BlockNode (Some b) cs # rest) = level None (kids_of cs) (b_id b) @ below (kids_of cs) @ below rest"
  by (simp split: option.splits)

lemma draft_wf_kids: "draft_wf (BlockNode mb cs # rest) \<Longrightarrow> \<exists>b. mb = Some b \<and> b_id b \<noteq> [] \<and> draft_wf (kids_of cs) \<and> draft_wf rest"
  by (auto split: option.splits)

text \<open>Induction over nodes that all have blocks, with the children as the other nodes.\<close>

lemma nodes_induct [consumes 1, case_names Nil Cons]:
  assumes "draft_wf ns" and nil: "\<And>prev p. P prev [] p"
    and step: "\<And>prev b cs rest p. b_id b \<noteq> [] \<Longrightarrow> draft_wf (kids_of cs) \<Longrightarrow> draft_wf rest \<Longrightarrow>
      P None (kids_of cs) (b_id b) \<Longrightarrow> P (Some (BlockNode (Some b) cs)) rest p \<Longrightarrow> P prev (BlockNode (Some b) cs # rest) p"
  shows "P prev ns p"
  using assms(1)
proof (induction prev ns p rule: draft_entries.induct)
  case (2 prev mb cs rest p)
  from draft_wf_kids [OF 2(3)] obtain b where b: "mb = Some b" "b_id b \<noteq> []" "draft_wf (kids_of cs)" "draft_wf rest" by blast
  have "P None (kids_of cs) (b_id b)" using 2(1) [OF b(1)] b(3) nil by (cases cs) auto
  with b 2(2) step show ?case by blast
qed (rule nil)

lemma levels_mset:
  "draft_wf ns \<Longrightarrow> mset (level prev ns p) + mset (below ns) = mset (draft_entries prev ns p)"
proof (induction prev ns p rule: nodes_induct)
  case (Cons prev b cs rest p)
  show ?case
    unfolding below_kids draft_entries_kids mset_append mset.simps level.simps option.case Cons(4) [symmetric] Cons(5) [symmetric]
    by (simp add: union_ac)
qed simp

lemma levels_set: "draft_wf ns \<Longrightarrow> set (level prev ns p @ below ns) = set (draft_entries prev ns p)"
  using levels_mset [of ns prev p] by (metis mset_append set_mset_mset)

lemma levels_distinct:
  "draft_wf ns \<Longrightarrow> distinct (map en_id (level prev ns p @ below ns)) \<longleftrightarrow> distinct (map en_id (draft_entries prev ns p))"
  using levels_mset [of ns prev p] by (metis mset_append mset_map mset_eq_imp_distinct_iff)

declare siblings_simps [simp]

lemma siblings_none: "(\<And>e. e \<in> set es \<Longrightarrow> en_parent e \<noteq> q) \<Longrightarrow> siblings es q = []"
  by (auto simp: siblings_def filter_empty_conv)

lemma level_parent: "e \<in> set (level prev ns p) \<Longrightarrow> en_parent e = p"
  by (induction prev ns p rule: level.induct) (auto split: option.splits)

lemma siblings_level: "siblings (level prev ns p) q = (if q = p then map en_id (level prev ns p) else [])"
  using level_parent by (fastforce simp: siblings_def filter_id_conv filter_empty_conv)

lemma below_parent: "draft_wf ns \<Longrightarrow> e \<in> set (below ns) \<Longrightarrow> en_parent e \<in> en_id ` set (draft_entries prev ns p)"
proof (induction prev ns p rule: nodes_induct)
  case (Cons prev b cs rest p)
  then show ?case unfolding below_kids draft_entries_kids using level_parent [of e None "kids_of cs" "b_id b"] by auto
qed simp

text \<open>Each block has the same children in the same order.\<close>

lemma levels_siblings:
  "draft_wf ns \<Longrightarrow> distinct (map en_id (draft_entries prev ns p)) \<Longrightarrow> p \<notin> en_id ` set (draft_entries prev ns p) \<Longrightarrow>
   siblings (level prev ns p @ below ns) q = siblings (draft_entries prev ns p) q"
proof (induction prev ns p rule: nodes_induct)
  case (Cons prev b cs rest p)
  let ?kids = "draft_entries None (kids_of cs) (b_id b)" and ?rest = "draft_entries (Some (BlockNode (Some b) cs)) rest p"
  have d: "distinct (map en_id ?kids)" "distinct (map en_id ?rest)" "b_id b \<notin> en_id ` set ?kids"
    "p \<notin> en_id ` set ?kids" "p \<notin> en_id ` set ?rest" "p \<noteq> b_id b"
    using Cons(6,7) unfolding draft_entries_kids by auto
  have swap: "siblings (level (Some (BlockNode (Some b) cs)) rest p) q @ siblings ?kids q
    = siblings ?kids q @ siblings (level (Some (BlockNode (Some b) cs)) rest p) q"
  proof (cases "q = p")
    case True
    have "siblings ?kids p = []"
      using draft_entries_parents [of _ None "kids_of cs" "b_id b"] d(4,6) by (intro siblings_none) fastforce
    with True show ?thesis by simp
  qed (simp add: siblings_level)
  have kids: "siblings ?kids q = siblings (level None (kids_of cs) (b_id b)) q @ siblings (below (kids_of cs)) q"
    using Cons(4) [OF d(1,3)] by simp
  have rest: "siblings ?rest q = siblings (level (Some (BlockNode (Some b) cs)) rest p) q @ siblings (below rest) q"
    using Cons(5) [OF d(2,5)] by simp
  have "siblings (level prev (BlockNode (Some b) cs # rest) p @ below (BlockNode (Some b) cs # rest)) q
    = (if p = q then [b_id b] else []) @ (siblings (level (Some (BlockNode (Some b) cs)) rest p) q @ siblings ?kids q) @ siblings (below rest) q"
    unfolding below_kids kids by simp
  also have "\<dots> = (if p = q then [b_id b] else []) @ siblings ?kids q @ siblings ?rest q" unfolding swap rest by simp
  finally show ?case unfolding draft_entries_kids by simp
qed simp

section \<open>What the changes build\<close>

text \<open>Each block is put behind the one before it on its level.\<close>

lemma level_Cons: "level prev (BlockNode (Some b) cs # rest) p =
   \<lparr>en_id = b_id b, en_parent = p, en_left = node_id prev, en_block = b\<rparr> # level (Some (BlockNode (Some b) cs)) rest p"
  by simp

lemma lefts_level:
  "draft_wf ns \<Longrightarrow> (if f p = [] then [] else last (f p)) = node_id prev \<Longrightarrow> lefts_ok f (level prev ns p)"
proof (induction prev ns p arbitrary: f rule: nodes_induct)
  case (Cons prev b cs rest p)
  show ?case unfolding level_Cons lefts_ok.simps entry.simps
    using Cons(6) by (intro conjI Cons(5)) (auto simp: node_id_def)
qed simp

lemma grown_level: "grown f (level prev ns p) q = (if q = p then f p @ map en_id (level prev ns p) else f q)"
  by (simp add: grown_def siblings_level)

lemma draft_ids_level: "draft_wf ns \<Longrightarrow> en_id ` set (level prev ns p) \<subseteq> en_id ` set (draft_entries prev ns p)"
  using levels_set [of ns prev p] by auto

lemma grown_below: "draft_wf ns \<Longrightarrow> q \<notin> en_id ` set (draft_entries prev ns p) \<Longrightarrow> grown f (below ns) q = f q"
  using below_parent [of ns _ prev p] by (fastforce simp: grown_def intro!: siblings_none)

lemma lefts_below:
  "draft_wf ns \<Longrightarrow> distinct (map en_id (draft_entries prev ns p)) \<Longrightarrow>
   (\<And>q. q \<in> en_id ` set (draft_entries prev ns p) \<Longrightarrow> f q = []) \<Longrightarrow> lefts_ok f (below ns)"
proof (induction prev ns p arbitrary: f rule: nodes_induct)
  case (Cons prev b cs rest p)
  let ?kids = "draft_entries None (kids_of cs) (b_id b)" and ?rest = "draft_entries (Some (BlockNode (Some b) cs)) rest p"
  have d: "distinct (map en_id ?kids)" "distinct (map en_id ?rest)" "b_id b \<notin> en_id ` set ?kids" "b_id b \<notin> en_id ` set ?rest"
    "en_id ` set ?kids \<inter> en_id ` set ?rest = {}"
    using Cons(6) unfolding draft_entries_kids by auto
  have f: "f (b_id b) = []" "\<And>q. q \<in> en_id ` set ?kids \<Longrightarrow> f q = []" "\<And>q. q \<in> en_id ` set ?rest \<Longrightarrow> f q = []"
    using Cons(7) unfolding draft_entries_kids by auto
  let ?f1 = "grown f (level None (kids_of cs) (b_id b))"
  have f1: "?f1 q = f q" if "q \<noteq> b_id b" for q using that by (simp add: grown_level)
  have "lefts_ok f (level None (kids_of cs) (b_id b))" using Cons(2) f(1) by (intro lefts_level) (auto simp: node_id_def)
  moreover have "lefts_ok ?f1 (below (kids_of cs))"
    using f1 f(2) d(3) by (intro Cons(4) d(1)) metis
  moreover have "lefts_ok (grown ?f1 (below (kids_of cs))) (below rest)"
  proof (intro Cons(5) d(2))
    fix q assume q: "q \<in> en_id ` set ?rest"
    then have "q \<notin> en_id ` set ?kids" "q \<noteq> b_id b" using d(4,5) by blast+
    then show "grown ?f1 (below (kids_of cs)) q = []" using grown_below [OF Cons(2)] f1 f(3) [OF q] by metis
  qed
  ultimately show ?case unfolding below_kids lefts_ok_append grown_append by simp
qed simp

lemma ops_build:
  assumes "draft_wf ns" "distinct (draft_ids ns)"
  shows "foldl move_step (\<lambda>_. []) (produceBodyOperations [] ns) = siblings (draft_entries None ns [])"
proof -
  let ?es = "level None ns [] @ below ns"
  have d: "distinct (map en_id (draft_entries None ns []))" using assms(2) draft_ids_eq by simp
  have ne: "[] \<notin> en_id ` set (draft_entries None ns [])" by (rule draft_ids_ne [OF assms(1)])
  have ops: "produceBodyOperations [] ns = concat (map entry_ops ?es)"
    by (simp add: produceBodyOperations_def body_ops_levels)
  have "lefts_ok (\<lambda>_. []) (level None ns [])" using assms(1) by (intro lefts_level) (simp_all add: node_id_def)
  moreover have "lefts_ok (grown (\<lambda>_. []) (level None ns [])) (below ns)"
  proof (rule lefts_below [OF assms(1) d])
    fix q assume "q \<in> en_id ` set (draft_entries None ns [])"
    with ne have "q \<noteq> []" by metis
    then show "grown (\<lambda>_. []) (level None ns []) q = []" by (simp add: grown_level)
  qed
  ultimately have lefts: "lefts_ok (\<lambda>_. []) ?es" by (simp add: lefts_ok_append)
  have es: "set ?es = set (draft_entries None ns [])" "distinct (map en_id ?es)"
    using levels_set [OF assms(1), of None "[]"] levels_distinct [OF assms(1), of None "[]"] d by simp_all
  have "foldl move_step (\<lambda>_. []) (concat (map entry_ops ?es)) = grown (\<lambda>_. []) ?es"
    unfolding entry_ops_def using lefts es ne by (intro moves_build) auto
  moreover have "grown (\<lambda>_. []) ?es = siblings (draft_entries None ns [])"
    using levels_siblings [OF assms(1) d ne] by (simp add: grown_def fun_eq_iff)
  ultimately show ?thesis unfolding ops by simp
qed

text \<open>Every block is recorded where it stands.\<close>

lemma ops_record:
  "distinct (map en_id es) \<Longrightarrow> (\<And>e. e \<in> set es \<Longrightarrow> m (en_id e) = None \<and> b_id (en_block e) = en_id e) \<Longrightarrow>
   foldl apply_change m (concat (map entry_ops es)) = m ++ map_of (map (\<lambda>e. (en_id e, item_of e)) es)"
proof (induction es arbitrary: m)
  case (Cons e es)
  have "foldl apply_change m (entry_ops e) = m(en_id e \<mapsto> item_of e)"
    using Cons.prems(2) [of e] by (simp add: entry_ops_def item_of_def)
  moreover have "foldl apply_change (m(en_id e \<mapsto> item_of e)) (concat (map entry_ops es))
    = m(en_id e \<mapsto> item_of e) ++ map_of (map (\<lambda>e. (en_id e, item_of e)) es)"
  proof (rule Cons.IH)
    show "distinct (map en_id es)" using Cons.prems(1) by simp
    fix x assume x: "x \<in> set es"
    then have "en_id x \<noteq> en_id e" using Cons.prems(1) by (metis distinct.simps(2) image_eqI list.set_map list.simps(9))
    with Cons.prems(2) [of x] x show "(m(en_id e \<mapsto> item_of e)) (en_id x) = None \<and> b_id (en_block x) = en_id x" by simp
  qed
  moreover have "en_id e \<notin> dom (map_of (map (\<lambda>e. (en_id e, item_of e)) es))"
    using Cons.prems(1) by (auto simp: dom_map_of_conv_image_fst)
  moreover have "m(en_id e \<mapsto> item_of e) ++ map_of (map (\<lambda>e. (en_id e, item_of e)) es)
    = m ++ map_of (map (\<lambda>e. (en_id e, item_of e)) (e # es))"
    using \<open>en_id e \<notin> dom _\<close> by (auto simp: fun_eq_iff map_add_def split: option.splits)
  ultimately show ?case by (simp only: list.map concat.simps foldl_append)
qed simp

lemma ops_recorded:
  assumes "draft_wf ns" "distinct (draft_ids ns)"
  shows "foldl apply_change (\<lambda>_. None) (produceBodyOperations [] ns) =
    map_of (map (\<lambda>e. (en_id e, item_of e)) (draft_entries None ns []))"
proof -
  let ?es = "level None ns [] @ below ns"
  have d: "distinct (map en_id (draft_entries None ns []))" using assms(2) draft_ids_eq by simp
  have es: "set ?es = set (draft_entries None ns [])" "distinct (map en_id ?es)"
    using levels_set [OF assms(1), of None "[]"] levels_distinct [OF assms(1), of None "[]"] d by simp_all
  have "foldl apply_change (\<lambda>_. None) (concat (map entry_ops ?es)) = (\<lambda>_. None) ++ map_of (map (\<lambda>e. (en_id e, item_of e)) ?es)"
    using es draft_entries_block by (intro ops_record) auto
  also have "\<dots> = map_of (map (\<lambda>e. (en_id e, item_of e)) ?es)" by simp
  also have "\<dots> = map_of (map (\<lambda>e. (en_id e, item_of e)) (draft_entries None ns []))"
  proof -
    have "distinct (map fst (map (\<lambda>e. (en_id e, item_of e)) xs)) \<longleftrightarrow> distinct (map en_id xs)" for xs by (simp add: o_def)
    then show ?thesis using es d by (subst map_of_inject_set) auto
  qed
  finally show ?thesis by (simp add: produceBodyOperations_def body_ops_levels)
qed

section \<open>The blocks of a page\<close>

text \<open>The text of a page that is kept, in reading order; the rest is left out.\<close>

fun web_text :: "html_node list \<Rightarrow> string" where
  "web_text [] = []"
| "web_text (HtmlText t # rest) = (if blank_text t then [] else t) @ web_text rest"
| "web_text (HtmlElement name children # rest) =
     (if flattened name \<or> text_type name = None \<and> name = ''UL'' then web_text children
      else if text_type name \<noteq> None \<and> \<not> blank_text (textContent (HtmlElement name children))
      then textContent (HtmlElement name children) else [])
     @ web_text rest"
| "web_text (HtmlOther # rest) = web_text rest"

definition doc_text :: "block_node list \<Rightarrow> string" where
  "doc_text ns = concat (map (\<lambda>e. default_str (b_text (en_block e))) (draft_entries None ns []))"

lemma draft_entries_blocks: "map en_block (draft_entries prev ns p) = map en_block (draft_entries prev' ns p')"
proof (induction prev ns p arbitrary: prev' p' rule: draft_entries.induct)
  case (2 prev mb cs rest p)
  show ?case
  proof (cases mb)
    case None
    with 2(2) show ?thesis by simp
  next
    case (Some b)
    with 2(2) show ?thesis by (simp split: option.splits)
  qed
qed simp

lemma doc_text_eq: "doc_text ns = concat (map (\<lambda>b. default_str (b_text b)) (map en_block (draft_entries prev ns p)))"
  unfolding draft_entries_blocks [of prev ns p None "[]"] by (simp add: doc_text_def o_def)

lemma doc_text_Cons: "doc_text (BlockNode (Some b) cs # rest) = default_str (b_text b) @ doc_text (kids_of cs) @ doc_text rest"
  unfolding doc_text_eq [of "BlockNode (Some b) cs # rest" None "[]"] draft_entries_kids
    doc_text_eq [of "kids_of cs" None "b_id b"] doc_text_eq [of rest "Some (BlockNode (Some b) cs)" "[]"]
  by simp

lemma doc_text_Nil [simp]: "doc_text [] = []"
  by (simp add: doc_text_def)

lemma draft_wf_append [simp]: "draft_wf (a @ b) \<longleftrightarrow> draft_wf a \<and> draft_wf b"
proof (induction a)
  case (Cons x a)
  then show ?case by (cases x) auto
qed simp

lemma doc_text_append: "draft_wf a \<Longrightarrow> doc_text (a @ b) = doc_text a @ doc_text b"
proof (induction a)
  case (Cons x a)
  obtain mb cs where x: "x = BlockNode mb cs" by (cases x)
  from draft_wf_kids [OF Cons.prems [unfolded x]] obtain c where "mb = Some c" "draft_wf a" by blast
  with Cons x show ?case by (simp add: doc_text_Cons)
qed simp

lemma ids_Cons: "draft_ids (BlockNode (Some b) cs # rest) = b_id b # draft_ids (kids_of cs) @ draft_ids rest"
  unfolding draft_ids_eq [of None "BlockNode (Some b) cs # rest" "[]", symmetric] draft_entries_kids
  using draft_ids_eq [of None "kids_of cs" "b_id b"] draft_ids_eq [of "Some (BlockNode (Some b) cs)" rest "[]"]
  by simp

lemma draft_ids_Nil [simp]: "draft_ids [] = []"
  by (simp add: draft_ids_def)

lemma ids_append: "draft_wf a \<Longrightarrow> draft_ids (a @ b) = draft_ids a @ draft_ids b"
proof (induction a)
  case Nil
  then show ?case by (simp add: draft_ids_def)
next
  case (Cons x a)
  obtain mb cs where x: "x = BlockNode mb cs" by (cases x)
  from draft_wf_kids [OF Cons.prems [unfolded x]] obtain c where "mb = Some c" "draft_wf a" by blast
  with Cons x show ?case by (simp add: ids_Cons)
qed

lemma block_simps [simp]:
  "b_id ((new_block i ty)\<lparr>b_text := t\<rparr>) = i" "b_text ((new_block i ty)\<lparr>b_text := t\<rparr>) = t"
  "b_id ((new_block i ty)\<lparr>b_text := t, b_attributes := a\<rparr>) = i" "b_text ((new_block i ty)\<lparr>b_text := t, b_attributes := a\<rparr>) = t"
  by (simp_all add: new_block_def)

lemma text_block_facts:
  "i \<noteq> [] \<Longrightarrow> draft_wf (text_block i ty t # ns) \<longleftrightarrow> draft_wf ns"
  "draft_ids (text_block i ty t # ns) = i # draft_ids ns" "doc_text (text_block i ty t # ns) = t @ doc_text ns"
  by (simp_all add: text_block_def ids_Cons doc_text_Cons default_str_def)

lemma list_block_facts:
  "i \<noteq> [] \<Longrightarrow> draft_wf [list_block i kids] \<longleftrightarrow> draft_wf kids"
  "draft_ids [list_block i kids] = i # draft_ids kids" "doc_text [list_block i kids] = doc_text kids"
  by (simp_all add: list_block_def ids_Cons doc_text_Cons default_str_def)

text \<open>Each block has the id drawn for it, in reading order, and the blocks hold the text that is kept.\<close>

lemma extracted:
  "\<forall>k. gen k \<noteq> [] \<Longrightarrow> extractBlockNodes gen body k = (ns, k1) \<Longrightarrow>
    k \<le> k1 \<and> draft_wf ns \<and> draft_ids ns = map gen [k..<k1] \<and> doc_text ns = web_text body"
proof (induction gen body k arbitrary: ns k1 rule: extractBlockNodes.induct)
  case (2 gen t rest k)
  show ?case
  proof (cases "blank_text t")
    case True
    with 2 show ?thesis by simp
  next
    case False
    obtain ms k2 where r: "extractBlockNodes gen rest (Suc k) = (ms, k2)" by fastforce
    with 2(2) [OF False] 2(3,4) False show ?thesis by (auto simp: text_block_facts upt_conv_Cons)
  qed
next
  case (3 gen name children rest k)
  define here where "here = (if flattened name then extractBlockNodes gen children k
      else if text_type name \<noteq> None \<and> \<not> blank_text (textContent (HtmlElement name children))
      then ([text_block (gen k) (the (text_type name)) (textContent (HtmlElement name children))], Suc k)
      else if name = ''UL''
      then (case extractBlockNodes gen children (Suc k) of (kids, k1) \<Rightarrow> ([list_block (gen k) kids], k1))
      else ([], k))"
  obtain hs k2 where hs: "here = (hs, k2)" by fastforce
  obtain ms k3 where ms: "extractBlockNodes gen rest k2 = (ms, k3)" by fastforce
  have res: "ns = hs @ ms" "k1 = k3" using 3(5) hs ms by (simp_all add: here_def)
  let ?text = "if flattened name \<or> text_type name = None \<and> name = ''UL'' then web_text children
      else if text_type name \<noteq> None \<and> \<not> blank_text (textContent (HtmlElement name children))
      then textContent (HtmlElement name children) else []"
  have h: "k \<le> k2 \<and> draft_wf hs \<and> draft_ids hs = map gen [k..<k2] \<and> doc_text hs = ?text"
  proof (cases "flattened name")
    case True
    then have "extractBlockNodes gen children k = (hs, k2)" using hs by (simp add: here_def)
    from 3(1) [OF True 3(4) this] True show ?thesis by simp
  next
    case nf: False
    show ?thesis
    proof (cases "text_type name \<noteq> None \<and> \<not> blank_text (textContent (HtmlElement name children))")
      case True
      with nf hs 3(4) show ?thesis by (auto simp: here_def text_block_facts)
    next
      case nt: False
      show ?thesis
      proof (cases "name = ''UL''")
        case True
        then obtain kids where kids: "extractBlockNodes gen children (Suc k) = (kids, k2)" "hs = [list_block (gen k) kids]"
          using nf nt hs by (auto simp: here_def split: prod.splits)
        have "text_type name = None" using True by (simp add: text_type_def)
        then show ?thesis using 3(2) [OF nf nt True 3(4) kids(1)] kids(2) 3(4) nf True
          by (simp add: list_block_facts upt_conv_Cons)
      next
        case False
        with nf nt hs show ?thesis by (auto simp: here_def)
      qed
    qed
  qed
  have m: "k2 \<le> k3 \<and> draft_wf ms \<and> draft_ids ms = map gen [k2..<k3] \<and> doc_text ms = web_text rest"
    using 3(3) [OF hs [symmetric, unfolded here_def] 3(4) ms] .
  have "[k..<k3] = [k..<k2] @ [k2..<k3]" using h m by (metis le_Suc_ex upt_add_eq_append)
  with h m show ?case unfolding res by (simp only: draft_wf_append ids_append doc_text_append web_text.simps map_append) auto
qed auto

section \<open>Properties\<close>

lemma title_kept:
  "foldl move_step f (ops @ (if truthy title then [SetTitle (the title)] else [])) = foldl move_step f ops"
  "foldl apply_change m (ops @ (if truthy title then [SetTitle (the title)] else [])) = foldl apply_change m ops"
  by simp_all

lemma import_run:
  assumes "importWebCapture D gen (Some body) title past = (Inr published, calls)"
  shows "\<exists>draft. calls = past @ [CreateDraft None None, UpdateDraft draft (import_changes gen body title), PublishDraft draft]"
  using assms by (auto simp: importWebCapture_def run_simps split: sum.splits)


definition page_sample :: "html_node list" where
  "page_sample = [HtmlElement ''NAV'' [HtmlText ''menu''],
     HtmlElement ''DIV'' [HtmlElement ''H1'' [HtmlText ''T''],
       HtmlElement ''UL'' [HtmlText '' '', HtmlElement ''LI'' [HtmlText ''a'', HtmlElement ''B'' [HtmlText ''b'']]]]]"

definition willing :: daemon where
  "willing = \<lparr>listContent = (\<lambda>_. Inr []), createGroup = (\<lambda>_. Inr ''g''), updateGroup = (\<lambda>_. Inr ()), deleteDraft = (\<lambda>_. Inr ()),
     createDraft = (\<lambda>_. Inr \<lparr>da_id = ''d'', da_document = None\<rparr>), dm_updateDraft = (\<lambda>_. Inr ()),
     dm_publishDraft = (\<lambda>_. Inr \<lparr>pa_document = Some ''d'', pa_version = ''v''\<rparr>)\<rparr>"


end
