(* ===== verification/Site_Descriptions.thy ===== *)
theory Site_Descriptions
  imports Hm_Blocks
begin

text \<open>
  The descriptions the web site gives of a publication to other sites
  (\<^verbatim>\<open>frontend/apps/site/src/head.tsx\<close>): the text of its blocks, cut to a length. Characters are
  counted as the code units of a string.
\<close>

definition DESCRIPTION_MAX_LENGTH :: nat where
  "DESCRIPTION_MAX_LENGTH = 200"

text \<open>The text a block starts with; reading the text of no block raises.\<close>

definition own_text :: "hm_block option \<Rightarrow> string result" where
  "own_text b = (case b of None \<Rightarrow> Inl TypeError | Some blk \<Rightarrow>
     Inr (if truthy (b_text blk) then trim (the (b_text blk)) else []))"

text \<open>
  The loop over the children goes on while there is one behind the current one, so it never
  reads the last. The second function is this loop.
\<close>

fun getBlockNodeDescription :: "block_node \<Rightarrow> string result"
  and describe_children :: "string \<Rightarrow> block_node list \<Rightarrow> string result" where
  "getBlockNodeDescription (BlockNode b cs) = (case own_text b of Inl e \<Rightarrow> Inl e | Inr t \<Rightarrow>
     (case (case cs of None \<Rightarrow> Inr t | Some ns \<Rightarrow> describe_children t ns) of
        Inl e \<Rightarrow> Inl e | Inr out \<Rightarrow> Inr (trim out)))"
| "describe_children out [] = Inr out"
| "describe_children out [n] = Inr out"
| "describe_children out (n # m # ns) =
     (if length out < DESCRIPTION_MAX_LENGTH then
        (case getBlockNodeDescription n of Inl e \<Rightarrow> Inl e
           | Inr t \<Rightarrow> describe_children (if t \<noteq> [] then out @ '' '' @ t else out) (m # ns))
      else Inr out)"

definition getTruncatedDescription :: "string \<Rightarrow> string" where
  "getTruncatedDescription description =
     (let trimmed = trim description
      in if length trimmed > DESCRIPTION_MAX_LENGTH
         then slice 0 (DESCRIPTION_MAX_LENGTH - 3) trimmed @ ''...'' else trimmed)"

text \<open>The document of the publication is missing, or has no list of children, or has one.\<close>

definition getPublicationDescription :: "block_node list option option \<Rightarrow> string result" where
  "getPublicationDescription doc = (case doc of Some (Some content) \<Rightarrow>
        (case describe_children [] content of Inl e \<Rightarrow> Inl e | Inr out \<Rightarrow> Inr (getTruncatedDescription out))
     | _ \<Rightarrow> Inr [])"

section \<open>Trimming\<close>

definition trimmed :: "string \<Rightarrow> bool" where
  "trimmed s \<longleftrightarrow> s = [] \<or> \<not> is_space (hd s) \<and> \<not> is_space (last s)"

lemma trim_trimmed [simp]: "trimmed s \<Longrightarrow> trim s = s"
proof -
  have ends: "dropWhile p s = s" if "s = [] \<or> \<not> p (hd s)" for p :: "char \<Rightarrow> bool" and s
    using that by (cases s) auto
  assume "trimmed s"
  then have "dropWhile is_space s = s" "dropWhile is_space (rev s) = rev s"
    by (auto simp: trimmed_def hd_rev intro!: ends)
  then show ?thesis by (simp add: trim_def)
qed

lemma last_dropWhile': "dropWhile p s \<noteq> [] \<Longrightarrow> last (dropWhile p s) = last s"
  by (induction s) auto

lemma trimmed_trim: "trimmed (trim s)"
proof -
  let ?a = "dropWhile is_space s" let ?b = "dropWhile is_space (rev ?a)"
  have "trim s = rev ?b" by (simp add: trim_def)
  moreover have "\<not> is_space (hd ?b)" if "?b \<noteq> []" using that by (rule hd_dropWhile)
  moreover have "\<not> is_space (last ?b)" if b: "?b \<noteq> []"
  proof -
    have "?a \<noteq> []"
    proof
      assume "?a = []"
      then show False using b by (simp only: rev.simps dropWhile.simps)
    qed
    then have "\<not> is_space (hd ?a)" by (rule hd_dropWhile)
    moreover have "last ?b = hd ?a" using last_dropWhile' [OF b] \<open>?a \<noteq> []\<close> by (simp add: last_rev)
    ultimately show ?thesis by simp
  qed
  ultimately show ?thesis by (auto simp: trimmed_def hd_rev last_rev)
qed

lemma trim_blank: "trimmed s \<Longrightarrow> trim (CHR '' '' # s) = s"
proof -
  assume s: "trimmed s"
  have "trim (CHR '' '' # s) = trim s" by (simp add: trim_def is_space_def)
  with s show ?thesis by simp
qed

section \<open>What a description is cut from\<close>

text \<open>The texts that are read, in their order.\<close>

fun node_texts :: "block_node \<Rightarrow> string list" and child_texts :: "block_node list \<Rightarrow> string list" where
  "node_texts (BlockNode b cs) =
     (case own_text b of Inl e \<Rightarrow> [] | Inr t \<Rightarrow> if t = [] then [] else [t])
     @ (case cs of None \<Rightarrow> [] | Some ns \<Rightarrow> child_texts ns)"
| "child_texts [] = []"
| "child_texts [n] = []"
| "child_texts (n # m # ns) = node_texts n @ child_texts (m # ns)"

lemma texts_trimmed:
  "u \<in> set (node_texts n) \<Longrightarrow> u \<noteq> [] \<and> trimmed u"
  "u \<in> set (child_texts ns) \<Longrightarrow> u \<noteq> [] \<and> trimmed u"
proof (induction n and ns rule: node_texts_child_texts.induct)
  case (1 b cs)
  then consider "u \<noteq> []" "own_text b = Inr u" | ns where "cs = Some ns" "u \<in> set (child_texts ns)"
    by (auto split: sum.splits if_splits option.splits)
  then show ?case
  proof cases
    case 1
    then show ?thesis using trimmed_trim
      by (auto simp: own_text_def trimmed_def split: option.splits if_splits)
  qed (use 1 in auto)
qed auto

text \<open>Texts, each behind a blank.\<close>

definition glue :: "string list \<Rightarrow> string" where
  "glue ts = concat (map (\<lambda>t. CHR '' '' # t) ts)"

lemma glue_simps [simp]: "glue [] = []" "glue (t # ts) = CHR '' '' # t @ glue ts" "glue (ts @ us) = glue ts @ glue us"
  by (simp_all add: glue_def)

lemma glue_join: "ts \<noteq> [] \<Longrightarrow> glue ts = CHR '' '' # join '' '' ts"
  by (induction "'' ''" ts rule: join.induct) auto

lemma trimmed_append: "\<lbrakk>trimmed s; trimmed t; s \<noteq> []; t \<noteq> []\<rbrakk> \<Longrightarrow> trimmed (s @ r @ t)"
  by (cases s) (auto simp: trimmed_def)

lemma join_trimmed: "(\<And>t. t \<in> set ts \<Longrightarrow> t \<noteq> [] \<and> trimmed t) \<Longrightarrow> trimmed (join '' '' ts) \<and> (join '' '' ts = [] \<longleftrightarrow> ts = [])"
proof (induction "'' ''" ts rule: join.induct)
  case (3 x y ys)
  then have "trimmed (x @ '' '' @ join '' '' (y # ys))" by (intro trimmed_append) auto
  then show ?case by simp
qed (auto simp: trimmed_def)

lemma trim_glued:
  assumes t: "trimmed t" and ts: "\<And>u. u \<in> set ts \<Longrightarrow> u \<noteq> [] \<and> trimmed u"
  shows "trim (t @ glue ts) = join '' '' ((if t = [] then [] else [t]) @ ts)"
proof (cases "t = []")
  case True
  show ?thesis
  proof (cases "ts = []")
    case False
    then show ?thesis using True trim_blank join_trimmed [of ts] ts by (simp add: glue_join)
  qed (use True in \<open>simp add: trim_def\<close>)
next
  case False
  have all: "trimmed (join '' '' (t # ts))" using join_trimmed [of "t # ts"] t ts False by auto
  have "join '' '' (t # ts) = t @ glue ts" using glue_join [of "t # ts"] by simp
  with all False show ?thesis by simp
qed

lemma enough: "DESCRIPTION_MAX_LENGTH \<le> length out \<Longrightarrow> describe_children out ns = Inr out"
  by (cases ns rule: list.exhaust [case_product list.exhaust]; cases "tl ns") auto

text \<open>A part of a text, that is all of it unless it has a length.\<close>

definition first_part :: "nat \<Rightarrow> string \<Rightarrow> string \<Rightarrow> bool" where
  "first_part n d t \<longleftrightarrow> prefix d t \<and> (d = t \<or> n \<le> length d)"

lemma described:
  "getBlockNodeDescription n = Inr d \<Longrightarrow> trimmed d \<and> first_part 199 d (join '' '' (node_texts n))"
  "describe_children out ns = Inr r \<Longrightarrow> \<exists>ts. r = out @ glue ts \<and> (\<forall>t \<in> set ts. t \<noteq> [] \<and> trimmed t)
     \<and> first_part 200 r (out @ glue (child_texts ns))"
proof (induction n and out ns arbitrary: d and r rule: getBlockNodeDescription_describe_children.induct)
  case (1 b cs)
  obtain t where t: "own_text b = Inr t" using 1(2) by (cases "own_text b") auto
  then have tt: "trimmed t" using trimmed_trim by (auto simp: own_text_def trimmed_def split: option.splits if_splits)
  obtain cts ts r where r: "d = trim r" "r = t @ glue ts" "\<forall>u \<in> set ts. u \<noteq> [] \<and> trimmed u"
      "first_part 200 r (t @ glue cts)" "node_texts (BlockNode b cs) = (if t = [] then [] else [t]) @ cts"
      "\<forall>u \<in> set cts. u \<noteq> [] \<and> trimmed u"
  proof (cases cs)
    case None
    then have "d = trim t" using 1(2) t by simp
    then show ?thesis using that [of t "[]" "[]"] t None by (simp add: first_part_def)
  next
    case (Some ns)
    then obtain r where r: "describe_children t ns = Inr r" "d = trim r"
      using 1(2) t by (cases "describe_children t ns") auto
    from 1(1) [OF t Some r(1)] obtain ts where "r = t @ glue ts" "\<forall>u \<in> set ts. u \<noteq> [] \<and> trimmed u"
        "first_part 200 r (t @ glue (child_texts ns))" by blast
    then show ?thesis using that [of r ts "child_texts ns"] r t Some texts_trimmed(2) by auto
  qed
  have d: "d = join '' '' ((if t = [] then [] else [t]) @ ts)" using trim_glued [OF tt] r(1,2,3) by simp
  have full: "trim (t @ glue cts) = join '' '' (node_texts (BlockNode b cs))" using trim_glued [OF tt] r(5,6) by simp
  have "trimmed d" using trimmed_trim r(1) by simp
  moreover have "first_part 199 d (join '' '' (node_texts (BlockNode b cs)))"
  proof (cases "r = t @ glue cts")
    case True
    then show ?thesis using full r(1) by (simp add: first_part_def)
  next
    case False
    then have len: "200 \<le> length r" and pre: "prefix r (t @ glue cts)" using r(4) by (auto simp: first_part_def)
    show ?thesis
    proof (cases "t = []")
      case True
      then have ne: "ts \<noteq> []" "cts \<noteq> []" using len pre r(2) by auto
      have "r = CHR '' '' # d" "t @ glue cts = CHR '' '' # join '' '' (node_texts (BlockNode b cs))"
        using True ne d r(2,5) by (simp_all add: glue_join)
      with len pre show ?thesis by (simp add: first_part_def)
    next
      case False
      then have "r = d" "t @ glue cts = join '' '' (node_texts (BlockNode b cs))"
        using d r(2,5) glue_join [of "t # ts"] glue_join [of "t # cts"] by (simp_all del: node_texts.simps)
      with len pre show ?thesis by (simp add: first_part_def)
    qed
  qed
  ultimately show ?case by blast
next
  case (2 out)
  then show ?case by (auto simp: first_part_def intro!: exI [of _ "[]"])
next
  case (3 out n)
  then show ?case by (auto simp: first_part_def intro!: exI [of _ "[]"])
next
  case (4 out n m ns)
  show ?case
  proof (cases "length out < DESCRIPTION_MAX_LENGTH")
    case False
    then have "r = out" using 4(3) by simp
    with False show ?thesis by (auto simp: first_part_def DESCRIPTION_MAX_LENGTH_def intro!: exI [of _ "[]"])
  next
    case True
    then obtain t where t: "getBlockNodeDescription n = Inr t"
      using 4(3) by (cases "getBlockNodeDescription n") auto
    let ?out = "if t \<noteq> [] then out @ '' '' @ t else out"
    have step: "describe_children ?out (m # ns) = Inr r" using 4(3) True t by simp
    from 4(1) [OF True t] have n: "trimmed t" "first_part 199 t (join '' '' (node_texts n))" by auto
    from 4(2) [OF True t step] obtain ts where ts: "r = ?out @ glue ts" "\<forall>u \<in> set ts. u \<noteq> [] \<and> trimmed u"
        "first_part 200 r (?out @ glue (child_texts (m # ns)))" by blast
    have "\<exists>us. r = out @ glue us \<and> (\<forall>u \<in> set us. u \<noteq> [] \<and> trimmed u)"
      using ts(1,2) n(1) by (auto intro!: exI [of _ "(if t = [] then [] else [t]) @ ts"])
    moreover have "first_part 200 r (out @ glue (child_texts (n # m # ns)))"
    proof (cases "t = join '' '' (node_texts n)")
      case True
      have "?out = out @ glue (node_texts n)"
        using True join_trimmed [of "node_texts n"] texts_trimmed(1) glue_join [of "node_texts n"] by auto
      then show ?thesis using ts(3) by simp
    next
      case False
      then have len: "199 \<le> length t" and pre: "prefix t (join '' '' (node_texts n))" using n(2) by (auto simp: first_part_def)
      have ne: "t \<noteq> []" "node_texts n \<noteq> []" using len pre by auto
      have "r = ?out" using enough [of ?out "m # ns"] step len ne by (simp add: DESCRIPTION_MAX_LENGTH_def)
      then show ?thesis using len pre ne by (auto simp: first_part_def glue_join prefix_def)
    qed
    ultimately show ?thesis by blast
  qed
qed

text \<open>Every block of the trees is there.\<close>

fun given_blocks :: "block_node \<Rightarrow> bool" where
  "given_blocks (BlockNode b cs) \<longleftrightarrow> b \<noteq> None \<and> (case cs of None \<Rightarrow> True | Some ns \<Rightarrow> list_all given_blocks ns)"

lemma describes:
  "given_blocks n \<Longrightarrow> \<exists>d. getBlockNodeDescription n = Inr d"
  "list_all given_blocks ns \<Longrightarrow> \<exists>r. describe_children out ns = Inr r"
proof (induction n and out ns rule: getBlockNodeDescription_describe_children.induct)
  case (1 b cs)
  then obtain t where t: "own_text b = Inr t" by (cases b) (auto simp: own_text_def)
  show ?case
  proof (cases cs)
    case (Some ns)
    with 1 t obtain r where "describe_children t ns = Inr r" by fastforce
    with t Some show ?thesis by simp
  qed (use t in simp)
next
  case (4 out n m ns)
  show ?case
  proof (cases "length out < DESCRIPTION_MAX_LENGTH")
    case True
    with 4 obtain t where t: "getBlockNodeDescription n = Inr t" by auto
    from 4(2) [OF True t] 4(3) obtain r where "describe_children (if t \<noteq> [] then out @ '' '' @ t else out) (m # ns) = Inr r" by auto
    with t True show ?thesis by simp
  qed simp
qed auto

section \<open>Properties\<close>

text \<open>
  C38. The description of a publication has at most 200 characters. It is the texts of the blocks that are read,
  trimmed and joined by blanks: all of them when they fit; otherwise the first 197 characters and three
  dots, or, when collecting stopped right at the limit, a first part of at least 199 without dots. With
  all blocks present it never raises, and a publication with one block at the top has no description.
\<close>

theorem description_bounded:
  "list_all given_blocks content \<longrightarrow> (\<exists>d. getPublicationDescription (Some (Some content)) = Inr d \<and> length d \<le> 200 \<and>
     (let full = join '' '' (child_texts content)
      in d = full \<or> 199 \<le> length d \<and> prefix d full \<or> 200 < length full \<and> d = take 197 full @ ''...''))
   \<and> getPublicationDescription (Some (Some [n])) = Inr []"
proof (intro conjI impI)
  assume "list_all given_blocks content"
  then obtain r where r: "describe_children [] content = Inr r" using describes(2) by blast
  let ?full = "join '' '' (child_texts content)"
  from described(2) [OF r] obtain ts where ts: "r = glue ts" "\<And>t. t \<in> set ts \<Longrightarrow> t \<noteq> [] \<and> trimmed t"
      "first_part 200 r (glue (child_texts content))" by auto
  have "trimmed []" by (simp add: trimmed_def)
  from trim_glued [OF this ts(2)] have d: "trim r = join '' '' ts" using ts(1) by simp
  have part: "first_part 199 (trim r) ?full"
  proof (cases "ts = []")
    case True
    then have "glue (child_texts content) = []" using ts(1,3) by (auto simp: first_part_def)
    then have "child_texts content = []" by (cases "child_texts content") auto
    with True d show ?thesis by (simp add: first_part_def)
  next
    case False
    then have "child_texts content \<noteq> []" using ts(1,3) by (auto simp: first_part_def prefix_def glue_join)
    with False ts(1,3) d show ?thesis by (auto simp: first_part_def glue_join)
  qed
  then obtain v where v: "?full = trim r @ v" by (auto simp: first_part_def prefix_def)
  have res: "getPublicationDescription (Some (Some content))
      = Inr (if length (trim r) > 200 then take 197 ?full @ ''...'' else trim r)"
    using r v by (simp add: getPublicationDescription_def getTruncatedDescription_def Let_def DESCRIPTION_MAX_LENGTH_def slice_def)
  show "\<exists>d. getPublicationDescription (Some (Some content)) = Inr d \<and> length d \<le> 200 \<and>
     (let full = ?full in d = full \<or> 199 \<le> length d \<and> prefix d full \<or> 200 < length full \<and> d = take 197 full @ ''...'')"
  proof (cases "length (trim r) > 200")
    case True
    then have "200 < length ?full" using v by simp
    with res True show ?thesis by (simp add: Let_def)
  next
    case False
    with res part show ?thesis by (auto simp: Let_def first_part_def)
  qed
next
  show "getPublicationDescription (Some (Some [n])) = Inr []"
    by (simp add: getPublicationDescription_def getTruncatedDescription_def Let_def trim_def)
qed

definition sample_node :: "string \<Rightarrow> block_node" where
  "sample_node t = BlockNode (Some ((new_block ''b'' ''paragraph'')\<lparr>b_text := Some t\<rparr>)) None"

theorem description_bounded_witness:
  "\<exists>d. getPublicationDescription (Some (Some [sample_node '' a '', sample_node ''b'', sample_node ''c''])) = Inr d \<and>
     length d \<le> 200 \<and> d = ''a b''"
proof -
  let ?c = "[sample_node '' a '', sample_node ''b'', sample_node ''c'']"
  have c: "list_all given_blocks ?c" by (simp add: sample_node_def)
  have texts: "join '' '' (child_texts ?c) = ''a b''" by code_simp
  from description_bounded [of ?c "sample_node []"] c obtain d where
      d: "getPublicationDescription (Some (Some ?c)) = Inr d" "length d \<le> 200"
      "d = ''a b'' \<or> 199 \<le> length d \<and> prefix d ''a b'' \<or> 200 < length ''a b'' \<and> d = take 197 ''a b'' @ ''...''"
    unfolding texts Let_def by blast
  have "\<not> (199 \<le> length d \<and> prefix d ''a b'')" using prefix_length_le [of d "''a b''"] by auto
  with d show ?thesis by auto
qed
end
