(* ===== verification/Site_Pages.thy ===== *)
theory Site_Pages
  imports Hm_Url Hm_Blocks
begin

text \<open>
  How the web site finds the page for a request
  (\<^verbatim>\<open>frontend/apps/site/middleware.ts\<close>, the files under \<^verbatim>\<open>pages\<close>) and what the
  server asks the daemon for before it renders it (\<^verbatim>\<open>server/static-props.ts\<close>,
  \<^verbatim>\<open>server/group.ts\<close>). The router of the framework and the answers of the daemon are
  parameters.
\<close>

section \<open>Requests\<close>

text \<open>
  A link as a path and the text of its query, with the question mark. What the browser percent encodes in the
  query \<open>URLSearchParams\<close> decodes again, so the query is kept as it is written.
\<close>

definition site_request :: "string \<Rightarrow> string \<times> string" where
  "site_request url = (case cut CHR ''?'' (fst (cut CHR ''#'' url)) of
      (p, q) \<Rightarrow> (p, case q of None \<Rightarrow> [] | Some x \<Rightarrow> if x = [] then [] else CHR ''?'' # x))"

text \<open>\<open>url.pathname = s\<close> for an HTTP URL: a backslash is a slash.\<close>

definition set_pathname :: "string \<Rightarrow> string" where
  "set_pathname s =
     (let t = map (\<lambda>c. if c = CHR 0x5C then CHR ''/'' else c) (filter (\<lambda>c. \<not> tab_or_newline c) s)
      in concat (map (\<lambda>seg. CHR ''/'' # seg)
           (norm_path [] (split_char CHR ''/'' (if starts_with t ''/'' then tl t else t)))))"

section \<open>The middleware\<close>

datatype rewriting = GoOn | RewriteTo string

definition replaceSlashes :: "string \<Rightarrow> string" where
  "replaceSlashes s = map (\<lambda>c. if c = CHR ''/'' then CHR '':'' else c) s"

text \<open>The new path; nothing when no branch sets it.\<close>

definition new_pathname :: "string list \<Rightarrow> string option \<Rightarrow> string option \<Rightarrow> string option" where
  "new_pathname terms versionParam variantsParam =
     (let term1 = nth_opt terms 1; term2 = show_undef (nth_opt terms 2); term3 = nth_opt terms 3;
          version = (case versionParam of None \<Rightarrow> [] | Some v \<Rightarrow> CHR ''/'' # v)
      in if length terms = 2 \<and> term1 = Some [] then
           Some (if truthy versionParam then ''/-'' @ version else ''/-'')
         else if length terms = 2 then
           Some (if truthy versionParam then ''/'' @ show_undef term1 @ version else ''/'' @ show_undef term1)
         else if length terms = 3 \<and> term1 = Some ''d'' then
           Some (if truthy versionParam \<and> truthy variantsParam then
                   ''/d/'' @ term2 @ version @ ''/'' @ replaceSlashes (the variantsParam)
                 else if truthy versionParam then ''/d/'' @ term2 @ version
                 else ''/d/'' @ term2)
         else if term1 = Some ''g'' then
           (let path = (if truthy term3 then the term3 else ''-'')
            in Some (if truthy versionParam then ''/g/'' @ term2 @ ''/'' @ path @ version
                     else ''/g/'' @ term2 @ ''/'' @ path))
         else None)"

definition middleware :: "string \<Rightarrow> string \<Rightarrow> rewriting" where
  "middleware pathname search =
     (let params = search_params (Some search);
          terms = split_char CHR ''/'' pathname
      in if pathname = ''/.well-known/hypermedia-site'' then
           RewriteTo (set_pathname ''/api/well-known-hypermedia-site'')
         else if nth_opt terms 1 = Some ''ipfs'' then GoOn
         else RewriteTo (case new_pathname terms (params_get params ''v'') (params_get params ''b'') of
             None \<Rightarrow> pathname | Some p \<Rightarrow> set_pathname p))"

section \<open>The pages\<close>

datatype path_segment = Lit string | Par string

datatype page_view = GroupPageView | GroupDocPageView | DocPageView | AccountPageView | OtherPage

datatype page_props = GroupDocProps | DocProps | AccountProps | OtherProps

record site_page =
  pg_file :: "path_segment list"
  pg_view :: page_view
  pg_props :: page_props

definition index_page :: site_page where
  "index_page = \<lparr>pg_file = [], pg_view = GroupPageView, pg_props = GroupDocProps\<rparr>"

definition path_page :: site_page where
  "path_page = \<lparr>pg_file = [Par ''pathName''], pg_view = GroupDocPageView, pg_props = GroupDocProps\<rparr>"

definition path_version_page :: site_page where
  "path_version_page = \<lparr>pg_file = [Par ''pathName'', Par ''versionId''], pg_view = GroupDocPageView,
     pg_props = GroupDocProps\<rparr>"

definition account_page :: site_page where
  "account_page = \<lparr>pg_file = [Lit ''a'', Par ''accountId''], pg_view = AccountPageView, pg_props = AccountProps\<rparr>"

definition doc_page :: site_page where
  "doc_page = \<lparr>pg_file = [Lit ''d'', Par ''docEid''], pg_view = DocPageView, pg_props = DocProps\<rparr>"

definition doc_version_page :: site_page where
  "doc_version_page = \<lparr>pg_file = [Lit ''d'', Par ''docEid'', Par ''versionId''], pg_view = DocPageView,
     pg_props = DocProps\<rparr>"

definition doc_variants_page :: site_page where
  "doc_variants_page = \<lparr>pg_file = [Lit ''d'', Par ''docEid'', Par ''versionId'', Par ''variants''],
     pg_view = DocPageView, pg_props = DocProps\<rparr>"

definition group_page :: site_page where
  "group_page = \<lparr>pg_file = [Lit ''g'', Par ''groupEid''], pg_view = GroupPageView, pg_props = GroupDocProps\<rparr>"

definition group_path_page :: site_page where
  "group_path_page = \<lparr>pg_file = [Lit ''g'', Par ''groupEid'', Par ''pathName''], pg_view = GroupDocPageView,
     pg_props = GroupDocProps\<rparr>"

definition group_path_version_page :: site_page where
  "group_path_version_page = \<lparr>pg_file = [Lit ''g'', Par ''groupEid'', Par ''pathName'', Par ''versionId''],
     pg_view = GroupDocPageView, pg_props = GroupDocProps\<rparr>"

definition other_pages :: "path_segment list list" where
  "other_pages = [[Lit ''404''], [Lit ''500''], [Lit ''download-mintter-hypermedia''],
     [Lit ''api'', Lit ''config''], [Lit ''api'', Lit ''well-known-hypermedia-site''],
     [Lit ''api'', Lit ''trpc'', Par ''trpc''],
     [Lit ''api'', Lit ''content-image'', Par ''entityType'', Par ''entityId'', Par ''versionId'', Lit ''media.png''],
     [Lit ''connect-peer'', Par ''peerId''], [Lit ''hypermedia-connect'', Par ''connectInfo''],
     [Lit ''secret-invite'', Par ''inviteSecret'']]"

definition site_pages :: "site_page list" where
  "site_pages = map (\<lambda>f. \<lparr>pg_file = f, pg_view = OtherPage, pg_props = OtherProps\<rparr>) other_pages
     @ [account_page, doc_page, doc_version_page, doc_variants_page,
        group_page, group_path_page, group_path_version_page, index_page, path_page, path_version_page]"

text \<open>The parameters a file name gives for the segments of a path.\<close>

fun fits :: "path_segment list \<Rightarrow> string list \<Rightarrow> (string \<times> string) list option" where
  "fits [] [] = Some []"
| "fits (Lit l # ps) (s # ss) = (if l = s then fits ps ss else None)"
| "fits (Par k # ps) (s # ss) = map_option (\<lambda>r. (k, s) # r) (fits ps ss)"
| "fits _ _ = None"

text \<open>A name comes before another when it has the literal where they differ first.\<close>

fun more_specific :: "path_segment list \<Rightarrow> path_segment list \<Rightarrow> bool" where
  "more_specific (Lit l # ps) (Par k # qs) = True"
| "more_specific (Par k # ps) (Lit l # qs) = False"
| "more_specific (_ # ps) (_ # qs) = more_specific ps qs"
| "more_specific _ _ = False"

definition path_of :: "string list \<Rightarrow> string" where
  "path_of segs = (if segs = [] then ''/'' else concat (map (\<lambda>seg. CHR ''/'' # seg) segs))"

text \<open>Segments that a path holds as they are.\<close>

definition plain_segment :: "string \<Rightarrow> bool" where
  "plain_segment s \<longleftrightarrow> s \<noteq> [] \<and> s \<noteq> ''.'' \<and> s \<noteq> ''..''
     \<and> (\<forall>c \<in> set s. \<not> path_set c \<and> c \<noteq> CHR ''/'' \<and> c \<noteq> CHR ''%'' \<and> c \<noteq> CHR 0x5C)"

type_synonym site_router = "string \<Rightarrow> (site_page \<times> (string \<times> string) list) option"

text \<open>
  What the framework documents of routing by files: a page whose name fits is found when there is one, and
  predefined segments take precedence over dynamic ones.
\<close>

definition routes_by_file :: "site_router \<Rightarrow> bool" where
  "routes_by_file route \<longleftrightarrow> (\<forall>segs. (\<forall>s \<in> set segs. plain_segment s) \<longrightarrow>
     (case route (path_of segs) of
        None \<Rightarrow> \<forall>p \<in> set site_pages. fits (pg_file p) segs = None
      | Some (p, params) \<Rightarrow> p \<in> set site_pages \<and> fits (pg_file p) segs = Some params \<and>
          (\<forall>q \<in> set site_pages. fits (pg_file q) segs \<noteq> None \<longrightarrow> \<not> more_specific (pg_file q) (pg_file p))))"

text \<open>The page for a request, behind the middleware.\<close>

definition page_for :: "site_router \<Rightarrow> string \<times> string \<Rightarrow> (site_page \<times> (string \<times> string) list) option" where
  "page_for route req = (case middleware (fst req) (snd req) of
      GoOn \<Rightarrow> route (fst req) | RewriteTo p \<Rightarrow> route p)"

text \<open>
  What the framework documents of \<open>router.query\<close>: the parameters of the path, and once the page is hydrated
  also those of the query, where a parameter of the path wins.
\<close>

definition query_values :: "string \<Rightarrow> string \<Rightarrow> string list" where
  "query_values search k = map snd (filter (\<lambda>p. fst p = k) (search_params (Some search)))"

definition router_query ::
  "bool \<Rightarrow> (string \<times> string) list \<Rightarrow> string \<Rightarrow> (string \<Rightarrow> variants_input option) \<Rightarrow> bool" where
  "router_query hydrated params search query \<longleftrightarrow> (\<forall>k.
     query k = (case map_of params k of Some x \<Rightarrow> Some (OneString x)
       | None \<Rightarrow> if \<not> hydrated then None else
           (case query_values search k of [] \<Rightarrow> None | [x] \<Rightarrow> Some (OneString x) | xs \<Rightarrow> Some (ManyStrings xs))))"

section \<open>Before a page is rendered\<close>

record variant_query =
  vq_documentId :: string
  vq_versionId :: "string option"
  vq_variants :: "publication_variant list option"
  vq_latest :: bool

record site_info =
  si_groupEid :: string
  si_groupId :: string
  si_version :: string

record site_group =
  gi_id :: string
  gi_version :: string
  gi_title :: string

record page_doc =
  pd_id :: string
  pd_title :: string
  pd_children :: "block_node list option"

record page_pub =
  pb_version :: string
  pb_document :: "page_doc option"

record content_item =
  ci_pathName :: string
  ci_docId :: UnpackedHypermediaId
  ci_publication :: "page_pub option"

text \<open>The queries of the server's router, and its answers.\<close>

datatype site_query =
  QSiteInfo
| QGroup string "string option"
| QMembers string string
| QAccount "string option"
| QContent string string
| QVariant variant_query
| QAccountPublications string

record site_answers =
  a_siteInfo :: "site_info option result"
  a_group :: "string \<Rightarrow> string option \<Rightarrow> site_group option result"
  a_members :: "string \<Rightarrow> string \<Rightarrow> string list result"
  a_account :: "string option \<Rightarrow> bool result"
  a_content :: "string \<Rightarrow> string \<Rightarrow> content_item option list result"
  a_variant :: "variant_query \<Rightarrow> page_pub option result"
  a_accountPublications :: "string \<Rightarrow> page_pub option list result"

text \<open>What the code has asked so far, and its value or the exception that ends it.\<close>

type_synonym 'a asking = "site_query list \<times> 'a result"

definition ask :: "site_query \<Rightarrow> 'a result \<Rightarrow> 'a asking" where
  "ask q r = ([q], r)"

definition given :: "'a \<Rightarrow> 'a asking" where
  "given x = ([], Inr x)"

definition andThen :: "'a asking \<Rightarrow> ('a \<Rightarrow> 'b asking) \<Rightarrow> 'b asking" where
  "andThen m f = (case snd m of Inl e \<Rightarrow> (fst m, Inl e) | Inr x \<Rightarrow> (fst m @ fst (f x), snd (f x)))"

text \<open>\<open>prefetch\<close> does not raise; \<open>Promise.all\<close> asks everything.\<close>

definition prefetch :: "site_query \<Rightarrow> unit asking" where
  "prefetch q = ([q], Inr ())"

definition askAll :: "('b \<Rightarrow> site_query) \<Rightarrow> ('b \<Rightarrow> 'a result) \<Rightarrow> 'b list \<Rightarrow> unit asking" where
  "askAll q r xs = (map q xs, case find (\<lambda>x. case r x of Inl e \<Rightarrow> True | Inr y \<Rightarrow> False) xs of
      None \<Rightarrow> Inr () | Some x \<Rightarrow> (case r x of Inl e \<Rightarrow> Inl e | Inr y \<Rightarrow> Inr ()))"

definition or_else :: "string option \<Rightarrow> string \<Rightarrow> string" where
  "or_else v d = (if truthy v then the v else d)"

definition prefetchGroup :: "site_answers \<Rightarrow> string \<Rightarrow> string option \<Rightarrow> (site_group \<times> content_item option list) option asking" where
  "prefetchGroup api gid groupVersion =
     (if gid = [] then given None else
      andThen (ask (QGroup gid (Some (or_else groupVersion []))) (a_group api gid (Some (or_else groupVersion []))))
        (\<lambda>groupRecord. case groupRecord of None \<Rightarrow> given None | Some g \<Rightarrow>
           andThen (ask (QMembers gid (gi_version g)) (a_members api gid (gi_version g)))
             (\<lambda>members. andThen (askAll (\<lambda>m. QAccount (Some m)) (\<lambda>m. a_account api (Some m)) members)
               (\<lambda>u. andThen (ask (QContent gid (gi_version g)) (a_content api gid (gi_version g)))
                 (\<lambda>content. given (Some (g, content)))))))"

definition item_at :: "string \<Rightarrow> content_item option list \<Rightarrow> content_item option" where
  "item_at path content = (case find (\<lambda>i. map_option ci_pathName i = Some path) content of
      None \<Rightarrow> None | Some i \<Rightarrow> i)"

definition item_query :: "string \<Rightarrow> content_item \<Rightarrow> variant_query" where
  "item_query gid i =
     \<lparr>vq_documentId = createHmId ''d'' (show_undef (u_eid (ci_docId i))) no_opts,
      vq_versionId = truthy_str (u_version (ci_docId i)),
      vq_variants = Some [GroupVariant gid (Some (ci_pathName i))],
      vq_latest = True\<rparr>"

definition prefetchGroupContent ::
  "site_answers \<Rightarrow> (site_group \<times> content_item option list) option \<Rightarrow> string \<Rightarrow> page_pub option asking" where
  "prefetchGroupContent api prefetched path =
     (let contentPath = (if path = [] \<or> path = ''/'' then ''/'' else path)
      in case prefetched of None \<Rightarrow> given None
       | Some (g, content) \<Rightarrow>
          (case item_at contentPath content of None \<Rightarrow> given None
           | Some i \<Rightarrow>
              if gi_id g = [] \<or> u_type (ci_docId i) \<noteq> ''d'' then given None
              else ask (QVariant (item_query (gi_id g) i)) (a_variant api (item_query (gi_id g) i))))"

definition prefetchSiteInfo :: "site_answers \<Rightarrow> site_info option asking" where
  "prefetchSiteInfo api = andThen (ask QSiteInfo (a_siteInfo api))
     (\<lambda>info. case info of None \<Rightarrow> given None
       | Some i \<Rightarrow> if si_groupId i = [] then given info
           else andThen (prefetch (QGroup (si_groupId i) (Some []))) (\<lambda>u. given info))"

text \<open>An answer that fails is caught here, and asked for once more by \<open>getPageProps\<close>.\<close>

definition getSiteServerHelpers :: "site_answers \<Rightarrow> site_info option asking" where
  "getSiteServerHelpers api = ([QSiteInfo], Inr (case a_siteInfo api of Inl e \<Rightarrow> None | Inr i \<Rightarrow> i))"

text \<open>The seconds after which the page is made again.\<close>

definition revalidate_after :: "string \<Rightarrow> page_pub option \<Rightarrow> nat" where
  "revalidate_after versionId pub =
     (if versionId \<noteq> [] then (case pub of None \<Rightarrow> 10 | Some p \<Rightarrow> if pb_document p \<noteq> None then 60 * 60 else 10) else 20)"

definition getGroupDocStaticProps :: "site_answers \<Rightarrow> (string \<times> string) list \<Rightarrow> nat asking" where
  "getGroupDocStaticProps api params =
     (let path = or_else (map_of params ''pathName'') ''-'';
          versionId = or_else (map_of params ''versionId'') [];
          groupEid = or_else (map_of params ''groupEid'') []
      in andThen (getSiteServerHelpers api) (\<lambda>siteInfo. case siteInfo of
           None \<Rightarrow> andThen (prefetchSiteInfo api) (\<lambda>i. given 1)
         | Some info \<Rightarrow>
             (let requestGroupId = (if groupEid \<noteq> [] then createHmId ''g'' groupEid no_opts else si_groupId info)
              in andThen (prefetchGroup api requestGroupId (Some versionId)) (\<lambda>prefetchedGroup.
                   andThen (prefetchGroupContent api prefetchedGroup path) (\<lambda>pub.
                     andThen (prefetchSiteInfo api) (\<lambda>i. given (revalidate_after versionId pub)))))))"

definition doc_query :: "(string \<times> string) list \<Rightarrow> variant_query" where
  "doc_query params =
     \<lparr>vq_documentId = createHmId ''d'' (or_else (map_of params ''docEid'') []) no_opts,
      vq_versionId = Some (or_else (map_of params ''versionId'') []),
      vq_variants = parseVariantsQuery (if truthy (map_of params ''variants'')
        then map_option OneString (map_of params ''variants'') else None),
      vq_latest = truthy (map_of params ''latest'')\<rparr>"

definition getDocStaticProps :: "site_answers \<Rightarrow> (string \<times> string) list \<Rightarrow> nat asking" where
  "getDocStaticProps api params =
     andThen (getSiteServerHelpers api) (\<lambda>siteInfo.
       andThen (ask (QVariant (doc_query params)) (a_variant api (doc_query params))) (\<lambda>pub.
         andThen (prefetchSiteInfo api) (\<lambda>i.
           given (revalidate_after (or_else (map_of params ''versionId'') []) pub))))"

text \<open>The account is waited for five seconds and not longer; the query goes on behind that.\<close>

definition getAccountStaticProps :: "site_answers \<Rightarrow> (string \<times> string) list \<Rightarrow> nat asking" where
  "getAccountStaticProps api params =
     (let accountId = (if truthy (map_of params ''accountId'') then map_of params ''accountId'' else None)
      in andThen (getSiteServerHelpers api) (\<lambda>siteInfo.
           andThen (prefetch (QAccount accountId)) (\<lambda>u.
             andThen (case accountId of None \<Rightarrow> given () | Some a \<Rightarrow> prefetch (QAccountPublications a)) (\<lambda>u.
               andThen (prefetchSiteInfo api) (\<lambda>i. given (30 * 60))))))"

section \<open>Paths\<close>

lemma plain_segmentD:
  assumes "plain_segment s" "c \<in> set s"
  shows "\<not> path_set c" "c \<noteq> CHR ''/''" "c \<noteq> CHR 0x5C" "\<not> tab_or_newline c" "c \<noteq> CHR ''?''" "c \<noteq> CHR ''#''"
proof -
  show p: "\<not> path_set c" and "c \<noteq> CHR ''/''" and "c \<noteq> CHR 0x5C" using assms unfolding plain_segment_def by blast+
  then have q: "\<not> query_set c" by (simp add: path_set_def)
  then have "\<not> c0_control c" by (simp add: query_set_def)
  then show "\<not> tab_or_newline c" by (auto simp: tab_or_newline_def c0_control_def)
  show "c \<noteq> CHR ''#''" using q by (auto simp: query_set_def)
  show "c \<noteq> CHR ''?''" using p by (auto simp: path_set_def)
qed

lemma plain_segment_kept: "plain_segment s \<Longrightarrow> \<not> single_dot s \<and> \<not> double_dot s \<and> encode_with path_set s = s"
proof -
  assume s: "plain_segment s"
  then have "CHR ''%'' \<notin> set s" "s \<noteq> ''.''" "s \<noteq> ''..''" unfolding plain_segment_def by blast+
  then have "\<not> single_dot s \<and> \<not> double_dot s" by (auto simp: single_dot_def double_dot_def)
  moreover have "encode_with path_set s = s" using plain_segmentD(1) [OF s] by (intro encode_with_id)
  ultimately show ?thesis by blast
qed

lemma path_of_join: "segs \<noteq> [] \<Longrightarrow> path_of segs = CHR ''/'' # join ''/'' segs"
  by (simp add: path_of_def concat_slash)

lemma split_path:
  assumes "\<And>s. s \<in> set segs \<Longrightarrow> plain_segment s"
  shows "split_char CHR ''/'' (path_of segs) = [] # (if segs = [] then [[]] else segs)"
proof (cases "segs = []")
  case False
  then have "split_char CHR ''/'' (join ''/'' segs) = segs"
    using plain_segmentD(2) [OF assms] by (intro split_by_join) auto
  with False show ?thesis by (simp add: path_of_join)
qed (simp add: path_of_def)

text \<open>A path of plain segments is kept by the URL class.\<close>

lemma set_pathname_plain:
  assumes "\<And>s. s \<in> set segs \<Longrightarrow> plain_segment s"
  shows "set_pathname (path_of segs) = path_of segs"
proof (cases "segs = []")
  case True
  have "set_pathname (path_of []) = path_of []" by code_simp
  with True show ?thesis by simp
next
  case False
  let ?j = "join ''/'' segs"
  have "c = CHR ''/'' \<or> (\<exists>s \<in> set segs. c \<in> set s)" if "c \<in> set ?j" for c using set_join_subset [OF that] by auto
  then have c: "c = CHR ''/'' \<or> \<not> tab_or_newline c \<and> c \<noteq> CHR 0x5C" if "c \<in> set ?j" for c
    using plain_segmentD(3,4) [OF assms] that by blast
  have "\<not> tab_or_newline CHR ''/''" by code_simp
  then have "filter (\<lambda>c. \<not> tab_or_newline c) ?j = ?j" using c by (intro filter_True) auto
  moreover have "map (\<lambda>c. if c = CHR 0x5C then CHR ''/'' else c) ?j = ?j" using c by (intro map_idI) auto
  moreover have "split_char CHR ''/'' ?j = segs" using split_path [of segs] assms False by (simp add: path_of_join)
  moreover have "norm_path [] segs = segs" using norm_path_plain [of segs "[]"] plain_segment_kept [OF assms] by simp
  ultimately show ?thesis using False \<open>\<not> tab_or_newline CHR ''/''\<close>
    by (simp add: path_of_join set_pathname_def Let_def starts_with_def concat_slash)
qed

section \<open>Finding pages\<close>

lemmas page_defs = index_page_def path_page_def path_version_page_def account_page_def doc_page_def
  doc_version_page_def doc_variants_page_def group_page_def group_path_page_def group_path_version_page_def

lemma route_found:
  assumes "routes_by_file route" "\<And>s. s \<in> set segs \<Longrightarrow> plain_segment s"
    and p: "p \<in> set site_pages" "fits (pg_file p) segs = Some params"
    and best: "\<forall>q \<in> set site_pages. fits (pg_file q) segs \<noteq> None \<longrightarrow> q = p \<or> more_specific (pg_file p) (pg_file q)"
  shows "route (path_of segs) = Some (p, params)"
proof (cases "route (path_of segs)")
  case None
  then show ?thesis using assms(1,2) p unfolding routes_by_file_def by fastforce
next
  case (Some r)
  obtain q ps where r: "r = (q, ps)" by (cases r)
  have q: "q \<in> set site_pages" "fits (pg_file q) segs = Some ps" "\<not> more_specific (pg_file p) (pg_file q)"
    using assms(1,2) p Some r unfolding routes_by_file_def by fastforce+
  then have "q = p" using best by auto
  with q p Some r show ?thesis by simp
qed

text \<open>The first segments that file names give.\<close>

definition reserved :: "string list" where
  "reserved = [''404'', ''500'', ''download-mintter-hypermedia'', ''api'', ''connect-peer'', ''hypermedia-connect'',
     ''secret-invite'', ''a'', ''d'', ''g'', ''ipfs'']"

lemma routes_found:
  assumes r: "routes_by_file route" and plain: "plain_segment e" "plain_segment v" "plain_segment p" "plain_segment b"
  shows "route (path_of [''d'', e]) = Some (doc_page, [(''docEid'', e)])"
    "route (path_of [''d'', e, v]) = Some (doc_version_page, [(''docEid'', e), (''versionId'', v)])"
    "route (path_of [''d'', e, v, b]) = Some (doc_variants_page, [(''docEid'', e), (''versionId'', v), (''variants'', b)])"
    "route (path_of [''g'', e, p]) = Some (group_path_page, [(''groupEid'', e), (''pathName'', p)])"
    "route (path_of [''g'', e, p, v]) = Some (group_path_version_page, [(''groupEid'', e), (''pathName'', p), (''versionId'', v)])"
    "p \<notin> set reserved \<Longrightarrow> route (path_of [p]) = Some (path_page, [(''pathName'', p)])"
    "p \<notin> set reserved \<Longrightarrow> route (path_of [p, v]) = Some (path_version_page, [(''pathName'', p), (''versionId'', v)])"
proof -
  have l: "plain_segment ''d''" "plain_segment ''g''" by code_simp+
  note found = route_found [OF r]
  show "route (path_of [''d'', e]) = Some (doc_page, [(''docEid'', e)])"
    by (rule found) (use l plain in \<open>auto simp: site_pages_def other_pages_def page_defs\<close>)
  show "route (path_of [''d'', e, v]) = Some (doc_version_page, [(''docEid'', e), (''versionId'', v)])"
    by (rule found) (use l plain in \<open>auto simp: site_pages_def other_pages_def page_defs\<close>)
  show "route (path_of [''d'', e, v, b]) = Some (doc_variants_page, [(''docEid'', e), (''versionId'', v), (''variants'', b)])"
    by (rule found) (use l plain in \<open>auto simp: site_pages_def other_pages_def page_defs\<close>)
  show "route (path_of [''g'', e, p]) = Some (group_path_page, [(''groupEid'', e), (''pathName'', p)])"
    by (rule found) (use l plain in \<open>auto simp: site_pages_def other_pages_def page_defs\<close>)
  show "route (path_of [''g'', e, p, v]) = Some (group_path_version_page, [(''groupEid'', e), (''pathName'', p), (''versionId'', v)])"
    by (rule found) (use l plain in \<open>auto simp: site_pages_def other_pages_def page_defs\<close>)
  assume own: "p \<notin> set reserved"
  show "route (path_of [p]) = Some (path_page, [(''pathName'', p)])"
    by (rule found) (use own plain in \<open>auto simp: reserved_def site_pages_def other_pages_def page_defs\<close>)
  show "route (path_of [p, v]) = Some (path_version_page, [(''pathName'', p), (''versionId'', v)])"
    by (rule found) (use own plain in \<open>auto simp: reserved_def site_pages_def other_pages_def page_defs\<close>)
qed

section \<open>Rewritten paths\<close>

definition given_part :: "string option \<Rightarrow> string list" where
  "given_part v = (if truthy v then [the v] else [])"

lemma new_pathnames:
  "p \<noteq> [] \<Longrightarrow> new_pathname [[], p] v b = Some (path_of (p # given_part v))"
  "new_pathname [[], []] v b = Some (path_of (''-'' # given_part v))"
  "new_pathname [[], ''d'', e] v b = Some (path_of (''d'' # e # given_part v
     @ (if truthy v then map replaceSlashes (given_part b) else [])))"
  "p \<noteq> [] \<Longrightarrow> new_pathname [[], ''g'', e, p] v b = Some (path_of (''g'' # e # p # given_part v))"
  "new_pathname [[], ''g'', e] v b = Some (path_of (''g'' # e # ''-'' # given_part v))"
  by (auto simp: new_pathname_def path_of_def given_part_def show_undef_def truthy_def nth_opt_nth split: option.splits)

lemma page_rewritten:
  assumes "\<And>s. s \<in> set segs \<Longrightarrow> plain_segment s" "\<And>s. s \<in> set new \<Longrightarrow> plain_segment s"
    and "segs \<noteq> [''.well-known'', ''hypermedia-site'']" "nth_opt segs 0 \<noteq> Some ''ipfs''"
    and "new_pathname ([] # (if segs = [] then [[]] else segs)) (params_get (search_params (Some search)) ''v'')
      (params_get (search_params (Some search)) ''b'') = Some (path_of new)"
  shows "page_for route (path_of segs, search) = route (path_of new)"
proof -
  have terms: "split_char CHR ''/'' (path_of segs) = [] # (if segs = [] then [[]] else segs)"
    using assms(1) by (rule split_path)
  have "path_of segs \<noteq> ''/.well-known/hypermedia-site''"
  proof
    assume "path_of segs = ''/.well-known/hypermedia-site''"
    then have "[] # (if segs = [] then [[]] else segs) = split_char CHR ''/'' ''/.well-known/hypermedia-site''"
      using terms by simp
    with assms(3) show False by (simp split: if_splits)
  qed
  moreover have "nth_opt ([] # (if segs = [] then [[]] else segs)) 1 \<noteq> Some ''ipfs''" using assms(4) by (cases segs) auto
  moreover have "set_pathname (path_of new) = path_of new" using assms(2) by (rule set_pathname_plain)
  ultimately show ?thesis using assms(5) terms by (simp add: page_for_def middleware_def Let_def)
qed

section \<open>Links as requests\<close>

lemma serialize_pairs:
  "serializeQueryString qs = (let s = join ''&'' (map query_pair qs) in if s = [] then [] else CHR ''?'' # s)"
  by (simp only: serializeQueryString_def query_pair_def)

lemma search_params_serialized:
  assumes "query_ok qs"
  shows "search_params (Some (serializeQueryString qs)) = map (\<lambda>(k, v). (k, case v of None \<Rightarrow> [] | Some x \<Rightarrow> x)) qs"
proof (cases "qs = []")
  case True
  then show ?thesis by (simp add: serializeQueryString_def search_params_def)
next
  case False
  let ?s = "join ''&'' (map query_pair qs)"
  have pairs: "\<And>kv. kv \<in> set qs \<Longrightarrow> query_pair kv \<noteq> []" using query_pair_ok(1) [OF assms] .
  obtain kv kvs where "qs = kv # kvs" using False by (cases qs) auto
  then have "?s \<noteq> []" using pairs by (cases kvs) auto
  moreover have "CHR ''?'' \<notin> set ?s"
  proof
    assume "CHR ''?'' \<in> set ?s"
    then obtain kv where kv: "kv \<in> set qs" "CHR ''?'' \<in> set (query_pair kv)"
      using set_join_subset [of _ "''&''" "map query_pair qs"] by fastforce
    from query_pair_ok(2) [OF assms kv(1)] kv(2) show False by (auto simp: qval_ok_def qval_char_def)
  qed
  then have "\<not> starts_with ?s ''?''" by (cases ?s) (auto simp: starts_with_def)
  moreover have "serializeQueryString qs = (if ?s = [] then [] else CHR ''?'' # ?s)"
    by (simp add: serialize_pairs Let_def)
  moreover note search_params_join [OF assms False]
  ultimately show ?thesis by (simp add: search_params_def starts_with_def)
qed

lemma query_chars: "query_ok qs \<Longrightarrow> c \<in> set (serializeQueryString qs) \<Longrightarrow> c \<noteq> CHR ''#''"
proof
  assume qs: "query_ok qs" "c \<in> set (serializeQueryString qs)" and c: "c = CHR ''#''"
  then have "CHR ''#'' \<in> set (join ''&'' (map query_pair qs))" by (auto simp: serialize_pairs Let_def split: if_splits)
  then obtain kv where kv: "kv \<in> set qs" "CHR ''#'' \<in> set (query_pair kv)"
    using set_join_subset [of _ "''&''" "map query_pair qs"] by fastforce
  from query_pair_ok(2) [OF qs(1) kv(1)] kv(2) show False by (auto simp: qval_ok_def qval_char_def)
qed

lemma site_request_link:
  assumes "query_ok qs" "\<And>c. c \<in> set p \<Longrightarrow> c \<noteq> CHR ''?'' \<and> c \<noteq> CHR ''#''"
  shows "site_request (p @ serializeQueryString qs @ hm_fragment b r) = (p, serializeQueryString qs)"
proof -
  let ?q = "serializeQueryString qs"
  have no_hash: "CHR ''#'' \<notin> set (p @ ?q)" using assms(2) query_chars [OF assms(1)] by auto
  have "fst (cut CHR ''#'' (p @ ?q @ hm_fragment b r)) = p @ ?q"
  proof (cases "truthy_str b")
    case None
    then show ?thesis using cut_none [OF no_hash] by (simp add: hm_fragment_def)
  next
    case (Some x)
    then show ?thesis using cut_append [OF no_hash] by (simp add: hm_fragment_def)
  qed
  moreover have "cut CHR ''?'' (p @ ?q) = (p, if ?q = [] then None else Some (tl ?q))"
  proof (cases "?q = []")
    case True
    then show ?thesis using assms(2) by (auto intro!: cut_none)
  next
    case False
    then have "?q = CHR ''?'' # tl ?q" by (auto simp: serialize_pairs Let_def)
    moreover have "cut CHR ''?'' (p @ CHR ''?'' # tl ?q) = (p, Some (tl ?q))" using assms(2) by (intro cut_append) auto
    ultimately show ?thesis using False by metis
  qed
  moreover have "?q = [] \<or> (tl ?q \<noteq> [] \<and> CHR ''?'' # tl ?q = ?q)" by (auto simp: serialize_pairs Let_def)
  ultimately show ?thesis by (auto simp: site_request_def)
qed

lemma query_value:
  assumes "distinct (map fst (search_params (Some search)))" "router_query True params search query" "map_of params k = None"
  shows "query k = map_option OneString (map_of (search_params (Some search)) k)"
proof -
  have one: "map snd (filter (\<lambda>p. fst p = k) ps) = (case map_of ps k of None \<Rightarrow> [] | Some x \<Rightarrow> [x])"
    if "distinct (map fst ps)" for ps :: "(string \<times> string) list"
    using that by (induction ps) (auto simp: filter_empty_conv map_of_eq_None_iff image_iff split: option.splits)
  show ?thesis using assms(2,3) one [OF assms(1)]
    by (auto simp: router_query_def query_values_def split: option.splits)
qed

lemma replaceSlashes_variants: "parseVariantsQuery (Some (OneString (replaceSlashes s))) = parseVariantsQuery (Some (OneString s))"
proof -
  have parse: "parse_variant (replaceSlashes s) = parse_variant s" for s
  proof -
    have "split_by (\<lambda>c. c = CHR '':'' \<or> c = CHR ''/'') (replaceSlashes s) = split_by (\<lambda>c. c = CHR '':'' \<or> c = CHR ''/'') s"
      by (induction s) (auto simp: replaceSlashes_def split: list.splits)
    then show ?thesis by (auto simp: parse_variant_def replaceSlashes_def)
  qed
  have "split_char CHR ''.'' (replaceSlashes s) = map replaceSlashes (split_char CHR ''.'' s)"
    by (induction s) (auto simp: replaceSlashes_def split: list.splits)
  then show ?thesis by (simp add: parseVariantsQuery_def parse o_def) (simp add: replaceSlashes_def)
qed
end
