(* ===== verification/Site_Views.thy ===== *)
theory Site_Views
  imports Site_Pages
begin

text \<open>
  What the pages of the web site show (\<^verbatim>\<open>frontend/apps/site/src\<close>: \<^verbatim>\<open>doc-page.tsx\<close>,
  \<^verbatim>\<open>group-doc-page.tsx\<close>, \<^verbatim>\<open>group-page.tsx\<close>, \<^verbatim>\<open>publication-page.tsx\<close>,
  \<^verbatim>\<open>account-page.tsx\<close>): which queries they read, which of several views they choose, where their links go.
  A page that the server renders sees the queries asked before it.
\<close>

section \<open>What a page reads\<close>

type_synonym page_query = "string \<Rightarrow> variants_input option"

text \<open>A key that is repeated in the query is read as its text, joined by commas.\<close>

definition query_string :: "page_query \<Rightarrow> string \<Rightarrow> string" where
  "query_string query k = (case query k of None \<Rightarrow> [] | Some (OneString s) \<Rightarrow> s | Some (ManyStrings xs) \<Rightarrow> join '','' xs)"

text \<open>A query that has no data is loading, or is not enabled, or has failed.\<close>

datatype 'a query_state = Loading | NoData | Data 'a

record page_data =
  d_siteInfo :: "site_info option"
  d_group :: "string \<Rightarrow> string option \<Rightarrow> site_group option"
  d_content :: "string \<Rightarrow> string \<Rightarrow> content_item option list query_state"

text \<open>What the server has asked is in the state of the page it renders, unless it failed.\<close>

definition rendered_with :: "site_answers \<Rightarrow> site_query list \<Rightarrow> page_data" where
  "rendered_with api asked =
     \<lparr>d_siteInfo = (if QSiteInfo \<in> set asked then (case a_siteInfo api of Inr i \<Rightarrow> i | Inl e \<Rightarrow> None) else None),
      d_group = (\<lambda>gid v. if QGroup gid v \<in> set asked then (case a_group api gid v of Inr g \<Rightarrow> g | Inl e \<Rightarrow> None) else None),
      d_content = (\<lambda>gid v. if QContent gid v \<in> set asked
         then (case a_content api gid v of Inr c \<Rightarrow> Data c | Inl e \<Rightarrow> Loading) else Loading)\<rparr>"

section \<open>Document pages\<close>

record publication_props =
  pp_pathName :: "string option"
  pp_documentId :: string
  pp_version :: "string option"
  pp_variants :: "publication_variant list option"
  pp_latest :: bool

definition DocPage :: "page_query \<Rightarrow> publication_props" where
  "DocPage query =
     \<lparr>pp_pathName = None,
      pp_documentId = createHmId ''d'' (query_string query ''docEid'') no_opts,
      pp_version = Some (query_string query ''versionId''),
      pp_variants = parseVariantsQuery (query ''b''),
      pp_latest = (query ''l'' \<noteq> None)\<rparr>"

text \<open>The query for its publication.\<close>

definition publication_query :: "publication_props \<Rightarrow> variant_query" where
  "publication_query props =
     \<lparr>vq_documentId = pp_documentId props, vq_versionId = Some (or_else (pp_version props) []),
      vq_variants = pp_variants props, vq_latest = pp_latest props\<rparr>"

section \<open>Group pages\<close>

definition shown_group :: "page_data \<Rightarrow> page_query \<Rightarrow> string \<times> string option" where
  "shown_group data query =
     (let queryVersion = query_string query ''versionId''; queryGroupEid = query_string query ''groupEid'';
          groupEid = (if queryGroupEid \<noteq> [] then queryGroupEid
            else (case d_siteInfo data of None \<Rightarrow> [] | Some i \<Rightarrow> si_groupEid i));
          requestedVersion = (if queryGroupEid \<noteq> [] \<or> queryVersion \<noteq> [] then Some queryVersion
            else map_option si_version (d_siteInfo data))
      in (groupEid, requestedVersion))"

text \<open>The content of a group that is not loaded is not asked for.\<close>

definition shown_content :: "(string \<Rightarrow> bool) \<Rightarrow> page_data \<Rightarrow> string \<Rightarrow> site_group option \<Rightarrow> content_item option list query_state" where
  "shown_content enabled data gid g = (case g of None \<Rightarrow> NoData
     | Some grp \<Rightarrow> if enabled (gi_version grp) \<or> d_content data gid (gi_version grp) \<noteq> Loading
         then d_content data gid (gi_version grp) else NoData)"

datatype GroupView = FrontView | ListView

definition getGroupView :: "variants_input option \<Rightarrow> GroupView option" where
  "getGroupView inp = (if inp = Some (OneString ''front'') then Some FrontView
     else if inp = Some (OneString ''list'') then Some ListView else None)"

text \<open>The link to an item of a group: its path as it is in the group of the site.\<close>

definition useGroupContentUrl :: "site_info option \<Rightarrow> string option \<Rightarrow> string option \<Rightarrow> string option \<Rightarrow> string option" where
  "useGroupContentUrl siteInfo groupEid groupVersion path =
     (case groupEid of None \<Rightarrow> None | Some e \<Rightarrow>
        if e = [] then None
        else if map_option si_groupEid siteInfo = Some e then path
        else Some (groupDocUrl e (case groupVersion of None \<Rightarrow> Undefined | Some v \<Rightarrow> Val v)
          (if truthy path then the path else ''/'') Absent))"

record item_link =
  il_title :: string
  il_url :: string

definition GroupContentItem :: "site_info option \<Rightarrow> site_group option \<Rightarrow> content_item \<Rightarrow> item_link option" where
  "GroupContentItem siteInfo g i =
     (let gid = (case g of None \<Rightarrow> None | Some grp \<Rightarrow> if gi_id grp = [] then None else unpackHmId (gi_id grp));
          contentUrl = useGroupContentUrl siteInfo (case gid of None \<Rightarrow> None | Some u \<Rightarrow> u_eid u)
            (map_option gi_version g) (Some (ci_pathName i));
          title = (case ci_publication i of None \<Rightarrow> [] | Some p \<Rightarrow> (case pb_document p of None \<Rightarrow> [] | Some d \<Rightarrow> pd_title d))
      in if truthy contentUrl
         then Some \<lparr>il_title = (if title = [] then ci_pathName i else title), il_url = the contentUrl\<rparr> else None)"

datatype group_part =
  CategoryPart string
| FrontDocument "content_item option"
| Listing "string option" "item_link list"

datatype site_view =
  ErrorPage string
| NotFoundPage
| Spinner
| GroupParts "group_part list"
| PublicationPage publication_props

definition group_items :: "content_item option list query_state \<Rightarrow> content_item option list" where
  "group_items c = (case c of Data items \<Rightarrow> items | _ \<Rightarrow> [])"

definition listView :: "site_info option \<Rightarrow> string \<Rightarrow> site_group option \<Rightarrow> content_item option list \<Rightarrow> group_part" where
  "listView siteInfo groupEid g items =
     Listing (if Some groupEid = map_option si_groupEid siteInfo then Some [] else map_option gi_title g)
       (List.map_filter (\<lambda>i. case i of None \<Rightarrow> None | Some item \<Rightarrow>
          if ci_pathName item = ''/'' then None else GroupContentItem siteInfo g item) items)"

definition GroupPage :: "page_data \<Rightarrow> page_query \<Rightarrow> site_view" where
  "GroupPage data query =
     (let (groupEid, requestedVersion) = shown_group data query;
          gid = createHmId ''g'' groupEid no_opts;
          g = d_group data gid requestedVersion;
          items = group_items (shown_content (\<lambda>v. True) data gid g);
          lst = listView (d_siteInfo data) groupEid g items;
          frontPageItem = item_at ''/'' items;
          category = query_string query ''category'';
          view = getGroupView (query ''view'')
      in if (case d_siteInfo data of None \<Rightarrow> True | Some i \<Rightarrow> si_groupEid i = []) then
           ErrorPage ''Your site is ready to launch''
         else GroupParts (if category \<noteq> [] then [CategoryPart category]
           else if view = Some FrontView then [FrontDocument frontPageItem]
           else if view = Some ListView then [lst]
           else if frontPageItem \<noteq> None then [FrontDocument frontPageItem, lst]
           else [lst]))"

definition GroupDocPage :: "page_data \<Rightarrow> page_query \<Rightarrow> site_view" where
  "GroupDocPage data query =
     (let path = query_string query ''pathName'';
          (groupEid, requestedVersion) = shown_group data query;
          gid = createHmId ''g'' groupEid no_opts;
          g = d_group data gid requestedVersion;
          content = shown_content (\<lambda>v. v \<noteq> []) data gid g
      in if path = ''-'' then GroupPage data query
         else if g = None then ErrorPage ''Group not found''
         else (case content of Loading \<Rightarrow> Spinner | NoData \<Rightarrow> NotFoundPage
           | Data items \<Rightarrow> (case item_at path items of None \<Rightarrow> NotFoundPage
               | Some i \<Rightarrow> PublicationPage
                   \<lparr>pp_pathName = Some path,
                    pp_documentId = createHmId ''d'' (show_undef (u_eid (ci_docId i))) no_opts,
                    pp_version = map_option pb_version (ci_publication i),
                    pp_variants = Some [GroupVariant gid (Some path)],
                    pp_latest = True\<rparr>)))"

section \<open>Publications\<close>

record shown_publication =
  sp_entityUrl :: "string option"
  sp_openInApp :: string
  sp_groupSide :: bool
  sp_publication :: "page_pub option"

datatype publication_screen =
  DiscoveryPage "string option"
| EntityNotFoundPage string
| PublicationShown shown_publication

definition or_undef :: "'a option \<Rightarrow> 'a jsval" where
  "or_undef v = (case v of None \<Rightarrow> Undefined | Some x \<Rightarrow> Val x)"

definition props_opts :: "publication_props \<Rightarrow> hm_opts" where
  "props_opts props = no_opts\<lparr>o_version := or_undef (pp_version props), o_variants := or_undef (pp_variants props)\<rparr>"

text \<open>An entity id made again from its parts.\<close>

definition remade :: "UnpackedHypermediaId \<Rightarrow> hm_opts \<Rightarrow> string" where
  "remade u opts = createHmId (u_type u) (show_undef (u_eid u)) opts"

text \<open>
  \<open>enableDiscovery\<close> is false while there is no answer; \<open>contextGroup\<close> is the group of the
  variant, when it is there.
\<close>

definition publication_page ::
  "publication_props \<Rightarrow> page_pub option \<Rightarrow> bool \<Rightarrow> bool \<Rightarrow> site_group option \<Rightarrow> publication_screen result" where
  "publication_page props pub enableDiscovery isLoading contextGroup =
     (let variants = (case pp_variants props of None \<Rightarrow> [] | Some vs \<Rightarrow> vs);
          authors = filter (\<lambda>v. case v of AuthorVariant a \<Rightarrow> True | GroupVariant g q \<Rightarrow> False) variants;
          groups = filter (\<lambda>v. case v of AuthorVariant a \<Rightarrow> False | GroupVariant g q \<Rightarrow> True) variants
      in if authors \<noteq> [] \<and> groups \<noteq> [] then Inl (Error ''Cannot have both author and group variants'')
         else if length groups > 1 then Inl (Error ''Cannot have multiple group variants'')
         else
         (let groupUrl = (case groups of [] \<Rightarrow> [] | v # vs \<Rightarrow> groupId v);
              gid = (if groupUrl = [] then None else unpackHmId groupUrl);
              pubUrl = (case pub of None \<Rightarrow> [] | Some p \<Rightarrow> (case pb_document p of None \<Rightarrow> [] | Some d \<Rightarrow> pd_id d));
              pubId = (if pubUrl = [] then None else unpackHmId pubUrl);
              ident = unpackHmId (pp_documentId props);
              groupVersion = or_undef (map_option gi_version contextGroup)
          in if pub = None \<and> enableDiscovery then
               Inr (DiscoveryPage (map_option (\<lambda>u. remade u (props_opts props)) ident))
             else if pub = None \<and> \<not> isLoading \<and> ident \<noteq> None then
               Inr (EntityNotFoundPage (remade (the ident) (props_opts props)))
             else Inr (PublicationShown
               \<lparr>sp_entityUrl = (case pubId of None \<Rightarrow> None | Some u \<Rightarrow>
                  Some (case gid of
                      Some g \<Rightarrow> createHmId ''g'' (show_undef (u_eid g))
                        (no_opts\<lparr>o_version := groupVersion, o_groupPathName := or_undef (pp_pathName props)\<rparr>)
                    | None \<Rightarrow> createHmId ''d'' (show_undef (u_eid u))
                        (no_opts\<lparr>o_version := or_undef (map_option pb_version pub)\<rparr>))),
                sp_openInApp =
                  (if truthy (map_option gi_id contextGroup) \<and> truthy (pp_pathName props)
                   then createHmGroupDocLink (gi_id (the contextGroup)) (the (pp_pathName props)) groupVersion Absent Absent
                   else createHmDocLink (pp_documentId props)
                     (no_opts\<lparr>o_version := or_undef (map_option pb_version pub), o_variants := or_undef (pp_variants props)\<rparr>)),
                sp_groupSide = (truthy (map_option gi_version contextGroup) \<and> truthy (case gid of None \<Rightarrow> None | Some g \<Rightarrow> u_eid g)),
                sp_publication = pub\<rparr>)))"

section \<open>Accounts\<close>

text \<open>\<open>String\<close> of a missing parameter is \<open>undefined\<close>.\<close>

definition account_queries :: "page_query \<Rightarrow> site_query list" where
  "account_queries query =
     (let accountId = (if query ''accountId'' = None then ''undefined'' else query_string query ''accountId'')
      in [QAccount (Some accountId), QAccountPublications accountId])"

section \<open>Links to documents\<close>

text \<open>Options whose values fit into segments of a path.\<close>

definition plain_options :: "hm_opts \<Rightarrow> bool" where
  "plain_options opts \<longleftrightarrow> (\<forall>v. truthy_str (o_version opts) = Some v \<longrightarrow> plain_segment v) \<and>
     (\<forall>vs. js_get (o_variants opts) = Some vs \<and> vs \<noteq> [] \<longrightarrow> plain_segment (replaceSlashes (getVariantsParamValue vs)))"

lemma doc_link_request:
  assumes "seg_ok e" "opts_ok opts" "o_hostname opts = Null"
  shows "site_request (createPublicWebHmUrl ''d'' e opts)
    = (path_of [''d'', e], serializeQueryString (hm_query (o_version opts) (o_variants opts) (o_latest opts)))"
proof -
  have e: "c \<noteq> CHR ''?'' \<and> c \<noteq> CHR ''#''" if "c \<in> set (path_of [''d'', e])" for c
    using that assms(1) seg_charD(8,9) by (fastforce simp: path_of_def seg_ok_def)
  have "createPublicWebHmUrl ''d'' e opts = path_of [''d'', e]
      @ serializeQueryString (hm_query (o_version opts) (o_variants opts) (o_latest opts))
      @ hm_fragment (o_blockRef opts) (o_blockRange opts)"
    by (simp add: createPublicWebHmUrl_def path_of_def assms(3))
  then show ?thesis using site_request_link [OF hm_query_ok(1) [OF assms(2)], of "path_of [''d'', e]"] e by simp
qed

lemma hm_query_keys:
  fixes version variants latest
  defines "ps \<equiv> map (\<lambda>(k, v). (k, case v of None \<Rightarrow> [] | Some x \<Rightarrow> x)) (hm_query version variants latest)"
  shows "distinct (map fst ps)" and "k \<notin> {''v'', ''b'', ''l''} \<Longrightarrow> map_of ps k = None"
    and "map_of ps ''b'' = (case js_get variants of None \<Rightarrow> None | Some vs \<Rightarrow> if vs = [] then None else Some (getVariantsParamValue vs))"
  by (auto simp: ps_def hm_query_def split: option.splits)

lemma doc_link_page:
  assumes route: "routes_by_file route" and e: "plain_segment e" and search: "search_params (Some search) = ps"
    and v: "\<And>x. map_of ps ''v'' = Some x \<Longrightarrow> x \<noteq> [] \<Longrightarrow> plain_segment x"
    and b: "\<And>x. map_of ps ''b'' = Some x \<Longrightarrow> x \<noteq> [] \<Longrightarrow> plain_segment (replaceSlashes x)"
  shows "\<exists>page. page_for route (path_of [''d'', e], search) = Some (page,
      (''docEid'', e) # (if truthy (map_of ps ''v'') then (''versionId'', the (map_of ps ''v'')) #
         (if truthy (map_of ps ''b'') then [(''variants'', replaceSlashes (the (map_of ps ''b'')))] else []) else []))
    \<and> pg_view page = DocPageView \<and> pg_props page = DocProps"
proof -
  let ?v = "map_of ps ''v''" and ?b = "map_of ps ''b''"
  let ?new = "''d'' # e # given_part ?v @ (if truthy ?v then map replaceSlashes (given_part ?b) else [])"
  have d: "plain_segment ''d''" by code_simp
  have new: "plain_segment s" if "s \<in> set ?new" for s
    using that d e v b by (auto simp: given_part_def truthy_def split: if_splits option.splits)
  have page: "page_for route (path_of [''d'', e], search) = route (path_of ?new)"
  proof (rule page_rewritten)
    show "new_pathname ([] # (if [''d'', e] = [] then [[]] else [''d'', e])) (params_get (search_params (Some search)) ''v'')
      (params_get (search_params (Some search)) ''b'') = Some (path_of ?new)"
      using new_pathnames(3) by (simp add: search params_get_def)
  qed (use d e new in auto)
  note found = routes_found [OF route e]
  have views: "pg_view doc_page = DocPageView" "pg_props doc_page = DocProps" "pg_view doc_version_page = DocPageView"
      "pg_props doc_version_page = DocProps" "pg_view doc_variants_page = DocPageView" "pg_props doc_variants_page = DocProps"
    by (simp_all add: page_defs)
  show ?thesis
  proof (cases "truthy ?v")
    case False
    with page found(1) [OF d d d] views show ?thesis by (simp add: given_part_def)
  next
    case True
    then have pv: "plain_segment (the ?v)" using v by (auto simp: truthy_def split: option.splits)
    show ?thesis
    proof (cases "truthy ?b")
      case False
      with True page found(2) [OF pv d d] views show ?thesis by (simp add: given_part_def)
    next
      case True
      then have "plain_segment (replaceSlashes (the ?b))" using b by (auto simp: truthy_def split: option.splits)
      with True \<open>truthy ?v\<close> page found(3) [OF pv d] views show ?thesis by (simp add: given_part_def)
    qed
  qed
qed

text \<open>The queries a link to a document should lead to.\<close>

definition link_query :: "string \<Rightarrow> string jsval \<Rightarrow> publication_variant list option \<Rightarrow> bool \<Rightarrow> variant_query" where
  "link_query e version variants latest =
     \<lparr>vq_documentId = createHmId ''d'' e no_opts,
      vq_versionId = Some (case truthy_str version of None \<Rightarrow> [] | Some v \<Rightarrow> v),
      vq_variants = variants, vq_latest = latest\<rparr>"

text \<open>
  C19. A link to a document on this site, with any version, variants, latest flag, block and range, leads
  through the middleware and the files to the page for documents. Once hydrated, the page asks for that document
  with exactly this version, these variants and this flag. The server has asked for the same before only
  without the flag, and with the variants only when the link has a version; what the server itself renders
  never asks for variants.
\<close>

theorem doc_links_served:
  assumes "routes_by_file route" "seg_ok e" "plain_segment e" "opts_ok opts" "plain_options opts" "o_hostname opts = Null"
  shows "let req = site_request (createPublicWebHmUrl ''d'' e opts);
             variants = js_get (given_variants (o_variants opts)) in
    \<exists>page params. page_for route req = Some (page, params) \<and> pg_view page = DocPageView \<and> pg_props page = DocProps \<and>
      doc_query params = link_query e (o_version opts) (if truthy_str (o_version opts) = None then None else variants) False \<and>
      (\<forall>query. router_query True params (snd req) query \<longrightarrow>
         publication_query (DocPage query) = link_query e (o_version opts) variants (js_get (o_latest opts) = Some True)) \<and>
      (\<forall>query. router_query False params (snd req) query \<longrightarrow>
         publication_query (DocPage query) = link_query e (o_version opts) None False)"
proof -
  define qs where "qs = hm_query (o_version opts) (o_variants opts) (o_latest opts)"
  define ps where "ps = map (\<lambda>(k, v). (k, case v of None \<Rightarrow> [] | Some x \<Rightarrow> x)) qs"
  let ?v = "truthy_str (o_version opts)" and ?b = "map_of ps ''b''"
  let ?search = "serializeQueryString qs"
  let ?vars = "js_get (given_variants (o_variants opts))"
  have req: "site_request (createPublicWebHmUrl ''d'' e opts) = (path_of [''d'', e], ?search)"
    using doc_link_request [OF assms(2,4,6)] by (simp add: qs_def)
  have search: "search_params (Some ?search) = ps"
    using search_params_serialized hm_query_ok(1) [OF assms(4)] by (simp add: ps_def qs_def)
  have v: "map_of ps ''v'' = ?v" and l: "(map_of ps ''l'' \<noteq> None) = (js_get (o_latest opts) = Some True)"
    using hm_query_ok(2,4) [OF assms(4)] by (simp_all add: ps_def qs_def)
  have b: "of_option (parseVariantsQuery (map_option OneString ?b)) = given_variants (o_variants opts)"
    using hm_query_ok(3) [OF assms(4)] by (simp add: ps_def qs_def)
  have vars: "parseVariantsQuery (map_option OneString ?b) = ?vars"
    unfolding b [symmetric] by (cases "parseVariantsQuery (map_option OneString ?b)") auto
  have bkey: "?b = (case js_get (o_variants opts) of None \<Rightarrow> None
      | Some vs \<Rightarrow> if vs = [] then None else Some (getVariantsParamValue vs))"
    using hm_query_keys(3) by (simp add: ps_def qs_def)
  have plain_b: "plain_segment (replaceSlashes x)" if "?b = Some x" for x
    using that assms(5) bkey by (auto simp: plain_options_def split: option.splits if_splits)
  have ne_b: "x \<noteq> []" if "?b = Some x" for x
    using plain_b [OF that] by (auto simp: plain_segment_def replaceSlashes_def)
  have ne_v: "x \<noteq> [] \<and> plain_segment x" if "?v = Some x" for x
    using that assms(5) by (auto simp: plain_options_def truthy_str_eq_Some)
  define params where "params = (''docEid'', e) # (if truthy ?v then (''versionId'', the ?v) #
      (if truthy ?b then [(''variants'', replaceSlashes (the ?b))] else []) else [])"
  have "\<exists>page. page_for route (path_of [''d'', e], ?search) = Some (page, params) \<and> pg_view page = DocPageView \<and> pg_props page = DocProps"
    using doc_link_page [OF assms(1,3) search] ne_v plain_b unfolding v params_def by blast
  moreover have e: "e \<noteq> []" using assms(2) by (simp add: seg_ok_def)
  have ps: "map_of params ''docEid'' = Some e" "map_of params ''versionId'' = ?v" "map_of params ''b'' = None"
      "map_of params ''l'' = None" "map_of params ''latest'' = None"
      "map_of params ''variants'' = (if ?v = None then None else map_option replaceSlashes ?b)"
    using ne_v ne_b by (cases ?v; cases ?b; auto simp: params_def truthy_def)+
  have "doc_query params = link_query e (o_version opts) (if ?v = None then None else ?vars) False"
  proof -
    have "parseVariantsQuery None = None" by (simp add: parseVariantsQuery_def)
    moreover have "replaceSlashes x \<noteq> []" if "?b = Some x" for x using ne_b [OF that] by (simp add: replaceSlashes_def)
    ultimately show ?thesis using ps e ne_v vars
      by (cases ?v; cases ?b) (auto simp: doc_query_def link_query_def or_else_def truthy_def replaceSlashes_variants)
  qed
  moreover have "publication_query (DocPage query) = link_query e (o_version opts) ?vars (js_get (o_latest opts) = Some True)"
    if q: "router_query True params ?search query" for query
  proof -
    have dist: "distinct (map fst (search_params (Some ?search)))" using hm_query_keys(1) unfolding search by (simp add: ps_def qs_def)
    have no: "map_of ps ''versionId'' = None" using hm_query_keys(2) by (simp add: ps_def qs_def)
    note val = query_value [OF dist q, unfolded search]
    have "query ''docEid'' = Some (OneString e)" using q ps(1) by (simp add: router_query_def)
    moreover have "query ''versionId'' = map_option OneString ?v"
      using q ps(2) val [of "''versionId''"] no by (cases ?v) (auto simp: router_query_def)
    moreover have "query ''b'' = map_option OneString ?b" "query ''l'' = map_option OneString (map_of ps ''l'')"
      using val ps(3,4) by blast+
    ultimately show ?thesis using vars l ne_v
      by (cases ?v) (auto simp: publication_query_def DocPage_def link_query_def query_string_def or_else_def truthy_def)
  qed
  moreover have "publication_query (DocPage query) = link_query e (o_version opts) None False"
    if q: "router_query False params ?search query" for query
    using q ps ne_v
    by (cases ?v) (auto simp: router_query_def publication_query_def DocPage_def link_query_def query_string_def or_else_def
        truthy_def parseVariantsQuery_def)
  ultimately show ?thesis unfolding Let_def req snd_conv by blast
qed

section \<open>A router\<close>

text \<open>The first page that fits is the one the framework documents, since the pages are listed by precedence.\<close>

definition file_route :: site_router where
  "file_route p = (let segs = (if p = ''/'' then [] else tl (split_char CHR ''/'' p))
     in case find (\<lambda>q. fits (pg_file q) segs \<noteq> None) site_pages of
          None \<Rightarrow> None | Some q \<Rightarrow> Some (q, the (fits (pg_file q) segs)))"

lemma file_route_law: "routes_by_file file_route"
  unfolding routes_by_file_def
proof (intro allI impI)
  fix segs
  assume plain: "\<forall>s \<in> set segs. plain_segment s"
  have split: "split_char CHR ''/'' (path_of segs) = [] # (if segs = [] then [[]] else segs)"
    using plain by (intro split_path) blast
  have ne: "path_of segs \<noteq> ''/''" if "segs \<noteq> []"
  proof
    assume "path_of segs = ''/''"
    then have "segs = [[]]" using split that by simp
    then show False using plain by (simp add: plain_segment_def)
  qed
  have segs: "(if path_of segs = ''/'' then [] else tl (split_char CHR ''/'' (path_of segs))) = segs"
    using split ne by (cases "segs = []") (simp_all add: path_of_def)
  let ?P = "\<lambda>q. fits (pg_file q) segs \<noteq> None"
  show "case file_route (path_of segs) of
        None \<Rightarrow> \<forall>p \<in> set site_pages. fits (pg_file p) segs = None
      | Some (p, params) \<Rightarrow> p \<in> set site_pages \<and> fits (pg_file p) segs = Some params \<and>
          (\<forall>q \<in> set site_pages. fits (pg_file q) segs \<noteq> None \<longrightarrow> \<not> more_specific (pg_file q) (pg_file p))"
  proof (cases "find ?P site_pages")
    case None
    have "file_route (path_of segs) = None" unfolding file_route_def Let_def segs None by simp
    with None show ?thesis by (auto simp: find_None_iff)
  next
    case (Some p)
    then obtain i where i: "i < length site_pages" "?P (site_pages ! i)" "p = site_pages ! i"
        "\<And>j. j < i \<Longrightarrow> \<not> ?P (site_pages ! j)"
      by (auto simp: find_Some_iff)
    have order: "sorted_wrt (\<lambda>p q. \<not> more_specific (pg_file q) (pg_file p)) site_pages"
      by (simp add: site_pages_def other_pages_def page_defs)
    have irrefl: "\<not> more_specific f f" for f
    proof (induction f)
      case (Cons l f)
      then show ?case by (cases l) auto
    qed simp
    have "\<not> more_specific (pg_file q) (pg_file p)" if q: "q \<in> set site_pages" "?P q" for q
    proof -
      obtain j where j: "j < length site_pages" "q = site_pages ! j"
        using q(1) by (auto simp: in_set_conv_nth)
      then have "i \<le> j" using i(4) q(2) by (meson not_le)
      then show ?thesis using sorted_wrt_nth_less [OF order, of i j] i j irrefl by (cases "i = j") auto
    qed
    moreover have "p \<in> set site_pages" using i(1,3) by simp
    moreover have "file_route (path_of segs) = Some (p, the (fits (pg_file p) segs))"
      unfolding file_route_def Let_def segs Some by simp
    ultimately show ?thesis using i(2,3) by auto
  qed
qed

theorem doc_links_served_witness:
  "let opts = no_opts\<lparr>o_version := Val ''v1'', o_variants := Val [AuthorVariant (Some ''bob'')], o_hostname := Null\<rparr> in
   \<exists>page params. page_for file_route (site_request (createPublicWebHmUrl ''d'' ''abc'' opts)) = Some (page, params) \<and>
     pg_view page = DocPageView \<and> doc_query params = link_query ''abc'' (Val ''v1'') (Some [AuthorVariant (Some ''bob'')]) False"
proof -
  let ?o = "no_opts\<lparr>o_version := Val ''v1'', o_variants := Val [AuthorVariant (Some ''bob'')], o_hostname := Null\<rparr>"
  have ok: "seg_ok ''abc''" "plain_segment ''abc''" "opts_ok ?o" "o_hostname ?o = Null" by code_simp+
  have param: "plain_segment (replaceSlashes (getVariantsParamValue [AuthorVariant (Some ''bob'')]))" "plain_segment ''v1''" by code_simp+
  have "plain_options ?o" using param by (simp add: plain_options_def)
  from doc_links_served [OF file_route_law ok(1,2,3) this ok(4)] show ?thesis
    by (auto simp: Let_def given_variants_def)
qed

section \<open>Group pages and what is prefetched\<close>

lemma andThen_simps [simp]:
  "andThen (asked, Inr x) f = (asked @ fst (f x), snd (f x))"
  "andThen (asked, Inl e) f = (asked, Inl e)"
  by (simp_all add: andThen_def)

text \<open>A group and its content are there, whatever else fails.\<close>

definition group_served :: "site_answers \<Rightarrow> string \<Rightarrow> string \<Rightarrow> site_group \<Rightarrow> content_item option list \<Rightarrow> bool" where
  "group_served api gid v g items \<longleftrightarrow> a_group api gid (Some v) = Inr (Some g) \<and> gi_id g = gid \<and>
     (\<exists>ms. a_members api gid (gi_version g) = Inr ms \<and> (\<forall>m. \<exists>x. a_account api (Some m) = Inr x)) \<and>
     a_content api gid (gi_version g) = Inr items"

lemma prefetchGroup_served:
  assumes "group_served api gid v g items" "gid \<noteq> []"
  shows "\<exists>asked. prefetchGroup api gid (Some v) = (asked, Inr (Some (g, items))) \<and>
    QGroup gid (Some v) \<in> set asked \<and> QContent gid (gi_version g) \<in> set asked"
proof -
  obtain ms where ms: "a_members api gid (gi_version g) = Inr ms" "\<And>m. \<exists>x. a_account api (Some m) = Inr x"
    using assms(1) by (auto simp: group_served_def)
  have "\<not> (case a_account api (Some m) of Inl e \<Rightarrow> True | Inr y \<Rightarrow> False)" for m using ms(2) [of m] by auto
  then have all: "askAll (\<lambda>m. QAccount (Some m)) (\<lambda>m. a_account api (Some m)) ms = (map (\<lambda>m. QAccount (Some m)) ms, Inr ())"
    by (auto simp: askAll_def find_None_iff split: option.splits dest!: find_SomeD')
  have v: "or_else (Some v) [] = v" by (simp add: or_else_def truthy_def)
  show ?thesis using assms ms(1) all unfolding prefetchGroup_def v
    by (simp add: ask_def given_def group_served_def)
qed

lemma prefetchSiteInfo_served: "a_siteInfo api = Inr i \<Longrightarrow> \<exists>asked. prefetchSiteInfo api = (asked, Inr i)"
  by (cases i) (auto simp: prefetchSiteInfo_def ask_def given_def prefetch_def)

lemma item_at_path: "item_at p items = Some i \<Longrightarrow> ci_pathName i = p"
  by (auto simp: item_at_def split: option.splits dest!: find_SomeD')

lemma hm_id_ne: "createHmId t e no_opts \<noteq> []"
  by (simp add: createHmId_no_opts createHmId_plain_def url_to_string_def split_beta Let_def)

text \<open>The group a page is about, and its version.\<close>

definition page_group :: "site_info \<Rightarrow> (string \<times> string) list \<Rightarrow> string \<times> string" where
  "page_group info params = (createHmId ''g'' (if truthy (map_of params ''groupEid'') then the (map_of params ''groupEid'')
      else si_groupEid info) no_opts, or_else (map_of params ''versionId'') [])"

lemma group_page_core:
  assumes info: "a_siteInfo api = Inr (Some info)"
    and own: "truthy (map_of params ''groupEid'') \<or> si_groupId info = createHmId ''g'' (si_groupEid info) no_opts \<and> si_version info = []"
    and group: "page_group info params = (gid, v)" "group_served api gid v g items"
    and path: "map_of params ''pathName'' = Some p" "p \<notin> {[], ''-'', ''/''}"
    and item: "\<And>i. item_at p items = Some i \<Longrightarrow> u_type (ci_docId i) = ''d'' \<and> (\<exists>pub. a_variant api (item_query gid i) = Inr pub)"
    and query: "router_query False params search query"
  shows "\<exists>asked t. getGroupDocStaticProps api params = (asked, Inr t) \<and>
    (if v = [] then t = 20 else t = 10 \<or> t = 3600) \<and>
    (case item_at p items of None \<Rightarrow> GroupDocPage (rendered_with api asked) query = NotFoundPage
      | Some i \<Rightarrow> \<exists>props. GroupDocPage (rendered_with api asked) query = PublicationPage props \<and>
          pp_documentId props = createHmId ''d'' (show_undef (u_eid (ci_docId i))) no_opts \<and>
          pp_variants props = Some [GroupVariant gid (Some p)] \<and> pp_latest props \<and>
          (\<forall>ver. ver \<noteq> [] \<longrightarrow> map_option pb_version (ci_publication i) = Some ver \<longrightarrow> u_version (ci_docId i) = Val ver \<longrightarrow>
             QVariant (publication_query props) \<in> set asked))"
proof -
  let ?ge = "map_of params ''groupEid''"
  have gid: "gid \<noteq> []" using group(1) hm_id_ne by (auto simp: page_group_def)
  have request: "(if or_else ?ge [] \<noteq> [] then createHmId ''g'' (or_else ?ge []) no_opts else si_groupId info) = gid"
    using own group(1) by (auto simp: page_group_def or_else_def truthy_def split: option.splits if_splits)
  have ver: "or_else (map_of params ''versionId'') [] = v" using group(1) by (simp add: page_group_def)
  have pth: "or_else (map_of params ''pathName'') ''-'' = p" using path by (simp add: or_else_def truthy_def)
  obtain a1 where a1: "prefetchGroup api gid (Some v) = (a1, Inr (Some (g, items)))"
      "QGroup gid (Some v) \<in> set a1" "QContent gid (gi_version g) \<in> set a1"
    using prefetchGroup_served [OF group(2) gid] by blast
  have gi: "gi_id g = gid" using group(2) by (simp add: group_served_def)
  obtain a2 pub where a2: "prefetchGroupContent api (Some (g, items)) p = (a2, Inr pub)"
      "\<And>i. item_at p items = Some i \<Longrightarrow> QVariant (item_query gid i) \<in> set a2"
  proof (cases "item_at p items")
    case None
    then have "prefetchGroupContent api (Some (g, items)) p = ([], Inr None)"
      using path(2) by (simp add: prefetchGroupContent_def given_def)
    with None show ?thesis using that by simp
  next
    case (Some i)
    then obtain pub where "a_variant api (item_query gid i) = Inr pub" "u_type (ci_docId i) = ''d''" using item by blast
    with Some have "prefetchGroupContent api (Some (g, items)) p = ([QVariant (item_query gid i)], Inr pub)"
      using path(2) gid gi by (simp add: prefetchGroupContent_def ask_def)
    with Some show ?thesis using that by simp
  qed
  obtain a3 where a3: "prefetchSiteInfo api = (a3, Inr (Some info))" using prefetchSiteInfo_served [OF info] by blast
  let ?asked = "QSiteInfo # a1 @ a2 @ a3" and ?t = "revalidate_after v pub"
  have props: "getGroupDocStaticProps api params = (?asked, Inr ?t)"
    unfolding getGroupDocStaticProps_def Let_def request ver pth
    by (simp add: getSiteServerHelpers_def info a1(1) a2(1) a3 given_def request)
  have t: "if v = [] then ?t = 20 else ?t = 10 \<or> ?t = 3600" by (auto simp: revalidate_after_def split: option.splits)
  let ?data = "rendered_with api ?asked"
  have data: "d_siteInfo ?data = Some info" "d_group ?data gid (Some v) = Some g"
      "d_content ?data gid (gi_version g) = Data items"
    using info group(2) a1(2,3) by (simp_all add: rendered_with_def group_served_def)
  have q: "query_string query k = (case map_of params k of None \<Rightarrow> [] | Some x \<Rightarrow> x)" for k
    using query by (simp add: router_query_def query_string_def split: option.splits)
  obtain ge where shown: "shown_group ?data query = (ge, Some v)" "createHmId ''g'' ge no_opts = gid"
  proof (cases "truthy ?ge")
    case True
    then show ?thesis using that [of "the ?ge"] group(1) ver q
      by (auto simp: shown_group_def page_group_def Let_def truthy_def or_else_def split: option.splits if_splits)
  next
    case False
    then have "query_string query ''groupEid'' = []" using q by (auto simp: truthy_def split: option.splits)
    moreover have "query_string query ''versionId'' = v" using ver q by (auto simp: or_else_def truthy_def split: option.splits if_splits)
    ultimately show ?thesis using that [of "si_groupEid info"] False own group(1) data(1)
      by (auto simp: shown_group_def page_group_def Let_def)
  qed
  have p: "query_string query ''pathName'' = p" using q path(1) by simp
  have page: "GroupDocPage ?data query = (case item_at p items of None \<Rightarrow> NotFoundPage | Some i \<Rightarrow> PublicationPage
       \<lparr>pp_pathName = Some p, pp_documentId = createHmId ''d'' (show_undef (u_eid (ci_docId i))) no_opts,
        pp_version = map_option pb_version (ci_publication i), pp_variants = Some [GroupVariant gid (Some p)], pp_latest = True\<rparr>)"
    using path(2) by (simp add: GroupDocPage_def shown p Let_def data shown_content_def split: option.split)
  show ?thesis
  proof (intro exI conjI)
    show "getGroupDocStaticProps api params = (?asked, Inr ?t)" by (rule props)
    show "if v = [] then ?t = 20 else ?t = 10 \<or> ?t = 3600" by (rule t)
    show "case item_at p items of None \<Rightarrow> GroupDocPage ?data query = NotFoundPage
      | Some i \<Rightarrow> \<exists>props. GroupDocPage ?data query = PublicationPage props \<and>
          pp_documentId props = createHmId ''d'' (show_undef (u_eid (ci_docId i))) no_opts \<and>
          pp_variants props = Some [GroupVariant gid (Some p)] \<and> pp_latest props \<and>
          (\<forall>ver. ver \<noteq> [] \<longrightarrow> map_option pb_version (ci_publication i) = Some ver \<longrightarrow> u_version (ci_docId i) = Val ver \<longrightarrow>
             QVariant (publication_query props) \<in> set ?asked)"
    proof (cases "item_at p items")
      case (Some i)
      have "\<lparr>vq_documentId = createHmId ''d'' (show_undef (u_eid (ci_docId i))) no_opts, vq_versionId = Some ver,
          vq_variants = Some [GroupVariant gid (Some p)], vq_latest = True\<rparr> = item_query gid i"
        if "ver \<noteq> []" "u_version (ci_docId i) = Val ver" for ver
        using that item_at_path [OF Some] by (simp add: item_query_def)
      with a2(2) [OF Some] page Some show ?thesis
        by (auto simp: publication_query_def or_else_def truthy_def)
    qed (use page in simp)
  qed
qed

text \<open>
  C21. A page for a path of a group, of any group or of the site's own, is made without an exception when the group
  and its content are there and the publication of the item at the path can be loaded. What the server renders
  is then settled: an item that the content does not have is not found, otherwise the page is the publication
  of that item, and its query is among those the server has asked when the publication has the version
  the group gives. With a version in the path the page is made again after an hour or ten seconds,
  without one after twenty seconds.
\<close>

theorem group_page_prefetched:
  assumes info: "a_siteInfo api = Inr (Some info)"
    and own: "truthy (map_of params ''groupEid'') \<or> si_groupId info = createHmId ''g'' (si_groupEid info) no_opts \<and> si_version info = []"
    and group: "page_group info params = (gid, v)" "group_served api gid v g items"
    and path: "map_of params ''pathName'' = Some p" "p \<notin> {[], ''-'', ''/''}"
    and item: "\<And>i. item_at p items = Some i \<Longrightarrow> u_type (ci_docId i) = ''d'' \<and> (\<exists>pub. a_variant api (item_query gid i) = Inr pub)"
    and query: "router_query False params search query"
  shows "\<exists>asked t. getGroupDocStaticProps api params = (asked, Inr t) \<and>
    (if v = [] then t = 20 else t = 10 \<or> t = 3600) \<and>
    (case item_at p items of None \<Rightarrow> GroupDocPage (rendered_with api asked) query = NotFoundPage
      | Some i \<Rightarrow> \<exists>props. GroupDocPage (rendered_with api asked) query = PublicationPage props \<and>
          pp_documentId props = createHmId ''d'' (show_undef (u_eid (ci_docId i))) no_opts \<and>
          pp_variants props = Some [GroupVariant gid (Some p)] \<and> pp_latest props \<and>
          (\<forall>ver. ver \<noteq> [] \<longrightarrow> map_option pb_version (ci_publication i) = Some ver \<longrightarrow> u_version (ci_docId i) = Val ver \<longrightarrow>
             QVariant (publication_query props) \<in> set asked))"
  using assms by (rule group_page_core)

text \<open>A site with one document at a path of its group.\<close>

definition sample_item :: content_item where
  "sample_item = \<lparr>ci_pathName = ''intro'', ci_docId = hmId ''d'' ''abc'' (no_opts\<lparr>o_version := Val ''v1''\<rparr>),
     ci_publication = Some \<lparr>pb_version = ''v1'', pb_document = None\<rparr>\<rparr>"

definition sample_group :: site_group where
  "sample_group = \<lparr>gi_id = ''hm://g/site'', gi_version = ''g1'', gi_title = ''Site''\<rparr>"

definition sample_info :: site_info where
  "sample_info = \<lparr>si_groupEid = ''site'', si_groupId = ''hm://g/site'', si_version = []\<rparr>"

definition sample_answers :: site_answers where
  "sample_answers = \<lparr>a_siteInfo = Inr (Some sample_info), a_group = (\<lambda>gid v. Inr (Some sample_group)),
     a_members = (\<lambda>gid v. Inr [''bob'']), a_account = (\<lambda>a. Inr True), a_content = (\<lambda>gid v. Inr [None, Some sample_item]),
     a_variant = (\<lambda>q. Inr (ci_publication sample_item)), a_accountPublications = (\<lambda>a. Inr [])\<rparr>"

theorem group_page_prefetched_witness:
  "\<exists>asked t props. getGroupDocStaticProps sample_answers [(''pathName'', ''intro'')] = (asked, Inr t) \<and> t = 20 \<and>
     GroupDocPage (rendered_with sample_answers asked) (\<lambda>k. if k = ''pathName'' then Some (OneString ''intro'') else None)
       = PublicationPage props \<and> QVariant (publication_query props) \<in> set asked"
proof -
  let ?q = "\<lambda>k. if k = ''pathName'' then Some (OneString ''intro'') else None"
  have gid: "createHmId ''g'' ''site'' no_opts = ''hm://g/site''" by code_simp
  have info: "a_siteInfo sample_answers = Inr (Some sample_info)" by (simp add: sample_answers_def)
  have own: "truthy (map_of [(''pathName'', ''intro'')] ''groupEid'') \<or>
      si_groupId sample_info = createHmId ''g'' (si_groupEid sample_info) no_opts \<and> si_version sample_info = []"
    using gid by (simp add: sample_info_def)
  have pg: "page_group sample_info [(''pathName'', ''intro'')] = (''hm://g/site'', [])"
    using gid by (simp add: page_group_def sample_info_def or_else_def truthy_def)
  have served: "group_served sample_answers ''hm://g/site'' [] sample_group [None, Some sample_item]"
    by (auto simp: group_served_def sample_answers_def sample_group_def)
  have path: "map_of [(''pathName'', ''intro'')] ''pathName'' = Some ''intro''" "''intro'' \<notin> {[], ''-'', ''/''}" by simp_all
  have at: "item_at ''intro'' [None, Some sample_item] = Some sample_item" by (simp add: item_at_def sample_item_def)
  have item: "u_type (ci_docId i) = ''d'' \<and> (\<exists>pub. a_variant sample_answers (item_query ''hm://g/site'' i) = Inr pub)"
    if "item_at ''intro'' [None, Some sample_item] = Some i" for i
    using that at by (simp add: sample_answers_def sample_item_def hmId_def)
  have q: "router_query False [(''pathName'', ''intro'')] [] ?q" by (simp add: router_query_def)
  from group_page_prefetched [OF info own pg served path item q]
  obtain asked t props where r: "getGroupDocStaticProps sample_answers [(''pathName'', ''intro'')] = (asked, Inr t)" "t = 20"
    "GroupDocPage (rendered_with sample_answers asked) ?q = PublicationPage props"
    "\<forall>ver. ver \<noteq> [] \<longrightarrow> map_option pb_version (ci_publication sample_item) = Some ver \<longrightarrow>
       u_version (ci_docId sample_item) = Val ver \<longrightarrow> QVariant (publication_query props) \<in> set asked"
    unfolding at option.case by (simp only: refl if_True) blast
  from r(4) [rule_format, of "''v1''"] have "QVariant (publication_query props) \<in> set asked"
    by (simp add: sample_item_def hmId_def no_opts_def)
  with r(1-3) show ?thesis by blast
qed

text \<open>A link to an item of another group.\<close>

lemma group_link_page:
  assumes route: "routes_by_file route" and plain: "plain_segment e" "plain_segment p" "plain_segment v" "qval_ok v"
  shows "page_for route (site_request (groupDocUrl e (Val v) p Absent))
    = Some (group_path_version_page, [(''groupEid'', e), (''pathName'', p), (''versionId'', v)])"
proof -
  let ?segs = "[''g'', e, p]" and ?qs = "[(''v'', Some v)]"
  have g: "plain_segment ''g''" by code_simp
  have ne: "p \<noteq> []" "v \<noteq> []" using plain unfolding plain_segment_def by blast+
  have "p \<noteq> ''/''" using plain_segmentD(2) [OF plain(2)] by auto
  have qs: "query_ok ?qs" using plain(4) by (auto simp: query_ok_def qval_ok_def qval_char_def)
  have "c \<noteq> CHR ''?'' \<and> c \<noteq> CHR ''#''" if "c \<in> set (path_of ?segs)" for c
    using that plain_segmentD(5,6) [OF plain(1)] plain_segmentD(5,6) [OF plain(2)] by (auto simp: path_of_def)
  from site_request_link [OF qs this, where b = Absent and r = Absent]
  have "site_request (path_of ?segs @ serializeQueryString ?qs) = (path_of ?segs, serializeQueryString ?qs)"
    by (simp add: hm_fragment_def)
  moreover have "groupDocUrl e (Val v) p Absent = path_of ?segs @ serializeQueryString ?qs"
    using ne \<open>p \<noteq> ''/''\<close> by (simp add: groupDocUrl_def path_of_def serializeQueryString_def)
  moreover have "page_for route (path_of ?segs, serializeQueryString ?qs) = route (path_of [''g'', e, p, v])"
  proof (rule page_rewritten)
    have "search_params (Some (serializeQueryString ?qs)) = [(''v'', v)]" using search_params_serialized [OF qs] by simp
    then show "new_pathname ([] # (if ?segs = [] then [[]] else ?segs)) (params_get (search_params (Some (serializeQueryString ?qs))) ''v'')
      (params_get (search_params (Some (serializeQueryString ?qs))) ''b'') = Some (path_of [''g'', e, p, v])"
      using new_pathnames(4) [OF ne(1)] ne(2) by (simp add: params_get_def given_part_def truthy_def)
  qed (use g plain in auto)
  ultimately show ?thesis using routes_found(5) [OF route plain(1,3,2) g] by simp
qed

text \<open>
  C20. On the page of a group that is not the one of the site, every item of the content has a link, which the
  middleware and the files lead to the page for paths of groups. Served with the same content, that page is the
  publication of the document of this item.
\<close>

theorem group_items_open:
  assumes route: "routes_by_file route" and info: "a_siteInfo api = Inr (Some info)" "si_groupEid info \<noteq> e"
    and g: "seg_ok e" "plain_segment e" "gi_id g = createHmId ''g'' e no_opts" "plain_segment (gi_version g)" "qval_ok (gi_version g)"
    and served: "group_served api (gi_id g) (gi_version g) g items"
    and i: "item_at (ci_pathName i) items = Some i" "plain_segment (ci_pathName i)" "ci_pathName i \<noteq> ''-''"
      "u_type (ci_docId i) = ''d''" "a_variant api (item_query (gi_id g) i) = Inr pub"
  shows "\<exists>l page params. GroupContentItem (Some info) (Some g) i = Some l \<and>
    page_for route (site_request (il_url l)) = Some (page, params) \<and> pg_view page = GroupDocPageView \<and> pg_props page = GroupDocProps \<and>
    (\<forall>query search. router_query False params search query \<longrightarrow>
      (\<exists>asked t props. getGroupDocStaticProps api params = (asked, Inr t) \<and>
        GroupDocPage (rendered_with api asked) query = PublicationPage props \<and>
        pp_documentId props = createHmId ''d'' (show_undef (u_eid (ci_docId i))) no_opts))"
proof -
  let ?p = "ci_pathName i" and ?v = "gi_version g"
  let ?params = "[(''groupEid'', e), (''pathName'', ?p), (''versionId'', ?v)]"
  have ne: "e \<noteq> []" "?p \<noteq> []" "?v \<noteq> []" using g(2,4) i(2) unfolding plain_segment_def by blast+
  have p: "?p \<notin> {[], ''-'', ''/''}" using ne(2) i(3) plain_segmentD(2) [OF i(2)] by auto
  have hm: "gi_id g = ''hm://g/'' @ e" using g(1,3) createHmId_plain_ok by (simp add: createHmId_no_opts)
  obtain u where u: "unpackHmId (gi_id g) = Some u" "u_eid u = Some e"
    using unpack_plain_group [OF g(1)] hm by (auto simp: map_option_eq_Some)
  have ct: "useGroupContentUrl (Some info) (Some e) (Some ?v) (Some ?p) = Some (groupDocUrl e (Val ?v) ?p Absent)"
    using ne(1,2) info(2) by (simp add: useGroupContentUrl_def truthy_def)
  have "groupDocUrl e (Val ?v) ?p Absent \<noteq> []" by (simp add: groupDocUrl_def)
  then obtain l where l: "GroupContentItem (Some info) (Some g) i = Some l" "il_url l = groupDocUrl e (Val ?v) ?p Absent"
    using u ct hm by (simp add: GroupContentItem_def truthy_def Let_def)
  have page: "page_for route (site_request (il_url l)) = Some (group_path_version_page, ?params)"
    unfolding l(2) by (rule group_link_page [OF route g(2) i(2) g(4,5)])
  have pg: "page_group info ?params = (gi_id g, ?v)" using g(3) ne by (simp add: page_group_def or_else_def truthy_def)
  have own: "truthy (map_of ?params ''groupEid'') \<or>
      si_groupId info = createHmId ''g'' (si_groupEid info) no_opts \<and> si_version info = []"
    using ne(1) by (simp add: truthy_def)
  have pth: "map_of ?params ''pathName'' = Some ?p" by simp
  have "\<exists>asked t props. getGroupDocStaticProps api ?params = (asked, Inr t) \<and>
        GroupDocPage (rendered_with api asked) query = PublicationPage props \<and>
        pp_documentId props = createHmId ''d'' (show_undef (u_eid (ci_docId i))) no_opts"
    if q: "router_query False ?params search query" for query search
    using group_page_core [OF info(1) own pg served pth p _ q] i(1,4,5) by (auto split: if_splits)
  then show ?thesis using l page by (auto simp: page_defs)
qed

definition other_info :: site_info where
  "other_info = sample_info\<lparr>si_groupEid := ''other'', si_groupId := ''hm://g/other''\<rparr>"

theorem group_items_open_witness:
  "\<exists>l page params. GroupContentItem (Some other_info) (Some sample_group) sample_item = Some l \<and>
    page_for file_route (site_request (il_url l)) = Some (page, params) \<and> pg_view page = GroupDocPageView"
proof -
  let ?api = "sample_answers\<lparr>a_siteInfo := Inr (Some other_info)\<rparr>"
  have info: "a_siteInfo ?api = Inr (Some other_info)" "si_groupEid other_info \<noteq> ''site''"
    by (simp_all add: other_info_def)
  have id: "createHmId ''g'' ''site'' no_opts = ''hm://g/site''" by code_simp
  have g: "seg_ok ''site''" "plain_segment ''site''" "plain_segment (gi_version sample_group)" "qval_ok (gi_version sample_group)"
    by code_simp+
  have gid: "gi_id sample_group = createHmId ''g'' ''site'' no_opts" using id by (simp add: sample_group_def)
  have served: "group_served ?api (gi_id sample_group) (gi_version sample_group) sample_group [None, Some sample_item]"
    by (auto simp: group_served_def sample_answers_def sample_group_def)
  have i: "item_at (ci_pathName sample_item) [None, Some sample_item] = Some sample_item" "ci_pathName sample_item \<noteq> ''-''"
    "u_type (ci_docId sample_item) = ''d''" "a_variant ?api (item_query (gi_id sample_group) sample_item) = Inr (ci_publication sample_item)"
    by (simp_all add: item_at_def sample_item_def hmId_def sample_answers_def)
  have plain: "plain_segment (ci_pathName sample_item)" by code_simp
  from group_items_open [OF file_route_law info g(1,2) gid g(3,4) served i(1) plain i(2-4)] show ?thesis by blast
qed

text \<open>
  The page of a loaded publication raises exactly when it has several group variants or variants of both kinds. Otherwise
  the link that opens it in the app is the id of the document at the version on show with all of the variants; and
  when nothing was found, the id on the page has the version and the variants that were asked for.
\<close>

theorem publication_screen:
  assumes e: "seg_ok e" "pp_documentId props = createHmId ''d'' e no_opts" and path: "pp_pathName props = None"
    and vs: "\<And>v. v \<in> set (case pp_variants props of None \<Rightarrow> [] | Some vs \<Rightarrow> vs) \<Longrightarrow> variant_ok v"
    and ver: "qval_ok (pb_version pub)" "\<And>v. pp_version props = Some v \<Longrightarrow> qval_ok v"
  shows "(let groups = filter (\<lambda>v. \<exists>g q. v = GroupVariant g q) (case pp_variants props of None \<Rightarrow> [] | Some vs \<Rightarrow> vs);
       authors = filter (\<lambda>v. \<exists>a. v = AuthorVariant a) (case pp_variants props of None \<Rightarrow> [] | Some vs \<Rightarrow> vs) in
    if length groups > 1 \<or> authors \<noteq> [] \<and> groups \<noteq> []
    then \<exists>err. publication_page props (Some pub) disc loading contextGroup = Inl err
    else (\<exists>s u. publication_page props (Some pub) disc loading contextGroup = Inr (PublicationShown s) \<and>
            unpackHmId (sp_openInApp s) = Some u \<and> u_type u = ''d'' \<and> u_eid u = Some e \<and>
            u_version u = or_null (Val (pb_version pub)) \<and> u_variants u = given_variants (or_undef (pp_variants props))) \<and>
         (\<exists>i u. publication_page props None False False contextGroup = Inr (EntityNotFoundPage i) \<and>
            unpackHmId i = Some u \<and> u_type u = ''d'' \<and> u_eid u = Some e \<and>
            u_version u = or_null (or_undef (pp_version props)) \<and> u_variants u = given_variants (or_undef (pp_variants props))))"
proof -
  let ?all = "case pp_variants props of None \<Rightarrow> [] | Some vs \<Rightarrow> vs"
  have fg: "filter (\<lambda>v. case v of AuthorVariant a \<Rightarrow> False | GroupVariant g q \<Rightarrow> True) ?all = filter (\<lambda>v. \<exists>g q. v = GroupVariant g q) ?all"
    by (rule filter_cong) (auto split: publication_variant.splits)
  have fa: "filter (\<lambda>v. case v of AuthorVariant a \<Rightarrow> True | GroupVariant g q \<Rightarrow> False) ?all = filter (\<lambda>v. \<exists>a. v = AuthorVariant a) ?all"
    by (rule filter_cong) (auto split: publication_variant.splits)
  let ?o = "no_opts\<lparr>o_version := Val (pb_version pub), o_variants := or_undef (pp_variants props)\<rparr>"
  have d: "entity_type ''d''" by code_simp
  have ok: "opts_ok ?o" "opts_ok (props_opts props)"
    using ver vs by (auto simp: opts_ok_def str_opt_ok_def no_opts_def range_ok_def or_undef_def props_opts_def split: option.splits)
  have path_ok: "str_opt_ok seg_ok (o_groupPathName ?o)" "str_opt_ok seg_ok (o_groupPathName (props_opts props))"
    by (simp_all add: str_opt_ok_def no_opts_def props_opts_def)
  have link: "createHmDocLink (pp_documentId props) ?o = createHmId ''d'' e ?o"
    by (simp add: e(2) createHmDocLink_def createHmId_def no_opts_def hash_ref_def hm_fragment_def serializeQueryString_def hm_query_def)
  note shown = unpack_created [OF d e(1) path_ok(1) ok(1)] and asked = unpack_created [OF d e(1) path_ok(2) ok(2)]
  have "opts_ok no_opts" "str_opt_ok seg_ok (o_groupPathName no_opts)" by code_simp+
  from unpack_created [OF d e(1) this(2,1)]
  have ident: "\<exists>u. unpackHmId (pp_documentId props) = Some u \<and> remade u (props_opts props) = createHmId ''d'' e (props_opts props)"
    by (auto simp: e(2) unpacked_of_def remade_def show_undef_def)
  show ?thesis
  proof (cases "length (filter (\<lambda>v. \<exists>g q. v = GroupVariant g q) ?all) > 1 \<or>
      filter (\<lambda>v. \<exists>a. v = AuthorVariant a) ?all \<noteq> [] \<and> filter (\<lambda>v. \<exists>g q. v = GroupVariant g q) ?all \<noteq> []")
    case True
    then show ?thesis unfolding Let_def if_P [OF True] publication_page_def fg fa by auto
  next
    case False
    have "\<exists>s. publication_page props (Some pub) disc loading contextGroup = Inr (PublicationShown s) \<and>
        sp_openInApp s = createHmId ''d'' e ?o"
      unfolding link [symmetric] publication_page_def fg fa Let_def using False path by (simp add: truthy_def or_undef_def)
    moreover have "publication_page props None False False contextGroup = Inr (EntityNotFoundPage (createHmId ''d'' e (props_opts props)))"
      unfolding publication_page_def fg fa Let_def using False ident by auto
    ultimately show ?thesis unfolding Let_def if_not_P [OF False] using shown asked
      by (auto simp: unpacked_of_def props_opts_def no_opts_def)
  qed
qed

theorem publication_screen_witness:
  "\<exists>s u. publication_page \<lparr>pp_pathName = None, pp_documentId = ''hm://d/abc'', pp_version = Some [],
       pp_variants = Some [AuthorVariant (Some ''bob'')], pp_latest = False\<rparr>
     (Some \<lparr>pb_version = ''v1'', pb_document = None\<rparr>) False False None = Inr (PublicationShown s) \<and>
   unpackHmId (sp_openInApp s) = Some u \<and> u_version u = Val ''v1'' \<and> u_variants u = Val [AuthorVariant (Some ''bob'')]"
proof -
  let ?pub = "\<lparr>pb_version = ''v1'', pb_document = None\<rparr> :: page_pub"
  let ?p = "\<lparr>pp_pathName = None, pp_documentId = ''hm://d/abc'', pp_version = Some [],
       pp_variants = Some [AuthorVariant (Some ''bob'')], pp_latest = False\<rparr> :: publication_props"
  have "seg_ok ''abc''" and id: "''hm://d/abc'' = createHmId ''d'' ''abc'' no_opts" by code_simp+
  moreover have "pp_documentId ?p = createHmId ''d'' ''abc'' no_opts" "pp_pathName ?p = None" using id by simp_all
  moreover have "variant_ok (AuthorVariant (Some ''bob''))" by code_simp
  then have "variant_ok v" if "v \<in> set (case pp_variants ?p of None \<Rightarrow> [] | Some vs \<Rightarrow> vs)" for v using that by simp
  moreover have "qval_ok ''v1''" "qval_ok []" by code_simp+
  then have "qval_ok (pb_version ?pub)" "\<And>v. pp_version ?p = Some v \<Longrightarrow> qval_ok v" by simp_all
  ultimately show ?thesis using publication_screen [of "''abc''" ?p ?pub False False None]
    by (auto simp: Let_def given_variants_def or_undef_def)
qed
end
