(* ===== verification/Spec2Isabelle.thy ===== *)
theory Spec2Isabelle
  imports Annotation_Set Comment_Store App_Windows Publications Editor_Manipulation
    Group_Nav Group_Queries Range_Selection Route_Encoding Feeds Markdown_Export Site_Server Web_Import
    Site_Descriptions Site_Views
begin

text \<open>
  Verification of the core logic of the Mintter frontend.

  \<^bold>\<open>The program.\<close> Mintter is a desktop app (and a web site) over a daemon that stores and
  exchanges documents. This library is about the TypeScript of both, under
  \<^verbatim>\<open>src/frontend\<close>: the packages \<^verbatim>\<open>shared\<close> (data types, ids, conversions), \<^verbatim>\<open>app\<close> (drafts,
  groups, comments, navigation) and \<^verbatim>\<open>editor\<close> (between blocks and editor nodes), the desktop process and
  the server of the site. A document is a tree of blocks with text and
  annotations. Opening a draft turns the tree into editor blocks (\<^verbatim>\<open>toHMBlock\<close>), these into the
  nodes of the editor, and records it in a map (\<^verbatim>\<open>createBlocksMap\<close>); each edit is an event of the
  draft machine; after a pause the machine saves: the editor's nodes are read as blocks, those turned
  back (\<^verbatim>\<open>fromHMBlock\<close>) and compared with the map, and the differences are sent as moves,
  replacements and deletes. Documents, groups and accounts are named by hypermedia ids, which are
  parsed, resolved to routes and pushed on the history of a window. A group has documents at paths, and a
  hidden document that sorts them into categories.

  \<^bold>\<open>Theories and code.\<close>

  \<^item> Prelude: JavaScript values (a key that is absent, \<open>undefined\<close>, \<open>null\<close> or there),
    arrays, objects as association lists in insertion order, strings, decimal numerals, and two
    interfaces: \<open>machine\<close> (a step function with an invariant) and \<open>codec\<close> (a printer with
    its parser).
  \<^item> Hm_Url: \<^verbatim>\<open>shared/src/utils/entity-id-url.ts\<close>, function by function under the same
    names, over a model of the platform's \<^verbatim>\<open>URL\<close> and \<^verbatim>\<open>URLSearchParams\<close> classes.
    The lemmas read back what was written: fragments and variants (as codecs), query strings,
    whole ids, gateway URLs.
  \<^item> Hm_Blocks: \<^verbatim>\<open>shared/src/hm-types.ts\<close> and \<^verbatim>\<open>editor/src/editor-types.ts\<close>, with the
    errors the code throws as the left side of a sum.
  \<^item> Styled_Text: the first half of \<^verbatim>\<open>shared/src/client/to-hm-block.ts\<close>: from annotations to
    runs of styled text, links and embeds. \<open>flat\<close> is the abstract view: one entry for each character.
  \<^item> Block_Convert: \<^verbatim>\<open>from-hm-block.ts\<close>, the second half of \<^verbatim>\<open>to-hm-block.ts\<close>,
    \<^verbatim>\<open>utils/ipfs-cid.ts\<close>. Saving covers each character with the styles it has, loading
    keeps the tree, and a block saved and loaded shows the same.
  \<^item> Blocks_Diff: in \<^verbatim>\<open>app/models/documents.ts\<close>, \<^verbatim>\<open>createBlocksMap\<close>,
    \<^verbatim>\<open>compareBlocksWithMap\<close>, \<^verbatim>\<open>compareDraftWithMap\<close>, \<^verbatim>\<open>extractDeletes\<close> and the
    equality of blocks. Both comparisons instantiate one interface, \<open>differ\<close>, which says what
    the changes for one block promise and gives what a whole list of them does.
  \<^item> Draft_Machine: \<^verbatim>\<open>app/models/draft-machine.ts\<close>, both state charts, their context,
    guards, actions and assignments, and how the first drives the second. \<open>system_inv\<close> is the
    invariant of the two together; \<open>autosave\<close> instantiates \<open>machine\<close> with it.
  \<^item> Drafts: the rest of the draft operations of \<^verbatim>\<open>documents.ts\<close> (\<^verbatim>\<open>updateDraft\<close>,
    \<^verbatim>\<open>restoreDraft\<close>, \<^verbatim>\<open>resetDraft\<close>, publishing, embeds, text, rebase),
    \<^verbatim>\<open>app/models/editor-utils.ts\<close> and \<^verbatim>\<open>app/utils/path.ts\<close>.
  \<^item> Annotation_Set: \<^verbatim>\<open>shared/src/client/classes.ts\<close>, the collection of annotations a
    save fills: adding a character's span, the binary search over the spans, the order of the list.
  \<^item> Comment_Threads and Comment_Store: the threads of \<^verbatim>\<open>app/models/comments.ts\<close> and the drafts
    of \<^verbatim>\<open>desktop/src/app-comments.ts\<close>, whose index refines a map from ids to drafts.
  \<^item> App_Stores: the small stores of the desktop process (recents, favorites, gateway, experiments,
    settings, the welcome flag). Two interfaces: what a store that survives a restart promises, and a
    bounded list of recent items.
  \<^item> App_Windows: \<^verbatim>\<open>app-windows.ts\<close> with the calls on windows of \<^verbatim>\<open>app-api.ts\<close>: what is
    stored for each window, and what opens again after a restart.
  \<^item> Timeline: \<^verbatim>\<open>app/models/changes.ts\<close>, the history of a document.
  \<^item> Editor_Nodes and Editor_Blocks: \<^verbatim>\<open>nodeConversions.ts\<close> of the editor, with the parts of its
    schema that the conversion reads: inline content as nodes with marks, blocks as containers of content and a
    group. Reading shows what the nodes show, and a block survives being a node.
  \<^item> Editor_Groups and Editor_Load: \<^verbatim>\<open>editor-utils.ts\<close> and the loading of \<^verbatim>\<open>documents.ts\<close>:
    the types of groups are set at positions of the document, one after the other; a specification on the tree
    says what the positions do.
  \<^item> Editor_Positions and Editor_Manipulation: \<^verbatim>\<open>getBlockInfoFromPos.ts\<close>, \<^verbatim>\<open>getGroupInfoFromPos.ts\<close>,
    \<^verbatim>\<open>blockManipulation.ts\<close> with \<^verbatim>\<open>nodeUtil.ts\<close>, and two commands of \<^verbatim>\<open>BlockContainer.ts\<close>. Documents
    are trees of blocks (\<open>btree\<close>), a place in one is a list of frames, and each operation on positions refines
    one on the tree; \<open>walk_prunes\<close> is the argument that the positions keep up while blocks go.
  \<^item> Group_Calls, Group_Nav and Group_Queries: \<^verbatim>\<open>app/models/groups.ts\<close>. The mutations are actions
    over a daemon whose answers may depend on all the calls before; the navigation document is edited by moves
    and replacements; the queries combine lists the daemon gives.
  \<^item> Range_Selection: the state chart of \<^verbatim>\<open>shared/src/range-selection.tsx\<close>, an instance of
    \<open>machine\<close>.
  \<^item> Streams: \<^verbatim>\<open>shared/src/utils/stream.ts\<close>; both kinds of stream instantiate \<open>broadcast\<close>.
  \<^item> Route_Context and Route_Encoding: the trail of a route, the entities along it, how a route is opened
    in this window or a new one (\<^verbatim>\<open>route-context.ts\<close>, \<^verbatim>\<open>entities.ts\<close>,
    \<^verbatim>\<open>useNavigate.tsx\<close>, \<^verbatim>\<open>navigation-container.tsx\<close>, \<^verbatim>\<open>route-encoding.ts\<close>). The container
    joins the reducer of Navigation and a stream; the encoding is a codec.
  \<^item> Feeds: \<^verbatim>\<open>feed.ts\<close>, \<^verbatim>\<open>search.ts\<close>, \<^verbatim>\<open>content-graph.ts\<close> of \<^verbatim>\<open>app/models\<close>.
  \<^item> Markdown_Export: \<^verbatim>\<open>app/utils/blocks-to-markdown.ts\<close> up to the HTML.
  \<^item> Site_Server: \<^verbatim>\<open>apps/site/server/routers/_app.ts\<close>: the changes around a version by a search
    along dependencies, citations, accounts.
  \<^item> Web_Import: \<^verbatim>\<open>app/models/web-importer.ts\<close>: a web page becomes blocks, changes and a
    published document.
  \<^item> Publications: \<^verbatim>\<open>shared/src/variants.ts\<close> and \<^verbatim>\<open>content.ts\<close>.
  \<^item> Navigation: \<^verbatim>\<open>app/utils/routes.tsx\<close> and \<^verbatim>\<open>navigation.tsx\<close>. The array of routes
    with its index refines an abstract history (behind, on show, ahead); \<open>nav\<close> instantiates
    \<open>machine\<close> with the bound on the index.

  \<^bold>\<open>Choices of the models.\<close> Strings are lists of 8-bit characters: exact for ASCII, and positions
  count characters where JavaScript counts UTF-16 units. Numbers of the code that count or
  index are \<open>nat\<close> or \<open>int\<close>; they stay far below the bound at which JavaScript's numbers
  round. Objects used as dictionaries are association lists in insertion order; keys that look
  like array indices, which JavaScript lists first, are not treated apart. A function that throws returns a
  sum; errors keep the message of the code where it has one. Recursion is structural or has a size
  as measure, except where the code follows links that may form a cycle (the replies of a comment
  thread, the dependencies of a change): there it is a partial function whose value \<open>None\<close> is a call
  that does not return, and the properties prove that it returns when the links have no cycle. There
  is no fuel. A number that may be \<open>NaN\<close> is an option, with \<open>None\<close> for \<open>NaN\<close>.

  What is not in the sources is an argument: lodash's deep comparison of annotations
  (\<open>isEqual\<close>, with reflexivity as hypothesis where it is used), the answers of the daemon, the
  groups read off the editor's document, the ids that a random generator gives new drafts (fresh
  where a property needs it), the size of the screen and the names of new windows, the
  editor library's schema (what its nodes and marks complete and keep: \<open>schema_laws\<close>, \<open>load_laws\<close>) and its call
  that changes the attributes of a node at a position (\<open>markup_law\<close>), its other calls on documents (\<open>resolve_law\<close>,
  \<open>transform_laws\<close>), the web framework's routing by files (\<open>routes_by_file\<close>) and its query parameters before and
  after a page is hydrated (\<open>router_query\<close>), and \<open>JSON\<close> for routes. The meaning of the changes (\<open>apply_change\<close>,
  \<open>move_step\<close>) is that of the protocol file for documents. The state chart library's
  rules (exit, transition and entry actions in that order, inner transitions before outer ones,
  delays and promises only reach the state that set them) are those of its documentation.

  \<^bold>\<open>What the properties show.\<close> The changes sent at a save take the recorded positions to the
  editor's; a machine that is idle has saved the last content, and a machine with changes reaches
  that state; text, links and styles survive saving and loading within stated conditions; ids
  are read back; the history is the abstract one, and the main process is told of it; what is loaded into the editor
  and read again is the same; renaming a path moves it and the embeds of it; publishing calls what it should
  and no more, whatever the daemon answers. Several
  properties state behaviour that departs from the intention: a style that spreads over a link, a
  pair of moved blocks that ends in another order, a title that is replaced, text that repeats, a
  back that replaces the wrong route, a type that no entity has, a site that renders a document without the
  variants it has loaded, a description that leaves out the last block.

  \<^bold>\<open>Not modelled.\<close> React components and hooks, which render and query; the Electron shell's
  calls of the operating system; the editor's plugins and key bindings over ProseMirror; generated clients; the web site's
  layout, side panels and pages for invitations; the
  daemon, which is a Go program behind the network.
\<close>

section \<open>Loading and saving together\<close>

text \<open>The group of a block as the comparison of blocks takes it.\<close>

definition as_child_group :: "group_info \<Rightarrow> child_group" where
  "as_child_group g = \<lparr>g_type = (case gi_type g of JStr s \<Rightarrow> Some s | _ \<Rightarrow> None),
     g_listLevel = (case gi_listLevel g of JStr s \<Rightarrow> Some s | _ \<Rightarrow> None),
     g_start = (case gi_start g of JNum (Some n) \<Rightarrow> if 0 \<le> n then Some (nat n) else None | _ \<Rightarrow> None)\<rparr>"

lemma digit_no_sign: "is_digit c \<Longrightarrow> c \<noteq> CHR ''-'' \<and> c \<noteq> CHR ''+'' \<and> \<not> is_blank c \<and> c \<noteq> CHR ''x'' \<and> c \<noteq> CHR ''X''"
  by (auto simp: is_digit_def is_blank_def)

lemma parseInt_show_nat: "parseInt (show_nat n) = Some (int n)"
proof -
  obtain c cs where c: "show_nat n = c # cs" by (cases "show_nat n") auto
  have digits: "x \<in> set (show_nat n) \<Longrightarrow> is_digit x" for x by (rule show_nat_digits)
  then have sign: "c \<noteq> CHR ''-''" "c \<noteq> CHR ''+''" "\<not> is_blank c"
    using digit_no_sign [of c] by (auto simp: c)
  have hex: "\<not> starts_with (show_nat n) ''0x''" "\<not> starts_with (show_nat n) ''0X''"
    using digits digit_no_sign by (cases cs; fastforce simp: c starts_with_def)+
  have "takeWhile is_digit (show_nat n) = show_nat n"
    using digits by (simp add: takeWhile_eq_all_conv)
  then have "parse_digits (show_nat n) = Some (int n)"
    using hex by (simp add: parse_digits_def Let_def del: takeWhile_eq_all_conv)
  then show ?thesis using sign by (simp add: parseInt_def c)
qed

text \<open>
  C14. Loading blocks and reading their groups for the next save gives back the props of every block with
  children and a list type, a canonical start included; only a level that was not there becomes
  the default one.
\<close>

theorem loaded_props_saved:
  assumes "load_laws S leaf schema" and "markup_law leaf (s_attrs S) setNodeMarkup"
    and "s_attrs S ''blockGroup'' = blockGroup_attributes"
    and "list_all (loadable S leaf) bs" and "distinct (map e_id (sub_blocks bs))"
    and "b \<in> set (sub_blocks bs)" and "e_children b \<noteq> []" and "truthy (p_childrenType (e_props b))"
    and "p_start (e_props b) = None \<or> (\<exists>n. 0 < n \<and> p_start (e_props b) = Some (show_nat n))"
  shows "\<exists>doc g. load_document S gen bs = Inr doc \<and>
     getBlockGroup (Some (setGroupTypes leaf setNodeMarkup doc bs)) (e_id b) = Inr (Some g) \<and>
     group_props (Some (as_child_group g)) (e_props b) = (e_props b)\<lparr>p_listLevel :=
       Some (case p_listLevel (e_props b) of None \<Rightarrow> ''1'' | Some l \<Rightarrow> l)\<rparr>"
proof -
  let ?p = "e_props b" and ?g = "attrs_info (blockGroup_attributes (group_attrs (e_props b)))"
  obtain doc where "load_document S gen bs = Inr doc"
    "getBlockGroup (Some (setGroupTypes leaf setNodeMarkup doc bs)) (e_id b) = Inr (Some ?g)"
    using loaded_groups_core [OF assms(1,2,4-7), of gen] assms(3,8) by auto
  moreover obtain t where "p_childrenType ?p = Some t" "t \<noteq> []" using assms(8) by (auto simp: truthy_def)
  then have "group_props (Some (as_child_group ?g)) ?p =
      ?p\<lparr>p_listLevel := Some (case p_listLevel ?p of None \<Rightarrow> ''1'' | Some l \<Rightarrow> l)\<rparr>"
    using assms(9)
    by (cases ?p; cases "p_listLevel ?p") (auto simp: group_props_def as_child_group_def attrs_info_def blockGroup_attributes_def
        group_attrs_def get_attr_def opt_dyn_def parseInt_show_nat)
  ultimately show ?thesis by blast
qed

theorem loaded_props_saved_witness:
  "\<exists>doc g. load_document sample_schema (\<lambda>i. ''new'') sample_blocks = Inr doc \<and>
     getBlockGroup (Some (setGroupTypes sample_leaf (tree_markup sample_leaf sample_attrs) doc sample_blocks)) ''a'' = Inr (Some g) \<and>
     group_props (Some (as_child_group g)) (no_props\<lparr>p_childrenType := Some ''ol'', p_start := Some ''3''\<rparr>) =
       no_props\<lparr>p_childrenType := Some ''ol'', p_start := Some ''3'', p_listLevel := Some ''1''\<rparr>"
proof -
  let ?p = "no_props\<lparr>p_childrenType := Some ''ol'', p_start := Some ''3''\<rparr>"
  let ?b = "EditorBlock ''a'' ''paragraph'' ?p [InlText ''xy'' []] [EditorBlock ''b'' ''paragraph'' no_props [] []]"
  have three: "''3'' = show_nat 3" by (simp add: show_nat.simps digit_char_def)
  have load: "list_all (loadable sample_schema sample_leaf) sample_blocks"
    by (simp add: sample_blocks_def sample_leaf_def typed_styles_def style_entries_def)
  have mem: "?b \<in> set (sub_blocks sample_blocks)" "distinct (map e_id (sub_blocks sample_blocks))"
    by (simp_all add: sample_blocks_def)
  have start: "p_start ?p = None \<or> (\<exists>n. 0 < n \<and> p_start ?p = Some (show_nat n))"
    using three by (auto intro!: exI [of _ 3])
  show ?thesis
    using loaded_props_saved [OF sample_load_laws _ _ load mem(2,1), of "tree_markup sample_leaf sample_attrs" "\<lambda>i. ''new''"]
      start by (simp add: tree_markup_law sample_attrs_def fun_eq_iff no_props_def)
qed

end
